(* ===== verification/Prelude.thy ===== *)
theory Prelude imports
  Main
  "HOL-Library.Word"
  "HOL-Library.List_Lexorder"
  "HOL-Library.Char_ord"
  "HOL-Library.Product_Lexorder"
begin

text \<open>
  Shared vocabulary of the development: machine integers at the widths the Rust code uses, Rust's
  \<^verbatim>\<open>Result\<close> as a sum with the error on the left, the two ordered containers of the code
  (\<^verbatim>\<open>IndexMap\<close>, which keeps insertion order, and \<^verbatim>\<open>BTreeMap\<close>, which keeps its keys sorted)
  as association lists, and the decimal text form of integers. Strings are lists of bytes, the
  UTF-8 bytes of a Rust \<^verbatim>\<open>String\<close>; their order is the bytewise order of \<^verbatim>\<open>Ord for str\<close>.
\<close>

unbundle bit_operations_syntax

type_synonym u8 = "8 word"
type_synonym u32 = "32 word"
type_synonym u64 = "64 word"
type_synonym bytes = "u8 list"

section \<open>Named collections\<close>

named_theorems omap_simps \<open>lookup laws of the ordered containers\<close>
named_theorems text_simps \<open>facts about the decimal text form and string searches\<close>
named_theorems res_simps \<open>inversion of results built with the question-mark operator\<close>

section \<open>Results\<close>

fun rbind :: "'e + 'a \<Rightarrow> ('a \<Rightarrow> 'e + 'b) \<Rightarrow> 'e + 'b" where
  "rbind (Inl e) f = Inl e"
| "rbind (Inr a) f = f a"

lemma rbind_cong [fundef_cong]:
  "r = r' \<Longrightarrow> (\<And>a. r' = Inr a \<Longrightarrow> f a = g a) \<Longrightarrow> rbind r f = rbind r' g"
  by (cases r') auto

lemma rbind_Inr_iff [res_simps]: "rbind r f = Inr b \<longleftrightarrow> (\<exists>a. r = Inr a \<and> f a = Inr b)"
  by (cases r) auto

lemma rbind_Inl_iff [res_simps]:
  "rbind r f = Inl e \<longleftrightarrow> r = Inl e \<or> (\<exists>a. r = Inr a \<and> f a = Inl e)"
  by (cases r) auto

fun ok_or :: "'a option \<Rightarrow> 'e \<Rightarrow> 'e + 'a" where
  "ok_or None e = Inl e"
| "ok_or (Some a) e = Inr a"

lemma ok_or_Inr_iff [res_simps]: "ok_or x e = Inr a \<longleftrightarrow> x = Some a"
  by (cases x) auto

lemma ok_or_Inl_iff [res_simps]: "ok_or x e = Inl e' \<longleftrightarrow> x = None \<and> e' = e"
  by (cases x) auto

text \<open>Collecting an iterator of results: the first error wins.\<close>

fun collect_res :: "('e + 'a) list \<Rightarrow> 'e + 'a list" where
  "collect_res [] = Inr []"
| "collect_res (r # rs) = rbind r (\<lambda>a. rbind (collect_res rs) (\<lambda>as. Inr (a # as)))"

lemma collect_res_Inr: "collect_res (map Inr xs) = Inr xs"
  by (induction xs) auto

lemma collect_res_length: "collect_res rs = Inr xs \<Longrightarrow> length xs = length rs"
  by (induction rs arbitrary: xs) (auto simp: res_simps)

section \<open>IndexMap: insertion-ordered association lists\<close>

type_synonym 'v imap = "(string \<times> 'v) list"

definition im_get :: "('k \<times> 'v) list \<Rightarrow> 'k \<Rightarrow> 'v option" where
  "im_get m k = map_of m k"

fun im_insert :: "'k \<Rightarrow> 'v \<Rightarrow> ('k \<times> 'v) list \<Rightarrow> ('k \<times> 'v) list" where
  "im_insert k v [] = [(k, v)]"
| "im_insert k v ((k', v') # m) =
     (if k' = k then (k, v) # m else (k', v') # im_insert k v m)"

definition im_remove :: "'k \<Rightarrow> ('k \<times> 'v) list \<Rightarrow> ('k \<times> 'v) list" where
  "im_remove k m = filter (\<lambda>p. fst p \<noteq> k) m"

definition im_wf :: "('k \<times> 'v) list \<Rightarrow> bool" where
  "im_wf m \<longleftrightarrow> distinct (map fst m)"

lemma im_get_Nil [omap_simps]: "im_get [] k = None"
  by (simp add: im_get_def)

lemma im_get_Cons [omap_simps]: "im_get ((k', v) # m) k = (if k = k' then Some v else im_get m k)"
  by (simp add: im_get_def)

lemma im_get_insert [omap_simps]: "im_get (im_insert k v m) = (im_get m)(k \<mapsto> v)"
  by (induction m rule: im_insert.induct) (auto simp: fun_eq_iff im_get_def)

lemma im_get_remove [omap_simps]: "im_get (im_remove k m) = (im_get m)(k := None)"
  by (induction m) (auto simp: fun_eq_iff im_get_def im_remove_def)

lemma im_insert_keys: "set (map fst (im_insert k v m)) = insert k (set (map fst m))"
  by (induction m rule: im_insert.induct) auto

lemma im_insert_fst: "fst ` set (im_insert k v m) = insert k (fst ` set m)"
  using im_insert_keys [of k v m] by simp

lemma im_wf_Nil [simp]: "im_wf []"
  by (simp add: im_wf_def)

lemma im_wf_insert [simp]: "im_wf m \<Longrightarrow> im_wf (im_insert k v m)"
  by (induction m rule: im_insert.induct) (auto simp: im_wf_def im_insert_fst)

lemma im_wf_remove [simp]: "im_wf m \<Longrightarrow> im_wf (im_remove k m)"
  by (induction m) (auto simp: im_wf_def im_remove_def)

lemma im_insert_fresh: "k \<notin> fst ` set m \<Longrightarrow> im_insert k v m = m @ [(k, v)]"
  by (induction m rule: im_insert.induct) auto

lemma im_get_None_iff: "im_get m k = None \<longleftrightarrow> k \<notin> fst ` set m"
  by (simp add: im_get_def map_of_eq_None_iff)

lemma im_get_SomeD: "im_get m k = Some v \<Longrightarrow> (k, v) \<in> set m"
  by (simp add: im_get_def map_of_SomeD)

lemma im_get_Some_iff: "im_wf m \<Longrightarrow> im_get m k = Some v \<longleftrightarrow> (k, v) \<in> set m"
  by (simp add: im_get_def im_wf_def)

lemma im_get_memI: "im_wf m \<Longrightarrow> (k, v) \<in> set m \<Longrightarrow> im_get m k = Some v"
  by (simp add: im_get_Some_iff)

lemma im_get_set_cong: "im_wf m \<Longrightarrow> im_wf m' \<Longrightarrow> set m = set m' \<Longrightarrow> im_get m = im_get m'"
  by (simp add: fun_eq_iff im_get_def im_wf_def flip: map_of_inject_set)

lemma im_wf_sort_key: "im_wf (sort_key f m) = im_wf m"
  by (simp add: im_wf_def distinct_map)

text \<open>Building a map by inserting entries one after another.\<close>

definition im_of_list :: "('k \<times> 'v) list \<Rightarrow> ('k \<times> 'v) list" where
  "im_of_list xs = foldl (\<lambda>m p. im_insert (fst p) (snd p) m) [] xs"

lemma im_fold_distinct:
  "distinct (map fst (m @ xs)) \<Longrightarrow>
     foldl (\<lambda>m p. im_insert (fst p) (snd p) m) m xs = m @ xs"
proof (induction xs arbitrary: m)
  case Nil
  then show ?case by simp
next
  case (Cons x xs)
  then have "im_insert (fst x) (snd x) m = m @ [x]"
    by (subst im_insert_fresh) auto
  with Cons show ?case by simp
qed

lemma im_of_list_distinct: "distinct (map fst xs) \<Longrightarrow> im_of_list xs = xs"
  by (simp add: im_of_list_def im_fold_distinct)

lemma im_wf_of_list: "im_wf (im_of_list xs)"
proof -
  have "im_wf m \<Longrightarrow> im_wf (foldl (\<lambda>m p. im_insert (fst p) (snd p) m) m xs)" for m
    by (induction xs arbitrary: m) auto
  then show ?thesis by (simp add: im_of_list_def)
qed

section \<open>BTreeMap: association lists with ascending keys\<close>

type_synonym ('k, 'v) bmap = "('k \<times> 'v) list"

fun bm_insert :: "'k::linorder \<Rightarrow> 'v \<Rightarrow> ('k, 'v) bmap \<Rightarrow> ('k, 'v) bmap" where
  "bm_insert k v [] = [(k, v)]"
| "bm_insert k v ((k', v') # m) =
     (if k < k' then (k, v) # (k', v') # m
      else if k = k' then (k, v) # m
      else (k', v') # bm_insert k v m)"

definition bm_get :: "('k, 'v) bmap \<Rightarrow> 'k \<Rightarrow> 'v option" where
  "bm_get m k = map_of m k"

definition bm_remove :: "'k \<Rightarrow> ('k, 'v) bmap \<Rightarrow> ('k, 'v) bmap" where
  "bm_remove k m = filter (\<lambda>p. fst p \<noteq> k) m"

definition bm_wf :: "('k::linorder, 'v) bmap \<Rightarrow> bool" where
  "bm_wf m \<longleftrightarrow> sorted_wrt (<) (map fst m)"

definition bm_of_list :: "('k::linorder \<times> 'v) list \<Rightarrow> ('k, 'v) bmap" where
  "bm_of_list xs = foldl (\<lambda>m p. bm_insert (fst p) (snd p) m) [] xs"

definition bm_keys :: "('k, 'v) bmap \<Rightarrow> 'k list" where
  "bm_keys m = map fst m"

lemma bm_insert_keys: "fst ` set (bm_insert k v m) = insert k (fst ` set m)"
  by (induction k v m rule: bm_insert.induct) auto

lemma bm_wf_insert [simp]: "bm_wf m \<Longrightarrow> bm_wf (bm_insert k v m)"
  by (induction k v m rule: bm_insert.induct) (auto simp: bm_wf_def bm_insert_keys)

lemma bm_wf_Nil [simp]: "bm_wf []"
  by (simp add: bm_wf_def)

lemma bm_wf_Cons: "bm_wf (p # m) \<longleftrightarrow> (\<forall>q \<in> set m. fst p < fst q) \<and> bm_wf m"
  by (auto simp: bm_wf_def)

lemma bm_wf_remove [simp]: "bm_wf m \<Longrightarrow> bm_wf (bm_remove k m)"
  by (induction m) (auto simp: bm_wf_Cons bm_remove_def)

lemma bm_get_Nil [omap_simps]: "bm_get [] k = None"
  by (simp add: bm_get_def)

lemma bm_get_insert [omap_simps]: "bm_wf m \<Longrightarrow> bm_get (bm_insert k v m) = (bm_get m)(k \<mapsto> v)"
proof (induction k v m rule: bm_insert.induct)
  case (2 k v k' v' m)
  then show ?case by (auto simp: bm_get_def fun_eq_iff bm_wf_Cons)
qed (simp add: bm_get_def fun_eq_iff)

lemma bm_get_remove [omap_simps]: "bm_get (bm_remove k m) = (bm_get m)(k := None)"
  by (induction m) (auto simp: fun_eq_iff bm_get_def bm_remove_def)

lemma bm_wf_distinct: "bm_wf m \<Longrightarrow> distinct (map fst m)"
  by (simp add: bm_wf_def strict_sorted_iff)

lemma bm_get_Some_iff: "bm_wf m \<Longrightarrow> bm_get m k = Some v \<longleftrightarrow> (k, v) \<in> set m"
  by (simp add: bm_get_def bm_wf_distinct)

lemma bm_get_None_iff: "bm_get m k = None \<longleftrightarrow> k \<notin> fst ` set m"
  by (simp add: bm_get_def map_of_eq_None_iff)

lemma bm_get_SomeD: "bm_get m k = Some v \<Longrightarrow> (k, v) \<in> set m"
  by (simp add: bm_get_def map_of_SomeD)

lemma bm_ext:
  assumes "bm_wf m" "bm_wf m'" "\<And>k. bm_get m k = bm_get m' k"
  shows "m = m'"
proof -
  have "set m = set m'"
    using assms by (metis bm_get_Some_iff set_eqI surj_pair)
  moreover have "sorted (map fst m)" "sorted (map fst m')"
    using assms by (auto simp: bm_wf_def strict_sorted_iff)
  ultimately show ?thesis
    using assms by (metis bm_wf_distinct map_sorted_distinct_set_unique distinct_map
        inj_on_Un sup.idem)
qed

lemma bm_insert_insort: "k \<notin> fst ` set m \<Longrightarrow> bm_insert k v m = insort_key fst (k, v) m"
  by (induction k v m rule: bm_insert.induct) (auto simp: less_le)

lemma bm_fold_keys:
  "fst ` set (foldl (\<lambda>m p. bm_insert (fst p) (snd p) m) m xs) = fst ` set m \<union> fst ` set xs"
  by (induction xs arbitrary: m) (auto simp: bm_insert_keys)

lemma bm_wf_fold: "bm_wf m \<Longrightarrow> bm_wf (foldl (\<lambda>m p. bm_insert (fst p) (snd p) m) m xs)"
  by (induction xs arbitrary: m) auto

lemma bm_wf_of_list [simp]: "bm_wf (bm_of_list xs)"
  by (simp add: bm_of_list_def bm_wf_fold)

lemma bm_get_fold:
  "bm_wf m \<Longrightarrow>
     bm_get (foldl (\<lambda>m p. bm_insert (fst p) (snd p) m) m xs) k =
       (case map_of (rev xs) k of None \<Rightarrow> bm_get m k | Some v \<Rightarrow> Some v)"
  by (induction xs arbitrary: m) (auto simp: omap_simps map_add_def split: option.splits)

lemma bm_get_of_list: "bm_get (bm_of_list xs) k = map_of (rev xs) k"
  by (simp add: bm_of_list_def bm_get_fold bm_get_Nil split: option.splits)

lemma bm_keys_of_list: "fst ` set (bm_of_list xs) = fst ` set xs"
  by (simp add: bm_of_list_def bm_fold_keys)

text \<open>Building a sorted map from entries with distinct keys sorts them.\<close>

lemma bm_wf_sort_key: "distinct (map fst m) \<Longrightarrow> bm_wf (sort_key fst m)"
  by (simp add: bm_wf_def strict_sorted_iff distinct_map)

lemma bm_of_list_sort: "distinct (map fst m) \<Longrightarrow> bm_of_list m = sort_key fst m"
proof (rule bm_ext)
  fix k
  assume d: "distinct (map fst m)"
  then have "bm_get (sort_key fst m) k = map_of m k"
    unfolding bm_get_def by (intro map_of_eqI [THEN fun_cong]) (auto simp: distinct_map)
  moreover have "map_of (rev m) = map_of m"
    using d by (simp add: map_of_inject_set rev_map [symmetric])
  ultimately show "bm_get (bm_of_list m) k = bm_get (sort_key fst m) k"
    by (simp add: bm_get_of_list)
qed (simp_all add: bm_wf_sort_key)

lemma map_filter_set: "set (List.map_filter f xs) = {y. \<exists>x \<in> set xs. f x = Some y}"
  by (force simp: List.map_filter_def)

lemma all2_right: "list_all2 P xs ys \<Longrightarrow> y \<in> set ys \<Longrightarrow> \<exists>x \<in> set xs. P x y"
  by (induction rule: list_all2_induct) auto

lemma all2_left: "list_all2 P xs ys \<Longrightarrow> x \<in> set xs \<Longrightarrow> \<exists>y \<in> set ys. P x y"
  by (induction rule: list_all2_induct) auto

lemma collect_all2: "collect_res (map f xs) = Inr ys \<Longrightarrow> list_all2 (\<lambda>x y. f x = Inr y) xs ys"
  by (induction xs arbitrary: ys) (auto simp: res_simps)

section \<open>Running one step after another\<close>

fun each :: "('a \<Rightarrow> 's \<Rightarrow> 'e + 's) \<Rightarrow> 'a list \<Rightarrow> 's \<Rightarrow> 'e + 's" where
  "each f [] s = Inr s"
| "each f (x # xs) s = rbind (f x s) (each f xs)"

lemma each_append: "each f (xs @ ys) s = rbind (each f xs s) (each f ys)"
proof (induction xs arbitrary: s)
  case (Cons x xs)
  then show ?case by (cases "f x s") simp_all
qed simp

lemma each_inv:
  assumes "each f xs s = Inr s'" "P s" "\<And>x a b. x \<in> set xs \<Longrightarrow> f x a = Inr b \<Longrightarrow> P a \<Longrightarrow> P b"
  shows "P s'"
  using assms by (induction xs arbitrary: s) (auto simp: res_simps)

lemma each_at:
  assumes "each f xs s = Inr s'" "x \<in> set xs"
  obtains as bs s1 s2 where "xs = as @ x # bs" "f x s1 = Inr s2" "each f as s = Inr s1" "each f bs s2 = Inr s'"
proof -
  from assms(2) obtain as bs where xs: "xs = as @ x # bs" using split_list by metis
  then obtain s1 s2 where "each f as s = Inr s1" "f x s1 = Inr s2" "each f bs s2 = Inr s'"
    using assms(1) by (auto simp: each_append res_simps)
  then show ?thesis using that xs by blast
qed

end
