(* ===== verification/NbtValue.thy ===== *)
theory NbtValue imports
  Text
begin

text \<open>
  The NBT tree of \<^verbatim>\<open>crates/nbt/src/value.rs\<close>: one constructor per Rust variant
  (\<open>IntV\<close> for \<^verbatim>\<open>Int\<close>, a reserved word here). Integers keep
  their width as words (read with \<^const>\<open>sint\<close> where the Rust type is signed); a float is its bit
  pattern, because the code moves floats around, prints them and compares them, and never computes
  with them. A compound is an \<^verbatim>\<open>IndexMap\<close>, an insertion-ordered association list.

  \<^verbatim>\<open>#[derive(PartialEq)]\<close> gives three things that are not equality of the trees: maps compare
  without their order, and floats compare by IEEE 754, so no NaN equals itself and the two zeros
  are equal. The comparison is written once over the two float comparisons, and used at the IEEE
  ones (the code's \<^verbatim>\<open>==\<close>) and at bit equality (equal content).
\<close>

datatype nbt_value =
    Byte u8
  | Short "16 word"
  | IntV u32
  | Long u64
  | Float u32
  | Double u64
  | ByteArray bytes
  | String string
  | List "nbt_value list"
  | Compound "(string \<times> nbt_value) list"
  | IntArray "u32 list"
  | LongArray "u64 list"

type_synonym compound = "(string \<times> nbt_value) list"

fun tag_id :: "nbt_value \<Rightarrow> nat" where
  "tag_id (Byte _) = 1"
| "tag_id (Short _) = 2"
| "tag_id (IntV _) = 3"
| "tag_id (Long _) = 4"
| "tag_id (Float _) = 5"
| "tag_id (Double _) = 6"
| "tag_id (ByteArray _) = 7"
| "tag_id (String _) = 8"
| "tag_id (List _) = 9"
| "tag_id (Compound _) = 10"
| "tag_id (IntArray _) = 11"
| "tag_id (LongArray _) = 12"

text \<open>\<^verbatim>\<open>NbtError\<close>; a message is kept as the reason it is raised for.\<close>

datatype path_error = UnclosedBracket string | EmptyBracket string | EmptyPath string

datatype nbt_error =
    InvalidPath path_error
  | InvalidJson string
  | Binary string

section \<open>Comparison of floats\<close>

text \<open>An IEEE pattern is a NaN when the exponent is all ones and the fraction is not zero.\<close>

definition f32_nan :: "u32 \<Rightarrow> bool" where
  "f32_nan b \<longleftrightarrow> 0x7F800000 < (b AND 0x7FFFFFFF)"

definition f64_nan :: "u64 \<Rightarrow> bool" where
  "f64_nan b \<longleftrightarrow> 0x7FF0000000000000 < (b AND 0x7FFFFFFFFFFFFFFF)"

definition f32_eq :: "u32 \<Rightarrow> u32 \<Rightarrow> bool" where
  "f32_eq a b \<longleftrightarrow> \<not> f32_nan a \<and> \<not> f32_nan b \<and>
     (a = b \<or> (a AND 0x7FFFFFFF = 0 \<and> b AND 0x7FFFFFFF = 0))"

definition f64_eq :: "u64 \<Rightarrow> u64 \<Rightarrow> bool" where
  "f64_eq a b \<longleftrightarrow> \<not> f64_nan a \<and> \<not> f64_nan b \<and>
     (a = b \<or> (a AND 0x7FFFFFFFFFFFFFFF = 0 \<and> b AND 0x7FFFFFFFFFFFFFFF = 0))"

section \<open>Comparison of trees\<close>

fun nbt_cmp :: "(u32 \<Rightarrow> u32 \<Rightarrow> bool) \<Rightarrow> (u64 \<Rightarrow> u64 \<Rightarrow> bool) \<Rightarrow> nbt_value \<Rightarrow> nbt_value \<Rightarrow> bool"
  and nbt_cmp_list :: "(u32 \<Rightarrow> u32 \<Rightarrow> bool) \<Rightarrow> (u64 \<Rightarrow> u64 \<Rightarrow> bool) \<Rightarrow>
    nbt_value list \<Rightarrow> nbt_value list \<Rightarrow> bool"
  and nbt_cmp_map :: "(u32 \<Rightarrow> u32 \<Rightarrow> bool) \<Rightarrow> (u64 \<Rightarrow> u64 \<Rightarrow> bool) \<Rightarrow> compound \<Rightarrow> compound \<Rightarrow> bool"
where
  "nbt_cmp f d (Byte a) w = (w = Byte a)"
| "nbt_cmp f d (Short a) w = (w = Short a)"
| "nbt_cmp f d (IntV a) w = (w = IntV a)"
| "nbt_cmp f d (Long a) w = (w = Long a)"
| "nbt_cmp f d (Float a) w = (case w of Float b \<Rightarrow> f a b | _ \<Rightarrow> False)"
| "nbt_cmp f d (Double a) w = (case w of Double b \<Rightarrow> d a b | _ \<Rightarrow> False)"
| "nbt_cmp f d (ByteArray a) w = (w = ByteArray a)"
| "nbt_cmp f d (String a) w = (w = String a)"
| "nbt_cmp f d (List a) w = (case w of List b \<Rightarrow> nbt_cmp_list f d a b | _ \<Rightarrow> False)"
| "nbt_cmp f d (Compound a) w =
     (case w of Compound b \<Rightarrow> length a = length b \<and> nbt_cmp_map f d a b | _ \<Rightarrow> False)"
| "nbt_cmp f d (IntArray a) w = (w = IntArray a)"
| "nbt_cmp f d (LongArray a) w = (w = LongArray a)"
| "nbt_cmp_list f d [] ys = (ys = [])"
| "nbt_cmp_list f d (x # xs) ys =
     (case ys of [] \<Rightarrow> False | y # ys' \<Rightarrow> nbt_cmp f d x y \<and> nbt_cmp_list f d xs ys')"
| "nbt_cmp_map f d [] m' = True"
| "nbt_cmp_map f d (p # m) m' =
     (case im_get m' (fst p) of None \<Rightarrow> False
      | Some v' \<Rightarrow> nbt_cmp f d (snd p) v' \<and> nbt_cmp_map f d m m')"

text \<open>\<^verbatim>\<open>==\<close> on \<^verbatim>\<open>NbtValue\<close>, and equality of content.\<close>

abbreviation nbt_eq :: "nbt_value \<Rightarrow> nbt_value \<Rightarrow> bool" where
  "nbt_eq \<equiv> nbt_cmp f32_eq f64_eq"

abbreviation nbt_same :: "nbt_value \<Rightarrow> nbt_value \<Rightarrow> bool" where
  "nbt_same \<equiv> nbt_cmp (=) (=)"

section \<open>Well-formed trees\<close>

text \<open>The keys of an \<^verbatim>\<open>IndexMap\<close> are distinct; every compound of the tree has that property.\<close>

fun nbt_all :: "(nbt_value \<Rightarrow> bool) \<Rightarrow> nbt_value \<Rightarrow> bool" where
  "nbt_all P (List xs) = (P (List xs) \<and> (\<forall>x \<in> set xs. nbt_all P x))"
| "nbt_all P (Compound m) = (P (Compound m) \<and> (\<forall>p \<in> set m. nbt_all P (snd p)))"
| "nbt_all P v = P v"

definition keys_distinct :: "nbt_value \<Rightarrow> bool" where
  "keys_distinct v = (case v of Compound m \<Rightarrow> im_wf m | _ \<Rightarrow> True)"

definition nbt_wf :: "nbt_value \<Rightarrow> bool" where
  "nbt_wf = nbt_all keys_distinct"

text \<open>No NaN anywhere.\<close>

definition not_nan :: "nbt_value \<Rightarrow> bool" where
  "not_nan v = (case v of Float b \<Rightarrow> \<not> f32_nan b | Double b \<Rightarrow> \<not> f64_nan b | _ \<Rightarrow> True)"

definition nan_free :: "nbt_value \<Rightarrow> bool" where
  "nan_free = nbt_all not_nan"

text \<open>The element type of a list is that of its first element: every element has it.\<close>

definition homogeneous_list :: "nbt_value \<Rightarrow> bool" where
  "homogeneous_list v =
     (case v of List xs \<Rightarrow> (\<forall>x \<in> set xs. tag_id x = tag_id (hd xs)) | _ \<Rightarrow> True)"

definition homogeneous :: "nbt_value \<Rightarrow> bool" where
  "homogeneous = nbt_all homogeneous_list"

lemma nbt_wf_simps [simp]:
  "nbt_wf (List xs) \<longleftrightarrow> (\<forall>x \<in> set xs. nbt_wf x)"
  "nbt_wf (Compound m) \<longleftrightarrow> im_wf m \<and> (\<forall>p \<in> set m. nbt_wf (snd p))"
  "nbt_wf (Byte a)" "nbt_wf (Short b)" "nbt_wf (IntV c)" "nbt_wf (Long e)" "nbt_wf (Float c)"
  "nbt_wf (Double e)" "nbt_wf (ByteArray g)" "nbt_wf (String h)" "nbt_wf (IntArray i)"
  "nbt_wf (LongArray j)"
  by (simp_all add: nbt_wf_def keys_distinct_def)

lemma nan_free_simps [simp]:
  "nan_free (List xs) \<longleftrightarrow> (\<forall>x \<in> set xs. nan_free x)"
  "nan_free (Compound m) \<longleftrightarrow> (\<forall>p \<in> set m. nan_free (snd p))"
  "nan_free (Float c) \<longleftrightarrow> \<not> f32_nan c" "nan_free (Double e) \<longleftrightarrow> \<not> f64_nan e"
  "nan_free (Byte a)" "nan_free (Short b)" "nan_free (IntV c)" "nan_free (Long e)"
  "nan_free (ByteArray g)" "nan_free (String h)" "nan_free (IntArray i)" "nan_free (LongArray j)"
  by (simp_all add: nan_free_def not_nan_def)

lemma homogeneous_simps [simp]:
  "homogeneous (List xs) \<longleftrightarrow>
     (\<forall>x \<in> set xs. tag_id x = tag_id (hd xs)) \<and> (\<forall>x \<in> set xs. homogeneous x)"
  "homogeneous (Compound m) \<longleftrightarrow> (\<forall>p \<in> set m. homogeneous (snd p))"
  "homogeneous (Byte a)" "homogeneous (Short b)" "homogeneous (IntV c)" "homogeneous (Long e)"
  "homogeneous (Float c)" "homogeneous (Double e)" "homogeneous (ByteArray g)"
  "homogeneous (String h)" "homogeneous (IntArray i)" "homogeneous (LongArray j)"
  by (simp_all add: homogeneous_def homogeneous_list_def)

section \<open>Laws of the comparison\<close>

lemma tag_id_cases:
  "tag_id v = 9 \<longleftrightarrow> (\<exists>xs. v = List xs)" "tag_id v = 10 \<longleftrightarrow> (\<exists>m. v = Compound m)"
  by (cases v; simp)+

lemma nbt_cmp_map_iff:
  "nbt_cmp_map f d m m' \<longleftrightarrow>
     (\<forall>p \<in> set m. \<exists>v'. im_get m' (fst p) = Some v' \<and> nbt_cmp f d (snd p) v')"
  by (induction m) (auto split: option.splits)

lemma nbt_cmp_list_iff: "nbt_cmp_list f d xs ys \<longleftrightarrow> list_all2 (nbt_cmp f d) xs ys"
  by (induction xs arbitrary: ys) (auto split: list.splits simp: list_all2_Cons1)

declare nbt_cmp_map.simps [simp del] nbt_cmp_list.simps [simp del]
declare nbt_cmp_map_iff [simp] nbt_cmp_list_iff [simp]

lemma nbt_cmp_inv [simp]:
  "nbt_cmp f d (Float a) w \<longleftrightarrow> (\<exists>b. w = Float b \<and> f a b)"
  "nbt_cmp f d (Double a') w \<longleftrightarrow> (\<exists>b. w = Double b \<and> d a' b)"
  "nbt_cmp f d (List xs) w \<longleftrightarrow> (\<exists>ys. w = List ys \<and> list_all2 (nbt_cmp f d) xs ys)"
  "nbt_cmp f d (Compound m) w \<longleftrightarrow> (\<exists>m'. w = Compound m' \<and> length m = length m' \<and>
     (\<forall>p \<in> set m. \<exists>v'. im_get m' (fst p) = Some v' \<and> nbt_cmp f d (snd p) v'))"
  by (cases w; simp)+

declare nbt_cmp.simps(5,6,9,10) [simp del]

lemma nbt_cmp_tag: "nbt_cmp f d v w \<Longrightarrow> tag_id v = tag_id w"
  by (cases v) auto

lemma nbt_cmp_Compound:
  assumes "im_wf m" "im_wf m'"
  shows "nbt_cmp f d (Compound m) (Compound m') \<longleftrightarrow>
    (\<forall>k. rel_option (nbt_cmp f d) (im_get m k) (im_get m' k))" (is "?l \<longleftrightarrow> ?r")
proof
  assume l: ?l
  have sub: "fst ` set m \<subseteq> fst ` set m'"
  proof
    fix k assume "k \<in> fst ` set m"
    then obtain v where "(k, v) \<in> set m" by auto
    with l obtain v' where "im_get m' k = Some v'" by fastforce
    then show "k \<in> fst ` set m'" by (force dest: im_get_SomeD)
  qed
  have "card (fst ` set m) = length m" "card (fst ` set m') = length m'"
    using assms by (simp_all add: im_wf_def distinct_card flip: set_map)
  with l have "card (fst ` set m) = card (fst ` set m')" by simp
  with sub have keys: "fst ` set m = fst ` set m'"
    by (simp add: card_subset_eq)
  show ?r
  proof
    fix k
    show "rel_option (nbt_cmp f d) (im_get m k) (im_get m' k)"
    proof (cases "im_get m k")
      case None
      moreover from None keys have "im_get m' k = None"
        by (simp add: im_get_None_iff)
      ultimately show ?thesis by simp
    next
      case (Some v)
      with l show ?thesis by (fastforce dest: im_get_SomeD)
    qed
  qed
next
  assume r: ?r
  have keys: "fst ` set m = fst ` set m'"
  proof -
    have "k \<in> fst ` set m \<longleftrightarrow> k \<in> fst ` set m'" for k
      using r [rule_format, of k] im_get_None_iff [of m k] im_get_None_iff [of m' k]
      by (cases "im_get m k"; cases "im_get m' k") auto
    then show ?thesis by blast
  qed
  have len: "length m = length m'"
    using assms keys by (metis distinct_card im_wf_def length_map set_map)
  have "\<exists>v'. im_get m' k = Some v' \<and> nbt_cmp f d v v'" if "(k, v) \<in> set m" for k v
  proof -
    have "im_get m k = Some v" using that assms by (simp add: im_get_Some_iff)
    then show ?thesis using r [rule_format, of k] by (auto simp: option_rel_Some1)
  qed
  with len show ?l by auto
qed

definition float_refl :: "(u32 \<Rightarrow> u32 \<Rightarrow> bool) \<Rightarrow> (u64 \<Rightarrow> u64 \<Rightarrow> bool) \<Rightarrow> nbt_value \<Rightarrow> bool" where
  "float_refl f d v = (case v of Float b \<Rightarrow> f b b | Double b \<Rightarrow> d b b | _ \<Rightarrow> True)"

lemma nbt_cmp_refl: "nbt_all (float_refl f d) v \<Longrightarrow> nbt_wf v \<Longrightarrow> nbt_cmp f d v v"
proof (induction v)
  case (List xs)
  then show ?case by (auto intro!: list.rel_refl_strong)
next
  case (Compound m)
  show ?case
  proof (simp, intro ballI)
    fix p assume p: "p \<in> set m"
    then have "im_get m (fst p) = Some (snd p)"
      using Compound.prems(2) by (simp add: im_get_Some_iff)
    moreover have "nbt_cmp f d (snd p) (snd p)"
      using Compound.IH [of p "snd p"] Compound.prems p by (auto simp: snds.simps)
    ultimately show "\<exists>v'. im_get m (fst p) = Some v' \<and> nbt_cmp f d (snd p) v'" by blast
  qed
qed (auto simp: float_refl_def)

lemma nbt_all_mono: "nbt_all P v \<Longrightarrow> (\<And>x. P x \<Longrightarrow> Q x) \<Longrightarrow> nbt_all Q v"
  by (induction v) (auto simp: snds.simps)

lemma nbt_same_refl [simp]: "nbt_wf v \<Longrightarrow> nbt_same v v"
proof (rule nbt_cmp_refl)
  have "nbt_all (\<lambda>_. True) v" by (induction v) (auto simp: snds.simps)
  then show "nbt_all (float_refl (=) (=)) v"
    by (rule nbt_all_mono) (auto simp: float_refl_def split: nbt_value.splits)
qed

lemma nbt_eq_refl: "nbt_wf v \<Longrightarrow> nan_free v \<Longrightarrow> nbt_eq v v"
  by (rule nbt_cmp_refl)
    (auto simp: nan_free_def float_refl_def not_nan_def f32_eq_def f64_eq_def
      elim!: nbt_all_mono split: nbt_value.splits)

lemma nbt_cmp_sym:
  assumes "\<And>a b. f a b \<Longrightarrow> f b a" "\<And>a b. d a b \<Longrightarrow> d b a"
  shows "nbt_wf v \<Longrightarrow> nbt_wf w \<Longrightarrow> nbt_cmp f d v w \<Longrightarrow> nbt_cmp f d w v"
proof (induction v arbitrary: w)
  case (List xs)
  then obtain ys where w: "w = List ys" and l: "list_all2 (nbt_cmp f d) xs ys"
    by auto
  have "list_all2 (nbt_cmp f d) ys xs"
    using l List.prems List.IH [of "xs ! i" "ys ! i" for i] unfolding w
    by (auto simp: list_all2_conv_all_nth)
  then show ?case by (simp add: w)
next
  case (Compound m)
  then obtain m' where w: "w = Compound m'"
    by auto
  have wf: "im_wf m" "im_wf m'" using Compound.prems by (auto simp: w)
  have "rel_option (nbt_cmp f d) (im_get m' k) (im_get m k)" for k
  proof -
    have "rel_option (nbt_cmp f d) (im_get m k) (im_get m' k)"
      using Compound.prems wf by (simp add: w nbt_cmp_Compound del: nbt_cmp_inv)
    then show ?thesis
    proof (cases rule: option.rel_cases)
      case (Some x y)
      then have "(k, x) \<in> set m" "(k, y) \<in> set m'" by (auto dest: im_get_SomeD)
      then have "nbt_cmp f d y x"
        using Compound.IH [of "(k, x)" x y] Compound.prems Some by (force simp: w)
      then show ?thesis using Some by simp
    qed auto
  qed
  then show ?case using wf by (simp add: w nbt_cmp_Compound del: nbt_cmp_inv)
qed (use assms in auto)

lemma nbt_cmp_trans:
  assumes "\<And>a b c. f a b \<Longrightarrow> f b c \<Longrightarrow> f a c" "\<And>a b c. d a b \<Longrightarrow> d b c \<Longrightarrow> d a c"
  shows "nbt_cmp f d u v \<Longrightarrow> nbt_cmp f d v w \<Longrightarrow> nbt_cmp f d u w"
proof (induction u arbitrary: v w)
  case (List xs)
  then obtain ys zs where w: "v = List ys" "w = List zs"
    and l: "list_all2 (nbt_cmp f d) xs ys" "list_all2 (nbt_cmp f d) ys zs"
    by auto
  have "nbt_cmp f d (xs ! i) (zs ! i)" if "i < length xs" for i
    using l that List.IH [of "xs ! i" "ys ! i" "zs ! i"] by (auto simp: list_all2_conv_all_nth)
  then have "list_all2 (nbt_cmp f d) xs zs"
    using l by (auto simp: list_all2_conv_all_nth)
  then show ?case by (simp add: w)
next
  case (Compound m)
  then obtain m' m'' where w: "v = Compound m'" "w = Compound m''"
    by auto
  have "\<exists>v'. im_get m'' (fst p) = Some v' \<and> nbt_cmp f d (snd p) v'" if p: "p \<in> set m" for p
  proof -
    obtain v1 where v1: "im_get m' (fst p) = Some v1" "nbt_cmp f d (snd p) v1"
      using Compound.prems(1) p by (auto simp: w)
    then obtain v2 where "im_get m'' (fst p) = Some v2" "nbt_cmp f d v1 v2"
      using Compound.prems(2) by (fastforce simp: w dest: im_get_SomeD)
    then show ?thesis
      using Compound.IH [of p "snd p" v1 v2] p v1 by (auto simp: snds.simps)
  qed
  with Compound.prems show ?case by (simp add: w)
qed (use assms in auto)

lemma f32_eq_sym: "f32_eq a b \<Longrightarrow> f32_eq b a"
  and f64_eq_sym: "f64_eq c e \<Longrightarrow> f64_eq e c"
  by (auto simp: f32_eq_def f64_eq_def)

lemma f32_eq_trans: "f32_eq a b \<Longrightarrow> f32_eq b c \<Longrightarrow> f32_eq a c"
  and f64_eq_trans: "f64_eq x y \<Longrightarrow> f64_eq y z \<Longrightarrow> f64_eq x z"
  by (auto simp: f32_eq_def f64_eq_def)

lemma nbt_eq_sym: "nbt_wf v \<Longrightarrow> nbt_wf w \<Longrightarrow> nbt_eq v w \<Longrightarrow> nbt_eq w v"
  by (rule nbt_cmp_sym) (auto intro: f32_eq_sym f64_eq_sym)

lemma nbt_same_sym: "nbt_wf v \<Longrightarrow> nbt_wf w \<Longrightarrow> nbt_same v w \<Longrightarrow> nbt_same w v"
  by (rule nbt_cmp_sym) auto

lemma nbt_eq_trans: "nbt_eq u v \<Longrightarrow> nbt_eq v w \<Longrightarrow> nbt_eq u w"
  by (rule nbt_cmp_trans) (auto intro: f32_eq_trans f64_eq_trans)

lemma nbt_same_trans: "nbt_same u v \<Longrightarrow> nbt_same v w \<Longrightarrow> nbt_same u w"
  by (rule nbt_cmp_trans) auto

text \<open>Code equality of a tree with a NaN in it fails even against itself.\<close>

lemma nbt_eq_self_nan_free: "nbt_wf v \<Longrightarrow> nbt_eq v v \<Longrightarrow> nan_free v"
proof (induction v)
  case (List xs)
  then show ?case by (auto simp: list_all2_same)
next
  case (Compound m)
  have "nan_free (snd p)" if p: "p \<in> set m" for p
  proof -
    have "im_get m (fst p) = Some (snd p)"
      using Compound.prems(1) p by (simp add: im_get_Some_iff)
    then show ?thesis
      using Compound.prems Compound.IH [of p "snd p"] p by (force simp: snds.simps)
  qed
  then show ?case by simp
qed (auto simp: f32_eq_def f64_eq_def)

end
