(* ===== verification/NbtConv.thy ===== *)
theory NbtConv imports
  NbtValue
begin

text \<open>
  \<^verbatim>\<open>crates/nbt/src/conv.rs\<close>, \<^verbatim>\<open>write.rs\<close>, \<^verbatim>\<open>read.rs\<close> and \<^verbatim>\<open>canonical.rs\<close>: the bridge between the
  uniform tree and the typed model of the \<^verbatim>\<open>valence_nbt\<close> crate, whose variants are the ones the
  bridge matches on. The crate is built with its \<^verbatim>\<open>preserve_order\<close> feature, so its compound is an
  insertion-ordered map as well. Its binary encoder and decoder are parameters
  (\<open>to_binary\<close>, \<open>from_binary\<close>) of the definitions that call them.
\<close>

datatype v_value =
    VByte u8 | VShort "16 word" | VInt u32 | VLong u64 | VFloat u32 | VDouble u64
  | VByteArray bytes | VString string | VList v_list | VCompound "(string \<times> v_value) list"
  | VIntArray "u32 list" | VLongArray "u64 list"
and v_list =
    LEnd
  | LByte bytes | LShort "16 word list" | LInt "u32 list" | LLong "u64 list"
  | LFloat "u32 list" | LDouble "u64 list" | LByteArray "bytes list" | LString "string list"
  | LList "v_list list" | LCompound "(string \<times> v_value) list list"
  | LIntArray "u32 list list" | LLongArray "u64 list list"

type_synonym v_compound = "(string \<times> v_value) list"

section \<open>From the crate's model\<close>

text \<open>
  \<^verbatim>\<open>ByteArray\<close> is reinterpreted between \<^verbatim>\<open>i8\<close> and \<^verbatim>\<open>u8\<close>, the identity on the bit patterns.
  \<open>from_compound\<close> inserts the converted entries one after another.
\<close>

fun from_value :: "v_value \<Rightarrow> nbt_value"
  and from_list :: "v_list \<Rightarrow> nbt_value list"
  and from_entries :: "v_compound \<Rightarrow> compound"
  and from_lists :: "v_list list \<Rightarrow> nbt_value list"
  and from_compounds :: "v_compound list \<Rightarrow> nbt_value list"
where
  "from_value (VByte x) = Byte x"
| "from_value (VShort x) = Short x"
| "from_value (VInt x) = IntV x"
| "from_value (VLong x) = Long x"
| "from_value (VFloat x) = Float x"
| "from_value (VDouble x) = Double x"
| "from_value (VByteArray b) = ByteArray b"
| "from_value (VString s) = String s"
| "from_value (VIntArray a) = IntArray a"
| "from_value (VLongArray a) = LongArray a"
| "from_value (VList l) = List (from_list l)"
| "from_value (VCompound c) = Compound (im_of_list (from_entries c))"
| "from_list LEnd = []"
| "from_list (LByte v) = map Byte v"
| "from_list (LShort v) = map Short v"
| "from_list (LInt v) = map IntV v"
| "from_list (LLong v) = map Long v"
| "from_list (LFloat v) = map Float v"
| "from_list (LDouble v) = map Double v"
| "from_list (LByteArray v) = map ByteArray v"
| "from_list (LString v) = map String v"
| "from_list (LList v) = from_lists v"
| "from_list (LCompound v) = from_compounds v"
| "from_list (LIntArray v) = map IntArray v"
| "from_list (LLongArray v) = map LongArray v"
| "from_entries [] = []"
| "from_entries (p # c) = (fst p, from_value (snd p)) # from_entries c"
| "from_lists [] = []"
| "from_lists (l # ls) = List (from_list l) # from_lists ls"
| "from_compounds [] = []"
| "from_compounds (c # cs) = Compound (im_of_list (from_entries c)) # from_compounds cs"

definition from_compound :: "v_compound \<Rightarrow> compound" where
  "from_compound c = im_of_list (from_entries c)"

section \<open>To the crate's model\<close>

text \<open>
  \<open>to_entries\<close> converts the entries of a compound; \<open>to_compound_of\<close> then inserts them, in sorted
  key order when \<open>sort\<close> (the code looks each sorted key up again in the map) and in the map's own
  order otherwise. \<open>to_list\<close> takes the element type from the first element and replaces an element
  of any other type by that type's default.
\<close>

definition to_compound_of :: "bool \<Rightarrow> v_compound \<Rightarrow> v_compound" where
  "to_compound_of srt es = im_of_list (if srt then sort_key fst es else es)"

fun to_value :: "bool \<Rightarrow> nbt_value \<Rightarrow> v_value"
  and to_list :: "bool \<Rightarrow> nbt_value list \<Rightarrow> v_list"
  and to_entries :: "bool \<Rightarrow> compound \<Rightarrow> v_compound"
  and to_lists :: "bool \<Rightarrow> nbt_value list \<Rightarrow> v_list list"
  and to_compounds :: "bool \<Rightarrow> nbt_value list \<Rightarrow> v_compound list"
where
  "to_value srt (Byte x) = VByte x"
| "to_value srt (Short x) = VShort x"
| "to_value srt (IntV x) = VInt x"
| "to_value srt (Long x) = VLong x"
| "to_value srt (Float x) = VFloat x"
| "to_value srt (Double x) = VDouble x"
| "to_value srt (ByteArray b) = VByteArray b"
| "to_value srt (String s) = VString s"
| "to_value srt (IntArray a) = VIntArray a"
| "to_value srt (LongArray a) = VLongArray a"
| "to_value srt (List items) = VList (to_list srt items)"
| "to_value srt (Compound m) = VCompound (to_compound_of srt (to_entries srt m))"
| "to_list srt [] = LEnd"
| "to_list srt (it # its) =
     (case it of
        Byte _ \<Rightarrow> LByte (map (\<lambda>i. case i of Byte x \<Rightarrow> x | _ \<Rightarrow> 0) (it # its))
      | Short _ \<Rightarrow> LShort (map (\<lambda>i. case i of Short x \<Rightarrow> x | _ \<Rightarrow> 0) (it # its))
      | IntV _ \<Rightarrow> LInt (map (\<lambda>i. case i of IntV x \<Rightarrow> x | _ \<Rightarrow> 0) (it # its))
      | Long _ \<Rightarrow> LLong (map (\<lambda>i. case i of Long x \<Rightarrow> x | _ \<Rightarrow> 0) (it # its))
      | Float _ \<Rightarrow> LFloat (map (\<lambda>i. case i of Float x \<Rightarrow> x | _ \<Rightarrow> 0) (it # its))
      | Double _ \<Rightarrow> LDouble (map (\<lambda>i. case i of Double x \<Rightarrow> x | _ \<Rightarrow> 0) (it # its))
      | ByteArray _ \<Rightarrow> LByteArray (map (\<lambda>i. case i of ByteArray b \<Rightarrow> b | _ \<Rightarrow> []) (it # its))
      | String _ \<Rightarrow> LString (map (\<lambda>i. case i of String s \<Rightarrow> s | _ \<Rightarrow> []) (it # its))
      | IntArray _ \<Rightarrow> LIntArray (map (\<lambda>i. case i of IntArray a \<Rightarrow> a | _ \<Rightarrow> []) (it # its))
      | LongArray _ \<Rightarrow> LLongArray (map (\<lambda>i. case i of LongArray a \<Rightarrow> a | _ \<Rightarrow> []) (it # its))
      | List _ \<Rightarrow> LList (to_lists srt (it # its))
      | Compound _ \<Rightarrow> LCompound (to_compounds srt (it # its)))"
| "to_entries srt [] = []"
| "to_entries srt (p # m) = (fst p, to_value srt (snd p)) # to_entries srt m"
| "to_lists srt [] = []"
| "to_lists srt (it # its) =
     (case it of List l \<Rightarrow> to_list srt l | _ \<Rightarrow> LEnd) # to_lists srt its"
| "to_compounds srt [] = []"
| "to_compounds srt (it # its) =
     (case it of Compound m \<Rightarrow> to_compound_of srt (to_entries srt m) | _ \<Rightarrow> [])
       # to_compounds srt its"

section \<open>Documents\<close>

text \<open>
  \<open>write_named\<close>: a root that is not a compound is written as an empty document. The encoder cannot
  fail on a growing vector, which is what the code's \<^verbatim>\<open>expect\<close> says.
\<close>

definition write_named ::
  "(v_compound \<Rightarrow> string \<Rightarrow> bytes) \<Rightarrow> string \<Rightarrow> nbt_value \<Rightarrow> bool \<Rightarrow> bytes" where
  "write_named to_binary name v srt =
     to_binary (case to_value srt v of VCompound c \<Rightarrow> c | _ \<Rightarrow> []) name"

definition canonical_bytes :: "(v_compound \<Rightarrow> string \<Rightarrow> bytes) \<Rightarrow> nbt_value \<Rightarrow> bytes" where
  "canonical_bytes to_binary v = write_named to_binary [] v True"

definition nbt_read ::
  "(bytes \<Rightarrow> string + v_compound \<times> string) \<Rightarrow> bytes \<Rightarrow> nbt_error + string \<times> nbt_value" where
  "nbt_read from_binary buf =
     (case from_binary buf of Inl e \<Rightarrow> Inl (Binary e)
      | Inr (c, name) \<Rightarrow> Inr (name, Compound (from_compound c)))"

section \<open>The converted tree\<close>

text \<open>The tree with the keys of every compound sorted, the content the canonical form stands for.\<close>

fun key_norm :: "bool \<Rightarrow> nbt_value \<Rightarrow> nbt_value" where
  "key_norm srt (Compound m) =
     (let m' = map (\<lambda>p. (fst p, key_norm srt (snd p))) m
      in Compound (if srt then sort_key fst m' else m'))"
| "key_norm srt (List xs) = List (map (key_norm srt) xs)"
| "key_norm srt v = v"

lemma to_entries_map: "to_entries srt m = map (\<lambda>p. (fst p, to_value srt (snd p))) m"
  by (induction m) auto

lemma from_entries_map: "from_entries c = map (\<lambda>p. (fst p, from_value (snd p))) c"
  by (induction c) auto

lemma from_lists_map: "from_lists ls = map (\<lambda>l. List (from_list l)) ls"
  by (induction ls) auto

lemma from_compounds_map: "from_compounds cs = map (\<lambda>c. Compound (from_compound c)) cs"
  by (induction cs) (auto simp: from_compound_def)

lemma to_lists_map:
  "to_lists srt its = map (\<lambda>i. case to_value srt i of VList l \<Rightarrow> l | _ \<Rightarrow> LEnd) its"
  by (induction its) (auto split: nbt_value.splits)

lemma to_compounds_map:
  "to_compounds srt its = map (\<lambda>i. case to_value srt i of VCompound c \<Rightarrow> c | _ \<Rightarrow> []) its"
  by (induction its) (auto split: nbt_value.splits)

lemma to_compound_of_distinct:
  "distinct (map fst es) \<Longrightarrow> to_compound_of srt es = (if srt then sort_key fst es else es)"
  by (auto simp: to_compound_of_def im_of_list_distinct distinct_map)

lemma distinct_fst_map: "distinct (map fst (map (\<lambda>p. (fst p, g (snd p))) m)) = distinct (map fst m)"
  by (simp add: comp_def)

lemma sort_key_map_snd:
  "sort_key fst (map (\<lambda>p. (fst p, g (snd p))) m) = map (\<lambda>p. (fst p, g (snd p))) (sort_key fst m)"
proof (induction m)
  case (Cons p m)
  have "insort_key fst (fst p, g (snd p)) (map (\<lambda>p. (fst p, g (snd p))) xs) =
        map (\<lambda>p. (fst p, g (snd p))) (insort_key fst p xs)" for xs
    by (induction xs) auto
  with Cons show ?case by simp
qed simp

lemma key_norm_False: "key_norm False v = v"
  by (induction v) (auto simp: map_idI snds.simps)

lemma tag_id_leaf [simp]:
  "tag_id v = Suc 0 \<longleftrightarrow> (\<exists>x. v = Byte x)" "tag_id v = 2 \<longleftrightarrow> (\<exists>x. v = Short x)"
  "tag_id v = 3 \<longleftrightarrow> (\<exists>x. v = IntV x)" "tag_id v = 4 \<longleftrightarrow> (\<exists>x. v = Long x)"
  "tag_id v = 5 \<longleftrightarrow> (\<exists>x. v = Float x)" "tag_id v = 6 \<longleftrightarrow> (\<exists>x. v = Double x)"
  "tag_id v = 7 \<longleftrightarrow> (\<exists>x. v = ByteArray x)" "tag_id v = 8 \<longleftrightarrow> (\<exists>x. v = String x)"
  "tag_id v = 9 \<longleftrightarrow> (\<exists>x. v = List x)" "tag_id v = 10 \<longleftrightarrow> (\<exists>x. v = Compound x)"
  "tag_id v = 11 \<longleftrightarrow> (\<exists>x. v = IntArray x)" "tag_id v = 12 \<longleftrightarrow> (\<exists>x. v = LongArray x)"
  by (cases v; simp)+

lemma map_leaf:
  assumes "\<forall>x \<in> set xs. \<exists>b. x = C b" "\<forall>x \<in> set xs. h x = g x"
    and "\<And>b. h (C b) = C b" "\<And>b. sel (C b) = b"
  shows "map (C \<circ> sel) xs = map g xs"
  using assms by fastforce

text \<open>A list survives when its elements do and share one type.\<close>

lemma from_to_list:
  assumes tags: "\<forall>x \<in> set xs. tag_id x = tag_id (hd xs)"
    and elem: "\<forall>x \<in> set xs. from_value (to_value srt x) = g x"
  shows "from_list (to_list srt xs) = map g xs"
proof (cases xs)
  case (Cons y ys)
  have eq: "map f xs = map g xs" if "\<And>x. x \<in> set xs \<Longrightarrow> f x = g x" for f :: "nbt_value \<Rightarrow> nbt_value"
    using that by simp
  show ?thesis
  proof (cases y)
    case (List l)
    with tags Cons have "\<forall>x \<in> set xs. \<exists>l. x = List l" by simp
    with elem have "map (\<lambda>x. List (from_list (case to_value srt x of VList l \<Rightarrow> l | _ \<Rightarrow> LEnd))) xs = map g xs"
      by (intro eq) fastforce
    then show ?thesis using List Cons by (simp add: from_lists_map to_lists_map comp_def)
  next
    case (Compound m)
    with tags Cons have "\<forall>x \<in> set xs. \<exists>l. x = Compound l" by simp
    with elem have "map (\<lambda>x. Compound (from_compound (case to_value srt x of VCompound l \<Rightarrow> l | _ \<Rightarrow> []))) xs = map g xs"
      by (intro eq) (fastforce simp: from_compound_def)
    then show ?thesis using Compound Cons by (simp add: from_compounds_map to_compounds_map comp_def)
  next
    case (Byte b)
    then show ?thesis
      using map_leaf [of xs Byte "\<lambda>x. from_value (to_value srt x)" g
          "\<lambda>i. case i of Byte x \<Rightarrow> x | _ \<Rightarrow> 0"] tags elem Cons by (simp add: comp_def)
  next
    case (Short b)
    then show ?thesis
      using map_leaf [of xs Short "\<lambda>x. from_value (to_value srt x)" g
          "\<lambda>i. case i of Short x \<Rightarrow> x | _ \<Rightarrow> 0"] tags elem Cons by (simp add: comp_def)
  next
    case (IntV b)
    then show ?thesis
      using map_leaf [of xs IntV "\<lambda>x. from_value (to_value srt x)" g
          "\<lambda>i. case i of IntV x \<Rightarrow> x | _ \<Rightarrow> 0"] tags elem Cons by (simp add: comp_def)
  next
    case (Long b)
    then show ?thesis
      using map_leaf [of xs Long "\<lambda>x. from_value (to_value srt x)" g
          "\<lambda>i. case i of Long x \<Rightarrow> x | _ \<Rightarrow> 0"] tags elem Cons by (simp add: comp_def)
  next
    case (Float b)
    then show ?thesis
      using map_leaf [of xs Float "\<lambda>x. from_value (to_value srt x)" g
          "\<lambda>i. case i of Float x \<Rightarrow> x | _ \<Rightarrow> 0"] tags elem Cons by (simp add: comp_def)
  next
    case (Double b)
    then show ?thesis
      using map_leaf [of xs Double "\<lambda>x. from_value (to_value srt x)" g
          "\<lambda>i. case i of Double x \<Rightarrow> x | _ \<Rightarrow> 0"] tags elem Cons by (simp add: comp_def)
  next
    case (ByteArray b)
    then show ?thesis
      using map_leaf [of xs ByteArray "\<lambda>x. from_value (to_value srt x)" g
          "\<lambda>i. case i of ByteArray x \<Rightarrow> x | _ \<Rightarrow> []"] tags elem Cons by (simp add: comp_def)
  next
    case (String b)
    then show ?thesis
      using map_leaf [of xs String "\<lambda>x. from_value (to_value srt x)" g
          "\<lambda>i. case i of String x \<Rightarrow> x | _ \<Rightarrow> []"] tags elem Cons by (simp add: comp_def)
  next
    case (IntArray b)
    then show ?thesis
      using map_leaf [of xs IntArray "\<lambda>x. from_value (to_value srt x)" g
          "\<lambda>i. case i of IntArray x \<Rightarrow> x | _ \<Rightarrow> []"] tags elem Cons by (simp add: comp_def)
  next
    case (LongArray b)
    then show ?thesis
      using map_leaf [of xs LongArray "\<lambda>x. from_value (to_value srt x)" g
          "\<lambda>i. case i of LongArray x \<Rightarrow> x | _ \<Rightarrow> []"] tags elem Cons by (simp add: comp_def)
  qed
qed simp

lemma nbt_all_child:
  "nbt_all P (List xs) \<Longrightarrow> x \<in> set xs \<Longrightarrow> nbt_all P x"
  "nbt_all P (Compound m) \<Longrightarrow> p \<in> set m \<Longrightarrow> nbt_all P (snd p)"
  by auto

lemma from_to_value:
  "nbt_wf v \<Longrightarrow> homogeneous v \<Longrightarrow> from_value (to_value srt v) = key_norm srt v"
proof (induction v)
  case (List xs)
  then have "from_list (to_list srt xs) = map (key_norm srt) xs"
    by (intro from_to_list) auto
  then show ?case by simp
next
  case (Compound m)
  have elem: "from_value (to_value srt (snd p)) = key_norm srt (snd p)" if "p \<in> set m" for p
    using Compound.IH [of p "snd p"] Compound.prems that by (auto simp: snds.simps)
  have d: "distinct (map fst m)" using Compound.prems by (simp add: im_wf_def)
  then have ds: "distinct (map fst (sort_key fst m))"
    by (simp add: distinct_map)
  have "from_value (to_value srt b) = key_norm srt b" if "(a, b) \<in> set m" for a b
    using elem [OF that] by simp
  then show ?case
    using d ds by (auto simp: to_entries_map to_compound_of_distinct distinct_fst_map sort_key_map_snd
      from_entries_map comp_def im_of_list_distinct)
qed auto

lemma from_list_tags:
  "x \<in> set (from_list l) \<Longrightarrow> y \<in> set (from_list l) \<Longrightarrow> tag_id x = tag_id y"
  by (cases l) (auto simp: from_lists_map from_compounds_map)

lemma im_insert_snd: "snd ` set (im_insert k v m) \<subseteq> insert v (snd ` set m)"
  by (induction m rule: im_insert.induct) auto

lemma im_of_list_snd: "snd ` set (im_of_list xs) \<subseteq> snd ` set xs"
proof -
  have "snd ` set (foldl (\<lambda>m p. im_insert (fst p) (snd p) m) m xs) \<subseteq> snd ` set m \<union> snd ` set xs" for m
  proof (induction xs arbitrary: m)
    case (Cons x xs)
    have "snd ` set (foldl (\<lambda>m p. im_insert (fst p) (snd p) m) m (x # xs)) \<subseteq>
        snd ` set (im_insert (fst x) (snd x) m) \<union> snd ` set xs"
      using Cons.IH [of "im_insert (fst x) (snd x) m"] by simp
    also have "\<dots> \<subseteq> snd ` set m \<union> snd ` set (x # xs)"
      using im_insert_snd [of "fst x" "snd x" m] by auto
    finally show ?case .
  qed simp
  from this [of "[]"] show ?thesis by (simp add: im_of_list_def)
qed

lemma homogeneous_from_value:
  "homogeneous (from_value v)"
  "\<forall>x \<in> set (from_list l). homogeneous x"
  "\<forall>x \<in> snd ` set (from_entries c). homogeneous x"
  "\<forall>x \<in> set (from_lists ls). homogeneous x"
  "\<forall>x \<in> set (from_compounds cs). homogeneous x"
proof (induction v and l and c and ls and cs rule: from_value_from_list_from_entries_from_lists_from_compounds.induct)
  case (11 l)
  have "tag_id x = tag_id (hd (from_list l))" if "x \<in> set (from_list l)" for x
    using from_list_tags [OF that, of "hd (from_list l)"] that by (cases "from_list l") auto
  with 11 show ?case by auto
next
  case (12 c)
  then show ?case using im_of_list_snd [of "from_entries c"] by fastforce
next
  case (29 l ls)
  have "tag_id x = tag_id (hd (from_list l))" if "x \<in> set (from_list l)" for x
    using from_list_tags [OF that, of "hd (from_list l)"] that by (cases "from_list l") auto
  with 29 show ?case by auto
next
  case (31 c cs)
  then show ?case using im_of_list_snd [of "from_entries c"] by fastforce
qed auto

lemma wf_from_value:
  "nbt_wf (from_value v)"
  "\<forall>x \<in> set (from_list l). nbt_wf x"
  "\<forall>x \<in> snd ` set (from_entries c). nbt_wf x"
  "\<forall>x \<in> set (from_lists ls). nbt_wf x"
  "\<forall>x \<in> set (from_compounds cs). nbt_wf x"
proof (induction v and l and c and ls and cs rule: from_value_from_list_from_entries_from_lists_from_compounds.induct)
  case (12 c)
  have "\<forall>p \<in> set (im_of_list (from_entries c)). nbt_wf (snd p)"
    using 12 im_of_list_snd [of "from_entries c"] by blast
  then show ?case by (simp add: im_wf_of_list)
next
  case (31 c cs)
  have "\<forall>p \<in> set (im_of_list (from_entries c)). nbt_wf (snd p)"
    using 31 im_of_list_snd [of "from_entries c"] by blast
  then show ?case using 31 by (simp add: im_wf_of_list)
qed auto

lemma nbt_read_shape:
  assumes "nbt_read fb b = Inr (nm, v)"
  shows "nbt_wf v" "homogeneous v" "\<exists>m. v = Compound m"
proof -
  from assms obtain c where v: "v = from_value (VCompound c)" by (auto simp: nbt_read_def from_compound_def split: sum.splits)
  show "nbt_wf v" "homogeneous v" "\<exists>m. v = Compound m"
    unfolding v by (rule wf_from_value(1), rule homogeneous_from_value(1)) simp
qed

section \<open>The canonical form\<close>

lemma sort_key_unique:
  assumes "set xs = set ys" "distinct (map fst xs)" "distinct (map fst ys)"
  shows "sort_key fst xs = sort_key fst (ys :: ('k::linorder \<times> 'v) list)"
  by (rule map_sorted_distinct_set_unique [of fst])
    (use assms in \<open>auto simp: distinct_map sorted_sort_key\<close>)

text \<open>
  A list's conversion as a function of the conversions of its elements: the typed list of the
  first element's type, with the default in place of an element of another type.
\<close>

definition typed_list :: "v_value list \<Rightarrow> v_list" where
  "typed_list vs = (case vs of [] \<Rightarrow> LEnd | v # _ \<Rightarrow>
     (case v of
        VByte _ \<Rightarrow> LByte (map (\<lambda>i. case i of VByte b \<Rightarrow> b | _ \<Rightarrow> 0) vs)
      | VShort _ \<Rightarrow> LShort (map (\<lambda>i. case i of VShort b \<Rightarrow> b | _ \<Rightarrow> 0) vs)
      | VInt _ \<Rightarrow> LInt (map (\<lambda>i. case i of VInt b \<Rightarrow> b | _ \<Rightarrow> 0) vs)
      | VLong _ \<Rightarrow> LLong (map (\<lambda>i. case i of VLong b \<Rightarrow> b | _ \<Rightarrow> 0) vs)
      | VFloat _ \<Rightarrow> LFloat (map (\<lambda>i. case i of VFloat b \<Rightarrow> b | _ \<Rightarrow> 0) vs)
      | VDouble _ \<Rightarrow> LDouble (map (\<lambda>i. case i of VDouble b \<Rightarrow> b | _ \<Rightarrow> 0) vs)
      | VByteArray _ \<Rightarrow> LByteArray (map (\<lambda>i. case i of VByteArray b \<Rightarrow> b | _ \<Rightarrow> []) vs)
      | VString _ \<Rightarrow> LString (map (\<lambda>i. case i of VString b \<Rightarrow> b | _ \<Rightarrow> []) vs)
      | VIntArray _ \<Rightarrow> LIntArray (map (\<lambda>i. case i of VIntArray b \<Rightarrow> b | _ \<Rightarrow> []) vs)
      | VLongArray _ \<Rightarrow> LLongArray (map (\<lambda>i. case i of VLongArray b \<Rightarrow> b | _ \<Rightarrow> []) vs)
      | VList _ \<Rightarrow> LList (map (\<lambda>i. case i of VList l \<Rightarrow> l | _ \<Rightarrow> LEnd) vs)
      | VCompound _ \<Rightarrow> LCompound (map (\<lambda>i. case i of VCompound c \<Rightarrow> c | _ \<Rightarrow> []) vs)))"

lemma leaf_select:
  "(case x of Byte b \<Rightarrow> b | _ \<Rightarrow> 0) = (case to_value srt x of VByte b \<Rightarrow> b | _ \<Rightarrow> 0)"
  "(case x of Short b \<Rightarrow> b | _ \<Rightarrow> 0) = (case to_value srt x of VShort b \<Rightarrow> b | _ \<Rightarrow> 0)"
  "(case x of IntV b \<Rightarrow> b | _ \<Rightarrow> 0) = (case to_value srt x of VInt b \<Rightarrow> b | _ \<Rightarrow> 0)"
  "(case x of Long b \<Rightarrow> b | _ \<Rightarrow> 0) = (case to_value srt x of VLong b \<Rightarrow> b | _ \<Rightarrow> 0)"
  "(case x of Float b \<Rightarrow> b | _ \<Rightarrow> 0) = (case to_value srt x of VFloat b \<Rightarrow> b | _ \<Rightarrow> 0)"
  "(case x of Double b \<Rightarrow> b | _ \<Rightarrow> 0) = (case to_value srt x of VDouble b \<Rightarrow> b | _ \<Rightarrow> 0)"
  "(case x of ByteArray b \<Rightarrow> b | _ \<Rightarrow> []) = (case to_value srt x of VByteArray b \<Rightarrow> b | _ \<Rightarrow> [])"
  "(case x of String b \<Rightarrow> b | _ \<Rightarrow> []) = (case to_value srt x of VString b \<Rightarrow> b | _ \<Rightarrow> [])"
  "(case x of IntArray b \<Rightarrow> b | _ \<Rightarrow> []) = (case to_value srt x of VIntArray b \<Rightarrow> b | _ \<Rightarrow> [])"
  "(case x of LongArray b \<Rightarrow> b | _ \<Rightarrow> []) = (case to_value srt x of VLongArray b \<Rightarrow> b | _ \<Rightarrow> [])"
  by (cases x; simp)+

lemma to_list_typed: "to_list srt xs = typed_list (map (to_value srt) xs)"
proof (cases xs)
  case (Cons a as)
  then show ?thesis
    by (cases a)
      (simp_all add: typed_list_def comp_def leaf_select [where srt = srt] to_lists_map to_compounds_map)
qed (simp add: typed_list_def)

lemma to_value_same:
  "nbt_wf v \<Longrightarrow> nbt_wf w \<Longrightarrow> nbt_same v w \<Longrightarrow> to_value True v = to_value True w"
proof (induction v arbitrary: w)
  case (List xs)
  then obtain ys where w: "w = List ys" and l: "list_all2 nbt_same xs ys" by auto
  have "map (to_value True) xs = map (to_value True) ys"
    using l List.prems List.IH by (auto simp: w list_all2_conv_all_nth intro!: nth_equalityI)
  then show ?case by (simp add: w to_list_typed)
next
  case (Compound m)
  then obtain m' where w: "w = Compound m'" by auto
  let ?h = "\<lambda>p. (fst p, to_value True (snd p))"
  have d: "distinct (map fst m)" "distinct (map fst m')"
    using Compound.prems by (auto simp: w im_wf_def)
  have rel: "rel_option nbt_same (im_get m k) (im_get m' k)" for k
    using Compound.prems by (simp add: w nbt_cmp_Compound del: nbt_cmp_inv)
  have conv: "to_value True x = to_value True y" if "(k, x) \<in> set m" "(k, y) \<in> set m'" for k x y
  proof -
    have "im_get m k = Some x" "im_get m' k = Some y"
      using that Compound.prems by (auto simp: w im_get_Some_iff)
    then have "nbt_same x y" using rel [of k] by simp
    then show ?thesis
      using Compound.IH [of "(k, x)" x y] that Compound.prems by (force simp: w snds.simps)
  qed
  have keys: "fst ` set m = fst ` set m'"
  proof -
    have "k \<in> fst ` set m \<longleftrightarrow> k \<in> fst ` set m'" for k
      using rel [of k] im_get_None_iff [of m k] im_get_None_iff [of m' k]
      by (cases "im_get m k"; cases "im_get m' k") auto
    then show ?thesis by blast
  qed
  have "?h ` set m = ?h ` set m'"
  proof (intro equalityI subsetI)
    fix z assume "z \<in> ?h ` set m"
    then obtain k x where z: "z = (k, to_value True x)" "(k, x) \<in> set m" by auto
    with keys obtain y where "(k, y) \<in> set m'" by force
    with z conv show "z \<in> ?h ` set m'" by force
  next
    fix z assume "z \<in> ?h ` set m'"
    then obtain k x where z: "z = (k, to_value True x)" "(k, x) \<in> set m'" by auto
    with keys obtain y where "(k, y) \<in> set m" by force
    with z conv show "z \<in> ?h ` set m" by force
  qed
  then have "sort_key fst (map ?h m) = sort_key fst (map ?h m')"
    using d by (intro sort_key_unique) (simp_all add: comp_def)
  then show ?case
    using d by (simp add: w to_entries_map to_compound_of_distinct comp_def)
qed auto

lemma key_norm_same: "nbt_wf v \<Longrightarrow> nbt_same v (key_norm srt v)"
proof (induction v)
  case (List xs)
  then show ?case by (auto simp: list_all2_conv_all_nth)
next
  case (Compound m)
  let ?m' = "map (\<lambda>p. (fst p, key_norm srt (snd p))) m"
  have wf: "im_wf ?m'" using Compound.prems by (simp add: im_wf_def comp_def)
  have get: "im_get (if srt then sort_key fst ?m' else ?m') k = im_get ?m' k" for k
    using im_get_set_cong [of "sort_key fst ?m'" ?m'] wf by (cases srt) (simp_all add: im_wf_sort_key)
  have "im_get ?m' (fst p) = Some (key_norm srt (snd p))" if "p \<in> set m" for p
    using that wf by (subst im_get_Some_iff) (auto simp: image_iff intro!: bexI [of _ p])
  moreover have "nbt_same (snd p) (key_norm srt (snd p))" if "p \<in> set m" for p
    using Compound.IH [of p "snd p"] Compound.prems that by (auto simp: snds.simps)
  ultimately show ?case using get by (auto simp: Let_def)
qed auto

lemma key_norm_wf: "nbt_wf v \<Longrightarrow> nbt_wf (key_norm srt v)"
proof (induction v)
  case (Compound m)
  then have "nbt_wf (key_norm srt b)" if "(a, b) \<in> set m" for a b
    using that by (fastforce simp: snds.simps)
  with Compound.prems show ?case
    by (auto simp: Let_def im_wf_sort_key) (simp_all add: im_wf_def comp_def)
qed auto

section \<open>Properties\<close>

text \<open>
  The bridge to the encoder's model keeps a well-formed tree exactly when every list in it is
  homogeneous: then converting there and back gives the same tree, with the keys sorted at every
  level for the canonical form. A list with elements of two types comes back different, because
  the elements of another type than the first were replaced by that type's default.
\<close>

theorem conv_roundtrip:
  assumes "nbt_wf v"
  shows "(from_value (to_value False v) = v \<longleftrightarrow> homogeneous v) \<and>
    (homogeneous v \<longrightarrow> from_value (to_value srt v) = key_norm srt v)"
  using assms from_to_value [of v] homogeneous_from_value(1) [of "to_value False v"]
  by (auto simp: key_norm_False)

text \<open>At a homogeneous tree, and at a list of two types: the second element is lost.\<close>

theorem conv_roundtrip_witness:
  "from_value (to_value False (List [Byte 1, Byte 2])) = List [Byte 1, Byte 2] \<and>
   from_value (to_value False (List [Byte 1, IntV 2])) \<noteq> List [Byte 1, IntV 2] \<and>
   from_value (to_value True (Compound [(''b'', Byte 1), (''a'', Byte 2)])) =
     key_norm True (Compound [(''b'', Byte 1), (''a'', Byte 2)])"
  using conv_roundtrip [of "List [Byte 1, Byte 2]"] conv_roundtrip [of "List [Byte 1, IntV 2]"]
    conv_roundtrip [of "Compound [(''b'', Byte 1), (''a'', Byte 2)]" True]
  by (simp add: im_wf_def)

text \<open>The crate's compound a document is encoded from.\<close>

definition doc_compound :: "bool \<Rightarrow> nbt_value \<Rightarrow> v_compound" where
  "doc_compound srt v = (case to_value srt v of VCompound c \<Rightarrow> c | _ \<Rightarrow> [])"

lemma write_named_doc: "write_named tb name v srt = tb (doc_compound srt v) name"
  by (simp add: write_named_def doc_compound_def)

lemma doc_compound_Compound: "VCompound (doc_compound srt (Compound m)) = to_value srt (Compound m)"
  by (simp add: doc_compound_def)

lemma from_doc_compound:
  assumes "nbt_wf (Compound m)" "homogeneous (Compound m)"
  shows "Compound (from_compound (doc_compound srt (Compound m))) = key_norm srt (Compound m)"
  using from_to_value [OF assms, of srt] by (simp add: doc_compound_def from_compound_def)

text \<open>
  Reading back a written document gives its name and its tree (with sorted keys in the
  canonical form), for every encoder and decoder that agree on this document.
\<close>

theorem read_write_named:
  assumes "nbt_wf (Compound m)" "homogeneous (Compound m)"
    and "from_binary (to_binary (doc_compound srt (Compound m)) name) =
           Inr (doc_compound srt (Compound m), name)"
  shows "nbt_read from_binary (write_named to_binary name (Compound m) srt) =
    Inr (name, key_norm srt (Compound m))"
  using from_doc_compound [OF assms(1,2)] assms(3) by (simp add: nbt_read_def write_named_doc)

theorem read_write_named_witness:
  "nbt_read (\<lambda>b. Inr ([(''hp'', VInt 20)], ''root''))
     (write_named (\<lambda>c n. [10]) ''root'' (Compound [(''hp'', IntV 20)]) False) =
   Inr (''root'', key_norm False (Compound [(''hp'', IntV 20)]))"
  by (rule read_write_named) (simp_all add: im_wf_def doc_compound_def to_compound_of_def im_of_list_def)

text \<open>
  The canonical bytes of two well-formed homogeneous documents are the same exactly when the
  documents have the same content, whatever the order of their keys at any level: so the object id,
  the hash of these bytes, identifies content. The encoder is only asked to be injective on the two
  documents at hand; that equal content gives equal bytes needs nothing of it.
\<close>

theorem canonical_bytes_iff:
  assumes wf: "nbt_wf (Compound m)" "nbt_wf (Compound m')"
    and hom: "homogeneous (Compound m)" "homogeneous (Compound m')"
    and enc: "to_binary (doc_compound True (Compound m)) [] = to_binary (doc_compound True (Compound m')) []
      \<Longrightarrow> doc_compound True (Compound m) = doc_compound True (Compound m')"
  shows "canonical_bytes to_binary (Compound m) = canonical_bytes to_binary (Compound m') \<longleftrightarrow>
    nbt_same (Compound m) (Compound m')"
proof
  assume "canonical_bytes to_binary (Compound m) = canonical_bytes to_binary (Compound m')"
  then have "doc_compound True (Compound m) = doc_compound True (Compound m')"
    by (intro enc) (simp add: canonical_bytes_def write_named_doc)
  then have "key_norm True (Compound m) = key_norm True (Compound m')"
    using from_doc_compound wf hom by metis
  moreover have "nbt_same (Compound m) (key_norm True (Compound m))"
    using wf(1) by (rule key_norm_same)
  moreover have "nbt_same (key_norm True (Compound m')) (Compound m')"
    by (rule nbt_same_sym [OF wf(2) key_norm_wf [OF wf(2)] key_norm_same [OF wf(2)]])
  ultimately show "nbt_same (Compound m) (Compound m')"
    by (metis nbt_same_trans)
next
  assume "nbt_same (Compound m) (Compound m')"
  then have "to_value True (Compound m) = to_value True (Compound m')"
    using wf by (intro to_value_same)
  then show "canonical_bytes to_binary (Compound m) = canonical_bytes to_binary (Compound m')"
    by (simp add: canonical_bytes_def write_named_def del: to_value.simps)
qed

theorem canonical_bytes_iff_witness:
  "canonical_bytes (\<lambda>c n. if c = [(''a'', VByte 1), (''b'', VByte 2)] then [1] else [2])
     (Compound [(''b'', Byte 2), (''a'', Byte 1)]) =
   canonical_bytes (\<lambda>c n. if c = [(''a'', VByte 1), (''b'', VByte 2)] then [1] else [2])
     (Compound [(''a'', Byte 1), (''b'', Byte 2)]) \<and>
   canonical_bytes (\<lambda>c n. if c = [(''a'', VByte 1)] then [1] else [2]) (Compound [(''a'', Byte 1)]) \<noteq>
   canonical_bytes (\<lambda>c n. if c = [(''a'', VByte 1)] then [1] else [2]) (Compound [(''a'', Byte 3)])"
proof
  show "canonical_bytes (\<lambda>c n. if c = [(''a'', VByte 1), (''b'', VByte 2)] then [1] else [2])
     (Compound [(''b'', Byte 2), (''a'', Byte 1)]) =
   canonical_bytes (\<lambda>c n. if c = [(''a'', VByte 1), (''b'', VByte 2)] then [1] else [2])
     (Compound [(''a'', Byte 1), (''b'', Byte 2)])"
    by (subst canonical_bytes_iff)
      (simp_all add: im_wf_def doc_compound_def to_compound_of_def im_of_list_def omap_simps)
  show "canonical_bytes (\<lambda>c n. if c = [(''a'', VByte 1)] then [1] else [2]) (Compound [(''a'', Byte 1)]) \<noteq>
   canonical_bytes (\<lambda>c n. if c = [(''a'', VByte 1)] then [1] else [2]) (Compound [(''a'', Byte 3)])"
    by (subst canonical_bytes_iff)
      (simp_all add: im_wf_def doc_compound_def to_compound_of_def im_of_list_def omap_simps)
qed

end
