(* ===== verification/AnvilChunk.thy ===== *)
theory AnvilChunk imports
  NbtConv
begin

text \<open>
  \<^verbatim>\<open>crates/anvil/src/chunk.rs\<close>, \<^verbatim>\<open>compression.rs\<close> and \<^verbatim>\<open>codec.rs\<close>: chunk coordinates as
  32-bit words, the compression schemes with the bounded inflate loop, and the conversion between
  payloads and trees. The compressors of \<^verbatim>\<open>flate2\<close> and \<^verbatim>\<open>lz4_flex\<close> and the binary codec of
  \<^verbatim>\<open>valence_nbt\<close> are arguments; a decompressor is the list of the reads it answers.
\<close>

section \<open>Chunk coordinates\<close>

record chunk_pos =
  pos_x :: u32
  pos_z :: u32

definition mk_pos :: "u32 \<Rightarrow> u32 \<Rightarrow> chunk_pos" where
  "mk_pos x z = \<lparr>pos_x = x, pos_z = z\<rparr>"

definition region_index :: "chunk_pos \<Rightarrow> nat" where
  "region_index p = unat ((pos_x p AND 31) + (pos_z p AND 31) * 32)"

definition region_of :: "chunk_pos \<Rightarrow> u32 \<times> u32" where
  "region_of p = (signed_drop_bit 5 (pos_x p), signed_drop_bit 5 (pos_z p))"

definition from_region_index :: "u32 \<Rightarrow> u32 \<Rightarrow> nat \<Rightarrow> chunk_pos" where
  "from_region_index rx rz i =
     \<lparr>pos_x = rx * 32 + of_nat (i mod 32), pos_z = rz * 32 + of_nat (i div 32)\<rparr>"

lemma mask_31: "(31 :: u32) = mask 5"
  by (simp add: mask_eq_exp_minus_1)

lemma and_31_range: "unat (x AND 31 :: u32) < 32"
proof -
  have "x AND 31 \<le> 31" by (rule word_and_le1)
  then have "unat (x AND 31) \<le> unat (31 :: u32)" by (simp only: word_le_nat_alt)
  then show ?thesis by simp
qed

lemma region_index_eq: "region_index p = unat (pos_x p AND 31) + 32 * unat (pos_z p AND 31)"
proof -
  have "unat ((pos_z p AND 31) * 32) = unat (pos_z p AND 31) * 32"
    using and_31_range [of "pos_z p"] by (subst unat_mult_lem [THEN iffD1]) simp_all
  then show ?thesis
    using and_31_range [of "pos_z p"] and_31_range [of "pos_x p"]
    by (simp add: region_index_def, subst unat_add_lem [THEN iffD1]) simp_all
qed

lemma region_index_less: "region_index p < 1024"
  using and_31_range [of "pos_x p"] and_31_range [of "pos_z p"] by (simp add: region_index_eq)

lemma region_split: "signed_drop_bit 5 x * 32 + (x AND 31) = (x :: u32)"
proof -
  have "push_bit 5 (signed_drop_bit 5 x) + (x AND mask 5) = push_bit 5 (signed_drop_bit 5 x) OR (x AND mask 5)"
    by (rule disjunctive_add) (auto simp: bit_simps)
  moreover have "push_bit 5 (signed_drop_bit 5 x) OR (x AND mask 5) = x"
    by (rule bit_word_eqI) (auto simp: bit_simps)
  ultimately show ?thesis by (simp add: push_bit_eq_mult mask_31)
qed

lemma signed_shift_back:
  assumes "- (2 ^ 26) \<le> sint rx" "sint rx < 2 ^ 26" "i < 32"
  shows "signed_drop_bit 5 (rx * 32 + of_nat i) = (rx :: u32)" "unat ((rx * 32 + of_nat i) AND 31) = i"
proof -
  let ?k = "sint rx * 32 + int i"
  have w: "rx * 32 + of_nat i = word_of_int ?k" by simp
  have "signed_take_bit 31 ?k = ?k" using assms by (intro signed_take_bit_int_eq_self) simp_all
  then have k: "sint (word_of_int ?k :: u32) = ?k"
    by (subst sint_sbintrunc') simp
  have "sint (signed_drop_bit 5 (word_of_int ?k :: u32)) = sint rx"
    unfolding sint_signed_drop_bit_eq k using assms(3) by (simp add: drop_bit_eq_div)
  then show "signed_drop_bit 5 (rx * 32 + of_nat i) = rx" unfolding w by (rule signed_word_eqI)
  have "(word_of_int ?k :: u32) AND mask 5 = take_bit 5 (word_of_int ?k)" by (simp add: take_bit_eq_mask)
  also have "\<dots> = word_of_int (take_bit 5 ?k)" 
    by (simp add: of_int_take_bit del: of_int_add of_int_mult)
  also have "take_bit 5 ?k = int i" using assms(3) by (simp add: take_bit_eq_mod)
  finally show "unat ((rx * 32 + of_nat i) AND 31) = i"
    unfolding w mask_31 using assms(3) by (simp add: unat_of_nat)
qed

section \<open>Compression schemes\<close>

datatype chunk_compression = GZip | ZLib | NoComp | Lz4 | Custom

definition comp_from_byte :: "u8 \<Rightarrow> chunk_compression option" where
  "comp_from_byte b =
     (if b = 1 then Some GZip else if b = 2 then Some ZLib else if b = 3 then Some NoComp
      else if b = 4 then Some Lz4 else if b = 127 then Some Custom else None)"

fun comp_to_byte :: "chunk_compression \<Rightarrow> u8" where
  "comp_to_byte GZip = 1"
| "comp_to_byte ZLib = 2"
| "comp_to_byte NoComp = 3"
| "comp_to_byte Lz4 = 4"
| "comp_to_byte Custom = 127"

datatype anvil_error =
    Io string
  | Nbt nbt_error
  | Lz4Error string
  | UnsupportedCompression u8
  | DecompressionBomb nat
  | BadRegionName string
  | ExternalChunkTooLarge nat

definition MAX_INFLATED :: nat where
  "MAX_INFLATED = 128 * 1024 * 1024"

text \<open>
  The reads of a decompressor: each answers an error or some bytes, and no bytes is the end. The
  bound is checked before the bytes are kept.
\<close>

fun inflate_loop :: "nat \<Rightarrow> bytes \<Rightarrow> (string + bytes) list \<Rightarrow> anvil_error + bytes" where
  "inflate_loop tot out [] = Inr out"
| "inflate_loop tot out (Inl e # rs) = Inl (Io e)"
| "inflate_loop tot out (Inr b # rs) =
     (if b = [] then Inr out
      else if tot + length b > MAX_INFLATED then Inl (DecompressionBomb MAX_INFLATED)
      else inflate_loop (tot + length b) (out @ b) rs)"

definition inflate_bounded :: "(string + bytes) list \<Rightarrow> anvil_error + bytes" where
  "inflate_bounded rs = inflate_loop 0 [] rs"

record compressors =
  zlib_dec :: "bytes \<Rightarrow> (string + bytes) list"
  gzip_dec :: "bytes \<Rightarrow> (string + bytes) list"
  lz4_dec :: "bytes \<Rightarrow> (string + bytes) list"
  zlib_enc :: "nat \<Rightarrow> bytes \<Rightarrow> anvil_error + bytes"
  gzip_enc :: "nat \<Rightarrow> bytes \<Rightarrow> anvil_error + bytes"
  lz4_enc :: "bytes \<Rightarrow> anvil_error + bytes"

definition decompress :: "compressors \<Rightarrow> chunk_compression \<Rightarrow> bytes \<Rightarrow> anvil_error + bytes" where
  "decompress C scheme payload = (case scheme of
     NoComp \<Rightarrow> Inr payload
   | ZLib \<Rightarrow> inflate_bounded (zlib_dec C payload)
   | GZip \<Rightarrow> inflate_bounded (gzip_dec C payload)
   | Lz4 \<Rightarrow> inflate_bounded (lz4_dec C payload)
   | Custom \<Rightarrow> Inl (UnsupportedCompression 127))"

definition compress_level :: "compressors \<Rightarrow> chunk_compression \<Rightarrow> bytes \<Rightarrow> nat \<Rightarrow> anvil_error + bytes" where
  "compress_level C scheme raw level = (case scheme of
     NoComp \<Rightarrow> Inr raw
   | ZLib \<Rightarrow> zlib_enc C level raw
   | GZip \<Rightarrow> gzip_enc C level raw
   | Lz4 \<Rightarrow> lz4_enc C raw
   | Custom \<Rightarrow> Inl (UnsupportedCompression 127))"

definition compress :: "compressors \<Rightarrow> chunk_compression \<Rightarrow> bytes \<Rightarrow> anvil_error + bytes" where
  "compress C scheme raw = compress_level C scheme raw 6"

section \<open>Payloads and trees\<close>

record raw_chunk =
  rc_pos :: chunk_pos
  rc_compression :: chunk_compression
  rc_payload :: bytes
  rc_external :: bool
  rc_timestamp :: u32

definition payload_equals :: "raw_chunk \<Rightarrow> raw_chunk \<Rightarrow> bool" where
  "payload_equals a b \<longleftrightarrow> rc_compression a = rc_compression b \<and> rc_payload a = rc_payload b"

text \<open>The byte codec of the NBT crate, with its two directions.\<close>

record nbt_codec =
  to_binary :: "v_compound \<Rightarrow> string \<Rightarrow> bytes"
  from_binary :: "bytes \<Rightarrow> string + v_compound \<times> string"

fun lift_nbt :: "nbt_error + 'a \<Rightarrow> anvil_error + 'a" where
  "lift_nbt (Inl e) = Inl (Nbt e)"
| "lift_nbt (Inr a) = Inr a"

definition decode_chunk :: "compressors \<Rightarrow> nbt_codec \<Rightarrow> raw_chunk \<Rightarrow> anvil_error + nbt_value" where
  "decode_chunk C B ch =
     rbind (decompress C (rc_compression ch) (rc_payload ch)) (\<lambda>raw.
     rbind (lift_nbt (nbt_read (from_binary B) raw)) (\<lambda>(name, v). Inr v))"

definition encode_chunk :: "compressors \<Rightarrow> nbt_codec \<Rightarrow> nbt_value \<Rightarrow> chunk_compression \<Rightarrow> anvil_error + bytes" where
  "encode_chunk C B root scheme = compress C scheme (write_named (to_binary B) [] root False)"

text \<open>The magic numbers of gzip and zlib; anything else is taken as raw NBT.\<close>

definition sniff :: "bytes \<Rightarrow> chunk_compression" where
  "sniff b = (case b of
     x # y # _ \<Rightarrow> if x = 0x1f \<and> y = 0x8b then GZip else if x = 0x78 then ZLib else NoComp
   | _ \<Rightarrow> NoComp)"

definition load_nbt_bytes :: "compressors \<Rightarrow> nbt_codec \<Rightarrow> bytes \<Rightarrow> anvil_error + nbt_value" where
  "load_nbt_bytes C B b =
     rbind (decompress C (sniff b) b) (\<lambda>raw.
     rbind (lift_nbt (nbt_read (from_binary B) raw)) (\<lambda>(name, v). Inr v))"

definition save_nbt_bytes :: "compressors \<Rightarrow> nbt_codec \<Rightarrow> nbt_value \<Rightarrow> chunk_compression \<Rightarrow> anvil_error + bytes" where
  "save_nbt_bytes C B root scheme = compress C scheme (write_named (to_binary B) [] root False)"

lemma lift_nbt_Inr_iff [res_simps]: "lift_nbt r = Inr a \<longleftrightarrow> r = Inr a"
  by (cases r) simp_all

section \<open>Lemmas\<close>

lemma inflate_loop_ok:
  assumes "\<forall>b \<in> set bs. b \<noteq> []" "tot + length (concat bs) \<le> MAX_INFLATED"
  shows "inflate_loop tot out (map Inr bs) = Inr (out @ concat bs)"
  using assms by (induction bs arbitrary: tot out) auto

lemma inflate_loop_length:
  "inflate_loop tot out rs = Inr res \<Longrightarrow> tot = length out \<Longrightarrow> tot \<le> MAX_INFLATED \<Longrightarrow>
     length res \<le> MAX_INFLATED"
  by (induction tot out rs rule: inflate_loop.induct) (auto split: if_splits)

lemma inflate_loop_bomb:
  assumes "\<forall>b \<in> set bs. b \<noteq> []" "tot + length (concat bs) > MAX_INFLATED" "tot \<le> MAX_INFLATED"
  shows "inflate_loop tot out (map Inr bs) = Inl (DecompressionBomb MAX_INFLATED)"
  using assms by (induction bs arbitrary: tot out) auto

text \<open>
  What the code relies on from the compressors: encoding succeeds, and reading the encoded bytes back
  answers the input in non-empty reads.
\<close>

definition inverse_pair :: "(bytes \<Rightarrow> anvil_error + bytes) \<Rightarrow> (bytes \<Rightarrow> (string + bytes) list) \<Rightarrow> bool" where
  "inverse_pair enc dec \<longleftrightarrow> (\<forall>raw. \<exists>p bs. enc raw = Inr p \<and> dec p = map Inr bs \<and> concat bs = raw \<and> (\<forall>b \<in> set bs. b \<noteq> []))"

definition compressors_ok :: "compressors \<Rightarrow> bool" where
  "compressors_ok C \<longleftrightarrow> (\<forall>l. inverse_pair (zlib_enc C l) (zlib_dec C) \<and> inverse_pair (gzip_enc C l) (gzip_dec C)) \<and>
     inverse_pair (lz4_enc C) (lz4_dec C)"

lemma inverse_pair_inflate:
  assumes "inverse_pair enc dec" "length raw \<le> MAX_INFLATED"
  obtains p where "enc raw = Inr p" "inflate_bounded (dec p) = Inr raw"
proof -
  from assms(1) obtain p bs where p: "enc raw = Inr p" "dec p = map Inr bs" "concat bs = raw"
    "\<forall>b \<in> set bs. b \<noteq> []" unfolding inverse_pair_def by metis
  with inflate_loop_ok [OF p(4), of 0 "[]"] assms(2) that show thesis
    by (simp add: inflate_bounded_def)
qed

lemma compress_decompress:
  assumes "compressors_ok C" "scheme \<noteq> Custom" "length raw \<le> MAX_INFLATED"
  obtains p where "compress_level C scheme raw l = Inr p" "decompress C scheme p = Inr raw"
proof (cases scheme)
  case GZip
  from assms(1) have "inverse_pair (gzip_enc C l) (gzip_dec C)" by (simp add: compressors_ok_def)
  from this assms(3) obtain p where "gzip_enc C l raw = Inr p" "inflate_bounded (gzip_dec C p) = Inr raw"
    by (rule inverse_pair_inflate)
  with that GZip show thesis by (simp add: compress_level_def decompress_def)
next
  case ZLib
  from assms(1) have "inverse_pair (zlib_enc C l) (zlib_dec C)" by (simp add: compressors_ok_def)
  from this assms(3) obtain p where "zlib_enc C l raw = Inr p" "inflate_bounded (zlib_dec C p) = Inr raw"
    by (rule inverse_pair_inflate)
  with that ZLib show thesis by (simp add: compress_level_def decompress_def)
next
  case Lz4
  from assms(1) have "inverse_pair (lz4_enc C) (lz4_dec C)" by (simp add: compressors_ok_def)
  from this assms(3) obtain p where "lz4_enc C raw = Inr p" "inflate_bounded (lz4_dec C p) = Inr raw"
    by (rule inverse_pair_inflate)
  with that Lz4 show thesis by (simp add: compress_level_def decompress_def)
qed (use assms that in \<open>simp_all add: compress_level_def decompress_def\<close>)

section \<open>Properties\<close>

text \<open>
  Chunk coordinates and slots of region files correspond one to one: the region and the slot of a
  chunk give the chunk back, and the chunk of a slot lies in that region at that slot, for every
  region coordinate whose chunks have 32-bit coordinates.
\<close>

theorem chunk_slot_roundtrip:
  "- (2 ^ 26) \<le> sint rx \<Longrightarrow> sint rx < 2 ^ 26 \<Longrightarrow> - (2 ^ 26) \<le> sint rz \<Longrightarrow> sint rz < 2 ^ 26 \<Longrightarrow> i < 1024 \<Longrightarrow>
     region_of (from_region_index rx rz i) = (rx, rz) \<and> region_index (from_region_index rx rz i) = i \<and>
     from_region_index (fst (region_of p)) (snd (region_of p)) (region_index p) = p"
proof -
  assume a: "- (2 ^ 26) \<le> sint rx" "sint rx < 2 ^ 26" "- (2 ^ 26) \<le> sint rz" "sint rz < 2 ^ 26" "i < 1024"
  have "region_index p mod 32 = unat (pos_x p AND 31)" "region_index p div 32 = unat (pos_z p AND 31)"
    using and_31_range [of "pos_x p"] by (simp_all add: region_index_eq)
  then have "from_region_index (fst (region_of p)) (snd (region_of p)) (region_index p) = p"
    by (simp add: from_region_index_def region_of_def region_split)
  with a signed_shift_back [OF a(1,2), of "i mod 32"] signed_shift_back [OF a(3,4), of "i div 32"]
  show ?thesis by (simp add: region_of_def region_index_eq from_region_index_def)
qed

theorem chunk_slot_roundtrip_witness:
  "from_region_index (fst (region_of (mk_pos (-1) 70))) (snd (region_of (mk_pos (-1) 70)))
     (region_index (mk_pos (-1) 70)) = mk_pos (-1) 70"
  using chunk_slot_roundtrip [of 0 0 0 "mk_pos (-1) 70"] by simp

text \<open>
  Inflating is bounded: a decompressor that answers more than the cap is refused as a bomb, one
  that answers at most the cap is read in full, and no result ever exceeds the cap.
\<close>

theorem inflate_is_bounded:
  "(\<forall>b \<in> set bs. b \<noteq> []) \<Longrightarrow>
     inflate_bounded (map Inr bs) =
       (if length (concat bs) \<le> MAX_INFLATED then Inr (concat bs) else Inl (DecompressionBomb MAX_INFLATED)) \<and>
     (\<forall>rs res. inflate_bounded rs = Inr res \<longrightarrow> length res \<le> MAX_INFLATED)"
  using inflate_loop_ok [of bs 0 "[]"] inflate_loop_bomb [of bs 0 "[]"] inflate_loop_length [of 0 "[]"]
  by (auto simp: inflate_bounded_def)

theorem inflate_is_bounded_witness:
  "inflate_bounded [Inr [1, 2], Inr [3]] = Inr [1, 2, 3]"
  using inflate_is_bounded [of "[[1, 2], [3]]"] by (simp add: MAX_INFLATED_def)

text \<open>
  A chunk's payload decodes to the tree it was encoded from: for every scheme but the custom one,
  encoding a well-formed homogeneous compound succeeds and decoding the payload gives it back.
\<close>

theorem chunk_codec_roundtrip:
  assumes "compressors_ok C"
    "from_binary B (to_binary B (doc_compound False (Compound m)) []) = Inr (doc_compound False (Compound m), [])"
    "scheme \<noteq> Custom" "nbt_wf (Compound m)" "homogeneous (Compound m)"
    "length (write_named (to_binary B) [] (Compound m) False) \<le> MAX_INFLATED"
  shows "\<exists>p. encode_chunk C B (Compound m) scheme = Inr p \<and>
    decode_chunk C B \<lparr>rc_pos = pos, rc_compression = scheme, rc_payload = p, rc_external = ext, rc_timestamp = ts\<rparr> =
      Inr (Compound m)"
proof -
  let ?raw = "write_named (to_binary B) [] (Compound m) False"
  obtain p where p: "compress_level C scheme ?raw 6 = Inr p" "decompress C scheme p = Inr ?raw"
    using compress_decompress [OF assms(1,3,6)] by blast
  have "nbt_read (from_binary B) ?raw = Inr ([], Compound m)"
    unfolding write_named_doc nbt_read_def assms(2)
    using from_doc_compound [OF assms(4,5), of False] by (simp add: key_norm_False)
  with p show ?thesis by (simp add: encode_chunk_def compress_def decode_chunk_def)
qed

definition stored_bytes :: "bytes \<Rightarrow> (string + bytes) list" where
  "stored_bytes p = (if p = [] then [] else [Inr p])"

definition plain_compressors :: compressors where
  "plain_compressors = \<lparr>zlib_dec = stored_bytes, gzip_dec = stored_bytes, lz4_dec = stored_bytes,
     zlib_enc = (\<lambda>_. Inr), gzip_enc = (\<lambda>_. Inr), lz4_enc = Inr\<rparr>"

lemma plain_compressors_ok: "compressors_ok plain_compressors"
proof -
  have "inverse_pair Inr stored_bytes"
    unfolding inverse_pair_def
  proof
    fix raw :: bytes
    show "\<exists>p bs. Inr raw = (Inr p :: anvil_error + bytes) \<and> stored_bytes p = map Inr bs \<and> concat bs = raw \<and> (\<forall>b\<in>set bs. b \<noteq> [])"
      by (cases "raw = []") (auto simp: stored_bytes_def intro: exI [of _ "[]"] exI [of _ "[raw]"])
  qed
  then show ?thesis by (simp add: compressors_ok_def plain_compressors_def)
qed

text \<open>A gzip stream starts with its magic number.\<close>

definition gzip_magic :: "compressors \<Rightarrow> bool" where
  "gzip_magic C = (\<forall>l raw z. gzip_enc C l raw = Inr z \<longrightarrow> sniff z = GZip)"

definition magic_compressors :: compressors where
  "magic_compressors = plain_compressors\<lparr>gzip_enc := (\<lambda>_ raw. Inr (0x1f # 0x8b # raw)), gzip_dec := (\<lambda>b. stored_bytes (drop 2 b))\<rparr>"

lemma magic_compressors_ok: "compressors_ok magic_compressors" "gzip_magic magic_compressors"
proof -
  have "inverse_pair (\<lambda>raw. Inr (0x1f # 0x8b # raw)) (\<lambda>b. stored_bytes (drop 2 b))"
    unfolding inverse_pair_def
  proof
    fix raw :: bytes
    show "\<exists>p bs. Inr (0x1f # 0x8b # raw) = (Inr p :: anvil_error + bytes) \<and> stored_bytes (drop 2 p) = map Inr bs \<and> concat bs = raw \<and>
        (\<forall>b \<in> set bs. b \<noteq> [])"
      by (cases "raw = []") (auto simp: stored_bytes_def intro: exI [of _ "[]"] exI [of _ "[raw]"])
  qed
  then show "compressors_ok magic_compressors" using plain_compressors_ok
    by (simp add: compressors_ok_def magic_compressors_def plain_compressors_def)
  show "gzip_magic magic_compressors" by (simp add: gzip_magic_def magic_compressors_def sniff_def)
qed

definition tiny_codec :: nbt_codec where
  "tiny_codec = \<lparr>to_binary = (\<lambda>c n. [10]), from_binary = (\<lambda>b. Inr ([(''hp'', VInt 20)], []))\<rparr>"

theorem chunk_codec_roundtrip_witness:
  "\<exists>p. encode_chunk plain_compressors tiny_codec (Compound [(''hp'', IntV 20)]) ZLib = Inr p \<and>
    decode_chunk plain_compressors tiny_codec
      \<lparr>rc_pos = mk_pos 0 0, rc_compression = ZLib, rc_payload = p, rc_external = False, rc_timestamp = 0\<rparr> =
      Inr (Compound [(''hp'', IntV 20)])"
  by (rule chunk_codec_roundtrip [OF plain_compressors_ok])
    (simp_all add: tiny_codec_def im_wf_def doc_compound_def to_compound_of_def im_of_list_def
      write_named_def MAX_INFLATED_def)

end
