(* ===== verification/NbtIdentity.thy ===== *)
theory NbtIdentity imports
  NbtValue
begin

text \<open>
  \<^verbatim>\<open>crates/nbt/src/identity.rs\<close>: the key by which list elements are matched across versions, tried
  in the order of the code: modern UUID, legacy UUID, block coordinates, inventory slot, string id.
  The text keys are shown to stand for an abstract identity without collisions.
\<close>

section \<open>The text key\<close>

definition or_else :: "'a option \<Rightarrow> 'a option \<Rightarrow> 'a option" where
  "or_else a b = (case a of None \<Rightarrow> b | Some x \<Rightarrow> Some x)"

definition show_i32 :: "u32 \<Rightarrow> string" where "show_i32 x = show_int (sint x)"
definition show_i64 :: "u64 \<Rightarrow> string" where "show_i64 x = show_int (sint x)"
definition show_i8 :: "u8 \<Rightarrow> string" where "show_i8 x = show_int (sint x)"

definition key_uuid :: "compound \<Rightarrow> string option" where
  "key_uuid m = (case im_get m ''UUID'' of
     Some (IntArray a) \<Rightarrow>
       if length a = 4
       then Some (''uuid:'' @ show_i32 (a ! 0) @ '','' @ show_i32 (a ! 1) @ '','' @ show_i32 (a ! 2)
                  @ '','' @ show_i32 (a ! 3))
       else None
   | _ \<Rightarrow> None)"

definition key_uuid_legacy :: "compound \<Rightarrow> string option" where
  "key_uuid_legacy m = (case im_get m ''UUIDMost'' of
     Some (Long hi) \<Rightarrow> (case im_get m ''UUIDLeast'' of
        Some (Long lo) \<Rightarrow> Some (''uuid:'' @ show_i64 hi @ '':'' @ show_i64 lo) | _ \<Rightarrow> None)
   | _ \<Rightarrow> None)"

definition key_block :: "compound \<Rightarrow> string option" where
  "key_block m = (case im_get m ''x'' of
     Some (IntV x) \<Rightarrow> (case im_get m ''y'' of
        Some (IntV y) \<Rightarrow> (case im_get m ''z'' of
           Some (IntV z) \<Rightarrow>
             Some (''block:'' @ show_i32 x @ '','' @ show_i32 y @ '','' @ show_i32 z)
         | _ \<Rightarrow> None)
      | _ \<Rightarrow> None)
   | _ \<Rightarrow> None)"

definition key_slot :: "compound \<Rightarrow> string option" where
  "key_slot m = (case im_get m ''Slot'' of
     Some (Byte s) \<Rightarrow> Some (''slot:'' @ show_i8 s) | _ \<Rightarrow> None)"

definition key_id :: "compound \<Rightarrow> string option" where
  "key_id m = (case im_get m ''id'' of Some (String i) \<Rightarrow> Some (''id:'' @ i) | _ \<Rightarrow> None)"

definition identity_key :: "nbt_value \<Rightarrow> string option" where
  "identity_key v = (case v of
     Compound m \<Rightarrow>
       or_else (key_uuid m) (or_else (key_uuid_legacy m) (or_else (key_block m)
         (or_else (key_slot m) (key_id m))))
   | _ \<Rightarrow> None)"

section \<open>The abstract identity\<close>

datatype ident =
    Uuid u32 u32 u32 u32
  | LegacyUuid u64 u64
  | BlockPos u32 u32 u32
  | Slot u8
  | NamedId string

fun show_ident :: "ident \<Rightarrow> string" where
  "show_ident (Uuid a b c d) =
     ''uuid:'' @ show_i32 a @ '','' @ show_i32 b @ '','' @ show_i32 c @ '','' @ show_i32 d"
| "show_ident (LegacyUuid hi lo) = ''uuid:'' @ show_i64 hi @ '':'' @ show_i64 lo"
| "show_ident (BlockPos x y z) = ''block:'' @ show_i32 x @ '','' @ show_i32 y @ '','' @ show_i32 z"
| "show_ident (Slot s) = ''slot:'' @ show_i8 s"
| "show_ident (NamedId i) = ''id:'' @ i"

text \<open>The identity an element has by the documented order of preference, read off its fields.\<close>

inductive has_ident :: "compound \<Rightarrow> ident \<Rightarrow> bool" where
  uuid: "im_get m ''UUID'' = Some (IntArray [a, b, c, d]) \<Longrightarrow> has_ident m (Uuid a b c d)"
| legacy: "\<nexists>a b c d. im_get m ''UUID'' = Some (IntArray [a, b, c, d]) \<Longrightarrow>
    im_get m ''UUIDMost'' = Some (Long hi) \<Longrightarrow> im_get m ''UUIDLeast'' = Some (Long lo) \<Longrightarrow>
    has_ident m (LegacyUuid hi lo)"
| block: "\<nexists>a b c d. im_get m ''UUID'' = Some (IntArray [a, b, c, d]) \<Longrightarrow>
    \<nexists>hi lo. im_get m ''UUIDMost'' = Some (Long hi) \<and> im_get m ''UUIDLeast'' = Some (Long lo) \<Longrightarrow>
    im_get m ''x'' = Some (IntV x) \<Longrightarrow> im_get m ''y'' = Some (IntV y) \<Longrightarrow>
    im_get m ''z'' = Some (IntV z) \<Longrightarrow> has_ident m (BlockPos x y z)"
| slot: "\<nexists>a b c d. im_get m ''UUID'' = Some (IntArray [a, b, c, d]) \<Longrightarrow>
    \<nexists>hi lo. im_get m ''UUIDMost'' = Some (Long hi) \<and> im_get m ''UUIDLeast'' = Some (Long lo) \<Longrightarrow>
    \<nexists>x y z. im_get m ''x'' = Some (IntV x) \<and> im_get m ''y'' = Some (IntV y) \<and>
      im_get m ''z'' = Some (IntV z) \<Longrightarrow>
    im_get m ''Slot'' = Some (Byte s) \<Longrightarrow> has_ident m (Slot s)"
| named: "\<nexists>a b c d. im_get m ''UUID'' = Some (IntArray [a, b, c, d]) \<Longrightarrow>
    \<nexists>hi lo. im_get m ''UUIDMost'' = Some (Long hi) \<and> im_get m ''UUIDLeast'' = Some (Long lo) \<Longrightarrow>
    \<nexists>x y z. im_get m ''x'' = Some (IntV x) \<and> im_get m ''y'' = Some (IntV y) \<and>
      im_get m ''z'' = Some (IntV z) \<Longrightarrow>
    \<nexists>s. im_get m ''Slot'' = Some (Byte s) \<Longrightarrow>
    im_get m ''id'' = Some (String i) \<Longrightarrow> has_ident m (NamedId i)"

inductive_cases has_identE: "has_ident m i"

lemma append_sep_inject:
  fixes c :: char
  shows "c \<notin> set a \<Longrightarrow> c \<notin> set a' \<Longrightarrow> a @ c # b = a' @ c # b' \<longleftrightarrow> a = a' \<and> b = b'"
  by (metis split_once_append option.inject prod.inject)

lemma show_sint_chars [text_simps]:
  "CHR '','' \<notin> set (show_i32 x)" "CHR '','' \<notin> set (show_i64 h)" "CHR '','' \<notin> set (show_i8 s)"
  "CHR '':'' \<notin> set (show_i32 x)" "CHR '':'' \<notin> set (show_i64 h)" "CHR '':'' \<notin> set (show_i8 s)"
  "CHR '']'' \<notin> set (show_i32 x)" "CHR '']'' \<notin> set (show_i64 h)" "CHR '']'' \<notin> set (show_i8 s)"
  by (auto simp: show_i32_def show_i64_def show_i8_def not_digit_punct dest!: show_int_chars)

lemma sint_inj_iff: "sint (x :: 'a :: len word) = sint y \<longleftrightarrow> x = y"
  using signed_word_eqI by blast

lemma show_sint_inj [text_simps]:
  "show_i32 x = show_i32 y \<longleftrightarrow> x = y" "show_i64 h = show_i64 k \<longleftrightarrow> h = k"
  "show_i8 s = show_i8 t \<longleftrightarrow> s = t"
  by (simp_all add: show_i32_def show_i64_def show_i8_def show_int_inj sint_inj_iff)

lemma uuid_forms_differ:
  "show_i32 a @ CHR '','' # r \<noteq> show_i64 h @ CHR '':'' # show_i64 l"
proof
  assume eq: "show_i32 a @ CHR '','' # r = show_i64 h @ CHR '':'' # show_i64 l"
  have "CHR '','' \<in> set (show_i32 a @ CHR '','' # r)" by simp
  then have "CHR '','' \<in> set (show_i64 h @ CHR '':'' # show_i64 l)" unfolding eq .
  then show False by (simp add: text_simps)
qed

lemmas sep_comma = append_sep_inject [where c = "CHR '',''"]
lemmas sep_colon = append_sep_inject [where c = "CHR '':''"]

lemma show_ident_Cons:
  "show_ident (Uuid a b c d) =
     ''uuid:'' @ (show_i32 a @ CHR '','' # (show_i32 b @ CHR '','' # (show_i32 c @ CHR '','' # show_i32 d)))"
  "show_ident (LegacyUuid hi lo) = ''uuid:'' @ (show_i64 hi @ CHR '':'' # show_i64 lo)"
  "show_ident (BlockPos x y z) =
     ''block:'' @ (show_i32 x @ CHR '','' # (show_i32 y @ CHR '','' # show_i32 z))"
  by simp_all

lemma show_ident_Uuid: "show_ident (Uuid a b c d) = show_ident j \<longleftrightarrow> Uuid a b c d = j"
proof (cases j)
  case (Uuid a' b' c' d')
  then show ?thesis unfolding Uuid show_ident_Cons by (simp only: same_append_eq sep_comma show_sint_chars show_sint_inj not_False_eq_True ident.inject)
next
  case (LegacyUuid h l)
  then show ?thesis
    unfolding LegacyUuid show_ident_Cons by (simp only: same_append_eq uuid_forms_differ ident.distinct)
qed simp_all

lemma show_ident_Legacy: "show_ident (LegacyUuid h l) = show_ident j \<longleftrightarrow> LegacyUuid h l = j"
proof (cases j)
  case (Uuid a b c d)
  then show ?thesis
    unfolding Uuid show_ident_Cons
    by (simp only: same_append_eq uuid_forms_differ [symmetric] ident.distinct)
next
  case (LegacyUuid h' l')
  then show ?thesis
    unfolding LegacyUuid show_ident_Cons
    by (simp only: same_append_eq sep_colon show_sint_chars show_sint_inj not_False_eq_True ident.inject)
qed simp_all

lemma show_ident_Block: "show_ident (BlockPos x y z) = show_ident j \<longleftrightarrow> BlockPos x y z = j"
proof (cases j)
  case (BlockPos x' y' z')
  then show ?thesis
    unfolding BlockPos show_ident_Cons
    by (simp only: same_append_eq sep_comma show_sint_chars show_sint_inj not_False_eq_True ident.inject)
qed simp_all

lemma show_ident_inj: "show_ident i = show_ident j \<longleftrightarrow> i = j"
proof (cases i)
  case (Slot s)
  then show ?thesis by (cases j) (simp_all add: show_sint_inj)
next
  case (NamedId s)
  then show ?thesis by (cases j) simp_all
qed (simp_all only: show_ident_Uuid show_ident_Legacy show_ident_Block)

lemma length_four: "length xs = 4 \<longleftrightarrow> (\<exists>a b c d. xs = [a, b, c, d])"
  by (auto simp: length_Suc_conv eval_nat_numeral)

lemma key_uuid_Some:
  "key_uuid m = Some k \<longleftrightarrow>
     (\<exists>a b c d. im_get m ''UUID'' = Some (IntArray [a, b, c, d]) \<and> k = show_ident (Uuid a b c d))"
proof (cases "\<exists>xs. im_get m ''UUID'' = Some (IntArray xs)")
  case True
  then obtain xs where xs: "im_get m ''UUID'' = Some (IntArray xs)" by blast
  show ?thesis
  proof (cases "length xs = 4")
    case True
    then obtain a b c d where "xs = [a, b, c, d]" unfolding length_four by blast
    with xs show ?thesis by (auto simp: key_uuid_def)
  next
    case False
    with xs show ?thesis by (auto simp: key_uuid_def)
  qed
next
  case False
  then show ?thesis by (auto simp: key_uuid_def split: option.splits nbt_value.splits)
qed

lemma key_legacy_Some:
  "key_uuid_legacy m = Some k \<longleftrightarrow>
     (\<exists>h l. im_get m ''UUIDMost'' = Some (Long h) \<and> im_get m ''UUIDLeast'' = Some (Long l) \<and>
        k = show_ident (LegacyUuid h l))"
  by (auto simp: key_uuid_legacy_def split: option.splits nbt_value.splits)

lemma key_block_Some:
  "key_block m = Some k \<longleftrightarrow>
     (\<exists>x y z. im_get m ''x'' = Some (IntV x) \<and> im_get m ''y'' = Some (IntV y) \<and>
        im_get m ''z'' = Some (IntV z) \<and> k = show_ident (BlockPos x y z))"
  by (auto simp: key_block_def split: option.splits nbt_value.splits)

lemma key_slot_Some:
  "key_slot m = Some k \<longleftrightarrow> (\<exists>s. im_get m ''Slot'' = Some (Byte s) \<and> k = show_ident (Slot s))"
  by (auto simp: key_slot_def split: option.splits nbt_value.splits)

lemma key_id_Some:
  "key_id m = Some k \<longleftrightarrow> (\<exists>i. im_get m ''id'' = Some (String i) \<and> k = show_ident (NamedId i))"
  by (auto simp: key_id_def split: option.splits nbt_value.splits)

lemmas key_Some = key_uuid_Some key_legacy_Some key_block_Some key_slot_Some key_id_Some

lemma or_else_Some: "or_else a b = Some x \<longleftrightarrow> a = Some x \<or> (a = None \<and> b = Some x)"
  by (cases a) (auto simp: or_else_def)

lemma key_None:
  "key_uuid m = None \<longleftrightarrow> (\<nexists>a b c d. im_get m ''UUID'' = Some (IntArray [a, b, c, d]))"
  "key_uuid_legacy m = None \<longleftrightarrow>
     (\<nexists>h l. im_get m ''UUIDMost'' = Some (Long h) \<and> im_get m ''UUIDLeast'' = Some (Long l))"
  "key_block m = None \<longleftrightarrow>
     (\<nexists>x y z. im_get m ''x'' = Some (IntV x) \<and> im_get m ''y'' = Some (IntV y) \<and>
        im_get m ''z'' = Some (IntV z))"
  "key_slot m = None \<longleftrightarrow> (\<nexists>s. im_get m ''Slot'' = Some (Byte s))"
  using key_uuid_Some [of m] key_legacy_Some [of m] key_block_Some [of m] key_slot_Some [of m]
  by (metis not_None_eq)+

lemma identity_key_has_ident:
  "identity_key (Compound m) = Some k \<longleftrightarrow> (\<exists>i. has_ident m i \<and> k = show_ident i)"
proof
  assume "identity_key (Compound m) = Some k"
  then show "\<exists>i. has_ident m i \<and> k = show_ident i"
    unfolding identity_key_def nbt_value.case or_else_Some key_None key_Some
    by (elim disjE conjE exE) (blast intro: has_ident.intros)+
next
  assume "\<exists>i. has_ident m i \<and> k = show_ident i"
  then obtain i where i: "has_ident m i" and k: "k = show_ident i" by blast
  from i show "identity_key (Compound m) = Some k"
    unfolding identity_key_def nbt_value.case or_else_Some key_None key_Some k
    by (cases rule: has_ident.cases) blast+
qed

lemma identity_key_Compound: "identity_key v = Some k \<Longrightarrow> \<exists>m. v = Compound m"
  by (cases v) (auto simp: identity_key_def)

section \<open>Properties\<close>

text \<open>
  The text key of a list element stands for exactly one abstract identity: an element has a
  key iff its fields give it an identity by the documented order of preference, and two elements
  have the same key iff they have the same identity, so a UUID never collides with a position, a
  slot or an id, nor a modern UUID with a legacy one.
\<close>

theorem identity_key_faithful:
  "(identity_key (Compound m) = Some k \<longleftrightarrow> (\<exists>i. has_ident m i \<and> k = show_ident i)) \<and>
   (show_ident i = show_ident j \<longleftrightarrow> i = j)"
  using identity_key_has_ident show_ident_inj by blast

end
