(* ===== verification/AnvilRegion.thy ===== *)
theory AnvilRegion imports
  AnvilChunk
  NbtIdentity
begin

text \<open>
  \<^verbatim>\<open>crates/anvil/src/region.rs\<close>: the region container, byte for byte. A directory is a map from
  file names to files; writing a file succeeds (the errors of the operating system are not
  modelled), a special file (device, pipe, directory) has no bytes to read. The map of chunks of a
  parsed region is kept in the order of the slots, where the code's hash map has none.
\<close>

section \<open>Bytes\<close>

definition slice :: "nat \<Rightarrow> nat \<Rightarrow> 'a list \<Rightarrow> 'a list" where
  "slice at n l = take n (drop at l)"

text \<open>\<^verbatim>\<open>copy_from_slice\<close> into a part of a buffer.\<close>

definition set_slice :: "nat \<Rightarrow> 'a list \<Rightarrow> 'a list \<Rightarrow> 'a list" where
  "set_slice at xs l = take at l @ xs @ drop (at + length xs) l"

definition be32 :: "u32 \<Rightarrow> bytes" where
  "be32 w = [ucast (drop_bit 24 w), ucast (drop_bit 16 w), ucast (drop_bit 8 w), ucast w]"

definition of_be32 :: "u8 \<Rightarrow> u8 \<Rightarrow> u8 \<Rightarrow> u8 \<Rightarrow> u32" where
  "of_be32 a b c d = push_bit 24 (ucast a) OR push_bit 16 (ucast b) OR push_bit 8 (ucast c) OR ucast d"

definition SECTOR :: nat where "SECTOR = 4096"
definition MAX_INLINE_SECTORS :: nat where "MAX_INLINE_SECTORS = 255"
definition MAX_EXTERNAL_CHUNK :: nat where "MAX_EXTERNAL_CHUNK = 128 * 1024 * 1024"

section \<open>Files\<close>

datatype fnode = Regular bytes | Special

type_synonym directory = "string \<Rightarrow> fnode option"

definition mcc_name :: "chunk_pos \<Rightarrow> string" where
  "mcc_name p = ''c.'' @ show_i32 (pos_x p) @ CHR ''.'' # show_i32 (pos_z p) @ ''.mcc''"

section \<open>Writing\<close>

record writer =
  w_header :: bytes
  w_bodies :: bytes
  w_offset :: nat
  w_files :: directory

definition sectors_needed :: "raw_chunk \<Rightarrow> nat" where
  "sectors_needed ch = (5 + length (rc_payload ch) + (SECTOR - 1)) div SECTOR"

definition chunk_body :: "bytes \<Rightarrow> u8 \<Rightarrow> nat \<Rightarrow> bytes" where
  "chunk_body inl comp_byte sectors =
     set_slice 5 inl (set_slice 4 [comp_byte]
       (set_slice 0 (be32 (of_nat (length inl) + 1)) (replicate (sectors * SECTOR) 0)))"

definition write_chunk :: "writer \<Rightarrow> raw_chunk \<Rightarrow> writer" where
  "write_chunk w ch =
     (let spill = sectors_needed ch > MAX_INLINE_SECTORS;
          files = (if spill then (w_files w)(mcc_name (rc_pos ch) \<mapsto> Regular (rc_payload ch)) else w_files w);
          comp_byte = (if spill then comp_to_byte (rc_compression ch) OR 0x80
                       else comp_to_byte (rc_compression ch));
          inl = (if spill then [] else rc_payload ch);
          sectors = (if spill then 1 else sectors_needed ch);
          e = region_index (rc_pos ch) * 4;
          off = (of_nat (w_offset w) :: u64)
      in \<lparr>w_header =
            set_slice (SECTOR + e) (be32 (rc_timestamp ch))
              (set_slice e [ucast (drop_bit 16 off), ucast (drop_bit 8 off), ucast off, of_nat sectors]
                (w_header w)),
          w_bodies = w_bodies w @ chunk_body inl comp_byte sectors,
          w_offset = w_offset w + sectors,
          w_files = files\<rparr>)"

definition region_write :: "string \<Rightarrow> raw_chunk list \<Rightarrow> directory \<Rightarrow> directory" where
  "region_write name chunks dir =
     (let w = foldl write_chunk
            \<lparr>w_header = replicate (SECTOR * 2) 0, w_bodies = [], w_offset = 2, w_files = dir\<rparr>
            (sort_key (\<lambda>c. region_index (rc_pos c)) chunks)
      in (w_files w)(name \<mapsto> Regular (w_header w @ w_bodies w)))"

section \<open>Parsing\<close>

text \<open>\<^verbatim>\<open>Path::file_stem\<close> of a file name.\<close>

definition file_stem :: "string \<Rightarrow> string" where
  "file_stem s = (case split_once CHR ''.'' (rev s) of
     None \<Rightarrow> s | Some (ext, base) \<Rightarrow> if base = [] then s else rev base)"

definition parse_region_coords :: "string \<Rightarrow> anvil_error + u32 \<times> u32" where
  "parse_region_coords name =
     (case split_on CHR ''.'' (file_stem name) of
        [r, xs, zs] \<Rightarrow>
          (case (parse_signed 32 xs, parse_signed 32 zs) of
             (Some x, Some z) \<Rightarrow> if r = ''r'' then Inr (word_of_int x, word_of_int z) else Inl (BadRegionName name)
           | _ \<Rightarrow> Inl (BadRegionName name))
      | _ \<Rightarrow> Inl (BadRegionName name))"

text \<open>
  One slot of the location table: nothing when it is empty, points past the end, has an unknown
  scheme or no data; an external body that is too large or no regular file is an error.
\<close>

definition parse_slot :: "directory \<Rightarrow> bytes \<Rightarrow> u32 \<Rightarrow> u32 \<Rightarrow> nat \<Rightarrow> anvil_error + raw_chunk option" where
  "parse_slot dir b rx rz i =
     (let e = i * 4;
          offset_sectors = unat (of_be32 0 (b ! e) (b ! (e + 1)) (b ! (e + 2)));
          sector_count = b ! (e + 3)
      in if offset_sectors = 0 \<or> sector_count = 0 then Inr None
      else let start = offset_sectors * SECTOR
      in if start + 5 > length b then Inr None
      else let len = sint (of_be32 (b ! start) (b ! (start + 1)) (b ! (start + 2)) (b ! (start + 3)))
      in if len \<le> 0 then Inr None
      else let comp_byte = b ! (start + 4);
          external = (comp_byte AND 0x80 \<noteq> 0)
      in case comp_from_byte (comp_byte AND 0x7F) of
        None \<Rightarrow> Inr None
      | Some scheme \<Rightarrow>
          (let pos = from_region_index rx rz i;
               ts_at = SECTOR + e;
               ts = of_be32 (b ! ts_at) (b ! (ts_at + 1)) (b ! (ts_at + 2)) (b ! (ts_at + 3));
               mk = (\<lambda>payload. \<lparr>rc_pos = pos, rc_compression = scheme, rc_payload = payload,
                 rc_external = external, rc_timestamp = ts\<rparr>)
           in if external then
                (case dir (mcc_name pos) of
                   Some (Regular body) \<Rightarrow>
                     if length body > MAX_EXTERNAL_CHUNK then Inl (ExternalChunkTooLarge MAX_EXTERNAL_CHUNK)
                     else Inr (Some (mk body))
                 | Some Special \<Rightarrow> Inl (ExternalChunkTooLarge MAX_EXTERNAL_CHUNK)
                 | None \<Rightarrow> Inr None)
              else
                (let data_start = start + 5;
                     data_len = (if data_start + (nat len - 1) > length b then length b - data_start
                                 else nat len - 1)
                 in if data_len = 0 then Inr None
                    else Inr (Some (mk (slice data_start data_len b))))))"

fun parse_slots :: "directory \<Rightarrow> bytes \<Rightarrow> u32 \<Rightarrow> u32 \<Rightarrow> nat list \<Rightarrow> (chunk_pos \<times> raw_chunk) list \<Rightarrow>
    anvil_error + (chunk_pos \<times> raw_chunk) list" where
  "parse_slots dir b rx rz [] m = Inr m"
| "parse_slots dir b rx rz (i # is) m =
     rbind (parse_slot dir b rx rz i) (\<lambda>r.
       parse_slots dir b rx rz is (case r of None \<Rightarrow> m | Some ch \<Rightarrow> im_insert (rc_pos ch) ch m))"

record region_file =
  rf_x :: u32
  rf_z :: u32
  rf_chunks :: "(chunk_pos \<times> raw_chunk) list"

definition region_parse :: "directory \<Rightarrow> string \<Rightarrow> bytes \<Rightarrow> anvil_error + region_file" where
  "region_parse dir name b =
     rbind (parse_region_coords name) (\<lambda>(rx, rz).
       if length b < SECTOR * 2 then Inr \<lparr>rf_x = rx, rf_z = rz, rf_chunks = []\<rparr>
       else rbind (parse_slots dir b rx rz [0..<1024] []) (\<lambda>m.
         Inr \<lparr>rf_x = rx, rf_z = rz, rf_chunks = m\<rparr>))"

definition region_get :: "region_file \<Rightarrow> chunk_pos \<Rightarrow> raw_chunk option" where
  "region_get rf p = im_get (rf_chunks rf) p"

definition region_chunks :: "region_file \<Rightarrow> raw_chunk list" where
  "region_chunks rf = map snd (rf_chunks rf)"

definition region_open :: "directory \<Rightarrow> string \<Rightarrow> anvil_error + region_file" where
  "region_open dir name = (case dir name of
     Some (Regular b) \<Rightarrow> region_parse dir name b
   | _ \<Rightarrow> Inl (Io ''read''))"

section \<open>Slices\<close>

lemma set_slice_length [simp]: "at + length xs \<le> length l \<Longrightarrow> length (set_slice at xs l) = length l"
  by (simp add: set_slice_def)

lemma slice_set_same: "at + length xs \<le> length l \<Longrightarrow> n = length xs \<Longrightarrow> slice at n (set_slice at xs l) = xs"
  by (simp add: slice_def set_slice_def)

lemma slice_append1: "at + n \<le> length a \<Longrightarrow> slice at n (a @ b) = slice at n a"
  by (simp add: slice_def)

lemma slice_append2: "length a \<le> at \<Longrightarrow> slice at n (a @ b) = slice (at - length a) n b"
  by (simp add: slice_def)

lemma slice_take: "at + n \<le> k \<Longrightarrow> slice at n (take k l) = slice at n l"
  by (simp add: slice_def drop_take min_absorb1)

lemma slice_drop: "slice at n (drop k l) = slice (k + at) n l"
  by (simp add: slice_def add.commute)

lemma slice_set_other:
  assumes "at + length xs \<le> length l" "at' + n \<le> at \<or> at + length xs \<le> at'"
  shows "slice at' n (set_slice at xs l) = slice at' n l"
  using assms(2)
proof
  assume "at' + n \<le> at"
  with assms(1) show ?thesis
    by (simp add: set_slice_def slice_append1 slice_take)
next
  assume "at + length xs \<le> at'"
  with assms(1) show ?thesis
    by (simp add: set_slice_def slice_append2 slice_drop)
qed

lemma slice_prefix: "slice at n l = xs \<Longrightarrow> m \<le> n \<Longrightarrow> slice at m l = take m xs"
  by (auto simp: slice_def min_absorb1)

lemma slice_suffix: "slice at (k + n) l = xs \<Longrightarrow> slice (at + k) n l = drop k xs"
  by (auto simp: slice_def drop_take add.commute)

lemma slice_nth: "slice at n l = xs \<Longrightarrow> k < n \<Longrightarrow> at + n \<le> length l \<Longrightarrow> l ! (at + k) = xs ! k"
  by (auto simp: slice_def)

lemma slice_split: "slice at (m + n) l = slice at m l @ slice (at + m) n l"
  by (simp add: slice_def take_add add.commute)

section \<open>Fixed-width fields\<close>

lemma be32_length [simp]: "length (be32 w) = 4"
  by (simp add: be32_def)

lemma be32_nth [simp]:
  "be32 w ! 0 = ucast (drop_bit 24 w)" "be32 w ! 1 = ucast (drop_bit 16 w)" "be32 w ! Suc 0 = ucast (drop_bit 16 w)"
  "be32 w ! 2 = ucast (drop_bit 8 w)" "be32 w ! 3 = ucast w"
  by (simp_all add: be32_def)

lemma of_be32_be32: "of_be32 (be32 w ! 0) (be32 w ! 1) (be32 w ! 2) (be32 w ! 3) = w"
  unfolding of_be32_def be32_nth
proof (rule bit_word_eqI)
  fix n assume "n < LENGTH(32)"
  then show "bit (push_bit 24 (ucast (ucast (drop_bit 24 w) :: u8)) OR push_bit 16 (ucast (ucast (drop_bit 16 w) :: u8))
      OR push_bit 8 (ucast (ucast (drop_bit 8 w) :: u8)) OR ucast (ucast w :: u8) :: u32) n = bit w n"
    by (cases "n < 8"; cases "n < 16"; cases "n < 24"; simp add: bit_simps; (linarith | auto)?)
qed

lemma of_be24:
  fixes w :: u64
  assumes "unat w < 2 ^ 24"
  shows "unat (of_be32 0 (ucast (drop_bit 16 w)) (ucast (drop_bit 8 w)) (ucast w)) = unat w"
proof -
  have "unat (take_bit 24 w) = unat w"
    using assms by (simp add: unsigned_take_bit_eq take_bit_nat_eq_self)
  then have w: "take_bit 24 w = w" by (rule unsigned_word_eqI)
  have high: "\<not> bit w n" if "24 \<le> n" for n
    using arg_cong [OF w, of "\<lambda>x. bit x n"] that by (simp add: bit_take_bit_iff)
  have "of_be32 0 (ucast (drop_bit 16 w)) (ucast (drop_bit 8 w)) (ucast w) = (ucast w :: u32)"
    unfolding of_be32_def
  proof (rule bit_word_eqI)
    fix n assume "n < LENGTH(32)"
    then show "bit (push_bit 24 (ucast (0 :: u8)) OR push_bit 16 (ucast (ucast (drop_bit 16 w) :: u8))
        OR push_bit 8 (ucast (ucast (drop_bit 8 w) :: u8)) OR ucast (ucast w :: u8) :: u32) n = bit (ucast w :: u32) n"
      using high [of n] by (cases "n < 8"; cases "n < 16"; cases "n < 24"; simp add: bit_simps; (linarith | auto)?)
  qed
  then show ?thesis
    using assms by (simp add: unsigned_ucast_eq take_bit_nat_eq_self)
qed

section \<open>What the writer lays out\<close>

definition spills :: "raw_chunk \<Rightarrow> bool" where
  "spills ch \<longleftrightarrow> sectors_needed ch > MAX_INLINE_SECTORS"

definition inline_of :: "raw_chunk \<Rightarrow> bytes" where
  "inline_of ch = (if spills ch then [] else rc_payload ch)"

definition tag_of :: "raw_chunk \<Rightarrow> u8" where
  "tag_of ch = (if spills ch then comp_to_byte (rc_compression ch) OR 0x80 else comp_to_byte (rc_compression ch))"

definition sectors_of :: "raw_chunk \<Rightarrow> nat" where
  "sectors_of ch = (if spills ch then 1 else sectors_needed ch)"

abbreviation slot_index :: "raw_chunk \<Rightarrow> nat" where
  "slot_index ch \<equiv> region_index (rc_pos ch)"

lemma sectors_fit: "5 + length (inline_of ch) \<le> sectors_of ch * 4096" "1 \<le> sectors_of ch" "sectors_of ch \<le> 255"
proof -
  let ?n = "5 + length (rc_payload ch) + 4095"
  have "?n = ?n div 4096 * 4096 + ?n mod 4096" "?n mod 4096 < 4096" by simp_all
  then have "length (rc_payload ch) + 5 \<le> ?n div 4096 * 4096" by linarith
  then have "length (rc_payload ch) + 5 \<le> sectors_needed ch * 4096"
    by (simp add: sectors_needed_def SECTOR_def)
  moreover from this have "1 \<le> sectors_needed ch" by (cases "sectors_needed ch") simp_all
  ultimately show "5 + length (inline_of ch) \<le> sectors_of ch * 4096" "1 \<le> sectors_of ch" "sectors_of ch \<le> 255"
    by (auto simp: inline_of_def sectors_of_def spills_def MAX_INLINE_SECTORS_def)
qed

lemma chunk_body_layout:
  assumes "5 + length inl \<le> n * 4096"
  shows "length (chunk_body inl c n) = n * 4096"
    "slice 0 (5 + length inl) (chunk_body inl c n) = be32 (of_nat (length inl) + 1) @ [c] @ inl"
proof -
  let ?l0 = "set_slice 0 (be32 (of_nat (length inl) + 1)) (replicate (n * 4096) (0 :: u8))"
  let ?l1 = "set_slice 4 [c] ?l0"
  have len: "length ?l0 = n * 4096" "length ?l1 = n * 4096"
    using assms by (subst set_slice_length; simp)+
  then show "length (chunk_body inl c n) = n * 4096"
    using assms by (simp add: chunk_body_def SECTOR_def)
  have "slice 5 (length inl) (chunk_body inl c n) = inl"
    unfolding chunk_body_def SECTOR_def using len assms by (intro slice_set_same) simp_all
  moreover have "slice 4 1 (chunk_body inl c n) = [c]"
    unfolding chunk_body_def SECTOR_def using len assms
    by (subst slice_set_other) (simp_all add: slice_set_same)
  moreover have "slice 0 4 (chunk_body inl c n) = be32 (of_nat (length inl) + 1)"
    unfolding chunk_body_def SECTOR_def using len assms
    by (subst slice_set_other, simp, simp, subst slice_set_other) (simp_all add: slice_set_same)
  ultimately show "slice 0 (5 + length inl) (chunk_body inl c n) = be32 (of_nat (length inl) + 1) @ [c] @ inl"
    using slice_split [of 0 4 "1 + length inl" "chunk_body inl c n"] slice_split [of 4 1 "length inl" "chunk_body inl c n"]
    by (simp add: add.commute)
qed

definition location :: "nat \<Rightarrow> nat \<Rightarrow> bytes" where
  "location o' n = [ucast (drop_bit 16 (of_nat o' :: u64)), ucast (drop_bit 8 (of_nat o' :: u64)),
     ucast (of_nat o' :: u64), of_nat n]"

definition laid_out :: "writer \<Rightarrow> raw_chunk \<Rightarrow> nat \<Rightarrow> bool" where
  "laid_out w ch o' \<longleftrightarrow> 2 \<le> o' \<and> o' + sectors_of ch \<le> w_offset w \<and>
     slice (slot_index ch * 4) 4 (w_header w) = location o' (sectors_of ch) \<and>
     slice (4096 + slot_index ch * 4) 4 (w_header w) = be32 (rc_timestamp ch) \<and>
     slice ((o' - 2) * 4096) (5 + length (inline_of ch)) (w_bodies w) =
       be32 (of_nat (length (inline_of ch)) + 1) @ [tag_of ch] @ inline_of ch \<and>
     (spills ch \<longrightarrow> w_files w (mcc_name (rc_pos ch)) = Some (Regular (rc_payload ch)))"

definition writer_inv :: "raw_chunk list \<Rightarrow> writer \<Rightarrow> bool" where
  "writer_inv cs w \<longleftrightarrow> length (w_header w) = 8192 \<and> 2 \<le> w_offset w \<and> w_offset w \<le> 2 + 255 * length cs \<and>
     length (w_bodies w) = (w_offset w - 2) * 4096 \<and> (\<forall>ch \<in> set cs. \<exists>o'. laid_out w ch o') \<and>
     (\<forall>i < 1024. i \<notin> slot_index ` set cs \<longrightarrow> slice (i * 4) 4 (w_header w) = [0, 0, 0, 0])"

lemma write_chunk_simps:
  "w_header (write_chunk w ch) = set_slice (4096 + slot_index ch * 4) (be32 (rc_timestamp ch))
     (set_slice (slot_index ch * 4) (location (w_offset w) (sectors_of ch)) (w_header w))"
  "w_bodies (write_chunk w ch) = w_bodies w @ chunk_body (inline_of ch) (tag_of ch) (sectors_of ch)"
  "w_offset (write_chunk w ch) = w_offset w + sectors_of ch"
  "w_files (write_chunk w ch) = (if spills ch then (w_files w)(mcc_name (rc_pos ch) \<mapsto> Regular (rc_payload ch))
     else w_files w)"
  by (simp_all add: write_chunk_def Let_def spills_def inline_of_def tag_of_def sectors_of_def location_def SECTOR_def)

lemma location_length [simp]: "length (location o' n) = 4"
  by (simp add: location_def)

lemma header_slices:
  assumes "length h = 8192" "i < 1024" "j < 1024"
  shows "slice (i * 4) 4 (set_slice (4096 + j * 4) (be32 t) (set_slice (j * 4) (location o' n) h)) =
      (if i = j then location o' n else slice (i * 4) 4 h)"
    "slice (4096 + i * 4) 4 (set_slice (4096 + j * 4) (be32 t) (set_slice (j * 4) (location o' n) h)) =
      (if i = j then be32 t else slice (4096 + i * 4) 4 h)"
    "length (set_slice (4096 + j * 4) (be32 t) (set_slice (j * 4) (location o' n) h)) = 8192"
proof -
  have ne: "i * 4 + 4 \<le> j * 4 \<or> j * 4 + 4 \<le> i * 4" if "i \<noteq> j" using that by linarith
  have len: "length (set_slice (j * 4) (location o' n) h) = 8192" using assms by (simp add: set_slice_length)
  then show "length (set_slice (4096 + j * 4) (be32 t) (set_slice (j * 4) (location o' n) h)) = 8192"
    using assms by simp
  show "slice (i * 4) 4 (set_slice (4096 + j * 4) (be32 t) (set_slice (j * 4) (location o' n) h)) =
      (if i = j then location o' n else slice (i * 4) 4 h)"
    using assms len ne by (subst slice_set_other) (auto simp: slice_set_same slice_set_other)
  show "slice (4096 + i * 4) 4 (set_slice (4096 + j * 4) (be32 t) (set_slice (j * 4) (location o' n) h)) =
      (if i = j then be32 t else slice (4096 + i * 4) 4 h)"
  proof (cases "i = j")
    case True
    then show ?thesis using assms len by (simp add: slice_set_same)
  next
    case False
    have "slice (4096 + i * 4) 4 (set_slice (4096 + j * 4) (be32 t) (set_slice (j * 4) (location o' n) h)) =
        slice (4096 + i * 4) 4 (set_slice (j * 4) (location o' n) h)"
      using ne [OF False] assms len by (intro slice_set_other) (simp_all add: add.commute)
    also have "\<dots> = slice (4096 + i * 4) 4 h"
      using assms by (intro slice_set_other) simp_all
    finally show ?thesis using False by simp
  qed
qed

lemma laid_out_other:
  assumes "laid_out w ch o'" "length (w_header w) = 8192" "slot_index c \<noteq> slot_index ch"
    "mcc_name (rc_pos c) \<noteq> mcc_name (rc_pos ch)" "length (w_bodies w) = (w_offset w - 2) * 4096"
  shows "laid_out (write_chunk w c) ch o'"
proof -
  have fit: "(o' - 2) * 4096 + (5 + length (inline_of ch)) \<le> length (w_bodies w)"
  proof -
    have "(o' - 2) * 4096 + sectors_of ch * 4096 \<le> (w_offset w - 2) * 4096"
      using assms(1) unfolding laid_out_def add_mult_distrib [symmetric]
      by (intro mult_le_mono1) linarith
    then show ?thesis using sectors_fit(1) [of ch] assms(5) by linarith
  qed
  show ?thesis
    using assms header_slices [OF assms(2) region_index_less [of "rc_pos ch"] region_index_less [of "rc_pos c"]]
    by (auto simp: laid_out_def write_chunk_simps slice_append1 [OF fit])
qed

lemma writer_inv_step:
  assumes inv: "writer_inv cs w" and new: "slot_index c \<notin> slot_index ` set cs"
    "\<And>ch. ch \<in> set cs \<Longrightarrow> mcc_name (rc_pos c) \<noteq> mcc_name (rc_pos ch)"
  shows "writer_inv (c # cs) (write_chunk w c)"
proof -
  from inv have w: "length (w_header w) = 8192" "2 \<le> w_offset w" "w_offset w \<le> 2 + 255 * length cs"
    "length (w_bodies w) = (w_offset w - 2) * 4096" by (simp_all add: writer_inv_def)
  note body = chunk_body_layout [OF sectors_fit(1) [of c], of "tag_of c"]
  note hd = header_slices [OF w(1) _ region_index_less [of "rc_pos c"]]
  have "laid_out (write_chunk w c) c (w_offset w)"
    using w(2) hd(1,2) [OF region_index_less [of "rc_pos c"]] body(2)
    by (simp add: laid_out_def write_chunk_simps w(4) slice_append2)
  moreover have "\<exists>o'. laid_out (write_chunk w c) ch o'" if "ch \<in> set cs" for ch
  proof -
    from inv that obtain o' where "laid_out w ch o'" by (auto simp: writer_inv_def)
    moreover have "slot_index c \<noteq> slot_index ch" using new(1) that by auto
    ultimately show ?thesis using laid_out_other w(1,4) new(2) [OF that] by blast
  qed
  moreover have "slice (i * 4) 4 (w_header (write_chunk w c)) = [0, 0, 0, 0]"
    if "i < 1024" "i \<notin> slot_index ` set (c # cs)" for i
    using inv that hd(1) [OF that(1)] by (simp add: write_chunk_simps writer_inv_def)
  ultimately show ?thesis
    using w sectors_fit [of c] hd(3) [OF region_index_less] body(1)
    by (auto simp: writer_inv_def write_chunk_simps diff_mult_distrib add_mult_distrib)
qed

lemma slice_replicate: "at + n \<le> k \<Longrightarrow> slice at n (replicate k x) = replicate n x"
  by (simp add: slice_def)

lemma writer_inv_empty:
  assumes "k = 8192"
  shows "writer_inv [] \<lparr>w_header = replicate k 0, w_bodies = [], w_offset = 2, w_files = dir\<rparr>"
proof -
  have "slice (i * 4) 4 (replicate k (0 :: u8)) = [0, 0, 0, 0]" if "i < 1024" for i
    using that assms by (subst slice_replicate) (simp_all add: eval_nat_numeral)
  with assms show ?thesis by (simp add: writer_inv_def)
qed

lemma writer_inv_fold:
  assumes "distinct (map slot_index cs)" "distinct (map (\<lambda>c. mcc_name (rc_pos c)) cs)"
  shows "writer_inv (rev cs) (foldl write_chunk
     \<lparr>w_header = replicate (SECTOR * 2) 0, w_bodies = [], w_offset = 2, w_files = dir\<rparr> cs)"
  using assms
proof (induction cs rule: rev_induct)
  case Nil
  then show ?case
    using writer_inv_empty [of "SECTOR * 2"] by (simp only: foldl.simps rev.simps) (simp add: SECTOR_def)
next
  case (snoc c cs)
  let ?w0 = "\<lparr>w_header = replicate (SECTOR * 2) 0, w_bodies = [], w_offset = 2, w_files = dir\<rparr>"
  have "writer_inv (c # rev cs) (write_chunk (foldl write_chunk ?w0 cs) c)"
    using snoc by (intro writer_inv_step) (simp_all, fastforce)
  then show ?case by simp
qed

section \<open>What the parser reads back\<close>

definition stored :: "raw_chunk \<Rightarrow> raw_chunk" where
  "stored ch = ch\<lparr>rc_external := spills ch\<rparr>"

text \<open>
  The chunks a region file keeps: they lie in the region, an inline payload is not empty (a slot
  without data reads as no chunk), a spilled one is within the cap of the reader.
\<close>

definition keepable :: "u32 \<Rightarrow> u32 \<Rightarrow> raw_chunk \<Rightarrow> bool" where
  "keepable rx rz ch \<longleftrightarrow> region_of (rc_pos ch) = (rx, rz) \<and> rc_payload ch \<noteq> [] \<and>
     length (rc_payload ch) \<le> MAX_EXTERNAL_CHUNK"

lemma tag_of_bits:
  "(tag_of ch AND 0x80 \<noteq> 0) = spills ch" "comp_from_byte (tag_of ch AND 0x7F) = Some (rc_compression ch)"
  by (cases "rc_compression ch"; simp add: tag_of_def comp_from_byte_def)+

lemma from_region_index_pos:
  "region_of p = (rx, rz) \<Longrightarrow> from_region_index rx rz (region_index p) = p"
proof -
  have "region_index p mod 32 = unat (pos_x p AND 31)" "region_index p div 32 = unat (pos_z p AND 31)"
    using and_31_range [of "pos_x p"] by (simp_all add: region_index_eq)
  then show "region_of p = (rx, rz) \<Longrightarrow> from_region_index rx rz (region_index p) = p"
    by (auto simp: from_region_index_def region_of_def region_split)
qed

lemma nth4_slice:
  assumes "slice at 4 l = xs" "at + 4 \<le> length l"
  shows "l ! at = xs ! 0" "l ! (at + 1) = xs ! 1" "l ! (at + 2) = xs ! 2" "l ! (at + 3) = xs ! 3"
  using slice_nth [OF assms(1) _ assms(2), of 0] slice_nth [OF assms(1) _ assms(2), of 1]
    slice_nth [OF assms(1) _ assms(2), of 2] slice_nth [OF assms(1) _ assms(2), of 3] by simp_all

lemma sint_length_field:
  assumes "n \<le> 255 * 4096"
  shows "sint (of_nat n + 1 :: u32) = int n + 1"
proof -
  have "signed_take_bit 31 (int n + 1) = int n + 1"
    using assms by (intro signed_take_bit_int_eq_self) simp_all
  then have "sint (word_of_int (int n + 1) :: u32) = int n + 1" by (subst sint_sbintrunc') simp
  then show ?thesis by simp
qed

lemma parse_laid_out:
  assumes w: "length (w_header w) = 8192" "length (w_bodies w) = (w_offset w - 2) * 4096" "w_offset w \<le> 2 + 255 * 1024"
    and lo: "laid_out w ch o'" and k: "keepable rx rz ch"
    and dir: "spills ch \<Longrightarrow> dir (mcc_name (rc_pos ch)) = w_files w (mcc_name (rc_pos ch))"
  shows "parse_slot dir (w_header w @ w_bodies w) rx rz (slot_index ch) = Inr (Some (stored ch))"
proof -
  let ?b = "w_header w @ w_bodies w" and ?e = "slot_index ch * 4" and ?n = "length (inline_of ch)"
  from lo have o': "2 \<le> o'" "o' + sectors_of ch \<le> w_offset w"
    and s1: "slice ?e 4 (w_header w) = location o' (sectors_of ch)"
    and s2: "slice (4096 + ?e) 4 (w_header w) = be32 (rc_timestamp ch)"
    and s3: "slice ((o' - 2) * 4096) (5 + ?n) (w_bodies w) = be32 (of_nat ?n + 1) @ [tag_of ch] @ inline_of ch"
    and s4: "spills ch \<Longrightarrow> w_files w (mcc_name (rc_pos ch)) = Some (Regular (rc_payload ch))"
    by (simp_all add: laid_out_def)
  have e: "?e + 4 \<le> 4096" using region_index_less [of "rc_pos ch"] by linarith
  have len: "length ?b = w_offset w * 4096"
    using w(1,2) o' by (simp add: diff_mult_distrib)
  have "(o' + sectors_of ch) * 4096 \<le> w_offset w * 4096" using o'(2) by (rule mult_le_mono1)
  with sectors_fit(1) [of ch] have fit: "o' * 4096 + 5 + ?n \<le> length ?b"
    unfolding len add_mult_distrib by linarith
  have "slice ?e 4 ?b = location o' (sectors_of ch)" using s1 e w(1) by (simp add: slice_append1)
  note loc = nth4_slice [OF this]
  have "slice (4096 + ?e) 4 ?b = be32 (rc_timestamp ch)" using s2 e w(1) by (simp add: slice_append1)
  note ts = nth4_slice [OF this]
  have st: "o' * 4096 - 8192 = (o' - 2) * 4096" "8192 \<le> o' * 4096" using o'(1) by (simp_all add: diff_mult_distrib)
  have body: "slice (o' * 4096) (5 + ?n) ?b = be32 (of_nat ?n + 1) @ [tag_of ch] @ inline_of ch"
    using s3 st w(1) by (simp add: slice_append2)
  have "slice (o' * 4096) 4 ?b = be32 (of_nat ?n + 1)"
    using slice_prefix [OF body, of 4] by simp
  note lenf = nth4_slice [OF this]
  have tag: "?b ! (o' * 4096 + 4) = tag_of ch"
    using slice_nth [OF body, of 4] fit by (simp add: nth_append)
  have data: "slice (o' * 4096 + 5) ?n ?b = inline_of ch"
    using slice_suffix [OF body] by simp
  have small: "o' < 2 ^ 24" using o' w(3) sectors_fit(2) [of ch] by simp
  then have off: "unat (of_be32 0 (?b ! ?e) (?b ! (?e + 1)) (?b ! (?e + 2))) = o'"
    using loc e len w(1) of_be24 [of "of_nat o' :: u64"]
    by (simp add: location_def unat_of_nat)
  have cnt: "?b ! (?e + 3) \<noteq> 0"
    using loc(4) e w(1) sectors_fit(2,3) [of ch] by (simp add: location_def word_unat_eq_iff unat_of_nat)
  have n: "?n \<le> 255 * 4096"
    using sectors_fit(1,3) [of ch] by (meson add_leD2 le_trans mult_le_mono1)
  have l: "sint (of_be32 (?b ! (o' * 4096)) (?b ! (o' * 4096 + 1)) (?b ! (o' * 4096 + 2)) (?b ! (o' * 4096 + 3))) = int ?n + 1"
    using lenf fit of_be32_be32 [of "of_nat ?n + 1"] sint_length_field [OF n] by simp
  have t: "of_be32 (?b ! (4096 + ?e)) (?b ! (4096 + ?e + 1)) (?b ! (4096 + ?e + 2)) (?b ! (4096 + ?e + 3)) = rc_timestamp ch"
    using ts e w(1) of_be32_be32 [of "rc_timestamp ch"] by simp
  have pos: "from_region_index rx rz (slot_index ch) = rc_pos ch"
    using k by (simp add: keepable_def from_region_index_pos)
  have nz: "o' \<noteq> 0" using o'(1) by simp
  have start: "\<not> o' * 4096 + 5 > length ?b" using fit by simp
  show ?thesis
  proof (cases "spills ch")
    case True
    then have "dir (mcc_name (rc_pos ch)) = Some (Regular (rc_payload ch))" using dir s4 by simp
    with True k show ?thesis
      unfolding parse_slot_def Let_def SECTOR_def off l tag t pos tag_of_bits
      using nz cnt start by (simp add: stored_def keepable_def)
  next
    case False
    then have inl: "inline_of ch = rc_payload ch" by (simp add: inline_of_def)
    from k have "?n \<noteq> 0" by (simp add: inl keepable_def)
    moreover have "nat (int ?n + 1) = Suc ?n" by simp
    ultimately show ?thesis using False k data fit
      unfolding parse_slot_def Let_def SECTOR_def off l tag t pos tag_of_bits
      using nz cnt start by (simp add: stored_def keepable_def inl del: nat_int_add)
  qed
qed

lemma parse_empty_slot:
  assumes "length (w_header w) = 8192" "slice (i * 4) 4 (w_header w) = [0, 0, 0, 0]" "i < 1024"
  shows "parse_slot dir (w_header w @ w_bodies w) rx rz i = Inr None"
proof -
  have "slice (i * 4) 4 (w_header w @ w_bodies w) = [0, 0, 0, 0]"
    using assms by (simp add: slice_append1)
  note nth4_slice [OF this]
  then have "(w_header w @ w_bodies w) ! (i * 4 + 3) = 0" using assms(1,3) by simp
  then show ?thesis by (simp add: parse_slot_def Let_def)
qed

lemma parse_slots_all:
  assumes "\<And>i. i \<in> set is \<Longrightarrow> parse_slot dir b rx rz i = Inr (f i)"
    "\<And>i c. i \<in> set is \<Longrightarrow> f i = Some c \<Longrightarrow> rc_pos c = g i" "inj_on g (set is)" "distinct is"
  shows "\<exists>m'. parse_slots dir b rx rz is m = Inr m' \<and>
    (\<forall>p c. im_get m' p = Some c \<longleftrightarrow> (\<exists>i \<in> set is. f i = Some c \<and> g i = p) \<or>
       (im_get m p = Some c \<and> (\<forall>i \<in> set is. g i = p \<longrightarrow> f i = None)))"
  using assms
proof (induction "is" arbitrary: m)
  case (Cons i js)
  let ?m1 = "case f i of None \<Rightarrow> m | Some ch \<Rightarrow> im_insert (rc_pos ch) ch m"
  obtain m' where m': "parse_slots dir b rx rz js ?m1 = Inr m'"
    "\<And>p c. im_get m' p = Some c \<longleftrightarrow> (\<exists>i \<in> set js. f i = Some c \<and> g i = p) \<or>
       (im_get ?m1 p = Some c \<and> (\<forall>i \<in> set js. g i = p \<longrightarrow> f i = None))"
    using Cons.IH [of ?m1] Cons.prems by (auto simp: inj_on_def)
  have other: "g j \<noteq> g i" if "j \<in> set js" for j
    using Cons.prems(3,4) that by (auto simp: inj_on_def)
  have m1: "im_get ?m1 p = (if f i \<noteq> None \<and> g i = p then f i else im_get m p)" for p
  proof (cases "f i")
    case (Some ch)
    with Cons.prems(2) [of i ch] show ?thesis by (simp add: omap_simps)
  qed simp
  have "im_get m' p = Some c \<longleftrightarrow> (\<exists>k \<in> set (i # js). f k = Some c \<and> g k = p) \<or>
       (im_get m p = Some c \<and> (\<forall>k \<in> set (i # js). g k = p \<longrightarrow> f k = None))" for p c
  proof (cases "g i = p")
    case True
    then have "\<forall>k \<in> set js. g k \<noteq> p" using other by auto
    with True show ?thesis unfolding m'(2) m1 by (cases "f i") simp_all
  next
    case False
    then show ?thesis unfolding m'(2) m1 by simp
  qed
  with m'(1) Cons.prems(1) [of i] show ?case by auto
qed simp

section \<open>Names\<close>

lemma show_i32_no_dot: "CHR ''.'' \<notin> set (show_i32 x)"
  by (auto simp: show_i32_def not_digit_punct dest!: show_int_chars)

lemma mcc_name_inj: "mcc_name p = mcc_name q \<longleftrightarrow> p = q"
proof
  assume "mcc_name p = mcc_name q"
  then have "show_i32 (pos_x p) @ CHR ''.'' # (show_i32 (pos_z p) @ ''.mcc'') =
      show_i32 (pos_x q) @ CHR ''.'' # (show_i32 (pos_z q) @ ''.mcc'')" by (simp add: mcc_name_def)
  then have "pos_x p = pos_x q" "pos_z p = pos_z q"
    unfolding append_sep_inject [OF show_i32_no_dot show_i32_no_dot] by (simp_all add: show_sint_inj)
  then show "p = q" by simp
qed simp

lemma mcc_is_no_region: "parse_region_coords (mcc_name p) = Inl (BadRegionName (mcc_name p))"
proof -
  let ?x = "show_i32 (pos_x p)" and ?z = "show_i32 (pos_z p)"
  have "rev (mcc_name p) = ''ccm'' @ CHR ''.'' # rev (''c'' @ CHR ''.'' # (?x @ CHR ''.'' # ?z))"
    by (simp add: mcc_name_def)
  then have "split_once CHR ''.'' (rev (mcc_name p)) = Some (''ccm'', rev (''c'' @ CHR ''.'' # (?x @ CHR ''.'' # ?z)))"
    by (simp only:) (rule split_once_append, simp)
  then have "file_stem (mcc_name p) = ''c'' @ CHR ''.'' # (?x @ CHR ''.'' # ?z)"
    by (simp add: file_stem_def)
  moreover have "split_on CHR ''.'' (''c'' @ CHR ''.'' # (?x @ CHR ''.'' # ?z)) = [''c'', ?x, ?z]"
  proof -
    have "split_on CHR ''.'' (''c'' @ CHR ''.'' # (?x @ CHR ''.'' # ?z)) = ''c'' # split_on CHR ''.'' (?x @ CHR ''.'' # ?z)"
      by (rule split_on_append) simp
    also have "split_on CHR ''.'' (?x @ CHR ''.'' # ?z) = ?x # split_on CHR ''.'' ?z"
      by (rule split_on_append) (rule show_i32_no_dot)
    also have "split_on CHR ''.'' ?z = [?z]" by (rule split_on_none) (rule show_i32_no_dot)
    finally show ?thesis .
  qed
  ultimately show ?thesis by (simp add: parse_region_coords_def split: option.splits)
qed

lemma from_region_index_inj: "inj_on (from_region_index rx rz) {0..<1024}"
proof (rule inj_onI)
  fix i j
  assume ij: "i \<in> {0..<1024}" "j \<in> {0..<1024}" "from_region_index rx rz i = from_region_index rx rz j"
  have inj: "m = n" if "(of_nat m :: u32) = of_nat n" "m < 32" "n < 32" for m n
    using arg_cong [OF that(1), of unat] that(2,3) by (simp add: unat_of_nat)
  from ij(3) have eq: "(of_nat (i mod 32) :: u32) = of_nat (j mod 32)" "(of_nat (i div 32) :: u32) = of_nat (j div 32)"
    by (simp_all add: from_region_index_def)
  have less: "i mod 32 < 32" "j mod 32 < 32" "i div 32 < 32" "j div 32 < 32"
    using ij(1,2) by auto
  have "i mod 32 = j mod 32" by (rule inj [OF eq(1) less(1,2)])
  moreover have "i div 32 = j div 32" by (rule inj [OF eq(2) less(3,4)])
  ultimately show "i = j" by (metis div_mult_mod_eq)
qed

lemma slot_index_inj:
  assumes "keepable rx rz a" "keepable rx rz b" "slot_index a = slot_index b"
  shows "rc_pos a = rc_pos b"
proof -
  have "from_region_index rx rz (slot_index a) = rc_pos a" "from_region_index rx rz (slot_index b) = rc_pos b"
    using assms(1,2) by (auto simp only: keepable_def intro!: from_region_index_pos)
  with assms(3) show ?thesis by metis
qed

section \<open>Reading back\<close>

lemma parse_slots_cong:
  "(\<And>i. i \<in> set is \<Longrightarrow> parse_slot d b rx rz i = parse_slot d' b rx rz i) \<Longrightarrow>
     parse_slots d b rx rz is m = parse_slots d' b rx rz is m"
  by (induction "is" arbitrary: m) (simp_all cong: rbind_cong)

text \<open>
  What a written region file holds does not depend on the files beside it, the external chunks apart.
\<close>

lemma region_write_parse:
  assumes name: "parse_region_coords name = Inr (rx, rz)"
    and keep: "\<And>ch. ch \<in> set chunks \<Longrightarrow> keepable rx rz ch"
    and dist: "distinct (map rc_pos chunks)"
    and b: "region_write name chunks dir name = Some (Regular b)"
  shows "\<exists>rf. rf_x rf = rx \<and> rf_z rf = rz \<and>
    (\<forall>p c. region_get rf p = Some c \<longleftrightarrow> (\<exists>ch \<in> set chunks. rc_pos ch = p \<and> c = stored ch)) \<and>
    (\<forall>d. (\<forall>ch \<in> set chunks. spills ch \<longrightarrow> d (mcc_name (rc_pos ch)) = region_write name chunks dir (mcc_name (rc_pos ch))) \<longrightarrow>
      region_parse d name b = Inr rf)"
proof -
  let ?cs = "sort_key slot_index chunks"
  define w where "w = foldl write_chunk
    \<lparr>w_header = replicate (SECTOR * 2) 0, w_bodies = [], w_offset = 2, w_files = dir\<rparr> ?cs"
  let ?b = "w_header w @ w_bodies w" and ?dir = "region_write name chunks dir"
  have inj: "inj_on slot_index (set chunks)"
    using slot_index_inj keep dist by (intro inj_onI) (metis distinct_map inj_onD)
  have d: "distinct chunks" using dist by (simp add: distinct_map)
  have ds: "distinct (map slot_index ?cs)" using inj d by (simp add: distinct_map)
  moreover have "distinct (map (\<lambda>c. mcc_name (rc_pos c)) ?cs)"
    using dist by (simp add: distinct_map inj_on_def mcc_name_inj)
  ultimately have inv: "writer_inv (rev ?cs) w" unfolding w_def by (rule writer_inv_fold)
  have "slot_index ` set chunks \<subseteq> {0..<1024}" using region_index_less by auto
  from card_mono [OF finite_atLeastLessThan this] have "length chunks \<le> 1024"
    using inj d by (simp add: card_image distinct_card)
  then have lens: "length (w_header w) = 8192" "length (w_bodies w) = (w_offset w - 2) * 4096"
    "2 \<le> w_offset w" "w_offset w \<le> 2 + 255 * 1024"
    using inv by (simp_all add: writer_inv_def)
  have dir: "?dir = (w_files w)(name \<mapsto> Regular ?b)"
    by (simp add: region_write_def w_def Let_def)
  have ne: "name \<noteq> mcc_name p" for p using name mcc_is_no_region [of p] by auto
  define f where "f i = map_of (map (\<lambda>ch. (slot_index ch, stored ch)) chunks) i" for i
  have f_Some: "f i = Some c \<longleftrightarrow> (\<exists>ch \<in> set chunks. slot_index ch = i \<and> c = stored ch)" for i c
    unfolding f_def using inj d
    by (subst map_of_eq_Some_iff) (auto simp: distinct_map comp_def)
  have slot: "parse_slot d ?b rx rz i = Inr (f i)" if i: "i \<in> set [0..<1024]"
    and same: "\<forall>ch \<in> set chunks. spills ch \<longrightarrow> d (mcc_name (rc_pos ch)) = ?dir (mcc_name (rc_pos ch))" for d i
  proof (cases "f i")
    case None
    then have "i \<notin> slot_index ` set (rev ?cs)" using f_Some [of i] by auto
    then have "slice (i * 4) 4 (w_header w) = [0, 0, 0, 0]" using inv i by (simp add: writer_inv_def)
    then show ?thesis using parse_empty_slot [OF lens(1)] i None by simp
  next
    case (Some c)
    then obtain ch where ch: "ch \<in> set chunks" "slot_index ch = i" "c = stored ch" by (auto simp: f_Some)
    then obtain o' where lo: "laid_out w ch o'" using inv by (auto simp: writer_inv_def)
    have "d (mcc_name (rc_pos ch)) = w_files w (mcc_name (rc_pos ch))" if "spills ch"
      using ne [of "rc_pos ch"] same [rule_format, OF ch(1) that] by (simp add: dir)
    then have "parse_slot d ?b rx rz (slot_index ch) = Inr (Some (stored ch))"
      by (rule parse_laid_out [OF lens(1,2,4) lo keep [OF ch(1)]])
    then show ?thesis unfolding ch(2) Some ch(3) .
  qed
  have pos: "rc_pos c = from_region_index rx rz i" if "f i = Some c" for i c
    using that keep from_region_index_pos by (fastforce simp: f_Some keepable_def stored_def)
  have "\<exists>m. parse_slots ?dir ?b rx rz [0..<1024] [] = Inr m \<and>
    (\<forall>p c. im_get m p = Some c \<longleftrightarrow> (\<exists>i \<in> set [0..<1024]. f i = Some c \<and> from_region_index rx rz i = p) \<or>
       (im_get [] p = Some c \<and> (\<forall>i \<in> set [0..<1024]. from_region_index rx rz i = p \<longrightarrow> f i = None)))"
    using slot pos from_region_index_inj by (intro parse_slots_all) (simp_all del: upt.simps)
  then obtain m where m: "parse_slots ?dir ?b rx rz [0..<1024] [] = Inr m"
    "\<And>p c. im_get m p = Some c \<longleftrightarrow> (\<exists>i \<in> set [0..<1024]. f i = Some c \<and> from_region_index rx rz i = p)"
    by (auto simp: im_get_Nil)
  have "im_get m p = Some c \<longleftrightarrow> (\<exists>ch \<in> set chunks. rc_pos ch = p \<and> c = stored ch)" for p c
    unfolding m(2) using keep region_index_less
    by (auto simp: f_Some keepable_def from_region_index_pos simp del: upt.simps)
  moreover have "region_parse d name b = Inr \<lparr>rf_x = rx, rf_z = rz, rf_chunks = m\<rparr>"
    if "\<forall>ch \<in> set chunks. spills ch \<longrightarrow> d (mcc_name (rc_pos ch)) = ?dir (mcc_name (rc_pos ch))" for d
  proof -
    have "parse_slots d ?b rx rz [0..<1024] [] = parse_slots ?dir ?b rx rz [0..<1024] []"
      using slot that by (intro parse_slots_cong) (simp del: upt.simps)
    moreover have "b = ?b" using b by (simp add: dir)
    ultimately show ?thesis using m(1) lens by (simp add: region_parse_def name SECTOR_def)
  qed
  ultimately show ?thesis
    by (intro exI [of _ "\<lparr>rf_x = rx, rf_z = rz, rf_chunks = m\<rparr>"]) (simp add: region_get_def)
qed

lemma region_write_read:
  assumes name: "parse_region_coords name = Inr (rx, rz)"
    and keep: "\<And>ch. ch \<in> set chunks \<Longrightarrow> keepable rx rz ch"
    and dist: "distinct (map rc_pos chunks)"
    and same: "d name = region_write name chunks dir name"
      "\<And>ch. ch \<in> set chunks \<Longrightarrow> spills ch \<Longrightarrow> d (mcc_name (rc_pos ch)) = region_write name chunks dir (mcc_name (rc_pos ch))"
  shows "\<exists>rf. region_open d name = Inr rf \<and> rf_x rf = rx \<and> rf_z rf = rz \<and>
    (\<forall>p c. region_get rf p = Some c \<longleftrightarrow> (\<exists>ch \<in> set chunks. rc_pos ch = p \<and> c = stored ch))"
proof -
  obtain b where b: "region_write name chunks dir name = Some (Regular b)" by (simp add: region_write_def Let_def)
  from region_write_parse [OF name keep dist b] obtain rf where rf: "rf_x rf = rx" "rf_z rf = rz"
    "\<And>p c. region_get rf p = Some c \<longleftrightarrow> (\<exists>ch \<in> set chunks. rc_pos ch = p \<and> c = stored ch)"
    "\<And>d. \<forall>ch \<in> set chunks. spills ch \<longrightarrow> d (mcc_name (rc_pos ch)) = region_write name chunks dir (mcc_name (rc_pos ch)) \<Longrightarrow>
       region_parse d name b = Inr rf" by blast
  have "region_open d name = Inr rf" using rf(4) [of d] same b by (simp add: region_open_def)
  with rf(1-3) show ?thesis by blast
qed

lemma parse_slots_wf: "parse_slots dir b rx rz is m = Inr m' \<Longrightarrow> im_wf m \<Longrightarrow> im_wf m'"
  by (induction "is" arbitrary: m) (auto simp: res_simps split: option.splits)

lemma region_open_wf: "region_open dir name = Inr rf \<Longrightarrow> im_wf (rf_chunks rf)"
  by (auto simp: region_open_def region_parse_def res_simps dest!: parse_slots_wf split: option.splits fnode.splits if_splits)

lemma parse_slots_keyed:
  "parse_slots dir b rx rz is m = Inr m' \<Longrightarrow> \<forall>(p, ch) \<in> set m. p = rc_pos ch \<Longrightarrow> \<forall>(p, ch) \<in> set m'. p = rc_pos ch"
proof (induction "is" arbitrary: m)
  case (Cons i js)
  from Cons.prems(1) obtain r where "parse_slots dir b rx rz js (case r of None \<Rightarrow> m | Some ch \<Rightarrow> im_insert (rc_pos ch) ch m) = Inr m'"
    by (auto simp: res_simps)
  moreover have "\<forall>(p, ch) \<in> set (case r of None \<Rightarrow> m | Some ch \<Rightarrow> im_insert (rc_pos ch) ch m). p = rc_pos ch"
  proof (cases r)
    case (Some ch)
    have "set (im_insert k v m) \<subseteq> insert (k, v) (set m)" for k :: chunk_pos and v :: raw_chunk
      by (induction m rule: im_insert.induct) auto
    with Cons.prems(2) Some show ?thesis by fastforce
  qed (use Cons.prems(2) in simp)
  ultimately show ?case by (rule Cons.IH)
qed simp

lemma region_parse_chunks:
  assumes "region_parse dir name b = Inr rf"
  shows "rc_pos ` set (region_chunks rf) = {p. region_get rf p \<noteq> None}"
    "region_get rf p = Some ch \<Longrightarrow> rc_pos ch = p" "region_get rf p = Some ch \<longleftrightarrow> ch \<in> set (region_chunks rf) \<and> rc_pos ch = p"
proof -
  have keyed: "\<forall>(p, ch) \<in> set (rf_chunks rf). p = rc_pos ch" and wf: "im_wf (rf_chunks rf)"
    using assms parse_slots_keyed [of dir b _ _ _ "[]"] parse_slots_wf [of dir b _ _ _ "[]"]
    by (fastforce simp: region_parse_def res_simps split: if_splits)+
  show 1: "region_get rf p = Some ch \<longleftrightarrow> ch \<in> set (region_chunks rf) \<and> rc_pos ch = p" for p ch
    using keyed wf by (force simp: region_get_def region_chunks_def im_get_Some_iff)
  show "rc_pos ` set (region_chunks rf) = {p. region_get rf p \<noteq> None}"
    using 1 by (auto simp: image_iff)
  show "region_get rf p = Some ch \<Longrightarrow> rc_pos ch = p" by (simp add: 1)
qed

section \<open>Properties\<close>

text \<open>
  C4. A region file keeps its chunks: reading back a file written from chunks of its region gives
  exactly those chunks, each with its position, payload, compression and timestamp, and marked as
  external exactly when it needs more than 255 sectors and so was spilled beside the file.
\<close>

theorem region_roundtrip:
  assumes name: "parse_region_coords name = Inr (rx, rz)"
    and keep: "\<And>ch. ch \<in> set chunks \<Longrightarrow> keepable rx rz ch"
    and dist: "distinct (map rc_pos chunks)"
  shows "\<exists>rf. region_open (region_write name chunks dir) name = Inr rf \<and> rf_x rf = rx \<and> rf_z rf = rz \<and>
    (\<forall>p c. region_get rf p = Some c \<longleftrightarrow> (\<exists>ch \<in> set chunks. rc_pos ch = p \<and> c = stored ch))"
  using region_write_read [OF name keep dist refl refl] by blast

definition sample_chunk :: raw_chunk where
  "sample_chunk = \<lparr>rc_pos = mk_pos (-31) 33, rc_compression = ZLib, rc_payload = [1, 2, 3],
     rc_external = False, rc_timestamp = 77\<rparr>"

theorem region_roundtrip_witness:
  "\<exists>rf. region_open (region_write ''r.-1.1.mca'' [sample_chunk] (\<lambda>_. None)) ''r.-1.1.mca'' = Inr rf \<and>
     region_get rf (mk_pos (-31) 33) = Some sample_chunk"
proof -
  have name: "parse_region_coords ''r.-1.1.mca'' = Inr (-1, 1)" by code_simp
  have "keepable (-1) 1 sample_chunk"
    by (simp add: keepable_def sample_chunk_def region_of_def mk_pos_def MAX_EXTERNAL_CHUNK_def
      word_eq_iff_signed sint_signed_drop_bit_eq)
  moreover have "stored sample_chunk = sample_chunk"
    by (simp add: stored_def sample_chunk_def spills_def sectors_needed_def SECTOR_def MAX_INLINE_SECTORS_def)
  moreover have "rc_pos sample_chunk = mk_pos (-31) 33" by (simp add: sample_chunk_def)
  ultimately show ?thesis
    using region_roundtrip [OF name, of "[sample_chunk]" "\<lambda>_. None"] by fastforce
qed

end
