(* ===== verification/RepoFs.thy ===== *)
theory RepoFs imports
  Text
begin

text \<open>
  The file system under a repository directory, as far as \<^verbatim>\<open>crates/repo\<close> uses \<^verbatim>\<open>std::fs\<close>: a tree of
  files and directories keyed by path components. Every operation is a function of the tree; an
  error of the operating system other than the ones named here (a full disk, missing permissions)
  is not modelled, and neither are concurrent writers. The errors of the crate and the line-based
  text format its small files share are here too.
\<close>

section \<open>Errors\<close>

datatype io_kind = NotFound | AlreadyExists | IsADirectory | NotADirectory | InvalidData

text \<open>\<^verbatim>\<open>RepoError\<close>, and \<open>Panic\<close> for a slice taken out of range.\<close>

datatype repo_error =
  Io io_kind
| Json
| Nbt
| AnvilErr
| NotARepository string
| BadRef string
| Other string
| Panic

section \<open>Paths\<close>

type_synonym path = "string list"

text \<open>
  The components of a relative path: empty ones and \<^verbatim>\<open>.\<close> stand for nothing. \<open>path_join\<close> is
  \<^verbatim>\<open>Path::join\<close>: an absolute argument replaces the base.
\<close>

definition components :: "string \<Rightarrow> path" where
  "components s = filter (\<lambda>c. c \<noteq> [] \<and> c \<noteq> ''.'') (split_on (CHR ''/'') s)"

definition path_join :: "path \<Rightarrow> string \<Rightarrow> path" where
  "path_join base s = (if take 1 s = ''/'' then components s else base @ components s)"

section \<open>Trees\<close>

datatype node = File string | Dir

type_synonym fs = "(path \<times> node) list"

definition fs_lookup :: "fs \<Rightarrow> path \<Rightarrow> node option" where
  "fs_lookup fs p = (if p = [] then Some Dir else im_get fs p)"

definition is_file :: "fs \<Rightarrow> path \<Rightarrow> bool" where
  "is_file fs p = (case fs_lookup fs p of Some (File _) \<Rightarrow> True | _ \<Rightarrow> False)"

definition is_dir :: "fs \<Rightarrow> path \<Rightarrow> bool" where
  "is_dir fs p = (fs_lookup fs p = Some Dir)"

definition fs_exists :: "fs \<Rightarrow> path \<Rightarrow> bool" where
  "fs_exists fs p = (fs_lookup fs p \<noteq> None)"

definition fs_read :: "fs \<Rightarrow> path \<Rightarrow> repo_error + string" where
  "fs_read fs p = (case fs_lookup fs p of
     None \<Rightarrow> Inl (Io NotFound) | Some Dir \<Rightarrow> Inl (Io IsADirectory) | Some (File c) \<Rightarrow> Inr c)"

text \<open>The names in a directory, in the order of the tree; the operating system promises none.\<close>

definition read_dir :: "fs \<Rightarrow> path \<Rightarrow> string list option" where
  "read_dir fs p = (if is_dir fs p
     then Some (map last (filter (\<lambda>q. q \<noteq> [] \<and> butlast q = p) (map fst fs))) else None)"

definition parent_ok :: "fs \<Rightarrow> path \<Rightarrow> repo_error + unit" where
  "parent_ok fs p = (case fs_lookup fs (butlast p) of
     None \<Rightarrow> Inl (Io NotFound) | Some (File _) \<Rightarrow> Inl (Io NotADirectory) | Some Dir \<Rightarrow> Inr ())"

definition fs_write :: "path \<Rightarrow> string \<Rightarrow> fs \<Rightarrow> repo_error + fs" where
  "fs_write p c fs = rbind (parent_ok fs p) (\<lambda>_.
     if is_dir fs p then Inl (Io IsADirectory) else Inr (im_insert p (File c) fs))"

text \<open>Writing with \<^verbatim>\<open>create_new\<close>: the file must not exist.\<close>

definition fs_create_new :: "path \<Rightarrow> string \<Rightarrow> fs \<Rightarrow> repo_error + fs" where
  "fs_create_new p c fs = rbind (parent_ok fs p) (\<lambda>_.
     if fs_exists fs p then Inl (Io AlreadyExists) else Inr (im_insert p (File c) fs))"

text \<open>Writing with \<^verbatim>\<open>create(true).append(true)\<close>.\<close>

definition fs_append :: "path \<Rightarrow> string \<Rightarrow> fs \<Rightarrow> repo_error + fs" where
  "fs_append p c fs = (case fs_read fs p of
     Inr old \<Rightarrow> fs_write p (old @ c) fs | Inl _ \<Rightarrow> fs_write p c fs)"

definition make_dir :: "path \<Rightarrow> fs \<Rightarrow> repo_error + fs" where
  "make_dir p fs = (case fs_lookup fs p of
     None \<Rightarrow> Inr (im_insert p Dir fs) | Some Dir \<Rightarrow> Inr fs | Some (File _) \<Rightarrow> Inl (Io NotADirectory))"

fun make_dirs :: "path \<Rightarrow> path \<Rightarrow> fs \<Rightarrow> repo_error + fs" where
  "make_dirs base [] fs = Inr fs"
| "make_dirs base (c # cs) fs = rbind (make_dir (base @ [c]) fs) (make_dirs (base @ [c]) cs)"

definition create_dir_all :: "path \<Rightarrow> fs \<Rightarrow> repo_error + fs" where
  "create_dir_all p fs = make_dirs [] p fs"

text \<open>The pattern of every writer of refs and logs: make the parent directory, then write.\<close>

definition fs_put :: "path \<Rightarrow> string \<Rightarrow> fs \<Rightarrow> repo_error + fs" where
  "fs_put p c fs = rbind (create_dir_all (butlast p) fs) (fs_write p c)"

text \<open>Removals; the callers ignore their errors.\<close>

definition remove_file :: "path \<Rightarrow> fs \<Rightarrow> fs" where
  "remove_file p fs = (if is_file fs p then im_remove p fs else fs)"

definition under :: "path \<Rightarrow> path \<Rightarrow> bool" where
  "under p q = (take (length p) q = p)"

definition remove_dir_all :: "path \<Rightarrow> fs \<Rightarrow> fs" where
  "remove_dir_all p fs = (if is_dir fs p then filter (\<lambda>(q, _). \<not> under p q) fs else fs)"

text \<open>\<^verbatim>\<open>rename\<close> of a file replaces the target; a directory moves with all it holds.\<close>

definition fs_rename :: "path \<Rightarrow> path \<Rightarrow> fs \<Rightarrow> repo_error + fs" where
  "fs_rename p q fs = (case fs_lookup fs p of
     None \<Rightarrow> Inl (Io NotFound)
   | Some (File c) \<Rightarrow> rbind (fs_write q c fs) (\<lambda>fs'. Inr (if p = q then fs' else im_remove p fs'))
   | Some Dir \<Rightarrow> rbind (parent_ok fs q) (\<lambda>_.
       if p = q then Inr fs
       else if under p q \<or> fs_exists fs q then Inl (Io AlreadyExists)
       else Inr (map (\<lambda>(r, n). (if under p r then q @ drop (length p) r else r, n)) fs)))"

section \<open>Lines of text\<close>

text \<open>
  \<^verbatim>\<open>str::lines\<close>: a line ends at a line feed, which is dropped with a carriage return before it; a
  last part without a line feed counts when it is not empty.
\<close>

definition strip_cr :: "string \<Rightarrow> string" where
  "strip_cr l = (case strip_suffix [CHR 0x0D] l of None \<Rightarrow> l | Some l' \<Rightarrow> l')"

definition lines :: "string \<Rightarrow> string list" where
  "lines s = (let ps = split_on (CHR 0x0A) s
     in map strip_cr (butlast ps) @ (if last ps = [] then [] else [last ps]))"

fun join :: "string \<Rightarrow> string list \<Rightarrow> string" where
  "join sep [] = []"
| "join sep [x] = x"
| "join sep (x # y # xs) = x @ sep @ join sep (y # xs)"

text \<open>The text of a file with one line per entry, \<^verbatim>\<open>lines.join("\n") + "\n"\<close>.\<close>

definition unlines :: "string list \<Rightarrow> string" where
  "unlines ls = join [CHR 0x0A] ls @ [CHR 0x0A]"

text \<open>The non-empty lines of a text, trimmed.\<close>

definition entry_lines :: "string \<Rightarrow> string list" where
  "entry_lines s = filter (\<lambda>l. l \<noteq> []) (map trim (lines s))"

text \<open>A word: not empty, no white space. Object ids and ref names written by the code are words.\<close>

definition word_text :: "string \<Rightarrow> bool" where
  "word_text s = (s \<noteq> [] \<and> (\<forall>c \<in> set s. \<not> is_ws c))"

section \<open>What the operations do to the files\<close>

text \<open>The abstract view of a tree: the contents of its files.\<close>

definition contents :: "fs \<Rightarrow> path \<Rightarrow> string option" where
  "contents fs p = (case fs_lookup fs p of Some (File c) \<Rightarrow> Some c | _ \<Rightarrow> None)"

named_theorems fs_simps \<open>the operations of the file system on the contents of files\<close>

lemma fs_read_iff [fs_simps]: "fs_read fs p = Inr c \<longleftrightarrow> contents fs p = Some c"
  by (auto simp: fs_read_def contents_def split: option.splits node.splits)

lemma is_file_iff [fs_simps]: "is_file fs p \<longleftrightarrow> contents fs p \<noteq> None"
  by (auto simp: is_file_def contents_def split: option.splits node.splits)

lemma contents_root [simp]: "contents fs [] = None"
  by (simp add: contents_def fs_lookup_def)

lemma contents_dir: "is_dir fs p \<Longrightarrow> contents fs p = None"
  by (simp add: contents_def is_dir_def)

lemma lookup_insert: "p \<noteq> [] \<Longrightarrow> fs_lookup (im_insert p n fs) = (fs_lookup fs)(p \<mapsto> n)"
  by (auto simp: fs_lookup_def fun_eq_iff omap_simps)

lemma is_dir_root [simp]: "is_dir fs []"
  by (simp add: is_dir_def fs_lookup_def)

lemma parent_ok_iff: "parent_ok fs p = Inr u \<longleftrightarrow> is_dir fs (butlast p)"
  by (auto simp: parent_ok_def is_dir_def split: option.splits node.splits)

lemma fs_write_iff:
  "fs_write p c fs = Inr fs' \<longleftrightarrow>
     is_dir fs (butlast p) \<and> \<not> is_dir fs p \<and> fs' = im_insert p (File c) fs"
  by (auto simp: fs_write_def res_simps parent_ok_iff)

lemma contents_insert: "p \<noteq> [] \<Longrightarrow> contents (im_insert p (File c) fs) = (contents fs)(p \<mapsto> c)"
  by (auto simp: fun_eq_iff contents_def lookup_insert)

lemma contents_write [fs_simps]: "fs_write p c fs = Inr fs' \<Longrightarrow> contents fs' = (contents fs)(p \<mapsto> c)"
proof -
  assume w: "fs_write p c fs = Inr fs'"
  then have "p \<noteq> []" by (auto simp: fs_write_iff)
  with w show ?thesis by (simp add: fs_write_iff contents_insert)
qed

lemma make_dir_lookup:
  assumes "make_dir p fs = Inr fs'" "p \<noteq> []"
  shows "fs_lookup fs' = (fs_lookup fs)(p \<mapsto> Dir)" "contents fs p = None"
  using assms by (auto simp: make_dir_def contents_def lookup_insert fun_eq_iff split: option.splits node.splits)

lemma make_dirs_contents: "make_dirs base cs fs = Inr fs' \<Longrightarrow> contents fs' = contents fs"
proof (induction cs arbitrary: base fs)
  case (Cons c cs)
  then obtain fs1 where 1: "make_dir (base @ [c]) fs = Inr fs1" "make_dirs (base @ [c]) cs fs1 = Inr fs'"
    by (auto simp: res_simps)
  have "contents fs1 = contents fs"
    using make_dir_lookup [OF 1(1)] by (auto simp: fun_eq_iff contents_def)
  with Cons.IH [OF 1(2)] show ?case by simp
qed simp

lemma create_dir_all_contents [fs_simps]: "create_dir_all p fs = Inr fs' \<Longrightarrow> contents fs' = contents fs"
  by (simp add: create_dir_all_def make_dirs_contents)

lemma contents_put [fs_simps]: "fs_put p c fs = Inr fs' \<Longrightarrow> contents fs' = (contents fs)(p \<mapsto> c)"
  by (auto simp: fs_put_def res_simps create_dir_all_contents contents_write)

lemma contents_append [fs_simps]:
  "fs_append p c fs = Inr fs' \<Longrightarrow>
     contents fs' = (contents fs)(p \<mapsto> (case contents fs p of None \<Rightarrow> c | Some old \<Rightarrow> old @ c))"
proof -
  assume a: "fs_append p c fs = Inr fs'"
  show ?thesis
  proof (cases "fs_read fs p")
    case (Inl e)
    then have "contents fs p = None"
      by (auto simp: fs_read_def contents_def split: option.splits node.splits)
    with a Inl show ?thesis by (simp add: fs_append_def contents_write)
  next
    case (Inr old)
    with a show ?thesis by (simp add: fs_append_def contents_write fs_read_iff)
  qed
qed

lemma contents_remove_file [fs_simps]: "contents (remove_file p fs) = (contents fs)(p := None)"
proof (cases "is_file fs p")
  case True
  then have "p \<noteq> []" by (auto simp: is_file_iff)
  with True show ?thesis
    by (auto simp: remove_file_def fun_eq_iff contents_def fs_lookup_def omap_simps)
qed (auto simp: remove_file_def is_file_iff fun_eq_iff)

lemma contents_remove_dir_all [fs_simps]:
  "contents (remove_dir_all p fs) q = (if is_dir fs p \<and> under p q then None else contents fs q)"
proof -
  have "im_get (filter (\<lambda>(q, _). \<not> under p q) fs) q = (if under p q then None else im_get fs q)"
    by (induction fs) (auto simp: im_get_def)
  then show ?thesis by (simp add: remove_dir_all_def contents_def fs_lookup_def)
qed

lemma contents_rename_file [fs_simps]:
  assumes "fs_rename p q fs = Inr fs'" "contents fs p = Some c" "p \<noteq> q"
  shows "contents fs' = (contents fs)(q \<mapsto> c, p := None)"
proof -
  from assms(2) have p: "fs_lookup fs p = Some (File c)" "p \<noteq> []"
    by (auto simp: contents_def fs_lookup_def split: option.splits node.splits)
  with assms obtain fs1 where 1: "fs_write q c fs = Inr fs1" "fs' = im_remove p fs1"
    by (auto simp: fs_rename_def res_simps)
  have "contents fs' = (contents fs1)(p := None)"
    using p(2) by (auto simp: 1 fun_eq_iff contents_def fs_lookup_def omap_simps)
  then show ?thesis using 1(1) by (simp add: contents_write)
qed

section \<open>The tree stays well formed\<close>

definition fs_wf :: "fs \<Rightarrow> bool" where
  "fs_wf fs = (im_wf fs \<and> (\<forall>p \<in> fst ` set fs. p \<noteq> [] \<and> is_dir fs (butlast p)))"

lemma fs_wf_insert:
  assumes "fs_wf fs" "is_dir fs (butlast p)" "p \<noteq> []" "n = Dir \<or> \<not> is_dir fs p"
  shows "fs_wf (im_insert p n fs)"
proof -
  have "is_dir (im_insert p n fs) q" if "is_dir fs q" for q
    using that assms(3,4) by (auto simp: is_dir_def lookup_insert)
  then show ?thesis using assms by (auto simp: fs_wf_def im_insert_fst)
qed

lemma fs_wf_write: "fs_wf fs \<Longrightarrow> fs_write p c fs = Inr fs' \<Longrightarrow> fs_wf fs'"
  by (auto simp: fs_write_iff intro!: fs_wf_insert)

lemma fs_wf_make_dirs: "fs_wf fs \<Longrightarrow> is_dir fs base \<Longrightarrow> make_dirs base cs fs = Inr fs' \<Longrightarrow> fs_wf fs'"
proof (induction cs arbitrary: base fs)
  case (Cons c cs)
  from Cons.prems(3) obtain fs1 where 1: "make_dir (base @ [c]) fs = Inr fs1" "make_dirs (base @ [c]) cs fs1 = Inr fs'"
    by (auto simp: res_simps)
  have "fs_wf fs1"
    using 1(1) Cons.prems(1,2) by (auto simp: make_dir_def split: option.splits node.splits intro!: fs_wf_insert)
  moreover have "is_dir fs1 (base @ [c])"
    using make_dir_lookup(1) [OF 1(1)] by (simp add: is_dir_def)
  ultimately show ?case using Cons.IH 1(2) by blast
qed simp

lemma fs_wf_create_dir_all: "fs_wf fs \<Longrightarrow> create_dir_all p fs = Inr fs' \<Longrightarrow> fs_wf fs'"
  by (simp add: create_dir_all_def fs_wf_make_dirs [of fs "[]"])

lemma fs_wf_put: "fs_wf fs \<Longrightarrow> fs_put p c fs = Inr fs' \<Longrightarrow> fs_wf fs'"
  by (auto simp: fs_put_def res_simps intro: fs_wf_create_dir_all fs_wf_write)

lemma fs_wf_remove_file: "fs_wf fs \<Longrightarrow> fs_wf (remove_file p fs)"
proof -
  assume wf: "fs_wf fs"
  have "is_dir (remove_file p fs) q" if "is_dir fs q" for q
    using that by (auto simp: remove_file_def is_dir_def is_file_def fs_lookup_def omap_simps split: if_splits)
  then show ?thesis using wf by (auto simp: fs_wf_def remove_file_def dest: im_wf_remove)
    (auto simp: im_remove_def)
qed

section \<open>When writing succeeds\<close>

lemma is_dir_insert: "p \<noteq> [] \<Longrightarrow> is_dir (im_insert p Dir fs) q \<longleftrightarrow> q = p \<or> is_dir fs q"
  by (auto simp: is_dir_def lookup_insert)

text \<open>Making a directory fails only where a file stands in the way.\<close>

lemma make_dirs_ok:
  assumes "\<forall>k \<in> {1..length cs}. contents fs (base @ take k cs) = None"
  shows "\<exists>fs'. make_dirs base cs fs = Inr fs' \<and> (is_dir fs base \<longrightarrow> is_dir fs' (base @ cs)) \<and>
    (\<forall>q. is_dir fs' q \<longrightarrow> is_dir fs q \<or> (\<exists>k \<in> {1..length cs}. q = base @ take k cs))"
  using assms
proof (induction cs arbitrary: base fs)
  case (Cons c cs)
  have c: "contents fs (base @ [c]) = None" using Cons.prems [rule_format, of 1] by simp
  then obtain fs1 where 1: "make_dir (base @ [c]) fs = Inr fs1"
    by (auto simp: make_dir_def contents_def split: option.splits node.splits)
  note look = make_dir_lookup(1) [OF 1]
  have same: "contents fs1 = contents fs"
    using c look by (auto simp: fun_eq_iff contents_def)
  have dir: "is_dir fs1 q \<longleftrightarrow> q = base @ [c] \<or> is_dir fs q" for q
    using look by (auto simp: is_dir_def)
  have "\<forall>k \<in> {1..length cs}. contents fs1 ((base @ [c]) @ take k cs) = None"
  proof
    fix k assume "k \<in> {1..length cs}"
    then show "contents fs1 ((base @ [c]) @ take k cs) = None"
      using Cons.prems [rule_format, of "Suc k"] by (simp add: same)
  qed
  from Cons.IH [OF this] obtain fs' where 2: "make_dirs (base @ [c]) cs fs1 = Inr fs'"
      "is_dir fs' ((base @ [c]) @ cs)"
      "\<And>q. is_dir fs' q \<Longrightarrow> is_dir fs1 q \<or> (\<exists>k \<in> {1..length cs}. q = (base @ [c]) @ take k cs)"
    by (auto simp: dir)
  have "is_dir fs q \<or> (\<exists>k \<in> {1..length (c # cs)}. q = base @ take k (c # cs))" if q: "is_dir fs' q" for q
  proof -
    consider "is_dir fs q" | "q = base @ take 1 (c # cs)" |
        k where "k \<in> {1..length cs}" "q = base @ take (Suc k) (c # cs)"
      using 2(3) [OF q] by (auto simp: dir)
    then show ?thesis by cases (auto intro: bexI [of _ 1] bexI [of _ "Suc k" for k])
  qed
  with 1 2 show ?case by auto
qed auto

definition way_free :: "fs \<Rightarrow> path \<Rightarrow> bool" where
  "way_free fs p = (p \<noteq> [] \<and> \<not> is_dir fs p \<and> list_all (\<lambda>k. contents fs (take k p) = None) [0..<length p])"

lemma fs_put_ok:
  assumes "way_free fs p"
  shows "\<exists>fs'. fs_put p c fs = Inr fs'"
proof -
  from assms have p: "p \<noteq> []" "\<not> is_dir fs p" "\<And>k. k < length p \<Longrightarrow> contents fs (take k p) = None"
    by (auto simp: way_free_def list_all_iff)
  have "\<forall>k \<in> {1..length (butlast p)}. contents fs ([] @ take k (butlast p)) = None"
    using p(1,3) by (auto simp: take_butlast)
  from make_dirs_ok [OF this] obtain fs1 where 1: "make_dirs [] (butlast p) fs = Inr fs1"
      "is_dir fs1 (butlast p)" "\<And>q. is_dir fs1 q \<Longrightarrow> is_dir fs q \<or> (\<exists>k \<in> {1..length (butlast p)}. q = take k (butlast p))"
    by auto
  have shorter: "length (take k (butlast p)) < length p" for k
    using p(1) by (cases p) (simp_all add: min_def)
  have "p \<noteq> take k (butlast p)" for k
    using shorter [of k] by (metis less_irrefl)
  then have "\<not> is_dir fs1 p" using 1(3) p(2) by auto
  then have "fs_write p c fs1 = Inr (im_insert p (File c) fs1)" using 1(2) by (simp add: fs_write_iff)
  then show ?thesis using 1(1) by (simp add: fs_put_def create_dir_all_def)
qed

section \<open>Files as cells\<close>

text \<open>
  A keyed set of cells: reading after a write gives what was written to the same cell and leaves
  every other cell alone. Several keys may name one cell (\<open>cell\<close> tells which), as \<^verbatim>\<open>a/b\<close> and
  \<^verbatim>\<open>a//b\<close> name one file.
\<close>

locale cells =
  fixes get :: "'s \<Rightarrow> 'k \<Rightarrow> 'v option"
    and put :: "'k \<Rightarrow> 'v \<Rightarrow> 's \<Rightarrow> 'e + 's"
    and valid :: "'v \<Rightarrow> bool"
    and cell :: "'k \<Rightarrow> 'c"
  assumes get_put: "put k v s = Inr s' \<Longrightarrow> valid v \<Longrightarrow> get s' k' = (if cell k' = cell k then Some v else get s k')"
begin

lemma get_put_same: "put k v s = Inr s' \<Longrightarrow> valid v \<Longrightarrow> get s' k = Some v"
  by (simp add: get_put)

lemma get_put_other: "put k v s = Inr s' \<Longrightarrow> valid v \<Longrightarrow> cell k' \<noteq> cell k \<Longrightarrow> get s' k' = get s k'"
  by (simp add: get_put)

text \<open>Writing cells one after another, as a clone does with the refs of its source.\<close>

fun put_all :: "('k \<times> 'v) list \<Rightarrow> 's \<Rightarrow> 'e + 's" where
  "put_all [] s = Inr s"
| "put_all ((k, v) # kvs) s = rbind (put k v s) (put_all kvs)"

lemma find_append: "find P (xs @ ys) = (case find P xs of None \<Rightarrow> find P ys | Some x \<Rightarrow> Some x)"
  by (induction xs) auto

lemma get_put_all:
  "put_all kvs s = Inr s' \<Longrightarrow> \<forall>kv \<in> set kvs. valid (snd kv) \<Longrightarrow>
     get s' k = (case find (\<lambda>p. cell (fst p) = cell k) (rev kvs) of Some p \<Rightarrow> Some (snd p) | None \<Rightarrow> get s k)"
proof (induction kvs arbitrary: s)
  case (Cons kv kvs)
  obtain a v where [simp]: "kv = (a, v)" by (cases kv)
  from Cons.prems obtain s1 where 1: "put a v s = Inr s1" "put_all kvs s1 = Inr s'" "valid v"
    by (auto simp: res_simps)
  show ?case using Cons.IH [OF 1(2)] Cons.prems(2) get_put [OF 1(1,3), of k]
    by (auto simp: find_append split: option.splits)
qed simp

end

locale erasable_cells = cells +
  fixes del :: "'b \<Rightarrow> 'a \<Rightarrow> 'a"
  assumes get_del: "get (del k s) k' = (if cell k' = cell k then None else get s k')"
begin

lemma get_del_put: "put k v s = Inr s' \<Longrightarrow> valid v \<Longrightarrow> get (del k s') k = None"
  by (simp add: get_del)

end

interpretation files: erasable_cells contents fs_put "\<lambda>_. True" "\<lambda>p. p" remove_file
  by unfold_locales (auto simp: fs_simps)

section \<open>Reading back lines\<close>

lemma split_on_join: "\<forall>l \<in> set (l # ls). c \<notin> set l \<Longrightarrow> split_on c (join [c] (l # ls)) = l # ls"
proof (induction ls arbitrary: l)
  case (Cons m ls)
  then show ?case using split_on_append [of c l "join [c] (m # ls)"] by simp
qed (simp add: split_on_none)

lemma join_snoc: "ls \<noteq> [] \<Longrightarrow> join sep (ls @ [x]) = join sep ls @ sep @ x"
  by (induction sep ls rule: join.induct) (auto simp: neq_Nil_conv)

lemma split_on_unlines:
  assumes "\<forall>l \<in> set ls. CHR 0x0A \<notin> set l" "ls \<noteq> []"
  shows "split_on (CHR 0x0A) (unlines ls) = ls @ [[]]"
proof -
  obtain l ls' where ls: "ls = l # ls'" using assms(2) by (cases ls) auto
  have "unlines ls = join [CHR 0x0A] (ls @ [[]])" using assms(2) by (simp add: unlines_def join_snoc)
  then show ?thesis using split_on_join [of l "ls' @ [[]]" "CHR 0x0A"] assms(1) by (auto simp: ls)
qed

lemma strip_cr_id: "l = [] \<or> last l \<noteq> CHR 0x0D \<Longrightarrow> strip_cr l = l"
  by (auto simp: strip_cr_def split: option.splits dest: strip_suffix_SomeD)

lemma lines_unlines:
  assumes "\<forall>l \<in> set ls. CHR 0x0A \<notin> set l \<and> (l = [] \<or> last l \<noteq> CHR 0x0D)" "ls \<noteq> []"
  shows "lines (unlines ls) = ls"
proof -
  have "map strip_cr ls = ls" using assms(1) by (intro map_idI) (auto intro: strip_cr_id)
  moreover have "split_on (CHR 0x0A) (unlines ls) = ls @ [[]]"
    using assms by (intro split_on_unlines) auto
  ultimately show ?thesis by (simp add: lines_def)
qed

lemma word_text_trim: "word_text s \<Longrightarrow> trim s = s"
  by (intro trim_id) (auto simp: word_text_def)

lemma word_text_line: "word_text s \<Longrightarrow> CHR 0x0A \<notin> set s \<and> (s = [] \<or> last s \<noteq> CHR 0x0D)"
proof -
  assume w: "word_text s"
  have "is_ws (CHR 0x0A)" "is_ws (CHR 0x0D)" by (simp_all add: is_ws_def)
  with w show ?thesis by (metis last_in_set word_text_def)
qed

lemma trim_newline: "word_text s \<Longrightarrow> trim (s @ [CHR 0x0A]) = s"
proof -
  assume w: "word_text s"
  then obtain c cs where s: "s = c # cs" and c: "\<not> is_ws c" by (cases s) (auto simp: word_text_def)
  have "is_ws (CHR 0x0A)" by (simp add: is_ws_def)
  moreover have "dropWhile is_ws (rev s) = rev s"
    using w by (metis dropWhile.simps(2) word_text_def list.exhaust rev_is_Nil_conv set_rev list.set_intros(1))
  ultimately show ?thesis using c by (simp add: trim_def s)
qed

text \<open>An entry of such a file: trimmed, not empty, on one line.\<close>

definition entry_text :: "string \<Rightarrow> bool" where
  "entry_text s = (s \<noteq> [] \<and> trim s = s \<and> CHR 0x0A \<notin> set s)"

lemma word_entry: "word_text s \<Longrightarrow> entry_text s"
  using word_text_trim word_text_line by (auto simp: entry_text_def word_text_def)

lemma trim_set: "set (trim s) \<subseteq> set s"
  by (auto simp: trim_def dest!: set_dropWhileD)

lemma trim_ends: "trim s = [] \<or> \<not> is_ws (hd (trim s)) \<and> \<not> is_ws (last (trim s))"
proof -
  let ?u = "dropWhile is_ws s"
  have split: "?u = trim s @ rev (takeWhile is_ws (rev ?u))"
    by (metis rev_append rev_rev_ident takeWhile_dropWhile_id trim_def)
  show ?thesis
  proof (cases "trim s")
    case (Cons c cs)
    then have "?u = c # (cs @ rev (takeWhile is_ws (rev ?u)))" using split by simp
    then have "\<not> is_ws c" using dropWhile_eq_Cons_conv [of is_ws s c] by blast
    moreover have "\<not> is_ws (last (trim s))"
      using Cons unfolding trim_def by (metis hd_dropWhile last_rev list.distinct(1) rev.simps(1))
    ultimately show ?thesis using Cons by simp
  qed simp
qed

lemma trim_trim: "trim (trim s) = trim s"
  by (rule trim_id) (use trim_ends in blast)

lemma entry_lines_entries: "l \<in> set (entry_lines s) \<Longrightarrow> entry_text l"
proof -
  have parts: "x \<in> set (split_on c t) \<Longrightarrow> c \<notin> set x" for x c t
    by (induction t arbitrary: x) (auto split: list.splits if_splits)
  assume "l \<in> set (entry_lines s)"
  then obtain m where m: "m \<in> set (lines s)" "l = trim m" "l \<noteq> []" by (auto simp: entry_lines_def)
  have "last (split_on (CHR 0x0A) s) \<in> set (split_on (CHR 0x0A) s)" by (rule last_in_set) simp
  with m(1) have "m \<in> strip_cr ` set (split_on (CHR 0x0A) s) \<union> set (split_on (CHR 0x0A) s)"
    by (auto simp: lines_def Let_def dest: in_set_butlastD split: if_splits)
  then obtain x where "x \<in> set (split_on (CHR 0x0A) s)" "m = x \<or> m = strip_cr x" by auto
  moreover have "set (strip_cr x) \<subseteq> set x"
    by (auto simp: strip_cr_def dest!: strip_suffix_SomeD split: option.splits)
  ultimately have "CHR 0x0A \<notin> set m" using parts by blast
  with m trim_set [of m] show ?thesis by (auto simp: entry_text_def trim_trim)
qed

lemma entry_lines_unlines:
  assumes "\<forall>l \<in> set ls. entry_text l"
  shows "entry_lines (unlines ls) = ls"
proof (cases "ls = []")
  case True
  show ?thesis by (simp add: True entry_lines_def unlines_def lines_def strip_cr_def strip_suffix_def
      strip_prefix_def trim_def)
next
  case False
  have ws: "is_ws (CHR 0x0D)" by (simp add: is_ws_def)
  have "l = [] \<or> last l \<noteq> CHR 0x0D" if "entry_text l" for l
    using that trim_ends [of l] ws by (auto simp: entry_text_def)
  then have "lines (unlines ls) = ls" using assms False by (intro lines_unlines) (auto simp: entry_text_def)
  moreover have "map trim ls = ls" using assms by (intro map_idI) (auto simp: entry_text_def)
  ultimately show ?thesis using assms by (simp add: entry_lines_def entry_text_def filter_id_conv)
qed

end
