(* ===== verification/World.thy ===== *)
theory World imports
  AnvilRegion RepoFs
begin

text \<open>
  A world directory as a tree of files, shared by the comparison of worlds, patches, snapshots and
  checkouts: the text of a relative path, which files are regions (the same function is written out
  in \<^verbatim>\<open>crates/diff/src/world.rs\<close>, \<^verbatim>\<open>crates/patch/src/extract.rs\<close> and
  \<^verbatim>\<open>crates/repo/src/snapshot.rs\<close>), the directory around a region file, and what writing one leaves.
  The contents of a file are characters in the tree and octets to the region reader.
\<close>

section \<open>Bytes and characters\<close>

definition chars :: "bytes \<Rightarrow> string" where
  "chars b = map (\<lambda>w. char_of (unat w)) b"

definition octets :: "string \<Rightarrow> bytes" where
  "octets s = map (\<lambda>c. of_nat (of_char c)) s"

lemma octets_chars [simp]: "octets (chars b) = b"
proof -
  have "(of_nat (of_char (char_of (unat w) :: char)) :: u8) = w" for w :: u8
  proof -
    have "unat w < 2 ^ LENGTH(8)" by (rule unsigned_less)
    then have "unat w < 256" by simp
    then show ?thesis by simp
  qed
  then show ?thesis by (simp add: octets_def chars_def comp_def)
qed

lemma octets_inject [simp]: "octets a = octets b \<longleftrightarrow> a = b"
proof
  have "inj (\<lambda>c :: char. (of_nat (of_char c) :: u8))"
  proof (rule injI)
    fix c d :: char
    assume "(of_nat (of_char c) :: u8) = of_nat (of_char d)"
    then have "unat (of_nat (of_char c) :: u8) = unat (of_nat (of_char d) :: u8)" by simp
    moreover have "(of_char e :: nat) < 2 ^ 8" for e :: char by simp
    ultimately have "(of_char c :: nat) = of_char d" by (simp add: unat_of_nat)
    then show "c = d" by simp
  qed
  moreover assume "octets a = octets b"
  ultimately show "a = b" by (simp add: octets_def inj_map_eq_map)
qed simp

section \<open>Paths of a world\<close>

definition rel_path :: "path \<Rightarrow> string" where
  "rel_path p = map (\<lambda>c. if c = CHR 0x5C then CHR ''/'' else c) (join ''/'' p)"

definition is_region :: "string \<Rightarrow> bool" where
  "is_region rel = (ends_with ''.mca'' (map lower_ascii rel) \<and>
     (let p = CHR ''/'' # rel in contains ''/region/'' p \<or> contains ''/entities/'' p \<or> contains ''/poi/'' p))"

text \<open>The directory of a region file, as the region reader and writer see it.\<close>

definition directory_of :: "fs \<Rightarrow> path \<Rightarrow> directory" where
  "directory_of w base n = (case fs_lookup w (base @ [n]) of
     Some (File c) \<Rightarrow> Some (Regular (octets c)) | Some Dir \<Rightarrow> Some Special | None \<Rightarrow> None)"

lemma region_is_no_dat: "is_region rel \<Longrightarrow> \<not> ends_with ''.dat'' (map lower_ascii rel)"
proof
  assume "is_region rel" "ends_with ''.dat'' (map lower_ascii rel)"
  then obtain a b where "strip_suffix ''.mca'' (map lower_ascii rel) = Some a" "strip_suffix ''.dat'' (map lower_ascii rel) = Some b"
    by (auto simp: is_region_def ends_with_def)
  then have "map lower_ascii rel = a @ ''.mca''" "map lower_ascii rel = b @ ''.dat''" by (auto dest: strip_suffix_SomeD)
  then have "a @ ''.mca'' = b @ ''.dat''" by simp
  then show False by (auto dest: arg_cong [of _ _ rev])
qed

section \<open>Writing into a tree\<close>

text \<open>The files the region writer leaves in its directory: the external chunks, then the region.\<close>

fun put_files :: "path \<Rightarrow> directory \<Rightarrow> string list \<Rightarrow> fs \<Rightarrow> repo_error + fs" where
  "put_files base dir [] w = Inr w"
| "put_files base dir (n # ns) w = (case dir n of
     Some (Regular b) \<Rightarrow> rbind (fs_write (base @ [n]) (chars b) w) (put_files base dir ns)
   | _ \<Rightarrow> put_files base dir ns w)"

definition write_region :: "path \<Rightarrow> raw_chunk list \<Rightarrow> fs \<Rightarrow> repo_error + fs" where
  "write_region q raws w = (let base = butlast q; name = last q
     in put_files base (region_write name raws (directory_of w base))
          (map (\<lambda>ch. mcc_name (rc_pos ch)) (filter (\<lambda>ch. sectors_needed ch > MAX_INLINE_SECTORS) raws) @ [name]) w)"

text \<open>The effect of writing one file, with the directories above it.\<close>

definition writes :: "path \<Rightarrow> string \<Rightarrow> fs \<Rightarrow> fs \<Rightarrow> bool" where
  "writes q c w w' = (contents w' = (contents w)(q \<mapsto> c) \<and>
     (\<forall>p. is_dir w' p \<longleftrightarrow> is_dir w p \<or> under p (butlast q)))"

lemma make_dirs_is_dir:
  "make_dirs base cs w = Inr w' \<Longrightarrow> is_dir w' p \<longleftrightarrow> is_dir w p \<or> (\<exists>k. 0 < k \<and> k \<le> length cs \<and> p = base @ take k cs)"
proof (induction cs arbitrary: base w)
  case (Cons c cs)
  then obtain w1 where 1: "make_dir (base @ [c]) w = Inr w1" "make_dirs (base @ [c]) cs w1 = Inr w'" by (auto simp: res_simps)
  have "is_dir w1 p \<longleftrightarrow> p = base @ [c] \<or> is_dir w p"
    using make_dir_lookup(1) [OF 1(1)] by (auto simp: is_dir_def)
  moreover have "(\<exists>k. 0 < k \<and> k \<le> length (c # cs) \<and> p = base @ take k (c # cs)) \<longleftrightarrow>
      p = base @ [c] \<or> (\<exists>k. 0 < k \<and> k \<le> length cs \<and> p = (base @ [c]) @ take k cs)"
  proof
    assume "\<exists>k. 0 < k \<and> k \<le> length (c # cs) \<and> p = base @ take k (c # cs)"
    then obtain k where k: "0 < k" "k \<le> Suc (length cs)" "p = base @ take k (c # cs)" by auto
    then obtain j where "k = Suc j" by (cases k) auto
    then show "p = base @ [c] \<or> (\<exists>k. 0 < k \<and> k \<le> length cs \<and> p = (base @ [c]) @ take k cs)"
      using k by (cases j) auto
  next
    assume "p = base @ [c] \<or> (\<exists>k. 0 < k \<and> k \<le> length cs \<and> p = (base @ [c]) @ take k cs)"
    then show "\<exists>k. 0 < k \<and> k \<le> length (c # cs) \<and> p = base @ take k (c # cs)"
    proof
      assume "\<exists>k. 0 < k \<and> k \<le> length cs \<and> p = (base @ [c]) @ take k cs"
      then obtain k where "0 < k" "k \<le> length cs" "p = base @ take (Suc k) (c # cs)" by auto
      then show ?thesis by (intro exI [of _ "Suc k"]) auto
    qed (auto intro!: exI [of _ 1])
  qed
  ultimately show ?case using Cons.IH [OF 1(2)] by blast
qed auto

lemma create_is_dir: "create_dir_all q w = Inr w' \<Longrightarrow> is_dir w' p \<longleftrightarrow> is_dir w p \<or> under p q"
proof -
  assume "create_dir_all q w = Inr w'"
  then have d: "is_dir w' p \<longleftrightarrow> is_dir w p \<or> (\<exists>k. 0 < k \<and> k \<le> length q \<and> p = take k q)"
    using make_dirs_is_dir [of "[]" q w w' p] by (simp add: create_dir_all_def)
  show ?thesis
  proof (cases "p = []")
    case False
    then have "(\<exists>k. 0 < k \<and> k \<le> length q \<and> p = take k q) \<longleftrightarrow> under p q"
      by (auto simp: under_def min_def intro!: exI [of _ "length p"]) (metis length_take min.cobounded1)
    then show ?thesis using d by simp
  qed simp
qed

lemma put_file_writes:
  assumes "create_dir_all (butlast q) w = Inr w1" "fs_write q c w1 = Inr w'"
  shows "writes q c w w'"
proof -
  have "q \<noteq> []" using assms(2) by (auto simp: fs_write_iff)
  then have "is_dir w' p \<longleftrightarrow> is_dir w1 p" for p
    using assms(2) by (auto simp: fs_write_iff is_dir_def lookup_insert)
  then show ?thesis
    using create_is_dir [OF assms(1)] create_dir_all_contents [OF assms(1)] contents_write [OF assms(2)]
    by (simp add: writes_def)
qed

text \<open>A region whose chunks all fit in it is one file.\<close>

lemma write_region_writes:
  assumes "create_dir_all (butlast q) w = Inr w1" "write_region q raws w1 = Inr w'" "\<forall>ch \<in> set raws. \<not> spills ch" "q \<noteq> []"
  shows "\<exists>b dir. region_write (last q) raws dir (last q) = Some (Regular b) \<and> writes q (chars b) w w'"
proof -
  let ?dir = "directory_of w1 (butlast q)"
  have "filter (\<lambda>ch. sectors_needed ch > MAX_INLINE_SECTORS) raws = []"
    using assms(3) by (simp add: filter_empty_conv spills_def)
  moreover obtain b where b: "region_write (last q) raws ?dir (last q) = Some (Regular b)" by (simp add: region_write_def Let_def)
  ultimately have "fs_write q (chars b) w1 = Inr w'"
    using assms(2,4) by (auto simp: write_region_def Let_def res_simps)
  with b put_file_writes [OF assms(1)] show ?thesis by blast
qed

lemma under_iff: "under p q \<longleftrightarrow> (\<exists>r. q = p @ r)"
  unfolding under_def by (metis append_eq_conv_conj append_take_drop_id)

lemma put_files_wf: "put_files base dir ns w = Inr w' \<Longrightarrow> fs_wf w \<Longrightarrow> fs_wf w'"
proof (induction ns arbitrary: w)
  case (Cons n ns)
  then show ?case by (auto simp: res_simps fs_wf_write split: option.splits fnode.splits)
qed simp

lemma write_region_wf: "write_region q raws w = Inr w' \<Longrightarrow> fs_wf w \<Longrightarrow> fs_wf w'"
  by (auto simp: write_region_def Let_def intro: put_files_wf)

end
