(* ===== verification/AnvilBlocks.thy ===== *)
theory AnvilBlocks imports
  NbtValue
begin

text \<open>
  \<^verbatim>\<open>crates/anvil/src/blockstate.rs\<close>: the paletted sections of a chunk. Coordinates are 32-bit
  words, a packed entry is read with the shifts and masks of the code on 64-bit words; lengths and
  indices are naturals.
\<close>

type_synonym block_state = "string \<times> (string \<times> string) list"

definition field :: "nbt_value \<Rightarrow> string \<Rightarrow> nbt_value option" where
  "field v key = (case v of Compound m \<Rightarrow> im_get m key | _ \<Rightarrow> None)"

definition as_list :: "nbt_value \<Rightarrow> nbt_value list option" where
  "as_list v = (case v of List l \<Rightarrow> Some l | _ \<Rightarrow> None)"

text \<open>The number of bits of a natural: \<^verbatim>\<open>usize::BITS - n.leading_zeros()\<close>.\<close>

fun bit_length :: "nat \<Rightarrow> nat" where
  "bit_length n = (if n = 0 then 0 else Suc (bit_length (n div 2)))"

declare bit_length.simps [simp del]

definition bits_for :: "nat \<Rightarrow> nat \<Rightarrow> nat" where
  "bits_for palette_len min_bits =
     max (if palette_len \<le> 1 then 0 else bit_length (palette_len - 1)) min_bits"

text \<open>One entry of a packed array; no index spans two words.\<close>

definition packed_entry :: "u64 list \<Rightarrow> nat \<Rightarrow> nat \<Rightarrow> nat option" where
  "packed_entry d bits idx =
     (let per_long = 64 div bits; long_i = idx div per_long; off = (idx mod per_long) * bits
      in if long_i < length d then Some (unat (drop_bit off (d ! long_i) AND mask bits)) else None)"

definition palette_index :: "nbt_value option \<Rightarrow> nat \<Rightarrow> nat \<Rightarrow> nat \<Rightarrow> nat option" where
  "palette_index data palette_len min_bits idx =
     (let bits = bits_for palette_len min_bits
      in case data of
        Some (LongArray d) \<Rightarrow> if bits > 0 then packed_entry d bits idx else Some 0
      | _ \<Rightarrow> Some 0)"

definition section_y :: "nbt_value \<Rightarrow> int option" where
  "section_y s = (case field s ''Y'' of
     Some (Byte b) \<Rightarrow> Some (sint b)
   | Some (IntV i) \<Rightarrow> Some (sint i)
   | Some (Short i) \<Rightarrow> Some (sint i)
   | _ \<Rightarrow> None)"

definition sections_of :: "nbt_value \<Rightarrow> nbt_value option" where
  "sections_of chunk = (case field chunk ''sections'' of
     Some s \<Rightarrow> Some s
   | None \<Rightarrow> (case field chunk ''Level'' of None \<Rightarrow> None | Some l \<Rightarrow> field l ''Sections''))"

definition section_at :: "nbt_value \<Rightarrow> u32 \<Rightarrow> nbt_value option" where
  "section_at chunk y = (case sections_of chunk of
     Some (List s) \<Rightarrow> find (\<lambda>s. section_y s = Some (sint (signed_drop_bit 4 y))) s
   | _ \<Rightarrow> None)"

definition section_ys :: "nbt_value \<Rightarrow> u32 list" where
  "section_ys chunk = (case sections_of chunk of
     Some (List secs) \<Rightarrow> map word_of_int (List.map_filter section_y secs)
   | _ \<Rightarrow> [])"

definition string_props :: "compound \<Rightarrow> (string \<times> string) list" where
  "string_props props = sort (List.map_filter (\<lambda>(k, v). case v of String s \<Rightarrow> Some (k, s) | _ \<Rightarrow> None) props)"

definition block_state_of :: "nbt_value \<Rightarrow> block_state option" where
  "block_state_of entry = (case field entry ''Name'' of
     Some (String name) \<Rightarrow>
       Some (name, case field entry ''Properties'' of Some (Compound props) \<Rightarrow> string_props props | _ \<Rightarrow> [])
   | _ \<Rightarrow> None)"

definition nth_opt :: "'a list \<Rightarrow> nat \<Rightarrow> 'a option" where
  "nth_opt xs i = (if i < length xs then Some (xs ! i) else None)"

text \<open>The palette of a section's \<open>block_states\<close> or \<open>biomes\<close>, when it is there and not empty.\<close>

definition palette_of :: "nbt_value \<Rightarrow> nbt_value list option" where
  "palette_of bs = (case field bs ''palette'' of None \<Rightarrow> None
     | Some p \<Rightarrow> (case as_list p of None \<Rightarrow> None | Some l \<Rightarrow> if l = [] then None else Some l))"

definition block_at :: "nbt_value \<Rightarrow> u32 \<Rightarrow> u32 \<Rightarrow> u32 \<Rightarrow> block_state option" where
  "block_at chunk x y z =
     (case section_at chunk y of None \<Rightarrow> None | Some section \<Rightarrow>
      case field section ''block_states'' of None \<Rightarrow> None | Some bs \<Rightarrow>
      case palette_of bs of None \<Rightarrow> None | Some palette \<Rightarrow>
        (let idx = unat (y AND 15) * 256 + unat (z AND 15) * 16 + unat (x AND 15)
         in case palette_index (field bs ''data'') (length palette) 4 idx of None \<Rightarrow> None
          | Some i \<Rightarrow> (case nth_opt palette i of None \<Rightarrow> None | Some e \<Rightarrow> block_state_of e)))"

definition biome_at :: "nbt_value \<Rightarrow> u32 \<Rightarrow> u32 \<Rightarrow> u32 \<Rightarrow> string option" where
  "biome_at chunk x y z =
     (case section_at chunk y of None \<Rightarrow> None | Some section \<Rightarrow>
      case field section ''biomes'' of None \<Rightarrow> None | Some bs \<Rightarrow>
      case palette_of bs of None \<Rightarrow> None | Some palette \<Rightarrow>
        (let idx = (unat (y AND 15) div 4) * 16 + (unat (z AND 15) div 4) * 4 + unat (x AND 15) div 4
         in case palette_index (field bs ''data'') (length palette) 1 idx of None \<Rightarrow> None
          | Some i \<Rightarrow> (case nth_opt palette i of Some (String s) \<Rightarrow> Some s | _ \<Rightarrow> None)))"

fun collect_opt :: "'a option list \<Rightarrow> 'a list option" where
  "collect_opt [] = Some []"
| "collect_opt (None # xs) = None"
| "collect_opt (Some x # xs) = map_option ((#) x) (collect_opt xs)"

definition section_blocks :: "nbt_value \<Rightarrow> u32 \<Rightarrow> block_state list option" where
  "section_blocks chunk sy =
     (case section_at chunk (push_bit 4 sy) of None \<Rightarrow> None | Some section \<Rightarrow>
      case field section ''block_states'' of None \<Rightarrow> None | Some bs \<Rightarrow>
      case palette_of bs of None \<Rightarrow> None | Some palette \<Rightarrow>
        (let states = List.map_filter block_state_of palette
         in if length states \<noteq> length palette then None
            else let bits = bits_for (length palette) 4
            in case field bs ''data'' of
                 Some (LongArray d) \<Rightarrow>
                   if bits > 0
                   then collect_opt (map (\<lambda>idx. case packed_entry d bits idx of None \<Rightarrow> None
                          | Some i \<Rightarrow> nth_opt states i) [0..<4096])
                   else Some (replicate 4096 (states ! 0))
               | _ \<Rightarrow> Some (replicate 4096 (states ! 0))))"

section \<open>Lemmas\<close>

lemma bit_length_less: "n < 2 ^ bit_length n"
proof (induction n rule: bit_length.induct)
  case (1 n)
  show ?case
  proof (cases "n = 0")
    case False
    with 1 have "n div 2 < 2 ^ bit_length (n div 2)" by simp
    with False show ?thesis by (simp add: bit_length.simps [of n])
  qed simp
qed

lemma bit_length_0 [simp]: "bit_length 0 = 0"
  by (simp add: bit_length.simps)

lemma bit_length_minimal: "n \<noteq> 0 \<Longrightarrow> 2 ^ (bit_length n - 1) \<le> n"
proof (induction n rule: bit_length.induct)
  case (1 n)
  show ?case
  proof (cases "n div 2 = 0")
    case True
    with 1 show ?thesis by (simp add: bit_length.simps [of n])
  next
    case False
    with 1 have "2 ^ (bit_length (n div 2) - 1) \<le> n div 2" by simp
    moreover have "bit_length n - 1 = Suc (bit_length (n div 2) - 1)"
      using 1(2) False by (simp add: bit_length.simps [of n] bit_length.simps [of "n div 2"])
    ultimately show ?thesis by simp
  qed
qed

lemma map_filter_full:
  assumes "length (List.map_filter f xs) = length xs"
  shows "map f xs = map Some (List.map_filter f xs)"
  using assms
proof (induction xs)
  case (Cons x xs)
  have "length (List.map_filter f xs) \<le> length xs" by (simp add: List.map_filter_def)
  with Cons show ?case by (cases "f x") (simp_all add: List.map_filter_def)
qed (simp add: List.map_filter_def)

lemma collect_opt_Some: "collect_opt xs = Some ys \<longleftrightarrow> xs = map Some ys"
  by (induction xs arbitrary: ys rule: collect_opt.induct) (auto simp: Cons_eq_map_conv)

lemma nth_opt_states:
  assumes "length (List.map_filter f xs) = length xs"
  shows "nth_opt (List.map_filter f xs) i = (case nth_opt xs i of None \<Rightarrow> None | Some e \<Rightarrow> f e)"
proof (cases "i < length xs")
  case True
  then have "f (xs ! i) = Some (List.map_filter f xs ! i)"
    using map_filter_full [OF assms] assms by (metis nth_map)
  with True assms show ?thesis by (simp add: nth_opt_def)
qed (simp add: nth_opt_def assms)

lemma bits_for_fits: "n \<le> 2 ^ bits_for n k"
proof (cases "n \<le> 1")
  case False
  have "n - 1 < 2 ^ bit_length (n - 1)" by (rule bit_length_less)
  moreover have "(2 :: nat) ^ bit_length (n - 1) \<le> 2 ^ bits_for n k"
    using False by (simp add: bits_for_def)
  ultimately show ?thesis by linarith
next
  case True
  then have "n \<le> 1" .
  also have "(1 :: nat) \<le> 2 ^ bits_for n k" by simp
  finally show ?thesis .
qed

lemma bits_for_tight: "k < bits_for n k \<Longrightarrow> 2 ^ (bits_for n k - 1) < n"
  using bit_length_minimal [of "n - 1"] by (auto simp: bits_for_def split: if_splits)

lemma and_15_less: "unat (x AND 15 :: u32) < 16"
proof -
  have "x AND 15 \<le> 15" by (rule word_and_le1)
  then have "unat (x AND 15) \<le> unat (15 :: u32)" by (simp only: word_le_nat_alt)
  then show ?thesis by simp
qed

lemma section_shift: "signed_drop_bit 4 (push_bit 4 (signed_drop_bit 4 y)) = signed_drop_bit 4 (y :: u32)"
  by (rule bit_word_eqI) (auto simp: bit_simps)

section \<open>Properties\<close>

text \<open>
  Decoding a whole section and looking up single blocks agree: when a section decodes, it has
  4096 states, and the block at any coordinates inside it is the state at their index, for negative
  coordinates too.
\<close>

theorem section_blocks_block_at:
  "section_blocks chunk (signed_drop_bit 4 y) = Some bs \<Longrightarrow>
     length bs = 4096 \<and>
     block_at chunk x y z = Some (bs ! (unat (y AND 15) * 256 + unat (z AND 15) * 16 + unat (x AND 15)))"
proof -
  assume bs: "section_blocks chunk (signed_drop_bit 4 y) = Some bs"
  let ?idx = "unat (y AND 15) * 256 + unat (z AND 15) * 16 + unat (x AND 15)"
  have idx: "?idx < 4096" using and_15_less [of x] and_15_less [of y] and_15_less [of z] by linarith
  have same: "section_at chunk (push_bit 4 (signed_drop_bit 4 y)) = section_at chunk y"
    unfolding section_at_def section_shift ..
  from bs obtain sec b pal where s: "section_at chunk y = Some sec"
    "field sec ''block_states'' = Some b" "palette_of b = Some pal"
    by (auto simp: section_blocks_def same split: option.splits)
  let ?st = "List.map_filter block_state_of pal" and ?bits = "bits_for (length pal) 4"
  from bs s have full: "length ?st = length pal"
    by (auto simp: section_blocks_def same Let_def split: if_splits)
  have pal: "pal \<noteq> []" using s(3) by (auto simp: palette_of_def split: option.splits if_splits)
  have bits: "?bits > 0" by (simp add: bits_for_def)
  note st = nth_opt_states [OF full]
  show ?thesis
  proof (cases "\<exists>d. field b ''data'' = Some (LongArray d)")
    case True
    then obtain d where d: "field b ''data'' = Some (LongArray d)" by blast
    let ?f = "\<lambda>i. case packed_entry d ?bits i of None \<Rightarrow> None | Some i \<Rightarrow> nth_opt ?st i"
    from bs have all: "map ?f [0..<4096] = map Some bs"
      by (simp add: section_blocks_def same s full d bits Let_def collect_opt_Some)
    have len: "length bs = 4096" using arg_cong [OF all, of length] by simp
    have "?f ?idx = Some (bs ! ?idx)"
      using arg_cong [OF all, of "\<lambda>l. l ! ?idx"] idx len by simp
    then show ?thesis
      by (auto simp: block_at_def s d palette_index_def bits len Let_def st split: option.splits)
  next
    case False
    then have "palette_index (field b ''data'') (length pal) 4 i = Some 0" for i
      by (auto simp: palette_index_def Let_def split: option.splits nbt_value.splits)
    moreover have rep: "bs = replicate 4096 (?st ! 0)"
      using bs False by (auto simp: section_blocks_def same s full Let_def split: option.splits nbt_value.splits)
    moreover have "nth_opt ?st 0 = Some (?st ! 0)" using pal full by (simp add: nth_opt_def)
    ultimately show ?thesis
      using idx st [of 0] by (auto simp: block_at_def s Let_def split: option.splits)
  qed
qed

definition stone_chunk :: nbt_value where
  "stone_chunk = Compound [(''sections'', List [Compound [(''Y'', Byte (-4)),
     (''block_states'', Compound [(''palette'', List [Compound [(''Name'', String ''stone'')]])])]])]"

theorem section_blocks_block_at_witness:
  "block_at stone_chunk 5 (-64) 9 = Some (replicate 4096 (''stone'', []) ! 149)"
proof -
  have "signed_drop_bit 4 (-64 :: u32) = -4" by code_simp
  moreover have "section_blocks stone_chunk (-4) = Some (replicate 4096 (''stone'', []))"
    by (simp add: section_blocks_def stone_chunk_def section_at_def sections_of_def field_def section_y_def
      palette_of_def as_list_def block_state_of_def List.map_filter_def im_get_def Let_def)
  ultimately have "section_blocks stone_chunk (signed_drop_bit 4 (-64)) = Some (replicate 4096 (''stone'', []))"
    by simp
  from section_blocks_block_at [OF this, of 5 9] show ?thesis by simp
qed

text \<open>
  The width of a packed index is the documented one: wide enough for every index of the palette,
  and, above the minimum width, not a bit wider.
\<close>

theorem bits_for_exact:
  "n \<le> 2 ^ bits_for n k \<and> k \<le> bits_for n k \<and> (bits_for n k = k \<or> 2 ^ (bits_for n k - 1) < n)"
proof -
  have "k \<le> bits_for n k" by (simp add: bits_for_def)
  then show ?thesis using bits_for_fits [of n k] bits_for_tight [of k n] by (cases "bits_for n k = k") auto
qed

end
