(* ===== verification/NbtJson.thy ===== *)
theory NbtJson imports
  NbtConv
begin

text \<open>
  \<^verbatim>\<open>crates/nbt/src/json.rs\<close>: the type-tagged JSON form of a tree. A JSON number of
  \<^verbatim>\<open>serde_json\<close> is an integer (non-negative up to 64 bits, or negative down to \<open>- 2 ^ 63\<close>) or a
  float; an object is a map with ascending keys. Rust's conversions between floats and text are
  arguments of the definitions, in a record: the code relies on \<^verbatim>\<open>parse\<close> inverting
  \<^verbatim>\<open>to_string\<close> on every float that is not a NaN.
\<close>

datatype json =
    JNull
  | JBool bool
  | JNum int
  | JFloat u64
  | JString string
  | JArray "json list"
  | JObject "(string \<times> json) list"

record float_text =
  show32 :: "u32 \<Rightarrow> string"
  parse32 :: "string \<Rightarrow> u32 option"
  show64 :: "u64 \<Rightarrow> string"
  parse64 :: "string \<Rightarrow> u64 option"
  narrow :: "u64 \<Rightarrow> u32"
  of_integer :: "int \<Rightarrow> u64"

definition float_text_ok :: "float_text \<Rightarrow> bool" where
  "float_text_ok ft \<longleftrightarrow>
     (\<forall>x. \<not> f32_nan x \<longrightarrow> parse32 ft (show32 ft x) = Some x) \<and>
     (\<forall>x. \<not> f64_nan x \<longrightarrow> parse64 ft (show64 ft x) = Some x)"

section \<open>Encoding\<close>

definition obj :: "string \<Rightarrow> json \<Rightarrow> json" where
  "obj tag val = JObject [(tag, val)]"

fun to_json :: "float_text \<Rightarrow> nbt_value \<Rightarrow> json"
  and to_json_list :: "float_text \<Rightarrow> nbt_value list \<Rightarrow> json list"
  and to_json_entries :: "float_text \<Rightarrow> compound \<Rightarrow> (string \<times> json) list"
where
  "to_json ft (Byte x) = obj ''byte'' (JNum (sint x))"
| "to_json ft (Short x) = obj ''short'' (JNum (sint x))"
| "to_json ft (IntV x) = obj ''int'' (JNum (sint x))"
| "to_json ft (Long x) = obj ''long'' (JString (show_int (sint x)))"
| "to_json ft (Float x) = obj ''float'' (JString (show32 ft x))"
| "to_json ft (Double x) = obj ''double'' (JString (show64 ft x))"
| "to_json ft (ByteArray b) = obj ''byteArray'' (JArray (map (\<lambda>x. JNum (uint x)) b))"
| "to_json ft (String s) = obj ''string'' (JString s)"
| "to_json ft (List items) = obj ''list'' (JArray (to_json_list ft items))"
| "to_json ft (Compound m) = obj ''compound'' (JObject (bm_of_list (to_json_entries ft m)))"
| "to_json ft (IntArray a) = obj ''intArray'' (JArray (map (\<lambda>x. JNum (sint x)) a))"
| "to_json ft (LongArray a) = obj ''longArray'' (JArray (map (\<lambda>x. JString (show_int (sint x))) a))"
| "to_json_list ft [] = []"
| "to_json_list ft (v # vs) = to_json ft v # to_json_list ft vs"
| "to_json_entries ft [] = []"
| "to_json_entries ft (p # m) = (fst p, to_json ft (snd p)) # to_json_entries ft m"

section \<open>Decoding\<close>

definition as_i64 :: "json \<Rightarrow> int option" where
  "as_i64 j = (case j of JNum n \<Rightarrow> if - (2 ^ 63) \<le> n \<and> n < 2 ^ 63 then Some n else None | _ \<Rightarrow> None)"

definition as_u64 :: "json \<Rightarrow> int option" where
  "as_u64 j = (case j of JNum n \<Rightarrow> if 0 \<le> n \<and> n < 2 ^ 64 then Some n else None | _ \<Rightarrow> None)"

definition as_f64 :: "float_text \<Rightarrow> json \<Rightarrow> u64 option" where
  "as_f64 ft j = (case j of JNum n \<Rightarrow> Some (of_integer ft n) | JFloat x \<Rightarrow> Some x | _ \<Rightarrow> None)"

definition as_str :: "json \<Rightarrow> string option" where
  "as_str j = (case j of JString s \<Rightarrow> Some s | _ \<Rightarrow> None)"

definition bad :: "string \<Rightarrow> nbt_error" where
  "bad what = InvalidJson (''bad '' @ what)"

text \<open>\<^verbatim>\<open>as i8\<close> and the like keep the low bits.\<close>

definition int_field :: "string \<Rightarrow> json \<Rightarrow> nbt_error + 'w::len word" where
  "int_field tag j = rbind (ok_or (as_i64 j) (bad tag)) (\<lambda>n. Inr (word_of_int n))"

definition long_field :: "string \<Rightarrow> json \<Rightarrow> nbt_error + u64" where
  "long_field tag j =
     rbind (ok_or (as_str j) (bad tag)) (\<lambda>s.
     rbind (ok_or (parse_signed 64 s) (bad tag)) (\<lambda>n. Inr (word_of_int n)))"

definition float_field :: "float_text \<Rightarrow> json \<Rightarrow> nbt_error + u32" where
  "float_field ft j = (case as_str j of
     Some s \<Rightarrow> ok_or (parse32 ft s) (bad ''float'')
   | None \<Rightarrow> rbind (ok_or (as_f64 ft j) (bad ''float'')) (\<lambda>x. Inr (narrow ft x)))"

definition double_field :: "float_text \<Rightarrow> json \<Rightarrow> nbt_error + u64" where
  "double_field ft j = (case as_str j of
     Some s \<Rightarrow> ok_or (parse64 ft s) (bad ''double'')
   | None \<Rightarrow> ok_or (as_f64 ft j) (bad ''double''))"

definition byte_elem :: "json \<Rightarrow> nbt_error + u8" where
  "byte_elem j = rbind (ok_or (as_u64 j) (bad ''byteArray'')) (\<lambda>n. Inr (word_of_int n))"

definition as_array :: "string \<Rightarrow> json \<Rightarrow> nbt_error + json list" where
  "as_array tag j = (case j of JArray a \<Rightarrow> Inr a | _ \<Rightarrow> Inl (bad tag))"

text \<open>The scalar and array tags, whose payload has no nested tree.\<close>

definition from_json_leaf :: "float_text \<Rightarrow> string \<Rightarrow> json \<Rightarrow> nbt_error + nbt_value" where
  "from_json_leaf ft tag val =
     (if tag = ''byte'' then rbind (int_field tag val) (\<lambda>x. Inr (Byte x))
      else if tag = ''short'' then rbind (int_field tag val) (\<lambda>x. Inr (Short x))
      else if tag = ''int'' then rbind (int_field tag val) (\<lambda>x. Inr (IntV x))
      else if tag = ''long'' then rbind (long_field tag val) (\<lambda>x. Inr (Long x))
      else if tag = ''float'' then rbind (float_field ft val) (\<lambda>x. Inr (Float x))
      else if tag = ''double'' then rbind (double_field ft val) (\<lambda>x. Inr (Double x))
      else if tag = ''byteArray'' then
        rbind (as_array tag val) (\<lambda>a. rbind (collect_res (map byte_elem a)) (\<lambda>b. Inr (ByteArray b)))
      else if tag = ''string'' then rbind (ok_or (as_str val) (bad tag)) (\<lambda>s. Inr (String s))
      else if tag = ''intArray'' then
        rbind (as_array tag val) (\<lambda>a. rbind (collect_res (map (int_field tag) a)) (\<lambda>b. Inr (IntArray b)))
      else if tag = ''longArray'' then
        rbind (as_array tag val) (\<lambda>a. rbind (collect_res (map (long_field tag) a)) (\<lambda>b. Inr (LongArray b)))
      else Inl (InvalidJson (''unknown tag '' @ tag)))"

fun from_json :: "float_text \<Rightarrow> json \<Rightarrow> nbt_error + nbt_value"
  and from_json_list :: "float_text \<Rightarrow> json list \<Rightarrow> nbt_error + nbt_value list"
  and from_json_entries :: "float_text \<Rightarrow> (string \<times> json) list \<Rightarrow> nbt_error + compound"
where
  "from_json ft (JObject []) = Inl (InvalidJson ''empty object'')"
| "from_json ft (JObject (p # q # m)) = Inl (InvalidJson (''expected single tag, got '' @ show_nat (length m + 2)))"
| "from_json ft (JObject [p]) =
     (if fst p = ''list'' then
        (case snd p of JArray a \<Rightarrow> rbind (from_json_list ft a) (\<lambda>xs. Inr (List xs))
         | _ \<Rightarrow> Inl (bad ''list''))
      else if fst p = ''compound'' then
        (case snd p of JObject o' \<Rightarrow> rbind (from_json_entries ft o') (\<lambda>es. Inr (Compound (im_of_list es)))
         | _ \<Rightarrow> Inl (bad ''compound''))
      else from_json_leaf ft (fst p) (snd p))"
| "from_json ft j = Inl (InvalidJson ''expected object'')"
| "from_json_list ft [] = Inr []"
| "from_json_list ft (j # js) =
     rbind (from_json ft j) (\<lambda>v. rbind (from_json_list ft js) (\<lambda>vs. Inr (v # vs)))"
| "from_json_entries ft [] = Inr []"
| "from_json_entries ft (p # m) =
     rbind (from_json ft (snd p)) (\<lambda>v.
       rbind (from_json_entries ft m) (\<lambda>es. Inr ((fst p, v) # es)))"

section \<open>Round trip\<close>

lemma to_json_entries_map: "to_json_entries ft m = map (\<lambda>p. (fst p, to_json ft (snd p))) m"
  by (induction m) auto

lemma to_json_list_map: "to_json_list ft vs = map (to_json ft) vs"
  by (induction vs) auto

lemma sint_range:
  "- (2 ^ 63) \<le> sint (x :: u8)" "sint (x :: u8) < 2 ^ 63"
  "- (2 ^ 63) \<le> sint (h :: 16 word)" "sint (h :: 16 word) < 2 ^ 63"
  "- (2 ^ 63) \<le> sint (i :: u32)" "sint (i :: u32) < 2 ^ 63"
  "- (2 ^ 63) \<le> sint (l :: u64)" "sint (l :: u64) < 2 ^ 63"
  using sint_range_size [of x] sint_range_size [of h] sint_range_size [of i] sint_range_size [of l]
  by (simp_all add: word_size)

lemma as_i64_sint [res_simps]:
  "as_i64 (JNum (sint (x :: u8))) = Some (sint x)"
  "as_i64 (JNum (sint (h :: 16 word))) = Some (sint h)"
  "as_i64 (JNum (sint (i :: u32))) = Some (sint i)"
  unfolding as_i64_def json.case if_P [OF conjI, OF sint_range(1,2)]
    if_P [OF conjI, OF sint_range(3,4)] if_P [OF conjI, OF sint_range(5,6)] by (rule refl)+

lemma int_field_sint:
  "int_field tag (JNum (sint (x :: u8))) = Inr x"
  "int_field tag (JNum (sint (h :: 16 word))) = Inr h"
  "int_field tag (JNum (sint (i :: u32))) = Inr i"
  by (simp_all add: int_field_def as_i64_sint)

lemma long_field_sint: "long_field tag (JString (show_int (sint x))) = Inr x"
proof -
  have "parse_signed 64 (show_int (sint x)) = Some (sint x)"
    using sint_range(7,8) [of x] by (intro parse_signed_show_int) simp_all
  then show ?thesis by (simp add: long_field_def as_str_def)
qed

lemma byte_elem_uint: "byte_elem (JNum (uint x)) = Inr x"
  using uint_bounded [of x] by (simp add: byte_elem_def as_u64_def)

lemmas json_fields = int_field_sint long_field_sint byte_elem_uint

lemma collect_fields:
  "collect_res (map (byte_elem \<circ> (\<lambda>x. JNum (uint x))) b) = Inr b"
  "collect_res (map (int_field tag \<circ> (\<lambda>x. JNum (sint x))) a) = Inr (a :: u32 list)"
  "collect_res (map (long_field tag \<circ> (\<lambda>x. JString (show_int (sint x)))) l) = Inr l"
  by (simp_all add: comp_def json_fields collect_res_Inr)

lemma from_json_list_inv:
  "(\<And>v. v \<in> set vs \<Longrightarrow> from_json ft (to_json ft v) = Inr (g v)) \<Longrightarrow>
     from_json_list ft (map (to_json ft) vs) = Inr (map g vs)"
  by (induction vs) auto

lemma from_json_entries_inv:
  "(\<And>p. p \<in> set m \<Longrightarrow> from_json ft (to_json ft (snd p)) = Inr (g (snd p))) \<Longrightarrow>
     from_json_entries ft (map (\<lambda>p. (fst p, to_json ft (snd p))) m) = Inr (map (\<lambda>p. (fst p, g (snd p))) m)"
  by (induction m) auto

lemma from_to_json:
  "float_text_ok ft \<Longrightarrow> nbt_wf v \<Longrightarrow> nan_free v \<Longrightarrow> from_json ft (to_json ft v) = Inr (key_norm True v)"
proof (induction v)
  case (Compound m)
  let ?g = "\<lambda>p. (fst p, key_norm True (snd p))"
  have d: "distinct (map fst m)" using Compound.prems(2) by (simp add: im_wf_def)
  have IH: "from_json ft (to_json ft (snd p)) = Inr (key_norm True (snd p))" if "p \<in> set m" for p
    using that Compound.prems by (intro Compound.IH) (auto simp: snds.simps)
  have "bm_of_list (to_json_entries ft m) = map (\<lambda>p. (fst p, to_json ft (snd p))) (sort_key fst m)"
    unfolding to_json_entries_map
    by (subst bm_of_list_sort) (simp_all only: distinct_fst_map d sort_key_map_snd)
  moreover have "from_json_entries ft (map (\<lambda>p. (fst p, to_json ft (snd p))) (sort_key fst m)) =
      Inr (map ?g (sort_key fst m))"
    by (rule from_json_entries_inv) (simp add: IH)
  moreover have "im_of_list (map ?g (sort_key fst m)) = map ?g (sort_key fst m)"
    using d by (intro im_of_list_distinct) (unfold distinct_fst_map, simp add: distinct_map)
  ultimately show ?case by (simp add: obj_def sort_key_map_snd)
next
  case (List xs)
  then have "from_json_list ft (map (to_json ft) xs) = Inr (map (key_norm True) xs)"
    by (intro from_json_list_inv) auto
  then show ?case by (simp add: obj_def to_json_list_map)
qed (auto simp: obj_def from_json_leaf_def json_fields collect_fields as_array_def as_str_def
    float_field_def double_field_def float_text_ok_def nan_free_def not_nan_def)

section \<open>Properties\<close>

text \<open>
  The type-tagged JSON form loses nothing: decoding the encoding of a well-formed tree without
  NaNs gives the same tree with the keys of every compound in ascending order, so the same content.
\<close>

theorem json_roundtrip:
  "float_text_ok ft \<Longrightarrow> nbt_wf v \<Longrightarrow> nan_free v \<Longrightarrow>
     \<exists>w. from_json ft (to_json ft v) = Inr w \<and> w = key_norm True v \<and> nbt_same v w"
  using from_to_json key_norm_same by blast

definition digits_ft :: float_text where
  "digits_ft = \<lparr>show32 = (\<lambda>x. show_nat (unat x)),
     parse32 = (\<lambda>s. map_option of_nat (parse_digits s)),
     show64 = (\<lambda>x. show_nat (unat x)), parse64 = (\<lambda>s. map_option of_nat (parse_digits s)),
     narrow = ucast, of_integer = word_of_int\<rparr>"

lemma digits_ft_ok: "float_text_ok digits_ft"
  by (simp add: float_text_ok_def digits_ft_def parse_digits_show_nat)

theorem json_roundtrip_witness:
  "\<exists>w. from_json digits_ft (to_json digits_ft
      (Compound [(''b'', Float 0x3F800000), (''a'', List [Long (-7), Long 9])])) = Inr w \<and>
     w = Compound [(''a'', List [Long (-7), Long 9]), (''b'', Float 0x3F800000)]"
proof -
  let ?v = "Compound [(''b'', Float 0x3F800000), (''a'', List [Long (-7), Long 9])]"
  have "nbt_wf ?v" "nan_free ?v"
    by (simp_all add: im_wf_def nan_free_def not_nan_def f32_nan_def)
  moreover have "key_norm True ?v = Compound [(''a'', List [Long (-7), Long 9]), (''b'', Float 0x3F800000)]"
    by code_simp
  ultimately show ?thesis using json_roundtrip [OF digits_ft_ok, of ?v] by auto
qed

text \<open>
  The integer fields of the JSON form are read by truncation, not checked: any number in the
  range of \<^verbatim>\<open>i64\<close> is accepted for a byte, a short or an int, and keeps only its low bits.
\<close>

theorem json_integers_truncate:
  "- (2 ^ 63) \<le> n \<Longrightarrow> n < 2 ^ 63 \<Longrightarrow>
     from_json ft (obj ''byte'' (JNum n)) = Inr (Byte (word_of_int n)) \<and>
     from_json ft (obj ''short'' (JNum n)) = Inr (Short (word_of_int n)) \<and>
     from_json ft (obj ''int'' (JNum n)) = Inr (IntV (word_of_int n))"
  by (simp add: obj_def from_json_leaf_def int_field_def as_i64_def)

theorem json_integers_truncate_witness:
  "from_json digits_ft (obj ''byte'' (JNum 300)) = Inr (Byte 44)"
  using json_integers_truncate [of 300 digits_ft] by simp

end
