(* ===== verification/NbtPath.thy ===== *)
theory NbtPath imports
  NbtIdentity
begin

text \<open>
  \<^verbatim>\<open>crates/nbt/src/path.rs\<close>: the path language of patches and of the command line, \<^verbatim>\<open>parse\<close>,
  \<^verbatim>\<open>get\<close>, \<^verbatim>\<open>set\<close> and \<^verbatim>\<open>remove\<close>. A mutable borrow of a node is the pair of reading a child
  (\<open>step\<close>) and writing it back in its place (\<open>step_put\<close>); the loop over the parents of the code is
  \<open>at_path\<close>.
\<close>

section \<open>Paths and their text\<close>

datatype seg = Key string | Index nat | Ident string

text \<open>\<open>find\<close> and \<open>position\<close> of Rust's iterators.\<close>

fun find_index :: "('a \<Rightarrow> bool) \<Rightarrow> 'a list \<Rightarrow> nat option" where
  "find_index P [] = None"
| "find_index P (x # xs) = (if P x then Some 0 else map_option Suc (find_index P xs))"

definition key_stop :: "char \<Rightarrow> bool" where
  "key_stop c \<longleftrightarrow> c = CHR ''.'' \<or> c = CHR ''[''"

text \<open>The loop of \<^verbatim>\<open>NbtPath::parse\<close>; \<open>whole\<close> is the input, quoted in the errors.\<close>

function parse_segs :: "string \<Rightarrow> string \<Rightarrow> path_error + seg list" where
  "parse_segs whole [] = Inr []"
| "parse_segs whole (c # s) =
     (if c = CHR ''.'' then parse_segs whole s
      else if c = CHR ''['' then
        (case split_once (CHR '']'') s of
           None \<Rightarrow> Inl (UnclosedBracket whole)
         | Some (inner, rest) \<Rightarrow>
             if inner = [] then Inl (EmptyBracket whole)
             else rbind (parse_segs whole rest) (\<lambda>segs.
               Inr ((case parse_usize inner of Some n \<Rightarrow> Index n | None \<Rightarrow> Ident inner) # segs)))
      else rbind (parse_segs whole (dropWhile (\<lambda>c. \<not> key_stop c) (c # s))) (\<lambda>segs.
        Inr (Key (takeWhile (\<lambda>c. \<not> key_stop c) (c # s)) # segs)))"
  by pat_completeness auto

termination
proof (relation "measure (\<lambda>(w, s). length s)")
  fix c s
  assume "c \<noteq> CHR ''.''" "c \<noteq> CHR ''[''"
  then have "dropWhile (\<lambda>c. \<not> key_stop c) (c # s) = dropWhile (\<lambda>c. \<not> key_stop c) s"
    by (simp add: key_stop_def)
  moreover have "length (dropWhile (\<lambda>c. \<not> key_stop c) s) \<le> length s"
    by (rule length_dropWhile_le)
  ultimately show "((w, dropWhile (\<lambda>c. \<not> key_stop c) (c # s)), (w, c # s))
      \<in> measure (\<lambda>(w, s). length s)" for w
    by simp
qed (auto dest: split_once_length)

definition parse_path :: "string \<Rightarrow> path_error + seg list" where
  "parse_path s = rbind (parse_segs s s) (\<lambda>segs. if segs = [] then Inl (EmptyPath s) else Inr segs)"

section \<open>Navigation\<close>

definition is_ident :: "string \<Rightarrow> nbt_value \<Rightarrow> bool" where
  "is_ident i v \<longleftrightarrow> identity_key v = Some i"

fun list_get :: "'a list \<Rightarrow> nat \<Rightarrow> 'a option" where
  "list_get xs i = (if i < length xs then Some (xs ! i) else None)"

fun step :: "nbt_value \<Rightarrow> seg \<Rightarrow> nbt_value option" where
  "step (Compound m) (Key k) = im_get m k"
| "step (List xs) (Index i) = list_get xs i"
| "step (List xs) (Ident i) = find (is_ident i) xs"
| "step _ _ = None"

text \<open>Writing the child found by \<^const>\<open>step\<close> back: what a write through \<^verbatim>\<open>step_mut\<close> does.\<close>

fun step_put :: "nbt_value \<Rightarrow> seg \<Rightarrow> nbt_value \<Rightarrow> nbt_value" where
  "step_put (Compound m) (Key k) c = Compound (im_insert k c m)"
| "step_put (List xs) (Index i) c = List (xs[i := c])"
| "step_put (List xs) (Ident i) c =
     (case find_index (is_ident i) xs of None \<Rightarrow> List xs | Some n \<Rightarrow> List (xs[n := c]))"
| "step_put v _ _ = v"

fun path_get :: "seg list \<Rightarrow> nbt_value \<Rightarrow> nbt_value option" where
  "path_get [] cur = Some cur"
| "path_get (s # ss) cur = (case step cur s of None \<Rightarrow> None | Some next \<Rightarrow> path_get ss next)"

text \<open>
  Running \<open>f\<close> on the node the parents lead to, with its result; \<^const>\<open>None\<close> when they do not
  resolve, and then nothing has changed.
\<close>

fun at_path :: "seg list \<Rightarrow> (nbt_value \<Rightarrow> 'r \<times> nbt_value) \<Rightarrow> nbt_value \<Rightarrow> 'r option \<times> nbt_value" where
  "at_path [] f cur = (case f cur of (r, cur') \<Rightarrow> (Some r, cur'))"
| "at_path (s # ss) f cur =
     (case step cur s of
        None \<Rightarrow> (None, cur)
      | Some next \<Rightarrow> (case at_path ss f next of (r, next') \<Rightarrow> (r, step_put cur s next')))"

fun set_last :: "seg \<Rightarrow> nbt_value \<Rightarrow> nbt_value \<Rightarrow> bool \<times> nbt_value" where
  "set_last (Key k) v (Compound m) = (True, Compound (im_insert k v m))"
| "set_last (Index i) v (List xs) =
     (if i \<le> length xs
      then (True, List (if i = length xs then xs @ [v] else xs[i := v]))
      else (False, List xs))"
| "set_last (Ident i) v (List xs) =
     (case find_index (is_ident i) xs of
        Some n \<Rightarrow> (True, List (xs[n := v])) | None \<Rightarrow> (False, List xs))"
| "set_last _ v cur = (False, cur)"

definition path_set :: "seg list \<Rightarrow> nbt_value \<Rightarrow> nbt_value \<Rightarrow> bool \<times> nbt_value" where
  "path_set segs root v =
     (if segs = [] then (False, root)
      else case at_path (butlast segs) (set_last (last segs) v) root of
        (None, root') \<Rightarrow> (False, root')
      | (Some ok, root') \<Rightarrow> (ok, root'))"

definition list_remove :: "nat \<Rightarrow> 'a list \<Rightarrow> 'a list" where
  "list_remove i xs = take i xs @ drop (Suc i) xs"

fun remove_last :: "seg \<Rightarrow> nbt_value \<Rightarrow> nbt_value option \<times> nbt_value" where
  "remove_last (Key k) (Compound m) = (im_get m k, Compound (im_remove k m))"
| "remove_last (Index i) (List xs) =
     (if i < length xs then (Some (xs ! i), List (list_remove i xs)) else (None, List xs))"
| "remove_last (Ident i) (List xs) =
     (case find_index (is_ident i) xs of
        Some n \<Rightarrow> (Some (xs ! n), List (list_remove n xs)) | None \<Rightarrow> (None, List xs))"
| "remove_last _ cur = (None, cur)"

definition path_remove :: "seg list \<Rightarrow> nbt_value \<Rightarrow> nbt_value option \<times> nbt_value" where
  "path_remove segs root =
     (if segs = [] then (None, root)
      else case at_path (butlast segs) (remove_last (last segs)) root of
        (None, root') \<Rightarrow> (None, root')
      | (Some r, root') \<Rightarrow> (r, root'))"

section \<open>Facts about the pieces\<close>

lemma find_index_None: "find_index P xs = None \<longleftrightarrow> (\<forall>x \<in> set xs. \<not> P x)"
  by (induction xs) auto

lemma find_index_SomeD:
  "find_index P xs = Some n \<Longrightarrow> n < length xs \<and> P (xs ! n) \<and> find P xs = Some (xs ! n)"
  by (induction xs arbitrary: n) (auto split: if_splits)

lemma find_index_find: "find_index P xs = None \<longleftrightarrow> find P xs = None"
  by (induction xs) auto

lemma find_index_update_same: "find_index P xs = Some n \<Longrightarrow> P v \<Longrightarrow> find_index P (xs[n := v]) = Some n"
  by (induction xs arbitrary: n) (auto split: if_splits)

lemma find_index_update_other:
  "n < length xs \<Longrightarrow> \<not> Q (xs ! n) \<Longrightarrow> \<not> Q v \<Longrightarrow> find Q (xs[n := v]) = find Q xs"
proof (induction xs arbitrary: n)
  case (Cons x xs)
  then show ?case by (cases n) auto
qed simp

lemma im_insert_restore: "im_get m k = Some c \<Longrightarrow> im_insert k c (im_insert k c' m) = m"
  by (induction m) (auto simp: im_get_def split: if_splits)

lemma im_remove_fresh: "im_get m k = None \<Longrightarrow> im_remove k (im_insert k v m) = m"
  by (induction m) (auto simp: im_get_def im_remove_def split: if_splits)

lemma step_put_self:
  assumes "step cur s = Some c"
  shows "step_put cur s c = cur"
proof -
  have *: "im_get m k = Some c \<Longrightarrow> im_insert k c m = m" for m k
    by (induction m) (auto simp: im_get_def split: if_splits)
  show ?thesis
    using assms
    by (cases "(cur, s)" rule: step.cases)
      (auto simp: * split: if_splits option.splits dest!: find_index_SomeD)
qed

text \<open>A write back finds the same place again unless it changes the identity it was found by.\<close>

definition keeps_ident :: "seg \<Rightarrow> nbt_value \<Rightarrow> bool" where
  "keeps_ident s c = (case s of Ident i \<Rightarrow> identity_key c = Some i | _ \<Rightarrow> True)"

lemma step_step_put:
  assumes "step cur s = Some c" "keeps_ident s c'"
  shows "step (step_put cur s c') s = Some c'"
proof (cases "(cur, s)" rule: step.cases)
  case (3 xs i)
  then obtain n where n: "find_index (is_ident i) xs = Some n"
    using assms(1) find_index_find [of "is_ident i" xs] by fastforce
  with assms(2) 3 have "find_index (is_ident i) (xs[n := c']) = Some n"
    by (intro find_index_update_same) (auto simp: keeps_ident_def is_ident_def)
  with 3 n find_index_SomeD [OF this] find_index_SomeD [OF n] show ?thesis by simp
qed (use assms in \<open>auto simp: omap_simps split: if_splits\<close>)

lemma step_put_restore:
  assumes "step cur s = Some c" "keeps_ident s c'"
  shows "step_put (step_put cur s c') s c = cur"
proof (cases "(cur, s)" rule: step.cases)
  case (3 xs i)
  then obtain n where n: "find_index (is_ident i) xs = Some n" "xs ! n = c" "n < length xs"
    using assms(1) find_index_find [of "is_ident i" xs] find_index_SomeD [of "is_ident i" xs]
    by fastforce
  with assms(2) 3 have "find_index (is_ident i) (xs[n := c']) = Some n"
    by (intro find_index_update_same) (auto simp: keeps_ident_def is_ident_def)
  with 3 n show ?thesis by (auto simp: list_update_same_conv)
qed (use assms in \<open>auto simp: im_insert_restore split: if_splits\<close>)

section \<open>The loops as recursions\<close>

lemma path_set_single [simp]: "path_set [s] cur v = set_last s v cur"
  by (simp add: path_set_def split: prod.splits)

lemma path_set_Cons [simp]:
  "path_set (s # t # ss) cur v =
     (case step cur s of None \<Rightarrow> (False, cur)
      | Some c \<Rightarrow> (case path_set (t # ss) c v of (ok, c') \<Rightarrow> (ok, step_put cur s c')))"
  by (auto simp: path_set_def split: option.splits prod.splits)

lemma path_remove_single [simp]: "path_remove [s] cur = remove_last s cur"
  by (simp add: path_remove_def split: prod.splits)

lemma path_remove_Cons [simp]:
  "path_remove (s # t # ss) cur =
     (case step cur s of None \<Rightarrow> (None, cur)
      | Some c \<Rightarrow> (case path_remove (t # ss) c of (r, c') \<Rightarrow> (r, step_put cur s c')))"
  by (auto simp: path_remove_def split: option.splits prod.splits)

lemma path_induct [case_names Empty Single Step]:
  assumes "P []" "\<And>s. P [s]" "\<And>s t ss. P (t # ss) \<Longrightarrow> P (s # t # ss)"
  shows "P segs"
  using assms by (induction segs rule: induct_list012) auto

text \<open>The write of \<open>w\<close> at the path leaves every identity the path goes through in place.\<close>

fun ident_stable :: "seg list \<Rightarrow> nbt_value \<Rightarrow> nbt_value \<Rightarrow> bool" where
  "ident_stable [] cur w = True"
| "ident_stable [s] cur w = keeps_ident s w"
| "ident_stable (s # t # ss) cur w =
     (case step cur s of None \<Rightarrow> True
      | Some c \<Rightarrow> ident_stable (t # ss) c w \<and> keeps_ident s (snd (path_set (t # ss) c w)))"

lemma set_last_failed: "set_last s v cur = (False, cur') \<Longrightarrow> cur' = cur"
  by (cases "(s, v, cur)" rule: set_last.cases) (auto split: if_splits option.splits)

lemma set_last_get:
  assumes "set_last s v cur = (True, cur')" "keeps_ident s v"
  shows "step cur' s = Some v"
proof (cases "(s, v, cur)" rule: set_last.cases)
  case (3 i w xs)
  with assms obtain n where n: "find_index (is_ident i) xs = Some n" "cur' = List (xs[n := v])"
    by (auto split: option.splits)
  have "find_index (is_ident i) (xs[n := v]) = Some n"
    using find_index_update_same [OF n(1)] assms(2) 3 by (auto simp: keeps_ident_def is_ident_def)
  with find_index_SomeD [OF this] find_index_SomeD [OF n(1)] n(2) 3 show ?thesis by simp
qed (use assms in \<open>auto simp: omap_simps nth_append split: if_splits\<close>)

lemma path_set_get_aux:
  "path_set segs root v = (True, root') \<Longrightarrow> ident_stable segs root v \<Longrightarrow> segs \<noteq> [] \<Longrightarrow>
     path_get segs root' = Some v"
proof (induction segs arbitrary: root root' rule: path_induct)
  case (Single s)
  then show ?case by (auto dest: set_last_get)
next
  case (Step s t ss)
  from Step.prems(1) obtain c where c: "step root s = Some c"
    by (auto split: option.splits)
  obtain ok c' where c': "path_set (t # ss) c v = (ok, c')" by fastforce
  with c Step.prems have ok: "ok" "root' = step_put root s c'" by auto
  from Step.prems(2) c c' have "ident_stable (t # ss) c v" "keeps_ident s c'" by auto
  with Step.IH [of c c'] c' ok c step_step_put [OF c] show ?case by simp
qed simp

text \<open>Paths that part ways at a step of the same kind.\<close>

fun diverge :: "seg list \<Rightarrow> seg list \<Rightarrow> bool" where
  "diverge (Key a # p) (Key b # q) = (a \<noteq> b \<or> diverge p q)"
| "diverge (Index a # p) (Index b # q) = (a \<noteq> b \<or> diverge p q)"
| "diverge (Ident a # p) (Ident b # q) = (a \<noteq> b \<or> diverge p q)"
| "diverge _ _ = False"

definition differs :: "seg \<Rightarrow> seg \<Rightarrow> bool" where
  "differs s t = diverge [s] [t]"

lemma diverge_Cons: "diverge (s # p) (t # q) \<longleftrightarrow> differs s t \<or> (s = t \<and> diverge p q)"
  by (cases s; cases t) (auto simp: differs_def)

lemma diverge_Nil [simp]: "\<not> diverge [] q" "\<not> diverge p []"
  by (cases p; simp)+

lemma step_step_put_other:
  assumes "step cur s = Some c" "keeps_ident s c'" "differs s t"
  shows "step (step_put cur s c') t = step cur t"
proof (cases "(cur, s)" rule: step.cases)
  case (3 xs i)
  with assms(3) obtain j where j: "t = Ident j" "i \<noteq> j" by (cases t) (auto simp: differs_def)
  obtain n where n: "find_index (is_ident i) xs = Some n"
    using assms(1) 3 find_index_find [of "is_ident i" xs] by fastforce
  have "find (is_ident j) (xs[n := c']) = find (is_ident j) xs"
    using find_index_SomeD [OF n] assms(2) 3 j
    by (intro find_index_update_other) (auto simp: keeps_ident_def is_ident_def)
  with 3 n j show ?thesis by simp
next
  case (1 m k)
  with assms show ?thesis by (cases t) (auto simp: differs_def omap_simps)
next
  case (2 xs i)
  with assms show ?thesis by (cases t) (auto simp: differs_def)
qed (use assms in auto)

lemma set_last_other:
  assumes "set_last s v cur = (ok, cur')" "keeps_ident s v" "differs s t"
  shows "step cur' t = step cur t"
proof (cases "(s, v, cur)" rule: set_last.cases)
  case (1 k w m)
  with assms show ?thesis by (cases t) (auto simp: differs_def omap_simps)
next
  case (2 i w xs)
  with assms show ?thesis by (cases t) (auto simp: differs_def nth_append split: if_splits)
next
  case (3 i w xs)
  with assms(3) obtain j where j: "t = Ident j" "i \<noteq> j" by (cases t) (auto simp: differs_def)
  show ?thesis
  proof (cases "find_index (is_ident i) xs")
    case (Some n)
    have "find (is_ident j) (xs[n := v]) = find (is_ident j) xs"
      using find_index_SomeD [OF Some] assms(2) 3 j
      by (intro find_index_update_other) (auto simp: keeps_ident_def is_ident_def)
    with 3 assms(1) j Some show ?thesis by auto
  qed (use 3 assms in auto)
qed (use assms in auto)

lemma path_set_frame_aux:
  "path_set p root v = (ok, root') \<Longrightarrow> ident_stable p root v \<Longrightarrow> diverge p q \<Longrightarrow>
     path_get q root' = path_get q root"
proof (induction p arbitrary: root root' q rule: path_induct)
  case (Single s)
  then obtain t q' where q: "q = t # q'" by (cases q) auto
  with Single have "differs s t" by (simp add: diverge_Cons)
  with Single set_last_other [of s v root ok root' t] show ?case by (simp add: q)
next
  case (Step s s' ss)
  then obtain t q' where q: "q = t # q'" by (cases q) auto
  show ?case
  proof (cases "step root s")
    case (Some c)
    obtain c' where c': "path_set (s' # ss) c v = (ok, c')" "root' = step_put root s c'"
      using Step.prems(1) Some by (auto split: prod.splits)
    with Some Step.prems(2) have st: "ident_stable (s' # ss) c v" "keeps_ident s c'" by auto
    show ?thesis
    proof (cases "differs s t")
      case True
      with step_step_put_other [OF Some st(2)] c' show ?thesis by (simp add: q)
    next
      case False
      with Step.prems(3) have "s = t" "diverge (s' # ss) q'" by (auto simp: q diverge_Cons)
      with Step.IH [OF c'(1) st(1)] step_step_put [OF Some st(2)] Some c' show ?thesis
        by (simp add: q)
    qed
  qed (use Step.prems in auto)
qed simp

lemma set_last_undo:
  assumes "set_last s v cur = (True, cur')" "step cur s = None"
  shows "remove_last s cur' = (Some v, cur)"
  using assms
  by (cases "(s, v, cur)" rule: set_last.cases)
    (auto simp: omap_simps im_remove_fresh list_remove_def dest: find_index_SomeD
      split: if_splits option.splits)

lemma path_set_undo_aux:
  "path_set segs root v = (True, root') \<Longrightarrow> ident_stable segs root v \<Longrightarrow>
     path_get segs root = None \<Longrightarrow> path_remove segs root' = (Some v, root)"
proof (induction segs arbitrary: root root' rule: path_induct)
  case (Single s)
  then show ?case by (auto intro!: set_last_undo split: option.splits)
next
  case (Step s t ss)
  from Step.prems(1) obtain c where c: "step root s = Some c"
    by (auto split: option.splits)
  obtain c' where c': "path_set (t # ss) c v = (True, c')" "root' = step_put root s c'"
    using Step.prems(1) c by (auto split: prod.splits)
  from Step.prems(2) c c' have st: "ident_stable (t # ss) c v" "keeps_ident s c'" by auto
  from Step.prems(3) c have "path_get (t # ss) c = None" by simp
  with Step.IH [OF c'(1) st(1)] have "path_remove (t # ss) c' = (Some v, c)" .
  with c'(2) step_step_put [OF c st(2)] step_put_restore [OF c st(2)] show ?case by simp
qed simp

lemma remove_last_get: "fst (remove_last s cur) = step cur s"
proof (cases "(s, cur)" rule: remove_last.cases)
  case (3 i xs)
  then show ?thesis
    using find_index_find [of "is_ident i" xs] by (auto split: option.splits dest: find_index_SomeD)
qed (auto split: if_splits)

lemma path_remove_get_aux: "segs \<noteq> [] \<Longrightarrow> fst (path_remove segs root) = path_get segs root"
proof (induction segs arbitrary: root rule: path_induct)
  case (Single s)
  then show ?case by (simp add: remove_last_get split: option.splits)
next
  case (Step s t ss)
  show ?case
  proof (cases "step root s")
    case (Some c)
    with Step.IH [of c] show ?thesis by (cases "path_remove (t # ss) c") (simp del: path_get.simps(2), simp)
  qed simp
qed simp

lemma path_set_failed_aux: "path_set segs root v = (False, root') \<Longrightarrow> root' = root"
proof (induction segs arbitrary: root root' rule: path_induct)
  case (Single s)
  then show ?case by (auto dest: set_last_failed)
next
  case (Step s t ss)
  then show ?case
    by (auto split: option.splits prod.splits dest: step_put_self)
qed (simp add: path_set_def)

text \<open>When the write is refused: the path is empty, its parents do not resolve, or its last step
  does not apply.\<close>

fun set_applies :: "seg \<Rightarrow> nbt_value \<Rightarrow> bool" where
  "set_applies (Key k) (Compound m) = True"
| "set_applies (Index i) (List xs) = (i \<le> length xs)"
| "set_applies (Ident i) (List xs) = (\<exists>x \<in> set xs. identity_key x = Some i)"
| "set_applies _ _ = False"

lemma set_last_ok: "fst (set_last s v cur) = set_applies s cur"
proof (cases "(s, v, cur)" rule: set_last.cases)
  case (3 i w xs)
  then show ?thesis
    using find_index_None [of "is_ident i" xs]
    by (cases "find_index (is_ident i) xs") (auto simp: is_ident_def)
qed auto

lemma path_set_ok_aux:
  "segs \<noteq> [] \<Longrightarrow> fst (path_set segs root v) =
     (case path_get (butlast segs) root of None \<Rightarrow> False | Some c \<Rightarrow> set_applies (last segs) c)"
proof (induction segs arbitrary: root rule: path_induct)
  case (Single s)
  then show ?case by (simp add: set_last_ok)
next
  case (Step s t ss)
  show ?case
  proof (cases "step root s")
    case (Some c)
    have *: "butlast (s # t # ss) = s # butlast (t # ss)" "last (s # t # ss) = last (t # ss)"
      by simp_all
    show ?thesis
      unfolding * using Some Step.IH [of c]
      by (cases "path_set (t # ss) c v") (simp del: butlast.simps last.simps)
  qed simp
qed simp

section \<open>Round trip of the text form\<close>

fun clean_seg :: "seg \<Rightarrow> bool" where
  "clean_seg (Key k) = (k \<noteq> [] \<and> (\<forall>c \<in> set k. \<not> key_stop c))"
| "clean_seg (Index n) = (n < 2 ^ 64)"
| "clean_seg (Ident i) = (i \<noteq> [] \<and> CHR '']'' \<notin> set i \<and> parse_usize i = None)"

text \<open>The text the comparer builds for a path: a dot before every key but a leading one.\<close>

fun path_key :: "string \<Rightarrow> string \<Rightarrow> string" where
  "path_key base k = (if base = [] then k else base @ CHR ''.'' # k)"

fun seg_text :: "string \<Rightarrow> seg \<Rightarrow> string" where
  "seg_text base (Key k) = path_key base k"
| "seg_text base (Index n) = base @ ''['' @ show_nat n @ '']''"
| "seg_text base (Ident i) = base @ ''['' @ i @ '']''"

definition path_text :: "seg list \<Rightarrow> string" where
  "path_text segs = foldl seg_text [] segs"

fun tail_text :: "seg list \<Rightarrow> string" where
  "tail_text [] = []"
| "tail_text (Key k # ss) = CHR ''.'' # k @ tail_text ss"
| "tail_text (Index n # ss) = CHR ''['' # show_nat n @ CHR '']'' # tail_text ss"
| "tail_text (Ident i # ss) = CHR ''['' # i @ CHR '']'' # tail_text ss"

lemma path_text_tail: "base \<noteq> [] \<Longrightarrow> foldl seg_text base segs = base @ tail_text segs"
  by (induction segs arbitrary: base rule: tail_text.induct) auto

lemma tail_text_stop: "ss \<noteq> [] \<Longrightarrow> \<exists>c r. tail_text ss = c # r \<and> key_stop c"
  by (cases ss rule: tail_text.cases) (auto simp: key_stop_def)

lemma takeWhile_key:
  assumes "\<forall>c \<in> set k. \<not> key_stop c"
  shows "takeWhile (\<lambda>c. \<not> key_stop c) (k @ tail_text ss) = k \<and>
         dropWhile (\<lambda>c. \<not> key_stop c) (k @ tail_text ss) = tail_text ss"
proof (cases ss)
  case Nil
  with assms show ?thesis by simp
next
  case (Cons s ss')
  then obtain c r where "tail_text ss = c # r" "key_stop c" using tail_text_stop [of ss] by auto
  with assms show ?thesis by (simp add: takeWhile_tail dropWhile_append)
qed

lemma parse_key_text:
  assumes "clean_seg (Key k)"
  shows "parse_segs w (k @ tail_text ss) =
           rbind (parse_segs w (tail_text ss)) (\<lambda>segs. Inr (Key k # segs))"
proof -
  obtain c k' where k: "k = c # k'" using assms by (cases k) auto
  with assms have "\<not> key_stop c" by simp
  then have "c \<noteq> CHR ''.''" "c \<noteq> CHR ''[''" by (auto simp: key_stop_def)
  with takeWhile_key [of k ss] assms show ?thesis by (simp add: k)
qed

lemma show_nat_no_bracket: "CHR '']'' \<notin> set (show_nat n)"
  by (simp add: show_nat_no_punct text_simps)

lemma parse_tail_text: "list_all clean_seg ss \<Longrightarrow> parse_segs w (tail_text ss) = Inr ss"
proof (induction ss rule: tail_text.induct)
  case (2 k ss)
  have "parse_segs w (tail_text (Key k # ss)) = parse_segs w (k @ tail_text ss)" by simp
  with 2 parse_key_text [of k w ss] show ?case by simp
next
  case (3 n ss)
  then show ?case
    by (simp add: split_once_append [OF show_nat_no_bracket] parse_usize_show_nat)
next
  case (4 i ss)
  then show ?case by (simp add: split_once_append)
qed simp

lemma parse_path_text_aux:
  assumes "list_all clean_seg segs" "segs \<noteq> []"
  shows "parse_path (path_text segs) = Inr segs"
proof (cases segs)
  case (Cons s ss)
  have "parse_segs w (path_text segs) = Inr segs" for w
  proof (cases s)
    case (Key k)
    then have "path_text segs = k @ tail_text ss"
      using assms Cons by (simp add: path_text_def path_text_tail)
    with parse_key_text [of k w ss] parse_tail_text [of ss w] assms Cons Key show ?thesis by simp
  next
    case (Index n)
    then have "path_text segs = tail_text segs"
      using Cons by (simp add: path_text_def path_text_tail)
    with parse_tail_text [of segs w] assms show ?thesis by simp
  next
    case (Ident i)
    then have "path_text segs = tail_text segs"
      using Cons by (simp add: path_text_def path_text_tail)
    with parse_tail_text [of segs w] assms show ?thesis by simp
  qed
  with assms show ?thesis by (simp add: parse_path_def)
qed (use assms in simp)

section \<open>Properties\<close>

text \<open>
  Writing through a path: the write succeeds exactly when the parents resolve and the last step
  applies there (any key of a compound, an index up to the length, an identity that is present);
  when it is refused the tree is unchanged.
\<close>

theorem path_set_spec:
  "segs \<noteq> [] \<Longrightarrow>
     fst (path_set segs root v) =
       (case path_get (butlast segs) root of None \<Rightarrow> False | Some c \<Rightarrow> set_applies (last segs) c) \<and>
     (\<not> fst (path_set segs root v) \<longrightarrow> snd (path_set segs root v) = root)"
  using path_set_ok_aux path_set_failed_aux by (metis prod.collapse)

definition sample_tree :: nbt_value where
  "sample_tree = Compound [(''A'', Compound [(''B'', List [Byte 1, Byte 2])]),
     (''E'', List [Compound [(''id'', String ''cow''), (''hp'', Byte 3)]])]"

theorem path_set_spec_witness:
  "path_set [Key ''A'', Key ''B'', Index 3] sample_tree (Byte 9) = (False, sample_tree)"
  using path_set_spec [of "[Key ''A'', Key ''B'', Index 3]" sample_tree "Byte 9"]
  by (simp add: sample_tree_def im_get_def prod_eq_iff)

text \<open>
  A successful write is read back: after \<^verbatim>\<open>set\<close> the path leads to the value, and every path
  that parts from it at a step of the same kind reads what it read before, when the write changes no
  identity the path goes through.
\<close>

theorem path_set_get:
  "path_set p root v = (True, root') \<Longrightarrow> ident_stable p root v \<Longrightarrow>
     path_get p root' = Some v \<and> (diverge p q \<longrightarrow> path_get q root' = path_get q root)"
  using path_set_get_aux path_set_frame_aux by (metis path_set_def prod.inject)

theorem path_set_get_witness:
  "path_get [Key ''E'', Ident ''id:cow'', Key ''hp'']
     (snd (path_set [Key ''E'', Ident ''id:cow'', Key ''hp''] sample_tree (Byte 7))) = Some (Byte 7)"
proof -
  let ?p = "[Key ''E'', Ident ''id:cow'', Key ''hp'']"
  have "path_set ?p sample_tree (Byte 7) = (True, snd (path_set ?p sample_tree (Byte 7)))"
    by (simp add: sample_tree_def im_get_def is_ident_def identity_key_def key_uuid_def or_else_def
        key_uuid_legacy_def key_block_def key_slot_def key_id_def)
  moreover have "ident_stable ?p sample_tree (Byte 7)"
    by (simp add: sample_tree_def im_get_def is_ident_def identity_key_def key_uuid_def or_else_def
        key_uuid_legacy_def key_block_def key_slot_def key_id_def keeps_ident_def)
  ultimately show ?thesis using path_set_get [of ?p sample_tree "Byte 7"] by blast
qed

text \<open>
  \<^verbatim>\<open>remove\<close> hands back what \<^verbatim>\<open>get\<close> reads, and it undoes a \<^verbatim>\<open>set\<close> that added a node: the tree
  is the one before, its order of keys and elements included.
\<close>

theorem path_remove_undoes_set:
  "path_set p root v = (True, root') \<Longrightarrow> ident_stable p root v \<Longrightarrow> path_get p root = None \<Longrightarrow>
     path_remove p root' = (Some v, root) \<and> fst (path_remove p root) = None"
  using path_set_undo_aux [of p root v root'] path_remove_get_aux [of p root]
  by (cases p) (auto simp: path_set_def)

theorem path_remove_undoes_set_witness:
  "path_remove [Key ''A'', Key ''B'', Index 2]
     (snd (path_set [Key ''A'', Key ''B'', Index 2] sample_tree (Byte 9))) = (Some (Byte 9), sample_tree)"
proof -
  let ?p = "[Key ''A'', Key ''B'', Index 2]"
  have "path_set ?p sample_tree (Byte 9) = (True, snd (path_set ?p sample_tree (Byte 9)))"
    "ident_stable ?p sample_tree (Byte 9)" "path_get ?p sample_tree = None"
    by (simp_all add: sample_tree_def im_get_def keeps_ident_def)
  then show ?thesis using path_remove_undoes_set [of ?p sample_tree "Byte 9"] by blast
qed

text \<open>
  The path language is unambiguous on clean steps: parsing the text the comparer builds for a
  path gives the path back. A key is clean when it is not empty and has no dot and no opening
  bracket; an identity when it is not empty, has no closing bracket and is no number.
\<close>

theorem parse_path_text:
  "list_all clean_seg segs \<Longrightarrow> segs \<noteq> [] \<Longrightarrow> parse_path (path_text segs) = Inr segs"
  by (rule parse_path_text_aux)

theorem parse_path_text_witness:
  "parse_path ''Pos[1].E[id:cow].x'' = Inr [Key ''Pos'', Index 1, Key ''E'', Ident ''id:cow'', Key ''x'']"
proof -
  let ?p = "[Key ''Pos'', Index 1, Key ''E'', Ident ''id:cow'', Key ''x'']"
  have "list_all clean_seg ?p"
    by (simp add: key_stop_def parse_usize_def parse_digits_def digit_val_def)
  moreover have "path_text ?p = ''Pos[1].E[id:cow].x''"
    by code_simp
  ultimately show ?thesis using parse_path_text [of ?p] by simp
qed

end
