(* ===== verification/DiffComparer.thy ===== *)
theory DiffComparer imports
  NbtPath
  "HOL-Library.Multiset"
begin

text \<open>
  \<^verbatim>\<open>crates/diff/src/comparer.rs\<close>: the one tree walk behind the displayed diff and the patch
  extractor. The walk is a function to the list of the calls it makes on its sink, in their order;
  a sink is a record of its five callbacks. The path of a call is built by one function that
  extends a path by a step: the code's instance \<^const>\<open>seg_text\<close> builds the dotted text, and the
  proofs also use the instance that collects the steps.
\<close>

section \<open>The walk\<close>

datatype change =
    Added nbt_value
  | Removed nbt_value
  | Modified nbt_value nbt_value
  | TypeChanged nbt_value nbt_value
  | ArrayChanged nbt_value nbt_value

text \<open>\<^verbatim>\<open>list_keys\<close>: every element has a key and no two collide.\<close>

fun list_keys_from :: "string list \<Rightarrow> nbt_value list \<Rightarrow> string list option" where
  "list_keys_from seen [] = Some []"
| "list_keys_from seen (el # els) =
     (case identity_key el of None \<Rightarrow> None
      | Some k \<Rightarrow> if k \<in> set seen then None
                 else map_option (\<lambda>ks. k # ks) (list_keys_from (k # seen) els))"

definition list_keys :: "nbt_value list \<Rightarrow> string list option" where
  "list_keys xs = (if xs = [] then None else list_keys_from [] xs)"

definition shared_keys :: "nbt_value list \<Rightarrow> nbt_value list \<Rightarrow> (string list \<times> string list) option" where
  "shared_keys la lb =
     (case list_keys la of None \<Rightarrow> None
      | Some ka \<Rightarrow> (case list_keys lb of None \<Rightarrow> None | Some kb \<Rightarrow> Some (ka, kb)))"

definition added_entries ::
  "('p \<Rightarrow> seg \<Rightarrow> 'p) \<Rightarrow> 'p \<Rightarrow> compound \<Rightarrow> compound \<Rightarrow> ('p \<times> change) list" where
  "added_entries ext path ma mb =
     map (\<lambda>k. (ext path (Key k), Added (the (im_get mb k))))
       (sort (filter (\<lambda>k. im_get ma k = None) (map fst mb)))"

definition leaf_change :: "(nbt_value \<Rightarrow> nbt_value \<Rightarrow> change) \<Rightarrow> 'p \<Rightarrow> nbt_value \<Rightarrow> nbt_value \<Rightarrow>
    ('p \<times> change) list" where
  "leaf_change c path a b = (if nbt_eq a b then [] else [(path, c a b)])"

fun indexed :: "nat \<Rightarrow> 'a list \<Rightarrow> ('a \<times> nat) list" where
  "indexed i [] = []"
| "indexed i (x # xs) = (x, i) # indexed (Suc i) xs"

function (sequential) compare :: "('p \<Rightarrow> seg \<Rightarrow> 'p) \<Rightarrow> 'p \<Rightarrow> nbt_value \<Rightarrow> nbt_value \<Rightarrow> ('p \<times> change) list"
  and compare_entries :: "('p \<Rightarrow> seg \<Rightarrow> 'p) \<Rightarrow> 'p \<Rightarrow> compound \<Rightarrow> compound \<Rightarrow> ('p \<times> change) list"
  and compare_indexed :: "('p \<Rightarrow> seg \<Rightarrow> 'p) \<Rightarrow> 'p \<Rightarrow> nat \<Rightarrow> nbt_value list \<Rightarrow> nbt_value list \<Rightarrow>
    ('p \<times> change) list"
  and compare_keyed :: "('p \<Rightarrow> seg \<Rightarrow> 'p) \<Rightarrow> 'p \<Rightarrow> nbt_value list \<Rightarrow> string list \<Rightarrow> nbt_value list \<Rightarrow>
    (string \<times> nat) list \<Rightarrow> ('p \<times> change) list"
where
  "compare ext path a b =
     (if tag_id a \<noteq> tag_id b then [(path, TypeChanged a b)]
      else (case a of
         Compound ma \<Rightarrow> (case b of
             Compound mb \<Rightarrow> compare_entries ext path ma mb @ added_entries ext path ma mb
           | _ \<Rightarrow> [])
       | List la \<Rightarrow> (case b of
             List lb \<Rightarrow> (case shared_keys la lb of
                 Some (ka, kb) \<Rightarrow> compare_keyed ext path la ka lb (indexed 0 kb)
               | None \<Rightarrow> compare_indexed ext path 0 la lb)
           | _ \<Rightarrow> [])
       | ByteArray _ \<Rightarrow> leaf_change ArrayChanged path a b
       | IntArray _ \<Rightarrow> leaf_change ArrayChanged path a b
       | LongArray _ \<Rightarrow> leaf_change ArrayChanged path a b
       | _ \<Rightarrow> leaf_change Modified path a b))"
| "compare_entries ext path [] mb = []"
| "compare_entries ext path (p # ma) mb =
     (case im_get mb (fst p) of
        Some vb \<Rightarrow> compare ext (ext path (Key (fst p))) (snd p) vb
      | None \<Rightarrow> [(ext path (Key (fst p)), Removed (snd p))])
     @ compare_entries ext path ma mb"
| "compare_indexed ext path i [] lb = map (\<lambda>(v, j). (ext path (Index j), Added v)) (indexed i lb)"
| "compare_indexed ext path i (a # la) lb =
     (case lb of
        b # lb' \<Rightarrow> compare ext (ext path (Index i)) a b @ compare_indexed ext path (Suc i) la lb'
      | [] \<Rightarrow> map (\<lambda>(v, j). (ext path (Index j), Removed v)) (indexed i (a # la)))"
| "compare_keyed ext path [] ka lb b_index =
     map (\<lambda>(k, j). (ext path (Ident k), Added (lb ! j))) (sort_key fst b_index)"
| "compare_keyed ext path (a # la) ka lb b_index =
     (case ka of
        [] \<Rightarrow> []
      | k # ka' \<Rightarrow>
          (case im_get b_index k of
             Some j \<Rightarrow> compare ext (ext path (Ident k)) a (lb ! j)
           | None \<Rightarrow> [(ext path (Ident k), Removed a)])
          @ compare_keyed ext path la ka' lb (im_remove k b_index))"
  by pat_completeness auto
termination
  by (relation "measure (\<lambda>x. case x of
      Inl (Inl (e, p, a, b)) \<Rightarrow> size a
    | Inl (Inr (e, p, ma, mb)) \<Rightarrow> size_list (\<lambda>p. Suc (size (snd p))) ma
    | Inr (Inl (e, p, i, la, lb)) \<Rightarrow> size_list size la
    | Inr (Inr (e, p, la, ka, lb, bi)) \<Rightarrow> size_list size la)") (auto simp: size_prod_simp)

section \<open>Sinks\<close>

text \<open>\<^verbatim>\<open>trait DiffSink\<close> as the record of its callbacks, and \<^verbatim>\<open>walk\<close> as the calls on it.\<close>

record 's diff_sink =
  on_added :: "string \<Rightarrow> nbt_value \<Rightarrow> 's \<Rightarrow> 's"
  on_removed :: "string \<Rightarrow> nbt_value \<Rightarrow> 's \<Rightarrow> 's"
  on_modified :: "string \<Rightarrow> nbt_value \<Rightarrow> nbt_value \<Rightarrow> 's \<Rightarrow> 's"
  on_type_changed :: "string \<Rightarrow> nbt_value \<Rightarrow> nbt_value \<Rightarrow> 's \<Rightarrow> 's"
  on_array_changed :: "string \<Rightarrow> nbt_value \<Rightarrow> nbt_value \<Rightarrow> 's \<Rightarrow> 's"

fun dispatch :: "'s diff_sink \<Rightarrow> string \<times> change \<Rightarrow> 's \<Rightarrow> 's" where
  "dispatch sink (path, Added v) s = on_added sink path v s"
| "dispatch sink (path, Removed v) s = on_removed sink path v s"
| "dispatch sink (path, Modified a b) s = on_modified sink path a b s"
| "dispatch sink (path, TypeChanged a b) s = on_type_changed sink path a b s"
| "dispatch sink (path, ArrayChanged a b) s = on_array_changed sink path a b s"

definition walk :: "nbt_value \<Rightarrow> nbt_value \<Rightarrow> 's diff_sink \<Rightarrow> 's \<Rightarrow> 's" where
  "walk a b sink s = foldl (\<lambda>s e. dispatch sink e s) s (compare seg_text [] a b)"

text \<open>What the walk relies on from a sink: every call adds one row, made of the call alone.\<close>

locale row_sink =
  fixes sink :: "'s diff_sink"
    and rows :: "'s \<Rightarrow> 'r list"
    and row :: "string \<Rightarrow> change \<Rightarrow> 'r"
  assumes dispatch_row: "rows (dispatch sink (path, c) s) = rows s @ [row path c]"
begin

lemma walk_rows: "rows (walk a b sink s) = rows s @ map (\<lambda>(p, c). row p c) (compare seg_text [] a b)"
proof -
  have "rows (foldl (\<lambda>s e. dispatch sink e s) s es) = rows s @ map (\<lambda>(p, c). row p c) es" for es
    by (induction es arbitrary: s) (auto simp: dispatch_row)
  then show ?thesis by (simp add: walk_def)
qed

end

section \<open>The walk in closed form\<close>

declare compare.simps [simp del]

lemma compare_tag: "tag_id a \<noteq> tag_id b \<Longrightarrow> compare ext p a b = [(p, TypeChanged a b)]"
  by (simp add: compare.simps)

lemma compare_entries_concat:
  "compare_entries ext path ma mb =
     concat (map (\<lambda>p. case im_get mb (fst p) of
         Some vb \<Rightarrow> compare ext (ext path (Key (fst p))) (snd p) vb
       | None \<Rightarrow> [(ext path (Key (fst p)), Removed (snd p))]) ma)"
  by (induction ma) auto

lemma compare_Compound:
  "compare ext path (Compound ma) (Compound mb) =
     concat (map (\<lambda>p. case im_get mb (fst p) of
         Some vb \<Rightarrow> compare ext (ext path (Key (fst p))) (snd p) vb
       | None \<Rightarrow> [(ext path (Key (fst p)), Removed (snd p))]) ma)
     @ added_entries ext path ma mb"
  by (simp add: compare.simps compare_entries_concat)

lemma indexed_map: "indexed i xs = map (\<lambda>n. (xs ! n, i + n)) [0..<length xs]"
proof (induction xs arbitrary: i)
  case (Cons x xs)
  have "[0..<length (x # xs)] = 0 # map Suc [0..<length xs]"
    by (simp add: map_Suc_upt upt_conv_Cons del: upt_Suc)
  with Cons show ?case by (simp add: comp_def)
qed simp

lemma compare_indexed_concat:
  "compare_indexed ext path i la lb =
     concat (map (\<lambda>n. compare ext (ext path (Index (i + n))) (la ! n) (lb ! n))
       [0..<min (length la) (length lb)])
     @ map (\<lambda>n. (ext path (Index (i + n)), Removed (la ! n))) [length lb..<length la]
     @ map (\<lambda>n. (ext path (Index (i + n)), Added (lb ! n))) [length la..<length lb]"
proof (induction la arbitrary: i lb)
  case Nil
  then show ?case by (simp add: indexed_map)
next
  case (Cons a la)
  show ?case
  proof (cases lb)
    case Nil
    then show ?thesis by (simp add: indexed_map del: indexed.simps)
  next
    case (Cons b lb')
    have *: "[0..<Suc n] = 0 # map Suc [0..<n]" "[Suc m..<Suc n] = map Suc [m..<n]" for m n
      by (simp_all add: map_Suc_upt upt_conv_Cons del: upt_Suc)
    show ?thesis
      by (simp add: Cons Cons.IH * comp_def del: upt_Suc)
  qed
qed

lemma im_get_filter:
  "im_get (filter (\<lambda>p. fst p \<noteq> k) m) k' = (if k' = k then None else im_get m k')"
  by (induction m) (auto simp: im_get_def)

lemma compare_keyed_concat:
  "length la = length ka \<Longrightarrow> distinct ka \<Longrightarrow>
   compare_keyed ext path la ka lb bi =
     concat (map (\<lambda>(a, k). case im_get bi k of
         Some j \<Rightarrow> compare ext (ext path (Ident k)) a (lb ! j)
       | None \<Rightarrow> [(ext path (Ident k), Removed a)]) (zip la ka))
     @ map (\<lambda>(k, j). (ext path (Ident k), Added (lb ! j)))
         (sort_key fst (filter (\<lambda>p. fst p \<notin> set ka) bi))"
proof (induction la arbitrary: ka bi)
  case (Cons a la)
  then obtain k ka' where ka: "ka = k # ka'" by (cases ka) auto
  with Cons.prems have d: "k \<notin> set ka'" "distinct ka'" "length la = length ka'" by auto
  have get: "im_get (im_remove k bi) k' = im_get bi k'" if "(x, k') \<in> set (zip la ka')" for x k'
    using d(1) that by (auto simp: omap_simps dest: set_zip_rightD)
  have flt: "filter (\<lambda>p. fst p \<notin> set ka') (im_remove k bi) = filter (\<lambda>p. fst p \<notin> set ka) bi"
    by (auto simp: im_remove_def ka intro: filter_cong)
  show ?case
    unfolding ka by (simp add: Cons.IH [OF d(3,2), of "im_remove k bi"] flt [unfolded ka, simplified])
      (auto intro!: arg_cong [where f = concat] map_cong simp: get)
qed simp

lemma list_keys_from_iff:
  "list_keys_from seen xs = Some ks \<longleftrightarrow>
     map identity_key xs = map Some ks \<and> distinct ks \<and> set ks \<inter> set seen = {}"
proof (induction seen xs arbitrary: ks rule: list_keys_from.induct)
  case (2 seen el els)
  then show ?case by (cases ks) (auto split: option.splits)
qed auto

lemma list_keys_iff:
  "list_keys xs = Some ks \<longleftrightarrow> xs \<noteq> [] \<and> map identity_key xs = map Some ks \<and> distinct ks"
  by (simp add: list_keys_def list_keys_from_iff)

lemma list_keysD:
  assumes "list_keys xs = Some ks"
  shows "length xs = length ks" "distinct ks" "i < length xs \<Longrightarrow> identity_key (xs ! i) = Some (ks ! i)"
    and "xs \<noteq> []"
proof -
  from assms have *: "xs \<noteq> []" "map identity_key xs = map Some ks" "distinct ks"
    by (auto simp: list_keys_iff)
  from arg_cong [OF *(2), of length] show l: "length xs = length ks" by simp
  show "distinct ks" "xs \<noteq> []" by fact+
  show "i < length xs \<Longrightarrow> identity_key (xs ! i) = Some (ks ! i)"
    using *(2) l by (metis nth_map)
qed

lemma find_index_keys:
  assumes "list_keys xs = Some ks" "i < length xs"
  shows "find_index (is_ident (ks ! i)) xs = Some i"
proof -
  have "is_ident (ks ! i) (xs ! i)" using list_keysD(3) [OF assms] assms(2) by (simp add: is_ident_def)
  with assms(2) have "find_index (is_ident (ks ! i)) xs \<noteq> None"
    unfolding find_index_None using nth_mem by blast
  then obtain j where j: "find_index (is_ident (ks ! i)) xs = Some j" by blast
  then have "j < length xs" "identity_key (xs ! j) = Some (ks ! i)"
    by (auto dest: find_index_SomeD simp: is_ident_def)
  then have "j = i"
    using list_keysD [OF assms(1)] assms(2) by (metis nth_eq_iff_index_eq option.inject)
  with j show ?thesis by simp
qed

lemma indexed_fst: "map fst (indexed i ks) = ks"
  by (induction i ks rule: indexed.induct) auto

lemma im_get_indexed:
  assumes "distinct ks"
  shows "im_get (indexed 0 ks) k = Some j \<longleftrightarrow> j < length ks \<and> ks ! j = k"
proof -
  have "im_wf (indexed 0 ks)" using assms by (simp add: im_wf_def indexed_fst)
  then show ?thesis by (subst im_get_Some_iff) (auto simp: indexed_map)
qed

lemma find_keys:
  assumes "list_keys xs = Some ks"
  shows "find (is_ident k) xs = (case im_get (indexed 0 ks) k of None \<Rightarrow> None | Some j \<Rightarrow> Some (xs ! j))"
proof (cases "k \<in> set ks")
  case True
  then obtain i where i: "i < length ks" "k = ks ! i" by (auto simp: in_set_conv_nth)
  have "im_get (indexed 0 ks) k = Some i"
    using im_get_indexed [OF list_keysD(2) [OF assms]] i by simp
  with find_index_SomeD [OF find_index_keys [OF assms, of i]] i list_keysD(1) [OF assms]
  show ?thesis by simp
next
  case False
  then have "im_get (indexed 0 ks) k = None"
    by (auto simp: im_get_None_iff indexed_map)
  moreover have "\<not> is_ident k x" if "x \<in> set xs" for x
  proof -
    from that obtain i where "i < length xs" "x = xs ! i" by (auto simp: in_set_conv_nth)
    with list_keysD(1,3) [OF assms] False show ?thesis by (auto simp: is_ident_def)
  qed
  then have "find (is_ident k) xs = None" by (auto simp: find_None_iff)
  ultimately show ?thesis by simp
qed

lemma shared_keys_Some:
  "shared_keys la lb = Some (ka, kb) \<longleftrightarrow> list_keys la = Some ka \<and> list_keys lb = Some kb"
  by (auto simp: shared_keys_def split: option.splits)

lemma compare_List_indexed:
  "shared_keys la lb = None \<Longrightarrow> compare ext path (List la) (List lb) =
     concat (map (\<lambda>n. compare ext (ext path (Index n)) (la ! n) (lb ! n))
       [0..<min (length la) (length lb)])
     @ map (\<lambda>n. (ext path (Index n), Removed (la ! n))) [length lb..<length la]
     @ map (\<lambda>n. (ext path (Index n), Added (lb ! n))) [length la..<length lb]"
  by (simp add: compare.simps compare_indexed_concat)

lemma compare_List_keyed:
  assumes "list_keys la = Some ka" "list_keys lb = Some kb"
  shows "compare ext path (List la) (List lb) =
     concat (map (\<lambda>(a, k). case im_get (indexed 0 kb) k of
         Some j \<Rightarrow> compare ext (ext path (Ident k)) a (lb ! j)
       | None \<Rightarrow> [(ext path (Ident k), Removed a)]) (zip la ka))
     @ map (\<lambda>(k, j). (ext path (Ident k), Added (lb ! j)))
         (sort_key fst (filter (\<lambda>p. fst p \<notin> set ka) (indexed 0 kb)))"
  using assms list_keysD [OF assms(1)]
  by (simp add: compare.simps shared_keys_Some [THEN iffD2] compare_keyed_concat)

fun is_leaf :: "nbt_value \<Rightarrow> bool" where
  "is_leaf (Compound _) = False"
| "is_leaf (List _) = False"
| "is_leaf _ = True"

fun leaf_kind :: "nbt_value \<Rightarrow> nbt_value \<Rightarrow> nbt_value \<Rightarrow> change" where
  "leaf_kind (ByteArray _) = ArrayChanged"
| "leaf_kind (IntArray _) = ArrayChanged"
| "leaf_kind (LongArray _) = ArrayChanged"
| "leaf_kind _ = Modified"

lemma compare_leaf:
  "is_leaf a \<Longrightarrow> tag_id a = tag_id b \<Longrightarrow>
     compare ext path a b = (if nbt_eq a b then [] else [(path, leaf_kind a a b)])"
  by (cases a) (auto simp: compare.simps leaf_change_def)

lemmas compare_closed = compare_tag compare_Compound compare_List_indexed compare_List_keyed compare_leaf

text \<open>The cases of a pair of trees that the walk distinguishes.\<close>

lemma tree_pair_cases [case_names Tag Compound Keyed Indexed Leaf]:
  assumes "tag_id a \<noteq> tag_id b \<Longrightarrow> P"
    and "\<And>ma mb. a = Compound ma \<Longrightarrow> b = Compound mb \<Longrightarrow> P"
    and "\<And>la lb ka kb. a = List la \<Longrightarrow> b = List lb \<Longrightarrow> list_keys la = Some ka \<Longrightarrow>
           list_keys lb = Some kb \<Longrightarrow> P"
    and "\<And>la lb. a = List la \<Longrightarrow> b = List lb \<Longrightarrow> shared_keys la lb = None \<Longrightarrow> P"
    and "is_leaf a \<Longrightarrow> tag_id a = tag_id b \<Longrightarrow> P"
  shows P
proof (cases "tag_id a = tag_id b")
  case True
  show P
  proof (cases "is_leaf a")
    case False
    then consider (c) m where "a = Compound m" | (l) l where "a = List l"
      by (cases a) auto
    then show P
    proof cases
      case c
      with True assms(2) show P by (cases b) auto
    next
      case (l la)
      with True obtain lb where lb: "b = List lb" by (cases b) auto
      show P
        by (cases "shared_keys la lb") (use l lb assms(3,4) shared_keys_Some in auto)
    qed
  qed (use True assms(5) in simp)
qed (use assms(1) in simp)

section \<open>Every row tells the truth\<close>

abbreviation diff_steps :: "nbt_value \<Rightarrow> nbt_value \<Rightarrow> (seg list \<times> change) list" where
  "diff_steps \<equiv> compare (\<lambda>p s. p @ [s]) []"

lemma diff_induct [case_names Tag Compound Keyed Indexed Leaf]:
  assumes tag: "\<And>a b. tag_id a \<noteq> tag_id b \<Longrightarrow> P a b"
    and comp: "\<And>ma mb. (\<And>k va vb. (k, va) \<in> set ma \<Longrightarrow> im_get mb k = Some vb \<Longrightarrow> P va vb) \<Longrightarrow>
           P (Compound ma) (Compound mb)"
    and keyed: "\<And>la lb ka kb. list_keys la = Some ka \<Longrightarrow> list_keys lb = Some kb \<Longrightarrow>
           (\<And>a b. a \<in> set la \<Longrightarrow> b \<in> set lb \<Longrightarrow> P a b) \<Longrightarrow> P (List la) (List lb)"
    and indexed: "\<And>la lb. shared_keys la lb = None \<Longrightarrow>
           (\<And>i. i < length la \<Longrightarrow> i < length lb \<Longrightarrow> P (la ! i) (lb ! i)) \<Longrightarrow> P (List la) (List lb)"
    and leaf: "\<And>a b. is_leaf a \<Longrightarrow> tag_id a = tag_id b \<Longrightarrow> P a b"
  shows "P a b"
proof (induction a arbitrary: b)
  case (List la)
  show ?case
    by (cases "nbt_value.List la" b rule: tree_pair_cases)
      (use tag keyed indexed List in \<open>auto intro: nth_mem\<close>)
next
  case (Compound ma)
  show ?case
    by (cases "nbt_value.Compound ma" b rule: tree_pair_cases)
      (use tag comp Compound in \<open>auto simp: snds.simps\<close>)
qed (use tag leaf in \<open>metis is_leaf.simps\<close>)+

text \<open>Building the paths is independent of the walk.\<close>

lemma compare_natural:
  assumes ext: "\<And>p s. h (ext p s) = ext' (h p) s"
  shows "compare ext' (h p) a b = map (apfst h) (compare ext p a b)"
proof (induction a b arbitrary: p rule: diff_induct)
  case (Compound ma mb)
  have "(case im_get mb (fst q) of
           Some vb \<Rightarrow> compare ext' (ext' (h p) (Key (fst q))) (snd q) vb
         | None \<Rightarrow> [(ext' (h p) (Key (fst q)), Removed (snd q))]) =
        map (apfst h) (case im_get mb (fst q) of
           Some vb \<Rightarrow> compare ext (ext p (Key (fst q))) (snd q) vb
         | None \<Rightarrow> [(ext p (Key (fst q)), Removed (snd q))])" if "q \<in> set ma" for q
    using Compound.IH [of "fst q" "snd q"] that by (auto split: option.splits simp flip: ext)
  then show ?case
    by (auto simp: compare_Compound map_concat added_entries_def ext comp_def
      intro!: arg_cong [where f = concat] map_cong)
next
  case (Keyed la lb ka kb)
  have "(case im_get (indexed 0 kb) k of
           Some j \<Rightarrow> compare ext' (ext' (h p) (Ident k)) x (lb ! j)
         | None \<Rightarrow> [(ext' (h p) (Ident k), Removed x)]) =
        map (apfst h) (case im_get (indexed 0 kb) k of
           Some j \<Rightarrow> compare ext (ext p (Ident k)) x (lb ! j)
         | None \<Rightarrow> [(ext p (Ident k), Removed x)])" if "(x, k) \<in> set (zip la ka)" for x k
  proof -
    from that have "x \<in> set la" by (rule set_zip_leftD)
    moreover have "lb ! j \<in> set lb" if "im_get (indexed 0 kb) k = Some j" for j
      using that im_get_indexed [OF list_keysD(2) [OF Keyed.hyps(2)]] list_keysD(1) [OF Keyed.hyps(2)] by simp
    ultimately show ?thesis using Keyed.IH by (auto split: option.splits simp flip: ext)
  qed
  with Keyed.hyps show ?case
    by (auto simp: compare_List_keyed map_concat ext comp_def split_beta cong: option.case_cong
      intro!: arg_cong [where f = concat] map_cong)
next
  case (Indexed la lb)
  then show ?case
    by (auto simp: compare_List_indexed map_concat ext comp_def simp flip: ext
      intro!: arg_cong [where f = concat] map_cong)
qed (auto simp: compare_tag compare_leaf)

text \<open>The steps of the rows, and the text the code builds for them.\<close>

lemma compare_steps:
  "compare (\<lambda>p s. p @ [s]) p a b = map (apfst ((@) p)) (diff_steps a b)"
  using compare_natural [of "(@) p" "\<lambda>p s. p @ [s]" "\<lambda>p s. p @ [s]" "[]" a b] by simp

lemma compare_text: "compare seg_text [] a b = map (apfst path_text) (diff_steps a b)"
proof -
  have "path_text (p @ [s]) = seg_text (path_text p) s" for p s by (simp add: path_text_def)
  then have "compare seg_text (path_text []) a b = map (apfst path_text) (diff_steps a b)"
    by (rule compare_natural)
  then show ?thesis by (simp add: path_text_def)
qed

lemma compare_step1:
  "compare (\<lambda>p s. p @ [s]) [s] a b = map (apfst ((#) s)) (diff_steps a b)"
proof -
  have "(@) [s] = (#) s" by (simp add: fun_eq_iff)
  with compare_steps [of "[s]" a b] show ?thesis by simp
qed

lemma diff_steps_Compound:
  "diff_steps (Compound ma) (Compound mb) =
     concat (map (\<lambda>p. case im_get mb (fst p) of
         Some vb \<Rightarrow> map (apfst ((#) (Key (fst p)))) (diff_steps (snd p) vb)
       | None \<Rightarrow> [([Key (fst p)], Removed (snd p))]) ma)
     @ map (\<lambda>k. ([Key k], Added (the (im_get mb k))))
         (sort (filter (\<lambda>k. im_get ma k = None) (map fst mb)))"
  unfolding compare_Compound added_entries_def append_Nil compare_step1 ..

lemma diff_steps_keyed:
  assumes "list_keys la = Some ka" "list_keys lb = Some kb"
  shows "diff_steps (List la) (List lb) =
     concat (map (\<lambda>(a, k). case im_get (indexed 0 kb) k of
         Some j \<Rightarrow> map (apfst ((#) (Ident k))) (diff_steps a (lb ! j))
       | None \<Rightarrow> [([Ident k], Removed a)]) (zip la ka))
     @ map (\<lambda>(k, j). ([Ident k], Added (lb ! j)))
         (sort_key fst (filter (\<lambda>p. fst p \<notin> set ka) (indexed 0 kb)))"
  unfolding compare_List_keyed [OF assms] append_Nil compare_step1 ..

lemma diff_steps_indexed:
  assumes "shared_keys la lb = None"
  shows "diff_steps (List la) (List lb) =
     concat (map (\<lambda>n. map (apfst ((#) (Index n))) (diff_steps (la ! n) (lb ! n)))
       [0..<min (length la) (length lb)])
     @ map (\<lambda>n. ([Index n], Removed (la ! n))) [length lb..<length la]
     @ map (\<lambda>n. ([Index n], Added (lb ! n))) [length la..<length lb]"
  unfolding compare_List_indexed [OF assms] append_Nil compare_step1 ..

fun event_true :: "seg list \<Rightarrow> change \<Rightarrow> nbt_value \<Rightarrow> nbt_value \<Rightarrow> bool" where
  "event_true q (Added v) a b = (path_get q a = None \<and> path_get q b = Some v)"
| "event_true q (Removed v) a b = (path_get q a = Some v \<and> path_get q b = None)"
| "event_true q (TypeChanged x y) a b =
     (path_get q a = Some x \<and> path_get q b = Some y \<and> tag_id x \<noteq> tag_id y)"
| "event_true q (Modified x y) a b =
     (path_get q a = Some x \<and> path_get q b = Some y \<and> tag_id x = tag_id y \<and> \<not> nbt_eq x y)"
| "event_true q (ArrayChanged x y) a b =
     (path_get q a = Some x \<and> path_get q b = Some y \<and> tag_id x = tag_id y \<and> \<not> nbt_eq x y)"

lemma event_true_step:
  "event_true q c x y \<Longrightarrow> step a s = Some x \<Longrightarrow> step b s = Some y \<Longrightarrow> event_true (s # q) c a b"
  by (cases c) auto

lemma event_true_leaf: "tag_id a = tag_id b \<Longrightarrow> \<not> nbt_eq a b \<Longrightarrow> event_true [] (leaf_kind a a b) a b"
  by (cases a) auto

lemma diff_events_Compound:
  assumes "(q, c) \<in> set (diff_steps (Compound ma) (Compound mb))"
  obtains (both) k va vb q' where "(k, va) \<in> set ma" "im_get mb k = Some vb" "q = Key k # q'"
      "(q', c) \<in> set (diff_steps va vb)"
    | (removed) k va where "(k, va) \<in> set ma" "im_get mb k = None" "q = [Key k]" "c = Removed va"
    | (added) k vb where "im_get mb k = Some vb" "im_get ma k = None" "q = [Key k]" "c = Added vb"
proof -
  from assms consider
      (l) p where "p \<in> set ma" "(q, c) \<in> set (case im_get mb (fst p) of
           Some vb \<Rightarrow> map (apfst ((#) (Key (fst p)))) (diff_steps (snd p) vb)
         | None \<Rightarrow> [([Key (fst p)], Removed (snd p))])"
    | (r) k where "k \<in> fst ` set mb" "im_get ma k = None" "q = [Key k]" "c = Added (the (im_get mb k))"
    unfolding diff_steps_Compound by auto
  then show thesis
  proof cases
    case (l p)
    from l(1) have "(fst p, snd p) \<in> set ma" by simp
    with l(2) show thesis
      using both [of "fst p" "snd p"] removed [of "fst p" "snd p"]
      by (cases "im_get mb (fst p)") auto
  next
    case (r k)
    then obtain vb where "im_get mb k = Some vb" using im_get_None_iff by fastforce
    with r added show thesis by simp
  qed
qed

lemma diff_events_keyed:
  assumes "(q, c) \<in> set (diff_steps (List la) (List lb))"
    "list_keys la = Some ka" "list_keys lb = Some kb"
  obtains (both) i j q' where "i < length la" "j < length lb" "ka ! i = kb ! j" "q = Ident (ka ! i) # q'"
      "(q', c) \<in> set (diff_steps (la ! i) (lb ! j))"
    | (removed) i where "i < length la" "ka ! i \<notin> set kb" "q = [Ident (ka ! i)]" "c = Removed (la ! i)"
    | (added) j where "j < length lb" "kb ! j \<notin> set ka" "q = [Ident (kb ! j)]" "c = Added (lb ! j)"
proof -
  note ka = list_keysD [OF assms(2)] and kb = list_keysD [OF assms(3)]
  from assms(1) consider
      (l) x k where "(x, k) \<in> set (zip la ka)" "(q, c) \<in> set (case im_get (indexed 0 kb) k of
           Some j \<Rightarrow> map (apfst ((#) (Ident k))) (diff_steps x (lb ! j))
         | None \<Rightarrow> [([Ident k], Removed x)])"
    | (r) k j where "(k, j) \<in> set (indexed 0 kb)" "k \<notin> set ka" "q = [Ident k]" "c = Added (lb ! j)"
    unfolding diff_steps_keyed [OF assms(2,3)] by auto
  then show thesis
  proof cases
    case (l x k)
    from l(1) obtain i where i: "i < length la" "x = la ! i" "k = ka ! i"
      by (auto simp: in_set_zip ka(1))
    show thesis
    proof (cases "im_get (indexed 0 kb) k")
      case None
      then have "k \<notin> set kb"
        using im_get_indexed [OF kb(2)] by (metis in_set_conv_nth option.distinct(1))
      with l None i removed show thesis by simp
    next
      case (Some j)
      then have j: "j < length lb" "kb ! j = k" using im_get_indexed [OF kb(2)] kb(1) by auto
      from l(2) Some obtain q' where "q = Ident k # q'" "(q', c) \<in> set (diff_steps x (lb ! j))"
        by auto
      with both i j show thesis by simp
    qed
  next
    case (r k j)
    then have "j < length lb" "kb ! j = k" using kb(1) by (auto simp: indexed_map)
    with r added show thesis by simp
  qed
qed

lemma diff_events_indexed:
  assumes "(q, c) \<in> set (diff_steps (List la) (List lb))" "shared_keys la lb = None"
  obtains (both) i q' where "i < length la" "i < length lb" "q = Index i # q'"
      "(q', c) \<in> set (diff_steps (la ! i) (lb ! i))"
    | (removed) i where "length lb \<le> i" "i < length la" "q = [Index i]" "c = Removed (la ! i)"
    | (added) i where "length la \<le> i" "i < length lb" "q = [Index i]" "c = Added (lb ! i)"
  using assms(1) unfolding diff_steps_indexed [OF assms(2)] by auto

lemma step_keyed:
  assumes "list_keys xs = Some ks"
  shows "i < length xs \<Longrightarrow> step (List xs) (Ident (ks ! i)) = Some (xs ! i)"
    and "k \<notin> set ks \<Longrightarrow> step (List xs) (Ident k) = None"
proof -
  note ks = list_keysD [OF assms]
  show "step (List xs) (Ident (ks ! i)) = Some (xs ! i)" if "i < length xs"
  proof -
    have "im_get (indexed 0 ks) (ks ! i) = Some i" using im_get_indexed [OF ks(2)] that ks(1) by simp
    then show ?thesis by (simp add: find_keys [OF assms])
  qed
  show "step (List xs) (Ident k) = None" if "k \<notin> set ks"
  proof -
    have "im_get (indexed 0 ks) k = None" using that by (simp add: im_get_None_iff indexed_fst flip: set_map)
    then show ?thesis by (simp add: find_keys [OF assms])
  qed
qed

lemma diff_steps_true:
  "(q, c) \<in> set (diff_steps a b) \<Longrightarrow> nbt_wf a \<Longrightarrow> nbt_wf b \<Longrightarrow> event_true q c a b"
proof (induction a b arbitrary: q rule: diff_induct)
  case (Compound ma mb)
  from Compound.prems(1) show ?case
  proof (cases rule: diff_events_Compound)
    case (both k va vb q')
    then have "event_true q' c va vb"
      using Compound.prems(2,3) im_get_SomeD [OF both(2)] by (intro Compound.IH) auto
    then show ?thesis
      unfolding both(3)
      by (rule event_true_step) (use both(1,2) Compound.prems(2) in \<open>simp_all add: im_get_memI\<close>)
  qed (use Compound.prems in \<open>simp_all add: im_get_memI\<close>)
next
  case (Keyed la lb ka kb)
  from Keyed.prems(1) Keyed.hyps(1,2) show ?case
  proof (cases rule: diff_events_keyed)
    case (both i j q')
    then have "event_true q' c (la ! i) (lb ! j)"
      using Keyed.prems(2,3) nth_mem [OF both(1)] nth_mem [OF both(2)] both(5)
      by (intro Keyed.IH) simp_all
    then show ?thesis
      unfolding both(4) using step_keyed(1) [OF Keyed.hyps(1) both(1)] step_keyed(1) [OF Keyed.hyps(2) both(2)] both(3)
      by (auto intro: event_true_step)
  next
    case (removed i)
    then show ?thesis
      using step_keyed(1) [OF Keyed.hyps(1) removed(1)] step_keyed(2) [OF Keyed.hyps(2) removed(2)] by simp
  next
    case (added j)
    then show ?thesis
      using step_keyed(1) [OF Keyed.hyps(2) added(1)] step_keyed(2) [OF Keyed.hyps(1) added(2)] by simp
  qed
next
  case (Indexed la lb)
  from Indexed.prems(1) Indexed.hyps(1) show ?case
  proof (cases rule: diff_events_indexed)
    case (both i q')
    then have "event_true q' c (la ! i) (lb ! i)"
      using Indexed.prems(2,3) by (intro Indexed.IH) auto
    then show ?thesis unfolding both(3) using both(1,2) by (auto intro: event_true_step)
  qed auto
qed (auto simp: compare_tag compare_leaf event_true_leaf split: if_splits)

section \<open>When the walk reports nothing\<close>

text \<open>
  The same tree up to the order of the keys of a compound and the order of the elements of a list
  whose elements all have their own identity.
\<close>

inductive upto_order :: "nbt_value \<Rightarrow> nbt_value \<Rightarrow> bool" where
  leaf: "is_leaf a \<Longrightarrow> nbt_eq a b \<Longrightarrow> upto_order a b"
| compound: "(\<And>k. rel_option upto_order (im_get ma k) (im_get mb k)) \<Longrightarrow>
    upto_order (Compound ma) (Compound mb)"
| aligned: "list_all2 upto_order la lb \<Longrightarrow> upto_order (List la) (List lb)"
| matched: "list_keys la \<noteq> None \<Longrightarrow> list_keys lb \<noteq> None \<Longrightarrow> mset lb' = mset lb \<Longrightarrow>
    list_all2 upto_order la lb' \<Longrightarrow> upto_order (List la) (List lb)"

inductive_simps upto_order_Compound: "upto_order (Compound ma) b"
inductive_simps upto_order_List: "upto_order (List la) b"

lemma upto_order_tag: "upto_order a b \<Longrightarrow> tag_id a = tag_id b"
  by (cases rule: upto_order.cases) (auto dest: nbt_cmp_tag)

lemma upto_order_leaf: "is_leaf a \<Longrightarrow> upto_order a b \<longleftrightarrow> nbt_eq a b"
  by (auto intro: upto_order.leaf elim: upto_order.cases)

lemma upto_order_leaf_right: "is_leaf b \<Longrightarrow> upto_order a b \<Longrightarrow> nbt_eq a b"
  by (auto elim: upto_order.cases)

lemma upto_order_exact:
  "upto_order (IntArray a) w \<longleftrightarrow> w = IntArray a" "upto_order (Long l) w \<longleftrightarrow> w = Long l"
  "upto_order (IntV i) w \<longleftrightarrow> w = IntV i" "upto_order (Byte x) w \<longleftrightarrow> w = Byte x"
  "upto_order (String s) w \<longleftrightarrow> w = String s"
  by (simp_all add: upto_order_leaf)

lemma upto_order_exact_right:
  "upto_order w (IntArray a) \<Longrightarrow> w = IntArray a" "upto_order w (Long l) \<Longrightarrow> w = Long l"
  "upto_order w (IntV i) \<Longrightarrow> w = IntV i" "upto_order w (Byte x) \<Longrightarrow> w = Byte x"
  "upto_order w (String s) \<Longrightarrow> w = String s"
  by (drule upto_order_leaf_right [rotated], simp, cases w; simp)+

lemma upto_order_field:
  assumes "rel_option upto_order (im_get ma k) (im_get mb k)"
  shows "im_get ma k = Some (IntArray a) \<longleftrightarrow> im_get mb k = Some (IntArray a)"
    "im_get ma k = Some (Long l) \<longleftrightarrow> im_get mb k = Some (Long l)"
    "im_get ma k = Some (IntV i) \<longleftrightarrow> im_get mb k = Some (IntV i)"
    "im_get ma k = Some (Byte x) \<longleftrightarrow> im_get mb k = Some (Byte x)"
    "im_get ma k = Some (String s) \<longleftrightarrow> im_get mb k = Some (String s)"
  using assms
  by (cases "im_get ma k"; cases "im_get mb k";
      fastforce simp: upto_order_exact dest: upto_order_exact_right)+

lemma upto_order_identity:
  assumes "upto_order a b"
  shows "identity_key a = identity_key b"
  using assms
proof (cases rule: upto_order.cases)
  case (compound ma mb)
  note f = upto_order_field [OF compound(3)]
  have ex: "x = y" if "\<And>k. x = Some k \<longleftrightarrow> y = Some k" for x y :: "string option"
    using that by (metis not_None_eq)
  have "key_uuid ma = key_uuid mb" "key_uuid_legacy ma = key_uuid_legacy mb" "key_block ma = key_block mb"
    "key_slot ma = key_slot mb" "key_id ma = key_id mb"
    by (rule ex; simp add: key_uuid_Some key_legacy_Some key_block_Some key_slot_Some key_id_Some f)+
  then show ?thesis by (simp add: identity_key_def compound)
next
  case leaf
  then show ?thesis by (cases a) (auto simp: identity_key_def)
qed (simp_all add: identity_key_def)

lemma no_rows_upto_order: "diff_steps a b = [] \<Longrightarrow> nbt_wf a \<Longrightarrow> nbt_wf b \<Longrightarrow> upto_order a b"
proof (induction a b rule: diff_induct)
  case (Compound ma mb)
  show ?case
  proof (rule upto_order.compound)
    fix k
    show "rel_option upto_order (im_get ma k) (im_get mb k)"
    proof (cases "im_get ma k")
      case None
      show ?thesis
      proof (cases "im_get mb k")
        case (Some vb)
        with None have "([Key k], Added vb) \<in> set (diff_steps (Compound ma) (Compound mb))"
          unfolding diff_steps_Compound by (force dest: im_get_SomeD)
        with Compound.prems show ?thesis by simp
      qed (simp add: None)
    next
      case (Some va)
      then have in_a: "(k, va) \<in> set ma" by (rule im_get_SomeD)
      have "\<forall>x \<in> set ma. (case im_get mb (fst x) of
          Some vb \<Rightarrow> map (apfst ((#) (Key (fst x)))) (diff_steps (snd x) vb)
        | None \<Rightarrow> [([Key (fst x)], Removed (snd x))]) = []"
        using Compound.prems(1)
        unfolding diff_steps_Compound append_is_Nil_conv concat_eq_Nil_conv list.set_map ball_simps
        by (rule conjunct1)
      from bspec [OF this in_a, unfolded fst_conv snd_conv] have "(case im_get mb k of
          Some vb \<Rightarrow> map (apfst ((#) (Key k))) (diff_steps va vb)
        | None \<Rightarrow> [([Key k], Removed va)]) = []" .
      then obtain vb where vb: "im_get mb k = Some vb" "diff_steps va vb = []"
        by (cases "im_get mb k") auto
      with Compound.IH [OF in_a vb(1)] Compound.prems in_a im_get_SomeD [OF vb(1)] show ?thesis
        by (fastforce simp: Some)
    qed
  qed
next
  case (Keyed la lb ka kb)
  note ka = list_keysD [OF Keyed.hyps(1)] and kb = list_keysD [OF Keyed.hyps(2)]
  define g where "g k = lb ! the (im_get (indexed 0 kb) k)" for k
  from Keyed.prems(1) have rows: "\<forall>(x, k) \<in> set (zip la ka). \<exists>j. im_get (indexed 0 kb) k = Some j \<and>
      diff_steps x (lb ! j) = []"
    and rest: "sort_key fst (filter (\<lambda>p. fst p \<notin> set ka) (indexed 0 kb)) = []"
    unfolding diff_steps_keyed [OF Keyed.hyps(1,2)] by (fastforce split: option.splits)+
  have sub: "set kb \<subseteq> set ka"
  proof
    fix k assume "k \<in> set kb"
    then have "k \<in> fst ` set (indexed 0 kb)" by (simp add: indexed_fst flip: set_map)
    moreover from rest have "filter (\<lambda>p. fst p \<notin> set ka) (indexed 0 kb) = []"
      by (metis length_0_conv length_sort)
    ultimately show "k \<in> set ka" by (auto simp: filter_empty_conv)
  qed
  have row: "\<exists>j < length lb. kb ! j = ka ! i \<and> g (ka ! i) = lb ! j \<and> diff_steps (la ! i) (lb ! j) = []"
    if "i < length la" for i
  proof -
    from that ka(1) have "(la ! i, ka ! i) \<in> set (zip la ka)" by (auto simp: in_set_zip)
    with rows obtain j where j: "im_get (indexed 0 kb) (ka ! i) = Some j"
      "diff_steps (la ! i) (lb ! j) = []" by blast
    then have "j < length lb" "kb ! j = ka ! i"
      using im_get_indexed [OF kb(2)] kb(1) by simp_all
    moreover have "g (ka ! i) = lb ! j" by (simp add: g_def j(1))
    ultimately show ?thesis using j(2) by blast
  qed
  have "set ka \<subseteq> set kb" using row ka(1) kb(1) by (metis in_set_conv_nth subsetI)
  with sub ka(2) kb(2) have keys: "mset ka = mset kb" by (metis set_eq_iff_mset_eq_distinct subset_antisym)
  have "im_get (indexed 0 kb) (kb ! i) = Some i" if "i < length kb" for i
    using im_get_indexed [OF kb(2)] that by simp
  then have "map g kb = lb"
    using kb(1) by (intro nth_equalityI) (simp_all add: g_def)
  then have "mset (map g ka) = mset lb" using keys by (metis mset_map)
  moreover have "list_all2 upto_order la (map g ka)"
  proof (rule list_all2_all_nthI)
    fix i assume i: "i < length la"
    from row [OF this] obtain j where j: "j < length lb" "g (ka ! i) = lb ! j"
      "diff_steps (la ! i) (lb ! j) = []" by blast
    with Keyed.IH [OF nth_mem [OF i] nth_mem [OF j(1)]] Keyed.prems(2,3) nth_mem [OF i] nth_mem [OF j(1)]
    show "upto_order (la ! i) (map g ka ! i)" using i ka(1) by simp
  qed (simp add: ka(1))
  ultimately show ?case using upto_order.matched Keyed.hyps by blast
next
  case (Indexed la lb)
  from Indexed.prems(1) have *: "\<And>i. i < length la \<Longrightarrow> i < length lb \<Longrightarrow> diff_steps (la ! i) (lb ! i) = []"
    "length la = length lb"
    unfolding diff_steps_indexed [OF Indexed.hyps] by auto
  then show ?case
    using Indexed by (intro upto_order.aligned list_all2_all_nthI) auto
qed (auto simp: compare_tag compare_leaf upto_order_leaf split: if_splits)

lemma upto_order_no_rows: "upto_order a b \<Longrightarrow> nbt_wf a \<Longrightarrow> nbt_wf b \<Longrightarrow> diff_steps a b = []"
proof (induction a b rule: diff_induct)
  case (Compound ma mb)
  then have rel: "rel_option upto_order (im_get ma k) (im_get mb k)" for k
    by (auto simp: upto_order_Compound)
  have "(q, c) \<notin> set (diff_steps (Compound ma) (Compound mb))" for q c
  proof
    assume "(q, c) \<in> set (diff_steps (Compound ma) (Compound mb))"
    then show False
    proof (cases rule: diff_events_Compound)
      case (both k va vb q')
      then have "upto_order va vb" using rel [of k] Compound.prems(2) by (simp add: im_get_memI)
      moreover have "nbt_wf va" "nbt_wf vb"
        using Compound.prems(2,3) both(1) im_get_SomeD [OF both(2)] by auto
      ultimately show False using Compound.IH [OF both(1,2)] both(4) by simp
    next
      case (removed k va)
      then show False using rel [of k] Compound.prems(2) by (simp add: im_get_memI)
    next
      case (added k vb)
      then show False using rel [of k] by simp
    qed
  qed
  then show ?case by (metis list.set_intros(1) neq_Nil_conv surj_pair)
next
  case (Keyed la lb ka kb)
  note ka = list_keysD [OF Keyed.hyps(1)] and kb = list_keysD [OF Keyed.hyps(2)]
  from Keyed.prems(1) obtain lb' where lb': "mset lb' = mset lb" "list_all2 upto_order la lb'"
    by (auto simp: upto_order_List)
  note sets = mset_eq_setD [OF lb'(1)] and len = list_all2_lengthD [OF lb'(2)]
  have key: "identity_key (lb' ! i) = Some (ka ! i)" if "i < length la" for i
    using upto_order_identity list_all2_nthD [OF lb'(2) that] ka(3) [OF that] by metis
  have "(q, c) \<notin> set (diff_steps (List la) (List lb))" for q c
  proof
    assume "(q, c) \<in> set (diff_steps (List la) (List lb))"
    from this Keyed.hyps(1,2) show False
    proof (cases rule: diff_events_keyed)
      case (both i j q')
      have "lb' ! i \<in> set lb" using sets len both(1) by (metis nth_mem)
      then obtain j' where j': "j' < length lb" "lb ! j' = lb' ! i" by (metis in_set_conv_nth)
      with key [OF both(1)] kb(3) [OF j'(1)] both(3) have "kb ! j' = kb ! j" by simp
      with j'(1) both(2) kb have "j' = j" by (simp add: nth_eq_iff_index_eq)
      with j' list_all2_nthD [OF lb'(2) both(1)] have "upto_order (la ! i) (lb ! j)" by simp
      with Keyed.IH [OF nth_mem [OF both(1)] nth_mem [OF both(2)]] Keyed.prems(2,3) both
      show False by simp
    next
      case (removed i)
      have "lb' ! i \<in> set lb" using sets len removed(1) by (metis nth_mem)
      then obtain j where "j < length lb" "lb ! j = lb' ! i" by (metis in_set_conv_nth)
      with key [OF removed(1)] kb removed(2) show False by (metis nth_mem option.inject)
    next
      case (added j)
      have "lb ! j \<in> set lb'" using sets added(1) by simp
      then obtain i where "i < length la" "lb' ! i = lb ! j" using len by (metis in_set_conv_nth)
      with key kb(3) [OF added(1)] added(2) ka(1) show False by (metis nth_mem option.inject)
    qed
  qed
  then show ?case by (metis list.set_intros(1) neq_Nil_conv surj_pair)
next
  case (Indexed la lb)
  then have "list_all2 upto_order la lb"
    by (auto simp: upto_order_List shared_keys_def split: option.splits)
  then have "length la = length lb" "\<And>i. i < length la \<Longrightarrow> upto_order (la ! i) (lb ! i)"
    by (auto dest: list_all2_lengthD list_all2_nthD)
  with Indexed show ?case by (auto simp: diff_steps_indexed)
qed (auto simp: compare_leaf upto_order_leaf dest: upto_order_tag)

section \<open>Properties\<close>

text \<open>
  C6. Every row of a diff tells the truth: its path is the text of steps that lead, in the old and
  the new tree, to exactly the values the row carries; an added node is absent from the old tree,
  a removed one from the new tree, and a modified one is different on the two sides.
\<close>

theorem diff_rows_true:
  "nbt_wf a \<Longrightarrow> nbt_wf b \<Longrightarrow> (p, c) \<in> set (compare seg_text [] a b) \<Longrightarrow>
     \<exists>q. p = path_text q \<and> event_true q c a b"
  using diff_steps_true by (fastforce simp: compare_text)

definition before_tree :: nbt_value where
  "before_tree = Compound [(''hp'', Byte 20), (''Inv'', List [Compound [(''Slot'', Byte 0)], Compound [(''Slot'', Byte 3)]])]"

definition after_tree :: nbt_value where
  "after_tree = Compound [(''Inv'', List [Compound [(''Slot'', Byte 3), (''n'', Byte 1)], Compound [(''Slot'', Byte 0)]]),
     (''hp'', Byte 7)]"

lemma before_after_rows:
  "compare seg_text [] before_tree after_tree =
     [(''hp'', Modified (Byte 20) (Byte 7)), (''Inv[slot:3].n'', Added (Byte 1))]"
  by code_simp

lemma before_after_wf: "nbt_wf before_tree" "nbt_wf after_tree"
  by (simp_all add: before_tree_def after_tree_def im_wf_def)

theorem diff_rows_true_witness:
  "\<exists>q. ''Inv[slot:3].n'' = path_text q \<and> event_true q (Added (Byte 1)) before_tree after_tree"
  by (rule diff_rows_true [OF before_after_wf]) (simp add: before_after_rows)

text \<open>
  C9. A diff is empty exactly when the two trees are the same up to the order of the keys of
  compounds and the order of the elements of lists whose elements have identities of their own. In
  particular a tree that holds a NaN differs from itself.
\<close>

theorem diff_empty_iff:
  "nbt_wf a \<Longrightarrow> nbt_wf b \<Longrightarrow> compare seg_text [] a b = [] \<longleftrightarrow> upto_order a b"
  using no_rows_upto_order upto_order_no_rows by (auto simp: compare_text)

theorem diff_empty_iff_witness:
  "\<not> upto_order before_tree after_tree \<and> \<not> upto_order (Float 0x7FC00000) (Float 0x7FC00000)"
proof -
  have "compare seg_text [] (Float 0x7FC00000) (Float 0x7FC00000) \<noteq> []" by code_simp
  then show ?thesis
    using diff_empty_iff [OF before_after_wf] diff_empty_iff [of "Float 0x7FC00000" "Float 0x7FC00000"]
    by (simp add: before_after_rows)
qed

end
