(* ===== verification/PatchOps.thy ===== *)
theory PatchOps imports
  NbtJson
  DiffComparer
begin

text \<open>
  \<^verbatim>\<open>crates/diff/src/change.rs\<close>, \<^verbatim>\<open>crates/patch/src/op_sink.rs\<close>, the node operations of
  \<^verbatim>\<open>extract.rs\<close> and \<^verbatim>\<open>apply_op\<close> of \<^verbatim>\<open>apply.rs\<close>: the two sinks of the walk, and the guarded
  application of one operation to the root of a chunk or of a loose file.
\<close>

section \<open>The display sink\<close>

datatype change_kind = KAdded | KRemoved | KModified | KTypeChanged

record nbt_change =
  ch_path :: string
  ch_kind :: change_kind
  ch_old :: "string option"
  ch_new :: "string option"

text \<open>\<^verbatim>\<open>repr\<close>; the escaping of \<^verbatim>\<open>{:?}\<close> on a string is the argument \<open>dbg\<close>.\<close>

fun repr :: "float_text \<Rightarrow> (string \<Rightarrow> string) \<Rightarrow> nbt_value \<Rightarrow> string" where
  "repr ft dbg (Byte x) = show_int (sint x)"
| "repr ft dbg (Short x) = show_int (sint x)"
| "repr ft dbg (IntV x) = show_int (sint x)"
| "repr ft dbg (Long x) = show_int (sint x)"
| "repr ft dbg (Float x) = show32 ft x"
| "repr ft dbg (Double x) = show64 ft x"
| "repr ft dbg (String s) = dbg s"
| "repr ft dbg (ByteArray b) = ''['' @ show_nat (length b) @ '' bytes]''"
| "repr ft dbg (IntArray a) = ''['' @ show_nat (length a) @ '' ints]''"
| "repr ft dbg (LongArray a) = ''['' @ show_nat (length a) @ '' longs]''"
| "repr ft dbg (List l) = ''['' @ show_nat (length l) @ '' items]''"
| "repr ft dbg (Compound m) = ''{'' @ show_nat (length m) @ '' keys}''"

definition change_row :: "change_kind \<Rightarrow> string option \<Rightarrow> string option \<Rightarrow> string \<Rightarrow> nbt_change" where
  "change_row kind old new path = \<lparr>ch_path = path, ch_kind = kind, ch_old = old, ch_new = new\<rparr>"

definition change_sink :: "float_text \<Rightarrow> (string \<Rightarrow> string) \<Rightarrow> nbt_change list diff_sink" where
  "change_sink ft dbg = \<lparr>
     on_added = (\<lambda>path v cs. cs @ [change_row KAdded None (Some (repr ft dbg v)) path]),
     on_removed = (\<lambda>path v cs. cs @ [change_row KRemoved (Some (repr ft dbg v)) None path]),
     on_modified = (\<lambda>path a b cs.
       cs @ [change_row KModified (Some (repr ft dbg a)) (Some (repr ft dbg b)) path]),
     on_type_changed = (\<lambda>path a b cs.
       cs @ [change_row KTypeChanged (Some (repr ft dbg a)) (Some (repr ft dbg b)) path]),
     on_array_changed = (\<lambda>path a b cs.
       cs @ [change_row KModified (Some (repr ft dbg a)) (Some (repr ft dbg b)) path])\<rparr>"

definition display_compare :: "float_text \<Rightarrow> (string \<Rightarrow> string) \<Rightarrow> nbt_value \<Rightarrow> nbt_value \<Rightarrow> nbt_change list" where
  "display_compare ft dbg a b = sort_key ch_path (walk a b (change_sink ft dbg) [])"

fun display_row :: "float_text \<Rightarrow> (string \<Rightarrow> string) \<Rightarrow> string \<Rightarrow> change \<Rightarrow> nbt_change" where
  "display_row ft dbg p (Added v) = change_row KAdded None (Some (repr ft dbg v)) p"
| "display_row ft dbg p (Removed v) = change_row KRemoved (Some (repr ft dbg v)) None p"
| "display_row ft dbg p (Modified a b) = change_row KModified (Some (repr ft dbg a)) (Some (repr ft dbg b)) p"
| "display_row ft dbg p (TypeChanged a b) =
     change_row KTypeChanged (Some (repr ft dbg a)) (Some (repr ft dbg b)) p"
| "display_row ft dbg p (ArrayChanged a b) = change_row KModified (Some (repr ft dbg a)) (Some (repr ft dbg b)) p"

interpretation display: row_sink "change_sink ft dbg" "\<lambda>cs. cs" "display_row ft dbg" for ft dbg
proof
  fix path c s
  show "dispatch (change_sink ft dbg) (path, c) s = s @ [display_row ft dbg path c]"
    by (cases c) (simp_all add: change_sink_def)
qed

section \<open>The patch sink\<close>

record patch_op =
  op_path :: string
  op_base :: "json option"
  op_value :: "json option"

definition patch_sink :: "float_text \<Rightarrow> patch_op list diff_sink" where
  "patch_sink ft = \<lparr>
     on_added = (\<lambda>path v ops. ops @ [\<lparr>op_path = path, op_base = None, op_value = Some (to_json ft v)\<rparr>]),
     on_removed = (\<lambda>path v ops. ops @ [\<lparr>op_path = path, op_base = Some (to_json ft v), op_value = None\<rparr>]),
     on_modified = (\<lambda>path a b ops.
       ops @ [\<lparr>op_path = path, op_base = Some (to_json ft a), op_value = Some (to_json ft b)\<rparr>]),
     on_type_changed = (\<lambda>path a b ops.
       ops @ [\<lparr>op_path = path, op_base = Some (to_json ft a), op_value = Some (to_json ft b)\<rparr>]),
     on_array_changed = (\<lambda>path a b ops.
       ops @ [\<lparr>op_path = path, op_base = Some (to_json ft a), op_value = Some (to_json ft b)\<rparr>])\<rparr>"

text \<open>What a row had before, and has after.\<close>

fun base_of :: "change \<Rightarrow> nbt_value option" where
  "base_of (Added v) = None"
| "base_of (Removed v) = Some v"
| "base_of (Modified a b) = Some a"
| "base_of (TypeChanged a b) = Some a"
| "base_of (ArrayChanged a b) = Some a"

fun value_of :: "change \<Rightarrow> nbt_value option" where
  "value_of (Added v) = Some v"
| "value_of (Removed v) = None"
| "value_of (Modified a b) = Some b"
| "value_of (TypeChanged a b) = Some b"
| "value_of (ArrayChanged a b) = Some b"

definition patch_row :: "float_text \<Rightarrow> string \<Rightarrow> change \<Rightarrow> patch_op" where
  "patch_row ft p c = \<lparr>op_path = p, op_base = map_option (to_json ft) (base_of c),
     op_value = map_option (to_json ft) (value_of c)\<rparr>"

interpretation patch: row_sink "patch_sink ft" "\<lambda>ops. ops" "patch_row ft" for ft
proof
  fix path c s
  show "dispatch (patch_sink ft) (path, c) s = s @ [patch_row ft path c]"
    by (cases c) (simp_all add: patch_sink_def patch_row_def)
qed

definition node_ops :: "float_text \<Rightarrow> nbt_value \<Rightarrow> nbt_value \<Rightarrow> patch_op list" where
  "node_ops ft a b = walk a b (patch_sink ft) []"

definition whole_add :: "float_text \<Rightarrow> nbt_value \<Rightarrow> patch_op" where
  "whole_add ft v = \<lparr>op_path = [], op_base = None, op_value = Some (to_json ft v)\<rparr>"

definition whole_remove :: "float_text \<Rightarrow> nbt_value \<Rightarrow> patch_op" where
  "whole_remove ft v = \<lparr>op_path = [], op_base = Some (to_json ft v), op_value = None\<rparr>"

section \<open>Applying an operation\<close>

record apply_report =
  rep_applied :: nat
  rep_conflicts :: "string list"

definition report_conflict :: "string \<Rightarrow> apply_report \<Rightarrow> apply_report" where
  "report_conflict msg rep = rep\<lparr>rep_conflicts := rep_conflicts rep @ [msg]\<rparr>"

definition report_applied :: "apply_report \<Rightarrow> apply_report" where
  "report_applied rep = rep\<lparr>rep_applied := rep_applied rep + 1\<rparr>"

text \<open>\<^verbatim>\<open>map(from_json).transpose()?\<close>\<close>

definition decode_side :: "float_text \<Rightarrow> json option \<Rightarrow> nbt_error + nbt_value option" where
  "decode_side ft j = (case j of None \<Rightarrow> Inr None | Some j \<Rightarrow> rbind (from_json ft j) (\<lambda>v. Inr (Some v)))"

text \<open>
  The result of \<^verbatim>\<open>path.set\<close> and of \<^verbatim>\<open>path.remove\<close> is not looked at: whatever they did, the
  operation counts as applied.
\<close>

definition apply_op :: "float_text \<Rightarrow> string \<Rightarrow> bool \<Rightarrow> bool \<Rightarrow> patch_op \<Rightarrow> nbt_value option \<times> apply_report \<Rightarrow>
    nbt_error + nbt_value option \<times> apply_report" where
  "apply_op ft ctx reverse force op st =
     (case st of (slot, rep) \<Rightarrow>
      (case (if reverse then (op_value op, op_base op) else (op_base op, op_value op)) of (frm, tgt) \<Rightarrow>
       rbind (decode_side ft frm) (\<lambda>from_v.
       rbind (decode_side ft tgt) (\<lambda>to_v.
         if op_path op = [] then
           (if \<not> rel_option nbt_eq slot from_v \<and> \<not> force
            then Inr (slot, report_conflict (ctx @ '': root'') rep)
            else Inr (to_v, report_applied rep))
         else (case slot of
           None \<Rightarrow> Inr (None, if force then rep
                             else report_conflict (ctx @ '': '' @ op_path op @ '' (no root)'') rep)
         | Some root \<Rightarrow>
             (case parse_path (op_path op) of
               Inl e \<Rightarrow> Inl (InvalidPath e)
             | Inr path \<Rightarrow>
                 if \<not> rel_option nbt_eq (path_get path root) from_v \<and> \<not> force
                 then Inr (slot, report_conflict (ctx @ '': '' @ op_path op) rep)
                 else Inr (Some (case to_v of Some v \<Rightarrow> snd (path_set path root v)
                                 | None \<Rightarrow> snd (path_remove path root)),
                           report_applied rep)))))))"

fun apply_ops :: "float_text \<Rightarrow> string \<Rightarrow> bool \<Rightarrow> bool \<Rightarrow> patch_op list \<Rightarrow> nbt_value option \<times> apply_report \<Rightarrow>
    nbt_error + nbt_value option \<times> apply_report" where
  "apply_ops ft ctx reverse force [] st = Inr st"
| "apply_ops ft ctx reverse force (op # ops) st =
     rbind (apply_op ft ctx reverse force op st) (apply_ops ft ctx reverse force ops)"

definition empty_report :: apply_report where
  "empty_report = \<lparr>rep_applied = 0, rep_conflicts = []\<rparr>"

end
