(* ===== verification/DiffWorld.thy ===== *)
theory DiffWorld imports
  World AnvilBlocks PatchOps
begin

text \<open>
  \<^verbatim>\<open>crates/diff/src/world.rs\<close> and \<^verbatim>\<open>format.rs\<close>: two world directories compared file by file, regions
  chunk by chunk, chunks node by node, with the coordinates of the blocks that differ, and the text of
  the result. Each world is a tree of its own. The files compared in parallel are compared in the
  order of their paths.
\<close>

section \<open>Differences\<close>

datatype diff_error = DiffIo io_kind | DiffAnvil anvil_error

datatype file_status = FileAdded | FileRemoved | FileModified

datatype chunk_status = ChunkAdded | ChunkRemoved | ChunkModified

record block_edit =
  be_x :: u32
  be_y :: u32
  be_z :: u32
  be_old :: "string option"
  be_new :: "string option"

record chunk_diff =
  cd_x :: u32
  cd_z :: u32
  cd_status :: chunk_status
  cd_changes :: "nbt_change list"
  cd_edits :: "block_edit list"

record file_diff =
  fd_path :: string
  fd_status :: file_status
  fd_changes :: "nbt_change list"
  fd_chunks :: "chunk_diff list"

text \<open>What comes from other packages: compressors, the NBT codec, the text of floats and of strings.\<close>

record diff_tools =
  dt_compress :: compressors
  dt_codec :: nbt_codec
  dt_float :: float_text
  dt_debug :: "string \<Rightarrow> string"

section \<open>Files\<close>

definition list_files :: "fs \<Rightarrow> string list" where
  "list_files w = filter (\<lambda>r. r \<noteq> [] \<and> r \<noteq> ''session.lock'') (map rel_path (map fst (filter (\<lambda>(p, n). n \<noteq> Dir) w)))"

text \<open>The paths of both worlds, each once, in ascending order.\<close>

definition all_files :: "fs \<Rightarrow> fs \<Rightarrow> string list" where
  "all_files wa wb = sort (remdups (list_files wa @ list_files wb))"

definition read_octets :: "fs \<Rightarrow> path \<Rightarrow> diff_error + bytes" where
  "read_octets w p = (case fs_lookup w p of
     None \<Rightarrow> Inl (DiffIo NotFound) | Some Dir \<Rightarrow> Inl (DiffIo IsADirectory) | Some (File c) \<Rightarrow> Inr (octets c))"

text \<open>\<^verbatim>\<open>codec::load_nbt_file\<close>, of which the callers only ask whether it succeeds.\<close>

definition load_nbt_file :: "diff_tools \<Rightarrow> fs \<Rightarrow> path \<Rightarrow> nbt_value option" where
  "load_nbt_file D w p = (case read_octets w p of Inl _ \<Rightarrow> None
   | Inr b \<Rightarrow> (case load_nbt_bytes (dt_compress D) (dt_codec D) b of Inl _ \<Rightarrow> None | Inr v \<Rightarrow> Some v))"

definition is_dat :: "string \<Rightarrow> bool" where
  "is_dat rel = ends_with ''.dat'' (map lower_ascii rel)"

fun anvil :: "anvil_error + 'a \<Rightarrow> diff_error + 'a" where
  "anvil (Inl e) = Inl (DiffAnvil e)"
| "anvil (Inr a) = Inr a"

definition decode :: "diff_tools \<Rightarrow> raw_chunk \<Rightarrow> diff_error + nbt_value" where
  "decode D ch = anvil (decode_chunk (dt_compress D) (dt_codec D) ch)"

definition parse_at :: "fs \<Rightarrow> path \<Rightarrow> bytes \<Rightarrow> diff_error + region_file" where
  "parse_at w p b = anvil (region_parse (directory_of w (butlast p)) (last p) b)"

section \<open>Blocks\<close>

definition fmt_block :: "block_state \<Rightarrow> string" where
  "fmt_block bs = (if snd bs = [] then fst bs
     else fst bs @ ''['' @ join '','' (map (\<lambda>(k, v). k @ ''='' @ v) (snd bs)) @ '']'')"

definition state_at :: "block_state list option \<Rightarrow> nat \<Rightarrow> block_state option" where
  "state_at blocks idx = (case blocks of None \<Rightarrow> None | Some v \<Rightarrow> nth_opt v idx)"

definition section_edit :: "u32 \<Rightarrow> u32 \<Rightarrow> u32 \<Rightarrow> block_state list option \<Rightarrow> block_state list option \<Rightarrow> nat \<Rightarrow>
    block_edit option" where
  "section_edit cx sy cz ab bb idx =
     (let o' = state_at ab idx; n = state_at bb idx; ly = idx div 256; rem = idx mod 256
      in if o' = n then None
         else Some \<lparr>be_x = cx * 16 + of_nat (rem mod 16), be_y = sy * 16 + of_nat ly, be_z = cz * 16 + of_nat (rem div 16),
           be_old = map_option fmt_block o', be_new = map_option fmt_block n\<rparr>)"

definition section_edits :: "nbt_value \<Rightarrow> nbt_value \<Rightarrow> u32 \<Rightarrow> u32 \<Rightarrow> u32 \<Rightarrow> block_edit list" where
  "section_edits a b cx cz sy =
     (let ab = section_blocks a sy; bb = section_blocks b sy
      in if ab = bb then [] else List.map_filter (section_edit cx sy cz ab bb) [0..<4096])"

definition block_edits_between :: "nbt_value \<Rightarrow> nbt_value \<Rightarrow> u32 \<Rightarrow> u32 \<Rightarrow> block_edit list" where
  "block_edits_between a b cx cz =
     concat (map (section_edits a b cx cz) (remdups_adj (sort_key sint (section_ys a @ section_ys b))))"

section \<open>Regions\<close>

definition pos_key :: "chunk_pos \<Rightarrow> int \<times> int" where
  "pos_key p = (sint (pos_x p), sint (pos_z p))"

text \<open>The positions of both regions, each once, in the order of a \<^verbatim>\<open>BTreeSet\<close> of pairs.\<close>

definition positions :: "region_file \<Rightarrow> region_file \<Rightarrow> chunk_pos list" where
  "positions ra rb = sort_key pos_key (remdups (map rc_pos (region_chunks ra @ region_chunks rb)))"

definition chunk_row :: "chunk_pos \<Rightarrow> chunk_status \<Rightarrow> nbt_change list \<Rightarrow> block_edit list \<Rightarrow> chunk_diff" where
  "chunk_row p st cs es = \<lparr>cd_x = pos_x p, cd_z = pos_z p, cd_status = st, cd_changes = cs, cd_edits = es\<rparr>"

definition diff_chunk :: "diff_tools \<Rightarrow> region_file \<Rightarrow> region_file \<Rightarrow> chunk_pos \<Rightarrow> diff_error + chunk_diff list" where
  "diff_chunk D ra rb p = (case (region_get ra p, region_get rb p) of
     (Some ca, Some cb) \<Rightarrow>
       if payload_equals ca cb then Inr []
       else rbind (decode D ca) (\<lambda>va. rbind (decode D cb) (\<lambda>vb.
         let changes = display_compare (dt_float D) (dt_debug D) va vb
         in Inr (if changes = [] then []
                 else [chunk_row p ChunkModified changes (block_edits_between va vb (pos_x p) (pos_z p))])))
   | (Some _, None) \<Rightarrow> Inr [chunk_row p ChunkRemoved [] []]
   | (None, Some _) \<Rightarrow> Inr [chunk_row p ChunkAdded [] []]
   | (None, None) \<Rightarrow> Inr [])"

definition diff_region :: "diff_tools \<Rightarrow> fs \<Rightarrow> fs \<Rightarrow> path \<Rightarrow> bytes \<Rightarrow> bytes \<Rightarrow> diff_error + chunk_diff list" where
  "diff_region D wa wb p ba bb =
     rbind (parse_at wa p ba) (\<lambda>ra. rbind (parse_at wb p bb) (\<lambda>rb.
     rbind (collect_res (map (diff_chunk D ra rb) (positions ra rb))) (\<lambda>cs. Inr (concat cs))))"

section \<open>Worlds\<close>

definition file_row :: "string \<Rightarrow> file_status \<Rightarrow> nbt_change list \<Rightarrow> chunk_diff list \<Rightarrow> file_diff" where
  "file_row rel st cs chunks = \<lparr>fd_path = rel, fd_status = st, fd_changes = cs, fd_chunks = chunks\<rparr>"

definition diff_one :: "diff_tools \<Rightarrow> fs \<Rightarrow> fs \<Rightarrow> string \<Rightarrow> diff_error + file_diff option" where
  "diff_one D wa wb rel = (let p = components rel in
     case (is_file wa p, is_file wb p) of
       (True, False) \<Rightarrow> Inr (Some (file_row rel FileRemoved [] []))
     | (False, True) \<Rightarrow> Inr (Some (file_row rel FileAdded [] []))
     | (True, True) \<Rightarrow>
         rbind (read_octets wa p) (\<lambda>ba. rbind (read_octets wb p) (\<lambda>bb.
           if ba = bb then Inr None
           else if is_region rel then
             rbind (diff_region D wa wb p ba bb) (\<lambda>chunks.
               Inr (if chunks = [] then None else Some (file_row rel FileModified [] chunks)))
           else if is_dat rel then
             (case (load_nbt_file D wa p, load_nbt_file D wb p) of
               (Some va, Some vb) \<Rightarrow>
                 (let changes = display_compare (dt_float D) (dt_debug D) va vb
                  in Inr (if changes = [] then None else Some (file_row rel FileModified changes [])))
             | _ \<Rightarrow> Inr (Some (file_row rel FileModified [] [])))
           else Inr (Some (file_row rel FileModified [] []))))
     | (False, False) \<Rightarrow> Inr None)"

definition diff_worlds :: "diff_tools \<Rightarrow> fs \<Rightarrow> fs \<Rightarrow> diff_error + file_diff list" where
  "diff_worlds D wa wb = rbind (collect_res (map (diff_one D wa wb) (all_files wa wb))) (\<lambda>fs.
     Inr (sort_key fd_path (List.map_filter id fs)))"

section \<open>The text of a diff\<close>

definition kind_name :: "change_kind \<Rightarrow> string" where
  "kind_name k = (case k of KAdded \<Rightarrow> ''Added'' | KRemoved \<Rightarrow> ''Removed'' | KModified \<Rightarrow> ''Modified''
     | KTypeChanged \<Rightarrow> ''TypeChanged'')"

definition nl :: string where "nl = [CHR 0x0A]"

definition render_edit :: "block_edit \<Rightarrow> string" where
  "render_edit e = ''        @'' @ show_i32 (be_x e) @ '','' @ show_i32 (be_y e) @ '','' @ show_i32 (be_z e) @ '': '' @
     (case be_old e of None \<Rightarrow> ''-'' | Some s \<Rightarrow> s) @ '' -> '' @ (case be_new e of None \<Rightarrow> ''-'' | Some s \<Rightarrow> s) @ nl"

definition edits_cap :: nat where "edits_cap = 8"

text \<open>The horizontal ellipsis is three bytes.\<close>

definition render_chunk :: "chunk_diff \<Rightarrow> string" where
  "render_chunk ch = ''    '' @ (case cd_status ch of ChunkAdded \<Rightarrow> ''+'' | ChunkRemoved \<Rightarrow> ''-'' | ChunkModified \<Rightarrow> ''~'') @
     '' chunk '' @ show_i32 (cd_x ch) @ '','' @ show_i32 (cd_z ch) @
     (if cd_changes ch = [] then [] else '' ('' @ show_nat (length (cd_changes ch)) @ '' changes)'') @ nl @
     concat (map render_edit (take edits_cap (cd_edits ch))) @
     (if length (cd_edits ch) > edits_cap
      then ''        '' @ [CHR 0xE2, CHR 0x80, CHR 0xA6] @ '' and '' @ show_nat (length (cd_edits ch) - edits_cap) @
        '' more block changes'' @ nl
      else [])"

definition render_file :: "file_diff \<Rightarrow> string" where
  "render_file f = (case fd_status f of
     FileAdded \<Rightarrow> ''+ '' @ fd_path f @ nl
   | FileRemoved \<Rightarrow> ''- '' @ fd_path f @ nl
   | FileModified \<Rightarrow> ''~ '' @ fd_path f @ nl @
       concat (map (\<lambda>c. ''    '' @ ch_path c @ '' ('' @ kind_name (ch_kind c) @ '')'' @ nl) (fd_changes f)) @
       concat (map render_chunk (fd_chunks f)))"

definition render :: "file_diff list \<Rightarrow> string" where
  "render d = (if d = [] then ''No differences.'' @ nl else concat (map render_file d))"

section \<open>Bytes and decoded trees\<close>

lemma read_octets_iff: "read_octets w p = Inr b \<longleftrightarrow> (\<exists>c. contents w p = Some c \<and> b = octets c)"
  by (auto simp: read_octets_def contents_def split: option.splits node.splits)

lemma anvil_Inr_iff [res_simps]: "anvil r = Inr a \<longleftrightarrow> r = Inr a"
  by (cases r) simp_all

lemma decode_shape:
  assumes "decode D ch = Inr v"
  shows "nbt_wf v" "homogeneous v" "\<exists>m. v = Compound m"
proof -
  from assms obtain raw nm where "nbt_read (from_binary (dt_codec D)) raw = Inr (nm, v)"
    by (auto simp: decode_def decode_chunk_def res_simps)
  then show "nbt_wf v" "homogeneous v" "\<exists>m. v = Compound m" by (rule nbt_read_shape)+
qed

lemma load_nbt_file_shape:
  assumes "load_nbt_file D w p = Some v"
  shows "nbt_wf v" "homogeneous v" "\<exists>m. v = Compound m"
proof -
  from assms obtain raw nm where "nbt_read (from_binary (dt_codec D)) raw = Inr (nm, v)"
    by (auto simp: load_nbt_file_def load_nbt_bytes_def res_simps split: sum.splits)
  then show "nbt_wf v" "homogeneous v" "\<exists>m. v = Compound m" by (rule nbt_read_shape)+
qed

section \<open>What a comparison finds\<close>

definition same_chunk :: "diff_tools \<Rightarrow> raw_chunk \<Rightarrow> raw_chunk \<Rightarrow> bool" where
  "same_chunk D ca cb \<longleftrightarrow> payload_equals ca cb \<or>
     (\<exists>va vb. decode D ca = Inr va \<and> decode D cb = Inr vb \<and> upto_order va vb)"

definition same_region :: "diff_tools \<Rightarrow> region_file \<Rightarrow> region_file \<Rightarrow> bool" where
  "same_region D ra rb \<longleftrightarrow> (\<forall>p. rel_option (same_chunk D) (region_get ra p) (region_get rb p))"

text \<open>
  The file of a path is the same in both worlds: equal bytes, regions with the same chunks, documents
  with the same tree.
\<close>

definition same_file :: "diff_tools \<Rightarrow> fs \<Rightarrow> fs \<Rightarrow> string \<Rightarrow> bool" where
  "same_file D wa wb rel \<longleftrightarrow> (let p = components rel in
     contents wa p = contents wb p \<or>
     (\<exists>a b. contents wa p = Some a \<and> contents wb p = Some b \<and>
       (is_region rel \<longrightarrow> (\<exists>ra rb. parse_at wa p (octets a) = Inr ra \<and> parse_at wb p (octets b) = Inr rb \<and> same_region D ra rb)) \<and>
       (\<not> is_region rel \<longrightarrow> is_dat rel \<and>
         (\<exists>va vb. load_nbt_file D wa p = Some va \<and> load_nbt_file D wb p = Some vb \<and> upto_order va vb))))"

lemma no_changes_iff:
  assumes "nbt_wf a" "nbt_wf b"
  shows "display_compare ft dbg a b = [] \<longleftrightarrow> upto_order a b"
proof -
  have "sort_key ch_path xs = [] \<longleftrightarrow> xs = []" for xs :: "nbt_change list"
    by (metis length_0_conv length_sort)
  then have "display_compare ft dbg a b = [] \<longleftrightarrow> compare seg_text [] a b = []"
    using display.walk_rows [of a b ft dbg "[]"] by (simp add: display_compare_def)
  then show ?thesis
    using no_rows_upto_order [OF _ assms] upto_order_no_rows [OF _ assms] by (auto simp: compare_text)
qed

lemma positions_set:
  assumes "parse_at wa p ba = Inr ra" "parse_at wb q bb = Inr rb"
  shows "set (positions ra rb) = {p. region_get ra p \<noteq> None \<or> region_get rb p \<noteq> None}"
proof -
  from assms have "rc_pos ` set (region_chunks ra) = {p. region_get ra p \<noteq> None}"
    "rc_pos ` set (region_chunks rb) = {p. region_get rb p \<noteq> None}"
    by (auto simp only: parse_at_def res_simps intro!: region_parse_chunks(1))
  then show ?thesis by (auto simp: positions_def image_Un simp del: not_None_eq)
qed

lemma diff_chunk_empty:
  assumes "diff_chunk D ra rb p = Inr cs"
  shows "cs = [] \<longleftrightarrow> rel_option (same_chunk D) (region_get ra p) (region_get rb p)"
proof (cases "region_get ra p"; cases "region_get rb p")
  fix ca cb
  assume get: "region_get ra p = Some ca" "region_get rb p = Some cb"
  show ?thesis
  proof (cases "payload_equals ca cb")
    case False
    with assms get obtain va vb where v: "decode D ca = Inr va" "decode D cb = Inr vb"
      and cs: "cs = (if display_compare (dt_float D) (dt_debug D) va vb = [] then []
        else [chunk_row p ChunkModified (display_compare (dt_float D) (dt_debug D) va vb)
          (block_edits_between va vb (pos_x p) (pos_z p))])"
      by (auto simp: diff_chunk_def res_simps Let_def)
    have "cs = [] \<longleftrightarrow> upto_order va vb"
      using no_changes_iff [OF decode_shape(1) [OF v(1)] decode_shape(1) [OF v(2)]] by (simp add: cs)
    with False v get show ?thesis by (simp add: same_chunk_def)
  qed (use assms get in \<open>simp add: diff_chunk_def same_chunk_def\<close>)
qed (use assms in \<open>auto simp: diff_chunk_def\<close>)

lemma diff_region_empty:
  assumes "diff_region D wa wb p ba bb = Inr cs"
  shows "cs = [] \<longleftrightarrow> (\<exists>ra rb. parse_at wa p ba = Inr ra \<and> parse_at wb p bb = Inr rb \<and> same_region D ra rb)"
proof -
  from assms obtain ra rb rows where r: "parse_at wa p ba = Inr ra" "parse_at wb p bb = Inr rb"
    "collect_res (map (diff_chunk D ra rb) (positions ra rb)) = Inr rows" "cs = concat rows"
    by (auto simp: diff_region_def res_simps)
  have all: "list_all2 (\<lambda>q cs. diff_chunk D ra rb q = Inr cs) (positions ra rb) rows"
    using r(3) by (rule collect_all2)
  have "cs = [] \<longleftrightarrow> (\<forall>q \<in> set (positions ra rb). rel_option (same_chunk D) (region_get ra q) (region_get rb q))"
    using all unfolding r(4) by (induction rule: list_all2_induct) (auto simp: diff_chunk_empty)
  also have "\<dots> \<longleftrightarrow> same_region D ra rb"
    unfolding same_region_def positions_set [OF r(1,2)] by (auto simp: rel_option_iff split: option.splits)
  finally show ?thesis using r(1,2) by simp
qed

definition status_of :: "fs \<Rightarrow> fs \<Rightarrow> string \<Rightarrow> file_status" where
  "status_of wa wb rel = (if \<not> is_file wb (components rel) then FileRemoved
     else if \<not> is_file wa (components rel) then FileAdded else FileModified)"

lemma diff_one_spec:
  assumes "diff_one D wa wb rel = Inr r"
  shows "r = None \<longleftrightarrow> same_file D wa wb rel"
    "r = Some f \<Longrightarrow> fd_path f = rel \<and> fd_status f = status_of wa wb rel"
proof -
  let ?p = "components rel"
  have "(r = None \<longleftrightarrow> same_file D wa wb rel) \<and> (\<forall>f. r = Some f \<longrightarrow> fd_path f = rel \<and> fd_status f = status_of wa wb rel)"
  proof (cases "contents wa ?p"; cases "contents wb ?p")
    fix a b
    assume ab: "contents wa ?p = Some a" "contents wb ?p = Some b"
    then have read: "read_octets wa ?p = Inr (octets a)" "read_octets wb ?p = Inr (octets b)"
      by (simp_all add: read_octets_iff)
    note one = assms [unfolded diff_one_def Let_def is_file_iff ab read, simplified]
    show ?thesis
    proof (cases "a = b")
      case True
      then show ?thesis using one ab by (simp add: same_file_def)
    next
      case False
      show ?thesis
      proof (cases "is_region rel")
        case True
        with one False obtain cs where cs: "diff_region D wa wb ?p (octets a) (octets b) = Inr cs"
          "r = (if cs = [] then None else Some (file_row rel FileModified [] cs))" by (auto simp: res_simps)
        show ?thesis
          using diff_region_empty [OF cs(1)] True False ab
          by (auto simp: cs(2) same_file_def file_row_def status_of_def is_file_iff)
      next
        case no: False
        show ?thesis
        proof (cases "is_dat rel \<and> load_nbt_file D wa ?p \<noteq> None \<and> load_nbt_file D wb ?p \<noteq> None")
          case True
          then obtain va vb where v: "load_nbt_file D wa ?p = Some va" "load_nbt_file D wb ?p = Some vb" by auto
          note empty = no_changes_iff [OF load_nbt_file_shape(1) [OF v(1)] load_nbt_file_shape(1) [OF v(2)]]
          show ?thesis
            using one False no True v ab empty
            by (auto simp: same_file_def file_row_def status_of_def is_file_iff split: if_splits)
        next
          case bad: False
          then have "r = Some (file_row rel FileModified [] [])"
            using one False no by (auto split: if_splits option.splits)
          then show ?thesis
            using False no bad ab by (auto simp: same_file_def file_row_def status_of_def is_file_iff)
        qed
      qed
    qed
  qed (use assms in \<open>auto simp: diff_one_def is_file_iff same_file_def file_row_def status_of_def Let_def\<close>)
  then show "r = None \<longleftrightarrow> same_file D wa wb rel"
    "r = Some f \<Longrightarrow> fd_path f = rel \<and> fd_status f = status_of wa wb rel" by blast+
qed

lemma diff_worlds_list:
  assumes "diff_worlds D wa wb = Inr d"
  obtains rs where "list_all2 (\<lambda>rel r. diff_one D wa wb rel = Inr r) (all_files wa wb) rs" "d = List.map_filter id rs"
    "map fd_path d = filter (\<lambda>rel. \<not> same_file D wa wb rel) (all_files wa wb)"
    "\<forall>f \<in> set d. fd_status f = status_of wa wb (fd_path f)"
proof -
  from assms obtain rs where rs: "collect_res (map (diff_one D wa wb) (all_files wa wb)) = Inr rs"
    "d = sort_key fd_path (List.map_filter id rs)" by (auto simp: diff_worlds_def res_simps)
  have all: "list_all2 (\<lambda>rel r. diff_one D wa wb rel = Inr r) (all_files wa wb) rs"
    using rs(1) by (rule collect_all2)
  have "map fd_path (List.map_filter id rs) = filter (\<lambda>rel. \<not> same_file D wa wb rel) rels \<and>
      (\<forall>f \<in> set (List.map_filter id rs). fd_status f = status_of wa wb (fd_path f))"
    if "list_all2 (\<lambda>rel r. diff_one D wa wb rel = Inr r) rels rs" for rels rs
    using that
  proof (induction rule: list_all2_induct)
    case (Cons rel rels r rs)
    then show ?case
      using diff_one_spec [OF Cons.hyps(1)] by (cases r) (auto simp: List.map_filter_simps)
  qed (simp add: List.map_filter_simps)
  from this [OF all] have *: "map fd_path (List.map_filter id rs) = filter (\<lambda>rel. \<not> same_file D wa wb rel) (all_files wa wb)"
    "\<forall>f \<in> set (List.map_filter id rs). fd_status f = status_of wa wb (fd_path f)" by blast+
  have "sorted (map fd_path (List.map_filter id rs))"
    unfolding * by (simp add: all_files_def sorted_filter [of id, simplified])
  then have "d = List.map_filter id rs" unfolding rs(2) by (rule sort_key_id_if_sorted [of fd_path])
  with all * that show thesis by simp
qed

section \<open>Coordinates of blocks\<close>

text \<open>A chunk or section coordinate whose blocks have 32-bit coordinates.\<close>

definition in_range :: "u32 \<Rightarrow> bool" where
  "in_range c \<longleftrightarrow> signed_drop_bit 4 (push_bit 4 c) = c"

text \<open>A section that is decoded as a whole, or is not there.\<close>

definition section_sound :: "nbt_value \<Rightarrow> u32 \<Rightarrow> bool" where
  "section_sound chunk sy \<longleftrightarrow> section_blocks chunk sy \<noteq> None \<or> section_at chunk (push_bit 4 sy) = None"

lemma block_coordinate:
  assumes "in_range c" "i < 16"
  shows "signed_drop_bit 4 (c * 16 + of_nat i) = c" "unat ((c * 16 + of_nat i) AND 15) = i"
proof -
  have i: "(of_nat i :: u32) = of_nat i AND mask 4"
    using assms(2) by (simp add: take_bit_eq_mask [symmetric] of_nat_take_bit [symmetric] take_bit_nat_eq_self)
  have sum: "c * 16 + of_nat i = push_bit 4 c OR (of_nat i AND mask 4)"
  proof -
    have "push_bit 4 c + (of_nat i AND mask 4) = push_bit 4 c OR (of_nat i AND mask 4)"
      by (rule disjunctive_add) (auto simp: bit_simps)
    then show ?thesis using i by (simp add: push_bit_eq_mult)
  qed
  have "signed_drop_bit 4 (push_bit 4 c OR (of_nat i AND mask 4)) = signed_drop_bit 4 (push_bit 4 c)"
    by (rule bit_word_eqI) (auto simp: bit_simps)
  then show "signed_drop_bit 4 (c * 16 + of_nat i) = c" using assms(1) unfolding sum in_range_def by simp
  have "(push_bit 4 c OR (of_nat i AND mask 4)) AND mask 4 = of_nat i AND mask 4"
    by (rule bit_word_eqI) (auto simp: bit_simps)
  then have "(c * 16 + of_nat i) AND 15 = of_nat i" unfolding sum using i by (simp add: mask_eq_exp_minus_1)
  then show "unat ((c * 16 + of_nat i) AND 15) = i" using assms(2) by (simp add: unat_of_nat)
qed

lemma coordinate_split: "signed_drop_bit 4 x * 16 + of_nat (unat (x AND 15)) = (x :: u32)"
proof -
  have "push_bit 4 (signed_drop_bit 4 x) + (x AND mask 4) = push_bit 4 (signed_drop_bit 4 x) OR (x AND mask 4)"
    by (rule disjunctive_add) (auto simp: bit_simps)
  moreover have "push_bit 4 (signed_drop_bit 4 x) OR (x AND mask 4) = x"
    by (rule bit_word_eqI) (auto simp: bit_simps)
  ultimately show ?thesis by (simp add: push_bit_eq_mult mask_eq_exp_minus_1)
qed

definition block_index :: "u32 \<Rightarrow> u32 \<Rightarrow> u32 \<Rightarrow> nat" where
  "block_index x y z = unat (y AND 15) * 256 + unat (z AND 15) * 16 + unat (x AND 15)"

lemma block_index_parts:
  "block_index x y z < 4096" "block_index x y z div 256 = unat (y AND 15)"
  "block_index x y z mod 256 div 16 = unat (z AND 15)" "block_index x y z mod 256 mod 16 = unat (x AND 15)"
proof -
  let ?r = "unat (z AND 15) * 16 + unat (x AND 15)"
  note less = and_15_less [of x] and_15_less [of y] and_15_less [of z]
  have r: "?r < 256" using less by linarith
  have i: "block_index x y z = ?r + unat (y AND 15) * 256" by (simp add: block_index_def)
  show "block_index x y z < 4096" using less unfolding block_index_def by linarith
  show "block_index x y z div 256 = unat (y AND 15)" unfolding i using r by simp
  have m: "block_index x y z mod 256 = ?r" unfolding i using r by simp
  show "block_index x y z mod 256 div 16 = unat (z AND 15)" "block_index x y z mod 256 mod 16 = unat (x AND 15)"
    unfolding m using less by simp_all
qed

lemma block_absent: "section_at chunk y = None \<Longrightarrow> block_at chunk x y z = None"
  by (simp add: block_at_def)

lemma section_at_shift: "section_at chunk (push_bit 4 (signed_drop_bit 4 y)) = section_at chunk y"
  by (simp only: section_at_def section_shift)

lemma state_at_block:
  assumes "section_sound chunk (signed_drop_bit 4 y)"
  shows "state_at (section_blocks chunk (signed_drop_bit 4 y)) (block_index x y z) = block_at chunk x y z"
proof (cases "section_blocks chunk (signed_drop_bit 4 y)")
  case None
  with assms have "section_at chunk y = None" by (simp add: section_sound_def section_at_shift)
  then show ?thesis by (simp add: None state_at_def block_absent)
next
  case (Some bs)
  from section_blocks_block_at [OF this, of x z] show ?thesis
    using block_index_parts(1) [of x y z] by (simp add: Some state_at_def nth_opt_def block_index_def)
qed

lemma section_listed: "section_at chunk y \<noteq> None \<Longrightarrow> signed_drop_bit 4 y \<in> set (section_ys chunk)"
proof -
  assume "section_at chunk y \<noteq> None"
  then obtain s l where s: "sections_of chunk = Some (List l)" "s \<in> set l" "section_y s = Some (sint (signed_drop_bit 4 y))"
    by (auto simp: section_at_def find_Some_iff split: option.splits nbt_value.splits dest: nth_mem)
  then have "word_of_int (sint (signed_drop_bit 4 y)) \<in> set (section_ys chunk)"
    by (force simp: section_ys_def List.map_filter_def)
  then show ?thesis by simp
qed

lemma section_edits_set:
  assumes "in_range cx" "in_range cz" "in_range sy" "section_sound a sy" "section_sound b sy"
  shows "set (section_edits a b cx cz sy) =
    {\<lparr>be_x = x, be_y = y, be_z = z, be_old = map_option fmt_block (block_at a x y z),
      be_new = map_option fmt_block (block_at b x y z)\<rparr> | x y z.
     signed_drop_bit 4 x = cx \<and> signed_drop_bit 4 y = sy \<and> signed_drop_bit 4 z = cz \<and> block_at a x y z \<noteq> block_at b x y z}"
    (is "_ = ?R")
proof -
  let ?A = "section_blocks a sy" and ?B = "section_blocks b sy"
  have at: "state_at ?A (block_index x y z) = block_at a x y z" "state_at ?B (block_index x y z) = block_at b x y z"
    if "signed_drop_bit 4 y = sy" for x y z
    using state_at_block [of a y x z] state_at_block [of b y x z] assms(4,5) that by simp_all
  have row: "section_edit cx sy cz ?A ?B (block_index x y z) =
      (if block_at a x y z = block_at b x y z then None
       else Some \<lparr>be_x = x, be_y = y, be_z = z, be_old = map_option fmt_block (block_at a x y z),
         be_new = map_option fmt_block (block_at b x y z)\<rparr>)"
    if "signed_drop_bit 4 x = cx" "signed_drop_bit 4 y = sy" "signed_drop_bit 4 z = cz" for x y z
    using coordinate_split [of x] coordinate_split [of y] coordinate_split [of z] that
    by (simp add: section_edit_def Let_def at block_index_parts)
  have index: "\<exists>x y z. signed_drop_bit 4 x = cx \<and> signed_drop_bit 4 y = sy \<and> signed_drop_bit 4 z = cz \<and> block_index x y z = i"
    if "i < 4096" for i
  proof -
    let ?x = "cx * 16 + of_nat (i mod 256 mod 16)" and ?y = "sy * 16 + of_nat (i div 256)" and ?z = "cz * 16 + of_nat (i mod 256 div 16)"
    have lt: "i mod 256 mod 16 < 16" "i div 256 < 16" "i mod 256 div 16 < 16" using that by auto
    note c = block_coordinate [OF assms(1) lt(1)] block_coordinate [OF assms(3) lt(2)] block_coordinate [OF assms(2) lt(3)]
    have "i div 256 * 256 + i mod 256 div 16 * 16 + i mod 256 mod 16 = i"
      using div_mult_mod_eq [of i 256] div_mult_mod_eq [of "i mod 256" 16] by linarith
    then have "block_index ?x ?y ?z = i" unfolding block_index_def c .
    with c show ?thesis by blast
  qed
  have "set (section_edits a b cx cz sy) = {e. \<exists>i < 4096. section_edit cx sy cz ?A ?B i = Some e}"
  proof (cases "?A = ?B")
    case True
    then show ?thesis by (simp add: section_edits_def section_edit_def Let_def)
  next
    case False
    then have "section_edits a b cx cz sy = List.map_filter (section_edit cx sy cz ?A ?B) [0..<4096]"
      by (simp add: section_edits_def Let_def)
    then show ?thesis by (auto simp: map_filter_set simp del: upt.simps)
  qed
  also have "\<dots> = ?R"
  proof (intro set_eqI iffI)
    fix e assume "e \<in> {e. \<exists>i < 4096. section_edit cx sy cz ?A ?B i = Some e}"
    then obtain i where i: "i < 4096" "section_edit cx sy cz ?A ?B i = Some e" by blast
    obtain x y z where c: "signed_drop_bit 4 x = cx" "signed_drop_bit 4 y = sy" "signed_drop_bit 4 z = cz" "block_index x y z = i"
      using index [OF i(1)] by blast
    from i(2) have "section_edit cx sy cz ?A ?B (block_index x y z) = Some e" by (simp add: c(4))
    then show "e \<in> ?R" unfolding row [OF c(1-3)] using c by (auto split: if_splits)
  next
    fix e assume "e \<in> ?R"
    then obtain x y z where c: "signed_drop_bit 4 x = cx" "signed_drop_bit 4 y = sy" "signed_drop_bit 4 z = cz"
      "block_at a x y z \<noteq> block_at b x y z" "e = \<lparr>be_x = x, be_y = y, be_z = z, be_old = map_option fmt_block (block_at a x y z),
         be_new = map_option fmt_block (block_at b x y z)\<rparr>" by blast
    then have "section_edit cx sy cz ?A ?B (block_index x y z) = Some e" by (simp add: row)
    then show "e \<in> {e. \<exists>i < 4096. section_edit cx sy cz ?A ?B i = Some e}" using block_index_parts(1) by blast
  qed
  finally show ?thesis .
qed

section \<open>Properties\<close>

text \<open>
  C8. The comparison of two worlds lists, each once and in order, exactly the paths whose file is not
  the same in both: added and removed ones, and those that differ in more than the encoding. A region
  that was only rewritten, chunks recompressed or keys reordered, is not listed.
\<close>

theorem diff_worlds_spec:
  assumes "diff_worlds D wa wb = Inr d"
  shows "sorted_wrt (<) (map fd_path d) \<and>
    set (map fd_path d) = {rel \<in> set (list_files wa) \<union> set (list_files wb). \<not> same_file D wa wb rel} \<and>
    (\<forall>f \<in> set d. fd_status f = status_of wa wb (fd_path f))"
proof (intro conjI)
  obtain rs where rows: "map fd_path d = filter (\<lambda>rel. \<not> same_file D wa wb rel) (all_files wa wb)"
    "\<forall>f \<in> set d. fd_status f = status_of wa wb (fd_path f)"
    using diff_worlds_list [OF assms] by metis
  have "sorted_wrt (<) (all_files wa wb)" by (simp add: all_files_def strict_sorted_iff)
  then show "sorted_wrt (<) (map fd_path d)" unfolding rows(1) by (rule sorted_wrt_filter)
  show "set (map fd_path d) = {rel \<in> set (list_files wa) \<union> set (list_files wb). \<not> same_file D wa wb rel}"
    unfolding rows(1) by (auto simp: all_files_def)
  show "\<forall>f \<in> set d. fd_status f = status_of wa wb (fd_path f)" by (rule rows(2))
qed

definition plain_diff :: diff_tools where
  "plain_diff = \<lparr>dt_compress = plain_compressors, dt_codec = tiny_codec, dt_float = digits_ft, dt_debug = (\<lambda>s. s)\<rparr>"

definition old_world :: fs where
  "old_world = [([''data''], Dir), ([''data'', ''a.txt''], File ''one''), ([''session.lock''], File ''x''), ([''icon.png''], File ''p'')]"

definition new_world :: fs where
  "new_world = [([''icon.png''], File ''p''), ([''data''], Dir), ([''data'', ''b.txt''], File ''two'')]"

theorem diff_worlds_spec_witness:
  "\<exists>d. diff_worlds plain_diff old_world new_world = Inr d \<and>
     set (map fd_path d) = {rel \<in> set (list_files old_world) \<union> set (list_files new_world). \<not> same_file plain_diff old_world new_world rel} \<and>
     map fd_path d = [''data/a.txt'', ''data/b.txt'']"
proof -
  let ?d = "[file_row ''data/a.txt'' FileRemoved [] [], file_row ''data/b.txt'' FileAdded [] []]"
  have "all_files old_world new_world = [''data/a.txt'', ''data/b.txt'', ''icon.png'']" by code_simp
  moreover have "components ''data/a.txt'' = [''data'', ''a.txt'']" "components ''data/b.txt'' = [''data'', ''b.txt'']"
    "components ''icon.png'' = [''icon.png'']" by code_simp+
  ultimately have "diff_worlds plain_diff old_world new_world = Inr ?d"
    by (simp add: diff_worlds_def diff_one_def is_file_def fs_lookup_def old_world_def new_world_def im_get_def Let_def
      read_octets_def List.map_filter_simps file_row_def)
  from diff_worlds_spec [OF this] this show ?thesis by (auto simp: file_row_def)
qed

text \<open>
  C16. The block edits of a chunk are exact: where the sections of both chunks decode, an edit is listed
  for precisely the coordinates in the chunk at which looking up the block gives two different answers,
  with the text of both.
\<close>

theorem block_edits_exact:
  assumes "in_range cx" "in_range cz"
    "\<forall>sy \<in> set (section_ys a) \<union> set (section_ys b). in_range sy \<and> section_sound a sy \<and> section_sound b sy"
  shows "set (block_edits_between a b cx cz) =
    {\<lparr>be_x = x, be_y = y, be_z = z, be_old = map_option fmt_block (block_at a x y z),
      be_new = map_option fmt_block (block_at b x y z)\<rparr> | x y z.
     signed_drop_bit 4 x = cx \<and> signed_drop_bit 4 z = cz \<and> block_at a x y z \<noteq> block_at b x y z}"
    (is "_ = ?R")
proof -
  let ?ys = "set (section_ys a) \<union> set (section_ys b)"
  have "set (block_edits_between a b cx cz) = (\<Union>sy \<in> ?ys. set (section_edits a b cx cz sy))"
    by (simp add: block_edits_between_def)
  also have "\<dots> = ?R"
  proof (intro set_eqI iffI)
    fix e assume "e \<in> (\<Union>sy \<in> ?ys. set (section_edits a b cx cz sy))"
    then obtain sy where "sy \<in> ?ys" "e \<in> set (section_edits a b cx cz sy)" by blast
    then show "e \<in> ?R" using section_edits_set [OF assms(1,2), of sy a b] assms(3) by auto
  next
    fix e assume "e \<in> ?R"
    then obtain x y z where e: "signed_drop_bit 4 x = cx" "signed_drop_bit 4 z = cz" "block_at a x y z \<noteq> block_at b x y z"
      "e = \<lparr>be_x = x, be_y = y, be_z = z, be_old = map_option fmt_block (block_at a x y z),
         be_new = map_option fmt_block (block_at b x y z)\<rparr>" by blast
    have "section_at a y \<noteq> None \<or> section_at b y \<noteq> None"
      using e(3) block_absent [of a y x z] block_absent [of b y x z] by metis
    then have sy: "signed_drop_bit 4 y \<in> ?ys" using section_listed by auto
    then have "e \<in> set (section_edits a b cx cz (signed_drop_bit 4 y))"
      using section_edits_set [OF assms(1,2), of "signed_drop_bit 4 y" a b] assms(3) e by auto
    with sy show "e \<in> (\<Union>sy \<in> ?ys. set (section_edits a b cx cz sy))" by blast
  qed
  finally show ?thesis .
qed

definition dirt_chunk :: nbt_value where
  "dirt_chunk = Compound [(''sections'', List [Compound [(''Y'', Byte (-4)),
     (''block_states'', Compound [(''palette'', List [Compound [(''Name'', String ''dirt'')]])])]])]"

theorem block_edits_exact_witness:
  "\<lparr>be_x = 37, be_y = -64, be_z = -7, be_old = Some ''stone'', be_new = Some ''dirt''\<rparr>
     \<in> set (block_edits_between stone_chunk dirt_chunk 2 (-1))"
proof -
  have ys: "section_ys stone_chunk = [-4]" "section_ys dirt_chunk = [-4]" by code_simp+
  have blocks: "section_blocks stone_chunk (-4) = Some (replicate 4096 (''stone'', []))"
    "section_blocks dirt_chunk (-4) = Some (replicate 4096 (''dirt'', []))"
    by (simp_all add: section_blocks_def stone_chunk_def dirt_chunk_def section_at_def sections_of_def field_def section_y_def
      palette_of_def as_list_def block_state_of_def List.map_filter_def im_get_def Let_def)
  have range: "in_range 2" "in_range (-1)" "in_range (-4)" by code_simp+
  have at: "block_at stone_chunk 37 (-64) (-7) = Some (''stone'', [])" "block_at dirt_chunk 37 (-64) (-7) = Some (''dirt'', [])"
    by code_simp+
  have c: "signed_drop_bit 4 (37 :: u32) = 2" "signed_drop_bit 4 (-7 :: u32) = -1" by code_simp+
  have "set (block_edits_between stone_chunk dirt_chunk 2 (-1)) =
    {\<lparr>be_x = x, be_y = y, be_z = z, be_old = map_option fmt_block (block_at stone_chunk x y z),
      be_new = map_option fmt_block (block_at dirt_chunk x y z)\<rparr> | x y z.
     signed_drop_bit 4 x = 2 \<and> signed_drop_bit 4 z = -1 \<and> block_at stone_chunk x y z \<noteq> block_at dirt_chunk x y z}"
    by (rule block_edits_exact) (simp_all add: ys section_sound_def blocks range)
  then show ?thesis
    using at c by (auto simp: fmt_block_def intro!: exI [of _ "37 :: u32"] exI [of _ "-64 :: u32"] exI [of _ "-7 :: u32"])
qed

end
