(* ===== verification/PatchApply.thy ===== *)
theory PatchApply imports
  PatchOps
begin

text \<open>
  Applying an extracted patch: which pairs of trees the node operations of \<^verbatim>\<open>extract.rs\<close> carry
  over exactly, and, outside those, what \<^verbatim>\<open>apply_op\<close> of \<^verbatim>\<open>apply.rs\<close> loses. The text of the
  operations is read back as steps (\<open>parse_path_text\<close>) and their values as trees
  (\<open>json_roundtrip\<close>), so the run is reasoned about on steps.
\<close>

section \<open>Operations on steps\<close>

type_synonym step_op = "seg list \<times> nbt_value option \<times> nbt_value option"

definition norm_op :: "seg list \<times> change \<Rightarrow> step_op" where
  "norm_op e = (fst e, map_option (key_norm True) (base_of (snd e)), map_option (key_norm True) (value_of (snd e)))"

text \<open>One guarded step; \<^const>\<open>None\<close> is a conflict.\<close>

fun act :: "step_op \<Rightarrow> nbt_value option \<Rightarrow> nbt_value option option" where
  "act (q, frm, tgt) slot =
     (if q = [] then (if rel_option nbt_eq slot frm then Some tgt else None)
      else (case slot of None \<Rightarrow> None
        | Some root \<Rightarrow>
            if rel_option nbt_eq (path_get q root) frm
            then Some (Some (case tgt of Some v \<Rightarrow> snd (path_set q root v) | None \<Rightarrow> snd (path_remove q root)))
            else None))"

text \<open>A run of steps without a conflict all of whose states satisfy \<open>Q\<close>.\<close>

fun acts :: "(nbt_value option \<Rightarrow> bool) \<Rightarrow> step_op list \<Rightarrow> nbt_value option \<Rightarrow> nbt_value option option" where
  "acts Q [] slot = Some slot"
| "acts Q (op # ops) slot =
     (case act op slot of None \<Rightarrow> None | Some slot' \<Rightarrow> if Q slot' then acts Q ops slot' else None)"

lemma acts_append:
  "acts Q (xs @ ys) s = (case acts Q xs s of None \<Rightarrow> None | Some s' \<Rightarrow> acts Q ys s')"
  by (induction xs arbitrary: s) (auto split: option.splits)

lemma acts_appendI: "acts Q xs s = Some t \<Longrightarrow> acts Q ys t = Some u \<Longrightarrow> acts Q (xs @ ys) s = Some u"
  by (simp add: acts_append)

lemma acts_mono: "acts Q ops s = Some t \<Longrightarrow> (\<And>x. Q x \<Longrightarrow> R x) \<Longrightarrow> acts R ops s = Some t"
  by (induction ops arbitrary: s) (auto split: option.splits if_splits)

section \<open>Steps below a child\<close>

definition pre :: "seg \<Rightarrow> step_op \<Rightarrow> step_op" where
  "pre s op = (s # fst op, snd op)"

lemma norm_op_pre: "norm_op (apfst ((#) s) e) = pre s (norm_op e)"
  by (simp add: norm_op_def pre_def)

lemma step_put_twice:
  assumes "step cur s = Some c" "keeps_ident s c1"
  shows "step_put (step_put cur s c1) s c2 = step_put cur s c2"
proof (cases "(cur, s)" rule: step.cases)
  case (1 m k)
  have "im_insert k c2 (im_insert k c1 m) = im_insert k c2 m"
    by (induction m) auto
  with 1 show ?thesis by simp
next
  case (3 xs i)
  then obtain n where n: "find_index (is_ident i) xs = Some n"
    using assms(1) find_index_find [of "is_ident i" xs] by fastforce
  with assms(2) 3 have "find_index (is_ident i) (xs[n := c1]) = Some n"
    by (intro find_index_update_same) (auto simp: keeps_ident_def is_ident_def)
  with 3 n show ?thesis by simp
qed (use assms in auto)

lemma path_set_step:
  "step cur s = Some c \<Longrightarrow> q \<noteq> [] \<Longrightarrow> snd (path_set (s # q) cur v) = step_put cur s (snd (path_set q c v))"
  by (cases q) (auto split: prod.splits)

lemma path_remove_step:
  "step cur s = Some c \<Longrightarrow> q \<noteq> [] \<Longrightarrow> snd (path_remove (s # q) cur) = step_put cur s (snd (path_remove q c))"
  by (cases q) (auto split: prod.splits)

lemma set_last_present: "step cur s = Some c \<Longrightarrow> snd (set_last s v cur) = step_put cur s v"
  using find_index_find
  by (cases "(cur, s)" rule: step.cases) (fastforce split: option.splits if_splits)+

lemma act_pre:
  assumes "act op (Some c) = Some (Some c1)" "step cur s = Some c"
  shows "act (pre s op) (Some cur) = Some (Some (step_put cur s c1))"
proof -
  obtain q frm tgt where op: "op = (q, frm, tgt)" by (cases op)
  show ?thesis
  proof (cases "q = []")
    case True
    with assms set_last_present [OF assms(2), of c1] show ?thesis
      by (simp add: op pre_def split: if_splits)
  next
    case False
    with assms path_set_step [OF assms(2) False] path_remove_step [OF assms(2) False] show ?thesis
      by (auto simp: op pre_def split: if_splits option.splits)
  qed
qed

lemma acts_pre:
  assumes "acts (\<lambda>x. \<exists>c. x = Some c \<and> keeps_ident s c) ops (Some c) = Some (Some c')"
    "step cur s = Some c" "\<And>x. keeps_ident s x \<Longrightarrow> Q (Some (step_put cur s x))"
  shows "acts Q (map (pre s) ops) (Some cur) = Some (Some (step_put cur s c'))"
  using assms
proof (induction ops arbitrary: c cur)
  case Nil
  then show ?case by (simp add: step_put_self)
next
  case (Cons op ops)
  from Cons.prems(1) obtain c1 where c1: "act op (Some c) = Some (Some c1)" "keeps_ident s c1"
    and rest: "acts (\<lambda>x. \<exists>c. x = Some c \<and> keeps_ident s c) ops (Some c1) = Some (Some c')"
    by (auto split: option.splits if_splits)
  let ?cur = "step_put cur s c1"
  have "step ?cur s = Some c1" using step_step_put [OF Cons.prems(2) c1(2)] .
  moreover have "step_put ?cur s x = step_put cur s x" for x
    using step_put_twice [OF Cons.prems(2) c1(2)] .
  ultimately have "acts Q (map (pre s) ops) (Some ?cur) = Some (Some (step_put cur s c'))"
    using Cons.IH [OF rest] Cons.prems(3) by simp
  with act_pre [OF c1(1) Cons.prems(2)] Cons.prems(3) [OF c1(2)] show ?case by simp
qed

section \<open>Values read back from a patch\<close>

lemma nbt_eq_upto_order: "nbt_eq a b \<Longrightarrow> nbt_wf a \<Longrightarrow> nbt_wf b \<Longrightarrow> upto_order a b"
proof (induction a arbitrary: b)
  case (Compound m)
  from Compound.prems(1) obtain m' where b: "b = Compound m'" by auto
  with Compound.prems have rel: "rel_option nbt_eq (im_get m k) (im_get m' k)" for k
    using nbt_cmp_Compound [of m m' f32_eq f64_eq] by simp
  have "rel_option upto_order (im_get m k) (im_get m' k)" for k
  proof (cases "im_get m k")
    case (Some v)
    with rel [of k] obtain v' where v': "im_get m' k = Some v'" "nbt_eq v v'" by (cases "im_get m' k") auto
    have mem: "(k, v) \<in> set m" "(k, v') \<in> set m'" using Some v' by (auto dest: im_get_SomeD)
    then have "nbt_wf v" "nbt_wf v'" using Compound.prems b by force+
    with Compound.IH [OF mem(1), of v v'] v' have "upto_order v v'" by (simp add: snds.simps)
    with Some v' show ?thesis by simp
  qed (use rel [of k] in \<open>cases "im_get m' k"; simp\<close>)
  then show ?case by (simp add: b upto_order.compound)
next
  case (List xs)
  then obtain ys where b: "b = List ys" "list_all2 nbt_eq xs ys" by auto
  then have "list_all2 upto_order xs ys"
    using List by (auto simp: list_all2_conv_all_nth)
  then show ?case by (simp add: b upto_order.aligned)
qed (auto intro!: upto_order.leaf)

lemma f32_eq_refl_iff: "f32_eq x x \<longleftrightarrow> \<not> f32_nan x" "f64_eq y y \<longleftrightarrow> \<not> f64_nan y"
  by (auto simp: f32_eq_def f64_eq_def)

lemma nbt_same_eq: "nbt_same a b \<Longrightarrow> nan_free a \<Longrightarrow> nbt_wf a \<Longrightarrow> nbt_wf b \<Longrightarrow> nbt_eq a b"
proof (induction a arbitrary: b)
  case (Compound m)
  then obtain m' where b: "b = Compound m'" by auto
  have "\<exists>v'. im_get m' (fst p) = Some v' \<and> nbt_eq (snd p) v'" if "p \<in> set m" for p
  proof -
    from Compound.prems(1) that b obtain v' where v': "im_get m' (fst p) = Some v'" "nbt_same (snd p) v'"
      by auto
    with im_get_SomeD [OF v'(1)] Compound.IH [OF that, of "snd p" v'] Compound.prems that b show ?thesis
      by (auto simp: snds.simps)
  qed
  with Compound.prems(1) b show ?case by auto
next
  case (List xs)
  then show ?case by (auto simp: list_all2_conv_all_nth)
qed (auto simp: nan_free_def not_nan_def f32_eq_refl_iff)

lemma key_norm_eq: "nbt_wf v \<Longrightarrow> nan_free v \<Longrightarrow> nbt_eq v (key_norm True v)"
  by (simp add: nbt_same_eq key_norm_same key_norm_wf)

lemma key_norm_upto: "nbt_wf v \<Longrightarrow> nan_free v \<Longrightarrow> upto_order (key_norm True v) v"
  by (metis key_norm_eq key_norm_wf nbt_eq_sym nbt_eq_upto_order)

section \<open>Trees a patch carries over\<close>

definition id_fields :: "string list" where
  "id_fields = [''UUID'', ''UUIDMost'', ''UUIDLeast'', ''x'', ''y'', ''z'', ''Slot'', ''id'']"

text \<open>Two elements that agree on every field an identity is read from.\<close>

fun same_id_fields :: "nbt_value \<Rightarrow> nbt_value \<Rightarrow> bool" where
  "same_id_fields (Compound ma) (Compound mb) =
     list_all (\<lambda>f. rel_option nbt_eq (im_get ma f) (im_get mb f)) id_fields"
| "same_id_fields _ _ = False"

lemma identity_key_cong:
  assumes "\<And>f. f \<in> set id_fields \<Longrightarrow> im_get m f = im_get m' f"
  shows "identity_key (Compound m) = identity_key (Compound m')"
proof -
  have f: "im_get m ''UUID'' = im_get m' ''UUID''" "im_get m ''UUIDMost'' = im_get m' ''UUIDMost''"
    "im_get m ''UUIDLeast'' = im_get m' ''UUIDLeast''" "im_get m ''x'' = im_get m' ''x''"
    "im_get m ''y'' = im_get m' ''y''" "im_get m ''z'' = im_get m' ''z''"
    "im_get m ''Slot'' = im_get m' ''Slot''" "im_get m ''id'' = im_get m' ''id''"
    by (rule assms; simp add: id_fields_def)+
  show ?thesis
    unfolding identity_key_def nbt_value.case key_uuid_def key_uuid_legacy_def key_block_def key_slot_def
      key_id_def f ..
qed

text \<open>
  The pairs of trees whose patch carries over: keys and identities that survive the text form of a
  path, lists aligned by index that lose at most one element, and lists matched by identity that
  gain none and whose matched elements agree on the fields of their identity.
\<close>

inductive patchable :: "nbt_value \<Rightarrow> nbt_value \<Rightarrow> bool" where
  retyped: "tag_id a \<noteq> tag_id b \<Longrightarrow> patchable a b"
| leaf: "is_leaf a \<Longrightarrow> patchable a b"
| compound: "(\<And>k va vb. im_get ma k = Some va \<Longrightarrow> im_get mb k = Some vb \<Longrightarrow> patchable va vb) \<Longrightarrow>
    (\<And>k. k \<in> fst ` set ma \<union> fst ` set mb \<Longrightarrow> clean_seg (Key k)) \<Longrightarrow> patchable (Compound ma) (Compound mb)"
| aligned: "shared_keys la lb = None \<Longrightarrow> length la \<le> Suc (length lb) \<Longrightarrow> length la \<le> 2 ^ 64 \<Longrightarrow>
    length lb \<le> 2 ^ 64 \<Longrightarrow>
    (\<And>i. i < length la \<Longrightarrow> i < length lb \<Longrightarrow> patchable (la ! i) (lb ! i)) \<Longrightarrow> patchable (List la) (List lb)"
| matched: "list_keys la = Some ka \<Longrightarrow> list_keys lb = Some kb \<Longrightarrow> set kb \<subseteq> set ka \<Longrightarrow>
    (\<And>k. k \<in> set ka \<Longrightarrow> clean_seg (Ident k)) \<Longrightarrow>
    (\<And>i j. i < length la \<Longrightarrow> j < length lb \<Longrightarrow> ka ! i = kb ! j \<Longrightarrow>
       patchable (la ! i) (lb ! j) \<and> same_id_fields (la ! i) (lb ! j)) \<Longrightarrow> patchable (List la) (List lb)"

inductive_cases patchable_CompoundE: "patchable (Compound ma) (Compound mb)"
inductive_cases patchable_ListE: "patchable (List la) (List lb)"

definition keep :: "nbt_value \<Rightarrow> nbt_value \<Rightarrow> nbt_value option \<Rightarrow> bool" where
  "keep a b slot \<longleftrightarrow> (\<exists>c. slot = Some c \<and> (same_id_fields a b \<longrightarrow> identity_key c = identity_key a))"

definition carries :: "nbt_value \<Rightarrow> nbt_value \<Rightarrow> bool" where
  "carries a b \<longleftrightarrow> (\<exists>r. acts (keep a b) (map norm_op (diff_steps a b)) (Some a) = Some (Some r) \<and>
     upto_order r b \<and> nbt_wf r)"

lemma acts_whole:
  assumes "diff_steps a b = [([], c)]" "base_of c = Some a" "value_of c = Some b"
    "nbt_wf a" "nbt_wf b" "nan_free a" "nan_free b" "\<not> same_id_fields a b"
  shows "carries a b"
  using assms
  by (auto simp: carries_def norm_op_def keep_def key_norm_eq intro!: key_norm_upto key_norm_wf)

lemma acts_leaf:
  assumes "is_leaf a" "tag_id a = tag_id b" "nbt_wf a" "nbt_wf b" "nan_free a" "nan_free b"
  shows "carries a b"
proof (cases "nbt_eq a b")
  case True
  with assms show ?thesis
    by (auto simp: carries_def compare_leaf intro!: nbt_eq_upto_order)
next
  case False
  have "\<not> same_id_fields a b" using assms(1) by (cases a) auto
  moreover have "base_of (leaf_kind a a b) = Some a" "value_of (leaf_kind a a b) = Some b"
    by (cases a; simp)+
  ultimately show ?thesis using assms False by (intro acts_whole) (simp_all add: compare_leaf)
qed

lemma act_remove_key:
  assumes "im_get m k = Some va" "nbt_wf va" "nan_free va"
  shows "act (norm_op ([Key k], Removed va)) (Some (Compound m)) = Some (Some (Compound (im_remove k m)))"
  using assms by (simp add: norm_op_def key_norm_eq)

lemma act_add_key:
  assumes "im_get m k = None"
  shows "act (norm_op ([Key k], Added v)) (Some (Compound m)) =
           Some (Some (Compound (im_insert k (key_norm True v) m)))"
  using assms by (simp add: norm_op_def)

section \<open>Compounds\<close>

text \<open>The states of a run over a compound: no field on which the two trees agree has changed.\<close>

definition keeps_fields :: "compound \<Rightarrow> compound \<Rightarrow> nbt_value option \<Rightarrow> bool" where
  "keeps_fields ma mb slot \<longleftrightarrow> (\<exists>m. slot = Some (Compound m) \<and>
     (\<forall>f. rel_option upto_order (im_get ma f) (im_get mb f) \<longrightarrow> im_get m f = im_get ma f))"

lemma keeps_fields_keep:
  assumes "keeps_fields ma mb slot" "nbt_wf (Compound ma)" "nbt_wf (Compound mb)"
  shows "keep (Compound ma) (Compound mb) slot"
proof -
  from assms(1) obtain m where m: "slot = Some (Compound m)"
    "\<And>f. rel_option upto_order (im_get ma f) (im_get mb f) \<Longrightarrow> im_get m f = im_get ma f"
    by (auto simp: keeps_fields_def)
  have "identity_key (Compound m) = identity_key (Compound ma)" if s: "same_id_fields (Compound ma) (Compound mb)"
  proof (rule identity_key_cong)
    fix f assume "f \<in> set id_fields"
    with s have "rel_option nbt_eq (im_get ma f) (im_get mb f)" by (simp add: list_all_iff)
    moreover have "nbt_wf v" if "im_get ma f = Some v \<or> im_get mb f = Some v" for v
      using that assms(2,3) by (force dest: im_get_SomeD)
    ultimately have "rel_option upto_order (im_get ma f) (im_get mb f)"
      by (cases "im_get ma f"; cases "im_get mb f") (simp_all add: nbt_eq_upto_order)
    then show "im_get m f = im_get ma f" by (rule m(2))
  qed
  with m(1) show ?thesis by (simp add: keep_def)
qed

lemma keeps_fields_other:
  assumes "keeps_fields ma mb (Some (Compound m))" "\<not> rel_option upto_order (im_get ma k) (im_get mb k)"
    "\<And>f. f \<noteq> k \<Longrightarrow> im_get m' f = im_get m f"
  shows "keeps_fields ma mb (Some (Compound m'))"
  using assms by (auto simp: keeps_fields_def) metis

definition entry_rows :: "compound \<Rightarrow> string \<times> nbt_value \<Rightarrow> (seg list \<times> change) list" where
  "entry_rows mb p = (case im_get mb (fst p) of
     Some vb \<Rightarrow> map (apfst ((#) (Key (fst p)))) (diff_steps (snd p) vb)
   | None \<Rightarrow> [([Key (fst p)], Removed (snd p))])"

definition settled :: "compound \<Rightarrow> compound \<Rightarrow> string \<Rightarrow> bool" where
  "settled m mb k \<longleftrightarrow> rel_option (\<lambda>r vb. upto_order r vb \<and> nbt_wf r) (im_get m k) (im_get mb k)"

text \<open>One entry of the old compound.\<close>

lemma entry_run:
  assumes m: "im_get m k = Some va" "im_get ma k = Some va" "im_wf m"
    and va: "nbt_wf va" "nan_free va" "\<And>vb. im_get mb k = Some vb \<Longrightarrow> nbt_wf vb"
    and child: "\<And>vb. im_get mb k = Some vb \<Longrightarrow> carries va vb"
    and Q: "keeps_fields ma mb (Some (Compound m))"
  obtains m' where "acts (keeps_fields ma mb) (map norm_op (entry_rows mb (k, va))) (Some (Compound m)) =
      Some (Some (Compound m'))" "im_wf m'" "keeps_fields ma mb (Some (Compound m'))"
    "settled m' mb k" "\<And>f. f \<noteq> k \<Longrightarrow> im_get m' f = im_get m f"
proof (cases "im_get mb k")
  case None
  have *: "keeps_fields ma mb (Some (Compound (im_remove k m)))"
    by (rule keeps_fields_other [OF Q, of k]) (simp_all add: m None omap_simps)
  show thesis
    by (rule that [of "im_remove k m"])
      (simp_all add: entry_rows_def None act_remove_key m va * settled_def omap_simps del: act.simps)
next
  case (Some vb)
  then obtain r where r: "acts (keep va vb) (map norm_op (diff_steps va vb)) (Some va) = Some (Some r)"
    "upto_order r vb" "nbt_wf r"
    using child by (auto simp: carries_def)
  show thesis
  proof (cases "upto_order va vb")
    case True
    then have "diff_steps va vb = []" using va Some by (simp add: upto_order_no_rows)
    with True show thesis
      by (intro that [of m]) (simp_all add: entry_rows_def Some m Q va settled_def)
  next
    case False
    let ?m' = "im_insert k r m"
    have Q': "keeps_fields ma mb (Some (Compound (im_insert k x m)))" for x
      by (rule keeps_fields_other [OF Q, of k]) (simp_all add: m Some False omap_simps)
    have "acts (\<lambda>x. \<exists>c. x = Some c \<and> keeps_ident (Key k) c) (map norm_op (diff_steps va vb)) (Some va) =
        Some (Some r)"
      by (rule acts_mono [OF r(1)]) (auto simp: keep_def keeps_ident_def)
    then have "acts (keeps_fields ma mb) (map (pre (Key k)) (map norm_op (diff_steps va vb)))
        (Some (Compound m)) = Some (Some (step_put (Compound m) (Key k) r))"
      by (rule acts_pre) (simp_all add: m Q')
    then show thesis
      by (intro that [of ?m'])
        (simp_all add: entry_rows_def Some norm_op_pre comp_def Q' m settled_def r omap_simps)
  qed
qed

lemma entries_run:
  assumes "distinct (map fst ps)" "im_wf m" "keeps_fields ma mb (Some (Compound m))"
    "\<And>k va. (k, va) \<in> set ps \<Longrightarrow> im_get m k = Some va \<and> im_get ma k = Some va \<and> nbt_wf va \<and> nan_free va"
    "\<And>k va vb. (k, va) \<in> set ps \<Longrightarrow> im_get mb k = Some vb \<Longrightarrow> nbt_wf vb \<and> carries va vb"
  shows "\<exists>m'. acts (keeps_fields ma mb) (map norm_op (concat (map (entry_rows mb) ps))) (Some (Compound m)) =
      Some (Some (Compound m')) \<and> im_wf m' \<and> keeps_fields ma mb (Some (Compound m')) \<and>
    (\<forall>k \<in> fst ` set ps. settled m' mb k) \<and> (\<forall>k. k \<notin> fst ` set ps \<longrightarrow> im_get m' k = im_get m k)"
  using assms
proof (induction ps arbitrary: m)
  case (Cons p ps)
  obtain k va where p: "p = (k, va)" by fastforce
  from Cons.prems(4) [of k va] have e: "im_get m k = Some va" "im_get ma k = Some va" "nbt_wf va" "nan_free va"
    by (auto simp: p)
  from Cons.prems(5) [of k va] have f: "\<And>vb. im_get mb k = Some vb \<Longrightarrow> nbt_wf vb"
    "\<And>vb. im_get mb k = Some vb \<Longrightarrow> carries va vb" by (auto simp: p)
  obtain m1 where m1: "acts (keeps_fields ma mb) (map norm_op (entry_rows mb (k, va))) (Some (Compound m)) =
      Some (Some (Compound m1))" "im_wf m1" "keeps_fields ma mb (Some (Compound m1))"
    "settled m1 mb k" "\<And>f. f \<noteq> k \<Longrightarrow> im_get m1 f = im_get m f"
    using entry_run [OF e(1,2) Cons.prems(2) e(3,4) f(1,2) Cons.prems(3)] by blast
  have k: "k \<notin> fst ` set ps" using Cons.prems(1) by (simp add: p)
  then have "im_get m1 k' = Some va' \<and> im_get ma k' = Some va' \<and> nbt_wf va' \<and> nan_free va'"
    if "(k', va') \<in> set ps" for k' va'
    using Cons.prems(4) [of k' va'] that m1(5) [of k'] by force
  then obtain m' where m': "acts (keeps_fields ma mb) (map norm_op (concat (map (entry_rows mb) ps)))
      (Some (Compound m1)) = Some (Some (Compound m'))" "im_wf m'" "keeps_fields ma mb (Some (Compound m'))"
    "\<forall>k \<in> fst ` set ps. settled m' mb k" "\<forall>k. k \<notin> fst ` set ps \<longrightarrow> im_get m' k = im_get m1 k"
    using Cons.IH [OF _ m1(2,3)] Cons.prems(1,5) by fastforce
  have "settled m' mb k" using m1(4) m'(5) k by (simp add: settled_def)
  then show ?case
    using m' m1(5) acts_appendI [OF m1(1) m'(1)] by (intro exI [of _ m']) (auto simp: p)
qed auto

lemma adds_run:
  assumes "distinct ks" "im_wf m" "keeps_fields ma mb (Some (Compound m))"
    "\<And>k. k \<in> set ks \<Longrightarrow> im_get m k = None \<and> im_get ma k = None"
    "\<And>k. k \<in> set ks \<Longrightarrow> \<exists>vb. im_get mb k = Some vb \<and> nbt_wf vb \<and> nan_free vb"
  shows "\<exists>m'. acts (keeps_fields ma mb) (map norm_op (map (\<lambda>k. ([Key k], Added (the (im_get mb k)))) ks))
      (Some (Compound m)) = Some (Some (Compound m')) \<and> im_wf m' \<and>
    (\<forall>k \<in> set ks. settled m' mb k) \<and> (\<forall>k. k \<notin> set ks \<longrightarrow> im_get m' k = im_get m k)"
  using assms
proof (induction ks arbitrary: m)
  case (Cons k ks)
  from Cons.prems(5) [of k] obtain vb where vb: "im_get mb k = Some vb" "nbt_wf vb" "nan_free vb" by auto
  from Cons.prems(4) [of k] have no: "im_get m k = None" "im_get ma k = None" by auto
  let ?m1 = "im_insert k (key_norm True vb) m"
  have Q: "keeps_fields ma mb (Some (Compound ?m1))"
    by (rule keeps_fields_other [OF Cons.prems(3), of k]) (simp_all add: no vb omap_simps)
  have *: "im_get ?m1 k' = None \<and> im_get ma k' = None" if "k' \<in> set ks" for k'
    using Cons.prems(4) [of k'] Cons.prems(1) that by (auto simp: omap_simps)
  obtain m' where m': "acts (keeps_fields ma mb) (map norm_op (map (\<lambda>k. ([Key k], Added (the (im_get mb k)))) ks))
      (Some (Compound ?m1)) = Some (Some (Compound m'))" "im_wf m'"
    "\<forall>k \<in> set ks. settled m' mb k" "\<forall>k. k \<notin> set ks \<longrightarrow> im_get m' k = im_get ?m1 k"
    using Cons.IH [OF _ _ Q] Cons.prems(1,2,5) * by fastforce
  have "settled m' mb k"
    using m'(4) Cons.prems(1) vb by (simp add: settled_def omap_simps key_norm_upto key_norm_wf)
  with m' act_add_key [OF no(1), of vb] Q Cons.prems(1) show ?case
    by (intro exI [of _ m']) (simp add: vb omap_simps del: act.simps)
qed auto

lemma compound_carries:
  assumes wf: "nbt_wf (Compound ma)" "nbt_wf (Compound mb)" "nan_free (Compound ma)" "nan_free (Compound mb)"
    and child: "\<And>k va vb. (k, va) \<in> set ma \<Longrightarrow> im_get mb k = Some vb \<Longrightarrow> carries va vb"
  shows "carries (Compound ma) (Compound mb)"
proof -
  have im: "im_wf ma" "im_wf mb" using wf by auto
  have sub: "nbt_wf v \<and> nan_free v" if "(k, v) \<in> set ma \<union> set mb" for k v
    using wf that by force
  have Q0: "keeps_fields ma mb (Some (Compound ma))" by (simp add: keeps_fields_def)
  have "\<exists>m'. acts (keeps_fields ma mb) (map norm_op (concat (map (entry_rows mb) ma))) (Some (Compound ma)) =
      Some (Some (Compound m')) \<and> im_wf m' \<and> keeps_fields ma mb (Some (Compound m')) \<and>
    (\<forall>k \<in> fst ` set ma. settled m' mb k) \<and> (\<forall>k. k \<notin> fst ` set ma \<longrightarrow> im_get m' k = im_get ma k)"
  proof (rule entries_run [OF _ im(1) Q0])
    show "distinct (map fst ma)" using im by (simp add: im_wf_def)
  qed (use im sub child in \<open>auto simp: im_get_memI dest: im_get_SomeD\<close>)
  then obtain m1 where m1: "acts (keeps_fields ma mb) (map norm_op (concat (map (entry_rows mb) ma)))
      (Some (Compound ma)) = Some (Some (Compound m1))" "im_wf m1" "keeps_fields ma mb (Some (Compound m1))"
    "\<And>k. k \<in> fst ` set ma \<Longrightarrow> settled m1 mb k" "\<And>k. k \<notin> fst ` set ma \<Longrightarrow> im_get m1 k = im_get ma k"
    by blast
  define ks where "ks = sort (filter (\<lambda>k. im_get ma k = None) (map fst mb))"
  have ks: "k \<in> set ks \<longleftrightarrow> k \<in> fst ` set mb \<and> k \<notin> fst ` set ma" for k
    by (auto simp: ks_def im_get_None_iff)
  have mem: "k \<in> fst ` set m \<longleftrightarrow> im_get m k \<noteq> None" for k and m :: compound
    by (simp add: im_get_None_iff)
  have "\<exists>m'. acts (keeps_fields ma mb) (map norm_op (map (\<lambda>k. ([Key k], Added (the (im_get mb k)))) ks))
      (Some (Compound m1)) = Some (Some (Compound m')) \<and> im_wf m' \<and>
    (\<forall>k \<in> set ks. settled m' mb k) \<and> (\<forall>k. k \<notin> set ks \<longrightarrow> im_get m' k = im_get m1 k)"
  proof (rule adds_run [OF _ m1(2,3)])
    show "distinct ks" using im by (simp add: ks_def im_wf_def)
    show "im_get m1 k = None \<and> im_get ma k = None" if "k \<in> set ks" for k
      using that m1(5) [of k] by (simp add: ks mem)
    show "\<exists>vb. im_get mb k = Some vb \<and> nbt_wf vb \<and> nan_free vb" if "k \<in> set ks" for k
      using that sub by (auto simp: ks mem dest: im_get_SomeD)
  qed
  then obtain m2 where m2: "acts (keeps_fields ma mb) (map norm_op (map (\<lambda>k. ([Key k], Added (the (im_get mb k)))) ks))
      (Some (Compound m1)) = Some (Some (Compound m2))" "im_wf m2"
    "\<And>k. k \<in> set ks \<Longrightarrow> settled m2 mb k" "\<And>k. k \<notin> set ks \<Longrightarrow> im_get m2 k = im_get m1 k" by blast
  have all: "settled m2 mb k" for k
  proof (cases "k \<in> set ks")
    case False
    then have eq: "im_get m2 k = im_get m1 k" by (rule m2(4))
    show ?thesis
    proof (cases "k \<in> fst ` set ma")
      case True
      with m1(4) eq show ?thesis by (simp add: settled_def)
    next
      case no: False
      with False have "k \<notin> fst ` set mb" by (simp add: ks)
      with m1(5) [OF no] no eq show ?thesis by (simp add: settled_def mem)
    qed
  qed (rule m2(3))
  have "rel_option upto_order (im_get m2 k) (im_get mb k)" for k
    using all [of k] by (cases "im_get m2 k"; cases "im_get mb k") (auto simp: settled_def)
  then have "upto_order (Compound m2) (Compound mb)" by (rule upto_order.compound)
  moreover have "nbt_wf v" if "(k, v) \<in> set m2" for k v
    using all [of k] im_get_memI [OF m2(2) that] by (cases "im_get mb k") (auto simp: settled_def)
  then have "nbt_wf (Compound m2)" using m2(2) by auto
  moreover have "diff_steps (Compound ma) (Compound mb) =
      concat (map (entry_rows mb) ma) @ map (\<lambda>k. ([Key k], Added (the (im_get mb k)))) ks"
    unfolding diff_steps_Compound ks_def entry_rows_def ..
  then have "acts (keeps_fields ma mb) (map norm_op (diff_steps (Compound ma) (Compound mb))) (Some (Compound ma)) =
      Some (Some (Compound m2))"
    using acts_appendI [OF m1(1) m2(1)] by (simp only: map_append)
  then have "acts (keep (Compound ma) (Compound mb)) (map norm_op (diff_steps (Compound ma) (Compound mb)))
      (Some (Compound ma)) = Some (Some (Compound m2))"
    by (rule acts_mono) (rule keeps_fields_keep [OF _ wf(1,2)])
  ultimately show ?thesis by (auto simp: carries_def)
qed

section \<open>Lists\<close>

abbreviation present :: "nbt_value option \<Rightarrow> bool" where
  "present slot \<equiv> (\<exists>c. slot = Some c)"

lemma child_acts:
  assumes "carries a b" "same_id_fields a b \<or> \<not> (\<exists>i. s = Ident i)"
    "keeps_ident s a" "step cur s = Some a"
  obtains r where "acts present (map (pre s) (map norm_op (diff_steps a b))) (Some cur) =
      Some (Some (step_put cur s r))" "upto_order r b" "nbt_wf r"
proof -
  from assms(1) obtain r where r: "acts (keep a b) (map norm_op (diff_steps a b)) (Some a) = Some (Some r)"
    "upto_order r b" "nbt_wf r" by (auto simp: carries_def)
  have "acts (\<lambda>x. \<exists>c. x = Some c \<and> keeps_ident s c) (map norm_op (diff_steps a b)) (Some a) = Some (Some r)"
    by (rule acts_mono [OF r(1)]) (use assms(2,3) in \<open>auto simp: keep_def keeps_ident_def split: seg.splits\<close>)
  then have "acts present (map (pre s) (map norm_op (diff_steps a b))) (Some cur) =
      Some (Some (step_put cur s r))"
    by (rule acts_pre) (simp_all add: assms(4))
  with that r show thesis by blast
qed

lemma common_run:
  assumes child: "\<And>i. i < n \<Longrightarrow> carries (la ! i) (lb ! i)" and n: "n \<le> length la"
  shows "\<exists>xs. acts present (map norm_op (concat (map (\<lambda>i. map (apfst ((#) (Index i))) (diff_steps (la ! i) (lb ! i))) [0..<n])))
      (Some (List la)) = Some (Some (List xs)) \<and> length xs = length la \<and>
    (\<forall>i < n. upto_order (xs ! i) (lb ! i) \<and> nbt_wf (xs ! i)) \<and> (\<forall>i. n \<le> i \<longrightarrow> i < length la \<longrightarrow> xs ! i = la ! i)"
  using assms
proof (induction n)
  case (Suc n)
  then obtain xs where xs: "acts present (map norm_op (concat (map (\<lambda>i. map (apfst ((#) (Index i)))
      (diff_steps (la ! i) (lb ! i))) [0..<n]))) (Some (List la)) = Some (Some (List xs))" "length xs = length la"
    "\<forall>i < n. upto_order (xs ! i) (lb ! i) \<and> nbt_wf (xs ! i)" "\<forall>i. n \<le> i \<longrightarrow> i < length la \<longrightarrow> xs ! i = la ! i"
    by auto
  have "step (List xs) (Index n) = Some (la ! n)" using xs Suc.prems(2) by simp
  then obtain r where r: "acts present (map (pre (Index n)) (map norm_op (diff_steps (la ! n) (lb ! n))))
      (Some (List xs)) = Some (Some (List (xs[n := r])))" "upto_order r (lb ! n)" "nbt_wf r"
    using child_acts [of "la ! n" "lb ! n" "Index n" "List xs"] Suc.prems(1) [of n]
    by (auto simp: keeps_ident_def)
  have "acts present (map norm_op (concat (map (\<lambda>i. map (apfst ((#) (Index i)))
      (diff_steps (la ! i) (lb ! i))) [0..<Suc n]))) (Some (List la)) = Some (Some (List (xs[n := r])))"
    using acts_appendI [OF xs(1) r(1)] by (simp add: norm_op_pre comp_def)
  with xs r Suc.prems(2) show ?case
    by (intro exI [of _ "xs[n := r]"]) (auto simp: nth_list_update less_Suc_eq)
qed simp

lemma appends_run:
  "acts present (map norm_op (map (\<lambda>i. ([Index i], Added (f i))) [length xs..<length xs + n])) (Some (List xs)) =
     Some (Some (List (xs @ map (\<lambda>i. key_norm True (f i)) [length xs..<length xs + n])))"
proof (induction n)
  case (Suc n)
  then show ?case
    by (simp add: acts_append norm_op_def)
qed simp

lemma aligned_carries:
  assumes keys: "shared_keys la lb = None" and len: "length la \<le> Suc (length lb)"
    and wf: "nbt_wf (List la)" "nbt_wf (List lb)" "nan_free (List la)" "nan_free (List lb)"
    and child: "\<And>i. i < length la \<Longrightarrow> i < length lb \<Longrightarrow> carries (la ! i) (lb ! i)"
  shows "carries (List la) (List lb)"
proof -
  let ?n = "min (length la) (length lb)"
  let ?c = "concat (map (\<lambda>i. map (apfst ((#) (Index i))) (diff_steps (la ! i) (lb ! i))) [0..<?n])"
  obtain xs where xs: "acts present (map norm_op ?c) (Some (List la)) = Some (Some (List xs))"
    "length xs = length la" "\<And>i. i < ?n \<Longrightarrow> upto_order (xs ! i) (lb ! i) \<and> nbt_wf (xs ! i)"
    "\<And>i. ?n \<le> i \<Longrightarrow> i < length la \<Longrightarrow> xs ! i = la ! i"
    using common_run [of ?n la lb] child by auto
  have "\<exists>ys. acts present (map norm_op (diff_steps (List la) (List lb))) (Some (List la)) = Some (Some (List ys)) \<and>
    length ys = length lb \<and> (\<forall>i < length lb. upto_order (ys ! i) (lb ! i) \<and> nbt_wf (ys ! i))"
  proof (cases "length la \<le> length lb")
    case True
    then have rows: "diff_steps (List la) (List lb) = ?c @ map (\<lambda>i. ([Index i], Added (lb ! i))) [length la..<length lb]"
      by (simp add: diff_steps_indexed [OF keys])
    let ?ys = "xs @ map (\<lambda>i. key_norm True (lb ! i)) [length la..<length lb]"
    have "acts present (map norm_op (map (\<lambda>i. ([Index i], Added (lb ! i))) [length la..<length lb])) (Some (List xs)) =
        Some (Some (List ?ys))"
      using appends_run [of "\<lambda>i. lb ! i" xs "length lb - length la"] True by (simp add: xs(2))
    from acts_appendI [OF xs(1) this] have run: "acts present (map norm_op (diff_steps (List la) (List lb)))
        (Some (List la)) = Some (Some (List ?ys))" by (simp only: rows map_append)
    have "upto_order (?ys ! i) (lb ! i) \<and> nbt_wf (?ys ! i)" if "i < length lb" for i
      using that xs(2,3) wf by (cases "i < length la") (auto simp: nth_append key_norm_upto key_norm_wf)
    with run True xs(2) show ?thesis by (intro exI [of _ ?ys]) simp
  next
    case False
    with len have l: "length la = Suc (length lb)" by simp
    have rows: "diff_steps (List la) (List lb) = ?c @ [([Index (length lb)], Removed (la ! length lb))]"
      by (simp add: diff_steps_indexed [OF keys] l)
    have "xs ! length lb = la ! length lb" using xs(4) [of "length lb"] l by simp
    moreover have "nbt_eq (la ! length lb) (key_norm True (la ! length lb))"
      using wf l by (auto intro!: key_norm_eq)
    ultimately have "acts present [norm_op ([Index (length lb)], Removed (la ! length lb))] (Some (List xs)) =
        Some (Some (List (take (length lb) xs)))"
      using xs(2) l by (simp add: norm_op_def list_remove_def)
    from acts_appendI [OF xs(1) this] have run: "acts present (map norm_op (diff_steps (List la) (List lb)))
        (Some (List la)) = Some (Some (List (take (length lb) xs)))" by (simp only: rows map_append list.map)
    with xs l show ?thesis by (intro exI [of _ "take (length lb) xs"]) simp
  qed
  then obtain ys where ys: "acts present (map norm_op (diff_steps (List la) (List lb))) (Some (List la)) =
      Some (Some (List ys))" "length ys = length lb"
    "\<And>i. i < length lb \<Longrightarrow> upto_order (ys ! i) (lb ! i) \<and> nbt_wf (ys ! i)" by blast
  have "upto_order (List ys) (List lb)"
    using ys by (intro upto_order.aligned list_all2_all_nthI) auto
  moreover have "nbt_wf (List ys)" using ys by (auto simp: in_set_conv_nth)
  moreover have "acts (keep (List la) (List lb)) (map norm_op (diff_steps (List la) (List lb))) (Some (List la)) =
      Some (Some (List ys))"
    by (rule acts_mono [OF ys(1)]) (simp add: keep_def)
  ultimately show ?thesis by (auto simp: carries_def)
qed

text \<open>
  Lists matched by identity. After the first \<open>n\<close> keys of the old list, the list starts with the
  results of those that stay, in their old order, and goes on with the untouched rest.
\<close>

definition keyed_row :: "nbt_value list \<Rightarrow> string list \<Rightarrow> nbt_value \<times> string \<Rightarrow> (seg list \<times> change) list" where
  "keyed_row lb kb p = (case im_get (indexed 0 kb) (snd p) of
     Some j \<Rightarrow> map (apfst ((#) (Ident (snd p)))) (diff_steps (fst p) (lb ! j))
   | None \<Rightarrow> [([Ident (snd p)], Removed (fst p))])"

definition at_key :: "nbt_value list \<Rightarrow> string list \<Rightarrow> string \<Rightarrow> nbt_value" where
  "at_key lb kb k = lb ! the (im_get (indexed 0 kb) k)"

lemma find_index_append:
  "\<forall>x \<in> set xs. \<not> P x \<Longrightarrow> P y \<Longrightarrow> find_index P (xs @ y # ys) = Some (length xs)"
  by (induction xs) auto

lemma keyed_run:
  assumes ka: "list_keys la = Some ka" and kb: "list_keys lb = Some kb"
    and wf: "\<And>a. a \<in> set la \<Longrightarrow> nbt_wf a \<and> nan_free a"
    and child: "\<And>i j. i < length la \<Longrightarrow> j < length lb \<Longrightarrow> ka ! i = kb ! j \<Longrightarrow>
      carries (la ! i) (lb ! j) \<and> same_id_fields (la ! i) (lb ! j)"
    and n: "n \<le> length la"
  shows "\<exists>dn. acts present (map norm_op (concat (map (keyed_row lb kb) (take n (zip la ka))))) (Some (List la)) =
      Some (Some (List (dn @ drop n la))) \<and>
    list_all2 (\<lambda>r k. upto_order r (at_key lb kb k) \<and> identity_key r = Some k \<and> nbt_wf r)
      dn (filter (\<lambda>k. k \<in> set kb) (take n ka))"
  using n
proof (induction n)
  case (Suc n)
  note la = list_keysD [OF ka] and lb = list_keysD [OF kb]
  let ?P = "\<lambda>r k. upto_order r (at_key lb kb k) \<and> identity_key r = Some k \<and> nbt_wf r"
  let ?k = "ka ! n" and ?a = "la ! n"
  from Suc obtain dn where dn: "acts present (map norm_op (concat (map (keyed_row lb kb) (take n (zip la ka)))))
      (Some (List la)) = Some (Some (List (dn @ drop n la)))"
    "list_all2 ?P dn (filter (\<lambda>k. k \<in> set kb) (take n ka))" by auto
  have n: "n < length la" "n < length ka" using Suc.prems la(1) by auto
  have dropn: "drop n la = ?a # drop (Suc n) la" using n by (simp add: Cons_nth_drop_Suc)
  have takek: "take (Suc n) ka = take n ka @ [?k]" using n by (simp add: take_Suc_conv_app_nth)
  have takez: "take (Suc n) (zip la ka) = take n (zip la ka) @ [(?a, ?k)]"
    using n by (simp add: take_Suc_conv_app_nth)
  have a: "identity_key ?a = Some ?k" using la(3) n by simp
  have "?k \<notin> set (take n ka)" using n by (auto simp: in_set_conv_nth nth_eq_iff_index_eq [OF la(2)])
  then have "identity_key r \<noteq> Some ?k" if "r \<in> set dn" for r
    using dn(2) that by (fastforce simp: list_all2_conv_all_nth in_set_conv_nth dest: nth_mem)
  then have idx: "find_index (is_ident ?k) (dn @ ?a # drop (Suc n) la) = Some (length dn)"
    using a by (intro find_index_append) (auto simp: is_ident_def)
  have here: "step (List (dn @ drop n la)) (Ident ?k) = Some ?a"
    using find_index_SomeD [OF idx] by (simp add: dropn)
  show ?case
  proof (cases "im_get (indexed 0 kb) ?k")
    case None
    then have no: "?k \<notin> set kb" by (simp add: im_get_None_iff indexed_fst flip: set_map)
    have "nbt_eq ?a (key_norm True ?a)" using wf n by (simp add: key_norm_eq)
    then have "acts present (map norm_op (keyed_row lb kb (?a, ?k))) (Some (List (dn @ drop n la))) =
        Some (Some (List (dn @ drop (Suc n) la)))"
      using here idx by (simp add: keyed_row_def None norm_op_def dropn list_remove_def)
    from acts_appendI [OF dn(1) this] dn(2) show ?thesis
      by (intro exI [of _ dn]) (simp add: takez takek no)
  next
    case (Some j)
    then have j: "j < length lb" "ka ! n = kb ! j" using im_get_indexed [OF lb(2)] lb(1) by auto
    then have yes: "?k \<in> set kb" using lb(1) by simp
    obtain r where r: "acts present (map (pre (Ident ?k)) (map norm_op (diff_steps ?a (lb ! j))))
        (Some (List (dn @ drop n la))) = Some (Some (step_put (List (dn @ drop n la)) (Ident ?k) r))"
      "upto_order r (lb ! j)" "nbt_wf r"
      using child_acts [of ?a "lb ! j" "Ident ?k" "List (dn @ drop n la)"] child [OF n(1) j] here a
      by (auto simp: keeps_ident_def)
    have "step_put (List (dn @ drop n la)) (Ident ?k) r = List ((dn @ [r]) @ drop (Suc n) la)"
      using idx by (simp add: dropn)
    with r(1) have "acts present (map norm_op (keyed_row lb kb (?a, ?k))) (Some (List (dn @ drop n la))) =
        Some (Some (List ((dn @ [r]) @ drop (Suc n) la)))"
      by (simp add: keyed_row_def Some norm_op_pre comp_def)
    from acts_appendI [OF dn(1) this] have "acts present (map norm_op (concat (map (keyed_row lb kb)
        (take (Suc n) (zip la ka))))) (Some (List la)) = Some (Some (List ((dn @ [r]) @ drop (Suc n) la)))"
      by (simp add: takez)
    moreover have "identity_key r = Some ?k"
      using upto_order_identity [OF r(2)] lb(3) [OF j(1)] j(2) by simp
    then have "?P r ?k" using r by (simp add: at_key_def Some)
    with dn(2) have "list_all2 ?P (dn @ [r]) (filter (\<lambda>k. k \<in> set kb) (take (Suc n) ka))"
      by (simp add: takek yes list_all2_appendI)
    ultimately show ?thesis by blast
  qed
qed simp

lemma matched_carries:
  assumes ka: "list_keys la = Some ka" and kb: "list_keys lb = Some kb" and sub: "set kb \<subseteq> set ka"
    and wf: "nbt_wf (List la)" "nan_free (List la)"
    and child: "\<And>i j. i < length la \<Longrightarrow> j < length lb \<Longrightarrow> ka ! i = kb ! j \<Longrightarrow>
      carries (la ! i) (lb ! j) \<and> same_id_fields (la ! i) (lb ! j)"
  shows "carries (List la) (List lb)"
proof -
  note la = list_keysD [OF ka] and lb = list_keysD [OF kb]
  let ?ks = "filter (\<lambda>k. k \<in> set kb) ka"
  have wf': "nbt_wf a \<and> nan_free a" if "a \<in> set la" for a using wf that by simp
  from keyed_run [OF ka kb wf' child order_refl] obtain dn where
    dn: "acts present (map norm_op (concat (map (keyed_row lb kb) (zip la ka)))) (Some (List la)) =
      Some (Some (List dn))"
    "list_all2 (\<lambda>r k. upto_order r (at_key lb kb k) \<and> identity_key r = Some k \<and> nbt_wf r) dn ?ks"
    using la(1) by fastforce
  have rest: "filter (\<lambda>p. fst p \<notin> set ka) (indexed 0 kb) = []"
  proof -
    have "fst p \<in> set kb" if "p \<in> set (indexed 0 kb)" for p
      using that indexed_fst [of 0 kb] by (metis image_eqI list.set_map)
    with sub show ?thesis by (auto simp: filter_empty_conv)
  qed
  have "diff_steps (List la) (List lb) = concat (map (keyed_row lb kb) (zip la ka))"
    unfolding diff_steps_keyed [OF ka kb] rest by (simp add: keyed_row_def [abs_def] split_beta')
  with dn(1) have "acts (keep (List la) (List lb)) (map norm_op (diff_steps (List la) (List lb))) (Some (List la)) =
      Some (Some (List dn))"
    by (auto intro: acts_mono simp: keep_def)
  moreover have "nbt_wf (List dn)"
    using dn(2) by (auto simp: list_all2_conv_all_nth in_set_conv_nth)
  moreover have "upto_order (List dn) (List lb)"
  proof (rule upto_order.matched)
    have "mset ?ks = mset kb"
      using la(2) lb(2) sub by (intro set_eq_iff_mset_eq_distinct [THEN iffD1]) auto
    have map: "map identity_key dn = map Some ?ks"
      using dn(2) by (auto simp: list_all2_conv_all_nth intro: nth_equalityI)
    have "set ?ks = set kb" "kb \<noteq> []" using sub lb(1,4) by auto
    then have "?ks \<noteq> []" by (metis set_empty)
    with map have "dn \<noteq> []" by auto
    with map la(2) have "list_keys dn = Some ?ks" by (simp add: list_keys_iff)
    then show "list_keys dn \<noteq> None" by simp
    show "list_keys lb \<noteq> None" by (simp add: kb)
    show "list_all2 upto_order dn (map (at_key lb kb) ?ks)"
      using dn(2) by (auto simp: list_all2_conv_all_nth)
    have "im_get (indexed 0 kb) (kb ! i) = Some i" if "i < length kb" for i
      using im_get_indexed [OF lb(2)] that by simp
    then have "map (at_key lb kb) kb = lb"
      using lb(1) by (intro nth_equalityI) (simp_all add: at_key_def)
    with \<open>mset ?ks = mset kb\<close> show "mset (map (at_key lb kb) ?ks) = mset lb" by (metis mset_map)
  qed
  ultimately show ?thesis by (auto simp: carries_def)
qed

lemma patchable_carries:
  "patchable a b \<Longrightarrow> nbt_wf a \<Longrightarrow> nbt_wf b \<Longrightarrow> nan_free a \<Longrightarrow> nan_free b \<Longrightarrow> carries a b"
proof (induction a b rule: diff_induct)
  case (Tag a b)
  then have "\<not> same_id_fields a b" by (cases a; cases b) auto
  with Tag show ?case by (intro acts_whole [where c = "TypeChanged a b"]) (simp_all add: compare_tag)
next
  case (Compound ma mb)
  have "carries va vb" if "(k, va) \<in> set ma" "im_get mb k = Some vb" for k va vb
  proof (rule Compound.IH [OF that])
    show "patchable va vb"
      using Compound.prems(1,2) im_get_memI [OF _ that(1)] that(2) by (auto elim: patchable_CompoundE)
    show "nbt_wf va" "nbt_wf vb" "nan_free va" "nan_free vb"
      using Compound.prems(2-5) that(1) im_get_SomeD [OF that(2)] by auto
  qed
  then show ?case using Compound.prems by (intro compound_carries) blast+
next
  case (Keyed la lb ka kb)
  then have "shared_keys la lb = Some (ka, kb)" by (simp add: shared_keys_Some)
  then have "set kb \<subseteq> set ka \<and> (\<forall>i j. i < length la \<longrightarrow> j < length lb \<longrightarrow> ka ! i = kb ! j \<longrightarrow>
       patchable (la ! i) (lb ! j) \<and> same_id_fields (la ! i) (lb ! j))"
    using Keyed.prems(1) Keyed.hyps(1,2) by - (erule patchable_ListE, auto)
  moreover have "carries (la ! i) (lb ! j)" if "i < length la" "j < length lb" "patchable (la ! i) (lb ! j)" for i j
    using Keyed.IH [OF nth_mem [OF that(1)] nth_mem [OF that(2)] that(3)] Keyed.prems(2-5) that(1,2) by simp
  ultimately show ?case
    using Keyed.prems(2,4) by (intro matched_carries [OF Keyed.hyps(1,2)]) blast+
next
  case (Indexed la lb)
  then have "length la \<le> Suc (length lb)" "\<And>i. i < length la \<Longrightarrow> i < length lb \<Longrightarrow> patchable (la ! i) (lb ! i)"
    by (auto elim!: patchable_ListE simp: shared_keys_def)
  with Indexed show ?case by (intro aligned_carries) auto
qed (simp add: acts_leaf)

section \<open>Back to the text of a patch\<close>

lemma node_ops_steps: "node_ops ft a b = map (\<lambda>(q, c). patch_row ft (path_text q) c) (diff_steps a b)"
  by (simp add: node_ops_def patch.walk_rows compare_text comp_def split_beta)

lemma patchable_clean: "patchable a b \<Longrightarrow> nbt_wf a \<Longrightarrow> (q, c) \<in> set (diff_steps a b) \<Longrightarrow> list_all clean_seg q"
proof (induction a b arbitrary: q rule: diff_induct)
  case (Compound ma mb)
  have clean: "clean_seg (Key k)" if "k \<in> fst ` set ma \<union> fst ` set mb" for k
    using Compound.prems(1) by (rule patchable_CompoundE) (use that in simp_all)
  from Compound.prems(3) show ?case
  proof (cases rule: diff_events_Compound)
    case (both k va vb q')
    have "im_get ma k = Some va" "nbt_wf va" using Compound.prems(2) both(1) by (auto simp: im_get_memI)
    moreover have "patchable va vb"
      using Compound.prems(1) by (rule patchable_CompoundE) (use both(2) calculation in simp_all)
    ultimately have "patchable va vb" "nbt_wf va" by simp_all
    with Compound.IH [OF both(1,2)] both clean [of k] show ?thesis by force
  next
    case (removed k va)
    with clean [of k] show ?thesis by force
  next
    case (added k vb)
    with clean [of k] im_get_SomeD [OF added(1)] show ?thesis by force
  qed
next
  case (Keyed la lb ka kb)
  then have "shared_keys la lb = Some (ka, kb)" by (simp add: shared_keys_Some)
  then have p: "set kb \<subseteq> set ka \<and> (\<forall>k \<in> set ka. clean_seg (Ident k)) \<and>
      (\<forall>i j. i < length la \<longrightarrow> j < length lb \<longrightarrow> ka ! i = kb ! j \<longrightarrow> patchable (la ! i) (lb ! j))"
    using Keyed.prems(1) Keyed.hyps(1,2) by - (erule patchable_ListE, auto)
  have mem: "ka ! i \<in> set ka" if "i < length la" for i using that list_keysD(1) [OF Keyed.hyps(1)] by simp
  from Keyed.prems(3) Keyed.hyps(1,2) show ?case
  proof (cases rule: diff_events_keyed)
    case (both i j q')
    with Keyed.IH [OF nth_mem [OF both(1)] nth_mem [OF both(2)]] p mem [OF both(1)] Keyed.prems(2)
    show ?thesis by simp
  next
    case (removed i)
    with p mem [OF removed(1)] show ?thesis by simp
  next
    case (added j)
    have "kb ! j \<in> set kb" using added(1) list_keysD(1) [OF Keyed.hyps(2)] by simp
    with added(2) p show ?thesis by blast
  qed
next
  case (Indexed la lb)
  then have len: "length la \<le> 2 ^ 64" "length lb \<le> 2 ^ 64"
    "\<And>i. i < length la \<Longrightarrow> i < length lb \<Longrightarrow> patchable (la ! i) (lb ! i)"
    by (auto elim!: patchable_ListE simp: shared_keys_def)
  from Indexed.prems(3) Indexed.hyps show ?case
  proof (cases rule: diff_events_indexed)
    case (both i q')
    with Indexed.IH [OF both(1,2)] len(3) [OF both(1,2)] Indexed.prems(2) len show ?thesis by simp
  qed (use len in auto)
qed (auto simp: compare_tag compare_leaf split: if_splits)

lemma step_sub: "step a s = Some v \<Longrightarrow> nbt_wf a \<and> nan_free a \<Longrightarrow> nbt_wf v \<and> nan_free v"
proof (cases "(a, s)" rule: step.cases)
  case (3 xs i)
  then show "step a s = Some v \<Longrightarrow> nbt_wf a \<and> nan_free a \<Longrightarrow> nbt_wf v \<and> nan_free v"
    by (auto simp: find_Some_iff)
qed (auto split: if_splits dest!: im_get_SomeD)

lemma path_get_sub: "path_get q a = Some v \<Longrightarrow> nbt_wf a \<and> nan_free a \<Longrightarrow> nbt_wf v \<and> nan_free v"
proof (induction q arbitrary: a)
  case (Cons s q)
  then obtain c where "step a s = Some c" "path_get q c = Some v" by (auto split: option.splits)
  with Cons.IH [of c] step_sub [of a s c] Cons.prems(2) show ?case by blast
qed simp

lemma event_sides: "event_true q c a b \<Longrightarrow> path_get q a = base_of c \<and> path_get q b = value_of c"
  by (cases c) auto

lemma decode_encoded:
  assumes "float_text_ok ft" "\<And>v. x = Some v \<Longrightarrow> nbt_wf v \<and> nan_free v"
  shows "decode_side ft (map_option (to_json ft) x) = Inr (map_option (key_norm True) x)"
  using assms by (cases x) (simp_all add: decode_side_def from_to_json)

lemma path_text_Nil: "list_all clean_seg q \<Longrightarrow> path_text q = [] \<longleftrightarrow> q = []"
  by (cases q rule: rev_cases; cases "last q") (auto simp: path_text_def)

lemma apply_op_act:
  assumes "float_text_ok ft" "list_all clean_seg q"
    "\<And>v. base_of c = Some v \<Longrightarrow> nbt_wf v \<and> nan_free v" "\<And>v. value_of c = Some v \<Longrightarrow> nbt_wf v \<and> nan_free v"
    "act (norm_op (q, c)) slot = Some slot'"
  shows "apply_op ft ctx False force (patch_row ft (path_text q) c) (slot, rep) = Inr (slot', report_applied rep)"
proof (cases "q = []")
  case True
  with assms show ?thesis
    by (simp add: apply_op_def patch_row_def decode_encoded norm_op_def path_text_def split: if_splits)
next
  case False
  with assms parse_path_text_aux [of q] path_text_Nil [of q] show ?thesis
    by (auto simp: apply_op_def patch_row_def decode_encoded norm_op_def split: if_splits option.splits)
qed

lemma apply_ops_acts:
  assumes "float_text_ok ft"
    "\<And>q c. (q, c) \<in> set es \<Longrightarrow> list_all clean_seg q \<and> (\<forall>v. base_of c = Some v \<longrightarrow> nbt_wf v \<and> nan_free v) \<and>
       (\<forall>v. value_of c = Some v \<longrightarrow> nbt_wf v \<and> nan_free v)"
    "acts Q (map norm_op es) slot = Some slot'"
  shows "apply_ops ft ctx False force (map (\<lambda>(q, c). patch_row ft (path_text q) c) es) (slot, rep) =
           Inr (slot', rep\<lparr>rep_applied := rep_applied rep + length es\<rparr>)"
  using assms(2,3)
proof (induction es arbitrary: slot rep)
  case (Cons e es)
  obtain q c where e: "e = (q, c)" by fastforce
  from Cons.prems(2) obtain s1 where s1: "act (norm_op (q, c)) slot = Some s1"
    "acts Q (map norm_op es) s1 = Some slot'"
    by (auto simp: e split: option.splits if_splits)
  have "apply_op ft ctx False force (patch_row ft (path_text q) c) (slot, rep) = Inr (s1, report_applied rep)"
    using Cons.prems(1) [of q c] s1(1) assms(1) by (intro apply_op_act) (auto simp: e)
  with Cons.IH [OF Cons.prems(1) s1(2)] show ?case
    by (simp add: e report_applied_def)
qed simp

lemma node_ops_carry:
  assumes "float_text_ok ft" "nbt_wf a" "nbt_wf b" "nan_free a" "nan_free b" "patchable a b"
  shows "\<exists>r. upto_order r b \<and> nbt_wf r \<and> (\<forall>ctx force rep. apply_ops ft ctx False force (node_ops ft a b) (Some a, rep) =
           Inr (Some r, rep\<lparr>rep_applied := rep_applied rep + length (node_ops ft a b)\<rparr>))"
proof -
  obtain r where r: "acts (keep a b) (map norm_op (diff_steps a b)) (Some a) = Some (Some r)"
    "upto_order r b" "nbt_wf r"
    using patchable_carries assms by (auto simp: carries_def)
  have "list_all clean_seg q \<and> (\<forall>v. base_of c = Some v \<longrightarrow> nbt_wf v \<and> nan_free v) \<and>
       (\<forall>v. value_of c = Some v \<longrightarrow> nbt_wf v \<and> nan_free v)" if "(q, c) \<in> set (diff_steps a b)" for q c
    using patchable_clean [OF assms(6,2) that] event_sides [OF diff_steps_true [OF that assms(2,3)]]
      path_get_sub [of q a] path_get_sub [of q b] assms by auto
  from apply_ops_acts [OF assms(1) this r(1)] r(2,3) show ?thesis
    by (auto simp: node_ops_steps)
qed

section \<open>Properties\<close>

text \<open>
  C2. A patch carries a tree over: the operations extracted from two trees without NaNs, applied to
  the first, all apply without a conflict and give a tree whose diff to the second is empty. This
  holds for the pairs of \<^const>\<open>patchable\<close>: keys and identities that survive the path text, lists
  aligned by index that lose at most one element, and lists matched by identity that gain none.
\<close>

theorem patch_carries_over:
  assumes "float_text_ok ft" "nbt_wf a" "nbt_wf b" "nan_free a" "nan_free b" "patchable a b"
  shows "\<exists>r. apply_ops ft ctx False False (node_ops ft a b) (Some a, empty_report) =
           Inr (Some r, \<lparr>rep_applied = length (node_ops ft a b), rep_conflicts = []\<rparr>) \<and>
         compare seg_text [] r b = []"
  using node_ops_carry [OF assms] upto_order_no_rows [OF _ _ assms(3)]
  by (auto simp: empty_report_def compare_text)

lemma before_after_patchable: "patchable before_tree after_tree"
proof -
  have inner: "patchable (Compound [(''Slot'', Byte 3)]) (Compound [(''Slot'', Byte 3), (''n'', Byte 1)])"
    "patchable (Compound [(''Slot'', Byte 0)]) (Compound [(''Slot'', Byte 0)])"
    by (rule patchable.compound; auto simp: im_get_def key_stop_def intro: patchable.leaf split: if_splits)+
  have same: "same_id_fields (Compound [(''Slot'', Byte 3)]) (Compound [(''Slot'', Byte 3), (''n'', Byte 1)])"
    "same_id_fields (Compound [(''Slot'', Byte 0)]) (Compound [(''Slot'', Byte 0)])"
    by (simp_all add: id_fields_def im_get_def)
  have lists: "patchable (List [Compound [(''Slot'', Byte 0)], Compound [(''Slot'', Byte 3)]])
      (List [Compound [(''Slot'', Byte 3), (''n'', Byte 1)], Compound [(''Slot'', Byte 0)]])"
  proof (rule patchable.matched)
    show "list_keys [Compound [(''Slot'', Byte 0)], Compound [(''Slot'', Byte 3)]] = Some [''slot:0'', ''slot:3'']"
      "list_keys [Compound [(''Slot'', Byte 3), (''n'', Byte 1)], Compound [(''Slot'', Byte 0)]] =
         Some [''slot:3'', ''slot:0'']" by code_simp+
  qed (auto simp: parse_usize_def parse_digits_def digit_val_def nth_Cons inner same simp del: same_id_fields.simps split: nat.splits)
  show ?thesis
    unfolding before_tree_def after_tree_def
    by (rule patchable.compound)
      (auto simp: im_get_def key_stop_def lists intro: patchable.leaf split: if_splits)
qed

theorem patch_carries_over_witness:
  "\<exists>r. apply_ops digits_ft ''f'' False False (node_ops digits_ft before_tree after_tree)
      (Some before_tree, empty_report) = Inr (Some r, \<lparr>rep_applied = 2, rep_conflicts = []\<rparr>) \<and>
     compare seg_text [] r after_tree = []"
proof -
  have "length (node_ops digits_ft before_tree after_tree) = 2"
    using before_after_rows by (simp add: node_ops_def patch.walk_rows)
  moreover have "nan_free before_tree" "nan_free after_tree"
    by (simp_all add: before_tree_def after_tree_def)
  ultimately show ?thesis
    using patch_carries_over [OF digits_ft_ok before_after_wf _ _ before_after_patchable] by simp
qed

text \<open>
  An element added to a list matched by identity is lost: its operation addresses the list by the
  identity of an element that is not there yet, \<^verbatim>\<open>set\<close> refuses it, and \<^verbatim>\<open>apply_op\<close> counts the
  operation as applied without a conflict although the tree is what it was.
\<close>

theorem added_element_is_dropped:
  assumes "float_text_ok ft" "nbt_wf v" "nan_free v" "clean_seg (Key k)" "clean_seg (Ident i)"
    "im_get m k = Some (List xs)" "\<forall>x \<in> set xs. identity_key x \<noteq> Some i"
  shows "apply_op ft ctx False False (patch_row ft (path_text [Key k, Ident i]) (Added v)) (Some (Compound m), rep) =
           Inr (Some (Compound m), report_applied rep)"
proof (rule apply_op_act [OF assms(1)])
  have no: "find_index (is_ident i) xs = None" "find (is_ident i) xs = None"
    using assms(7) by (simp_all add: find_index_None is_ident_def find_None_iff)
  have "im_insert k (List xs) m = m"
    using step_put_self [of "Compound m" "Key k" "List xs"] assms(6) by simp
  with no assms(6) show "act (norm_op ([Key k, Ident i], Added v)) (Some (Compound m)) = Some (Some (Compound m))"
    by (simp add: norm_op_def)
qed (use assms in auto)

theorem added_element_is_dropped_witness:
  "apply_op digits_ft ''f'' False False
     (patch_row digits_ft (path_text [Key ''Inv'', Ident ''slot:5'']) (Added (Compound [(''Slot'', Byte 5)])))
     (Some before_tree, empty_report) = Inr (Some before_tree, \<lparr>rep_applied = 1, rep_conflicts = []\<rparr>)"
proof -
  let ?xs = "[Compound [(''Slot'', Byte 0)], Compound [(''Slot'', Byte 3)]]"
  have "im_get [(''hp'', Byte 20), (''Inv'', List ?xs)] ''Inv'' = Some (List ?xs)" by (simp add: im_get_def)
  moreover have "\<forall>x \<in> set ?xs. identity_key x \<noteq> Some ''slot:5''" by code_simp
  ultimately show ?thesis
    using added_element_is_dropped [OF digits_ft_ok, of "Compound [(''Slot'', Byte 5)]" "''Inv''" "''slot:5''"
      "[(''hp'', Byte 20), (''Inv'', List ?xs)]" ?xs "''f''" empty_report]
    by (simp add: before_tree_def key_stop_def parse_usize_def parse_digits_def digit_val_def
      report_applied_def empty_report_def im_wf_def)
qed

text \<open>
  A list aligned by index that loses its last two elements does not carry over: the two removals
  come in ascending order, the first shifts the element the second addresses, so the second one
  conflicts with the patch's own base and the last element stays.
\<close>

theorem two_removals_conflict:
  assumes "float_text_ok ft" "nbt_wf x" "nan_free x" "nbt_wf y" "nan_free y" "clean_seg (Key k)"
  shows "apply_ops ft ctx False False
           (node_ops ft (Compound [(k, List [x, y])]) (Compound [(k, List [])]))
           (Some (Compound [(k, List [x, y])]), empty_report) =
         Inr (Some (Compound [(k, List [y])]),
           \<lparr>rep_applied = 1, rep_conflicts = [ctx @ '': '' @ path_text [Key k, Index 1]]\<rparr>)"
proof -
  let ?a = "Compound [(k, List [x, y])]" and ?a1 = "Compound [(k, List [y])]"
  have keys: "shared_keys [x, y] [] = None"
    by (auto simp: shared_keys_def list_keys_def split: option.splits)
  have steps: "diff_steps ?a (Compound [(k, List [])]) =
      [([Key k, Index 0], Removed x), ([Key k, Index 1], Removed y)]"
    by (simp add: diff_steps_Compound im_get_def diff_steps_indexed [OF keys] upt_rec)
  have "act (norm_op ([Key k, Index 0], Removed x)) (Some ?a) = Some (Some ?a1)"
    using assms by (simp add: norm_op_def im_get_def key_norm_eq list_remove_def)
  then have 1: "apply_op ft ctx False False (patch_row ft (path_text [Key k, Index 0]) (Removed x)) (Some ?a, rep) =
      Inr (Some ?a1, report_applied rep)" for rep
    using assms by (intro apply_op_act) auto
  have 2: "apply_op ft ctx False False (patch_row ft (path_text [Key k, Index 1]) (Removed y)) (Some ?a1, rep) =
      Inr (Some ?a1, report_conflict (ctx @ '': '' @ path_text [Key k, Index 1]) rep)" for rep
    using assms parse_path_text_aux [of "[Key k, Index 1]"] path_text_Nil [of "[Key k, Index 1]"]
    by (simp add: apply_op_def patch_row_def decode_side_def from_to_json im_get_def)
  show ?thesis
    by (simp add: node_ops_steps steps 1 2 report_applied_def report_conflict_def empty_report_def
      del: One_nat_def)
qed

theorem two_removals_conflict_witness:
  "rep_conflicts (snd (projr (apply_ops digits_ft ''f'' False False
     (node_ops digits_ft (Compound [(''L'', List [IntV 1, IntV 2])]) (Compound [(''L'', List [])]))
     (Some (Compound [(''L'', List [IntV 1, IntV 2])]), empty_report)))) =
   [''f: '' @ path_text [Key ''L'', Index 1]]"
  using two_removals_conflict [OF digits_ft_ok, of "IntV 1" "IntV 2" "''L''" "''f''"]
  by (simp add: key_stop_def)

end
