(* ===== verification/PatchWorld.thy ===== *)
theory PatchWorld imports
  DiffWorld PatchApply
begin

text \<open>
  \<^verbatim>\<open>crates/patch/src/model.rs\<close>, \<^verbatim>\<open>extract.rs\<close> and \<^verbatim>\<open>apply.rs\<close>: the patch between two world
  directories, and its application to a copy of a world. The two worlds compared and the base world of
  an application are trees of their own; the output directory is the path \<open>out\<close> of a file system. The
  JSON text of a patch document is that of another package and left out.
\<close>

section \<open>Patch documents\<close>

datatype status = SAdded | SRemoved | SModified

datatype entry_kind = RegionEntry | NbtEntry | BlobEntry

record chunk_patch =
  cp_x :: u32
  cp_z :: u32
  cp_status :: status
  cp_ops :: "patch_op list"

record file_entry =
  fe_path :: string
  fe_kind :: entry_kind
  fe_status :: status
  fe_ops :: "patch_op list option"
  fe_chunks :: "chunk_patch list option"
  fe_base_blob :: "string option"
  fe_value_blob :: "string option"

record world_patch =
  wp_version :: u32
  wp_base :: "string option"
  wp_target :: "string option"
  wp_files :: "file_entry list"

definition patch_new :: world_patch where
  "patch_new = \<lparr>wp_version = 1, wp_base = None, wp_target = None, wp_files = []\<rparr>"

datatype patch_error =
  PatchIo io_kind
| PatchNbt nbt_error
| PatchAnvil anvil_error
| PatchB64
| PatchVersion u32

text \<open>The base64 package beside the tools of a comparison.\<close>

record patch_tools =
  pt_diff :: diff_tools
  pt_b64 :: "bytes \<Rightarrow> string"
  pt_unb64 :: "string \<Rightarrow> bytes option"

fun of_diff :: "diff_error + 'a \<Rightarrow> patch_error + 'a" where
  "of_diff (Inl (DiffIo k)) = Inl (PatchIo k)"
| "of_diff (Inl (DiffAnvil e)) = Inl (PatchAnvil e)"
| "of_diff (Inr a) = Inr a"

fun of_nbt :: "nbt_error + 'a \<Rightarrow> patch_error + 'a" where
  "of_nbt (Inl e) = Inl (PatchNbt e)"
| "of_nbt (Inr a) = Inr a"

fun of_anvil :: "anvil_error + 'a \<Rightarrow> patch_error + 'a" where
  "of_anvil (Inl e) = Inl (PatchAnvil e)"
| "of_anvil (Inr a) = Inr a"

text \<open>The operations of the file system fail with an \<open>Io\<close> error only.\<close>

fun of_io :: "repo_error + 'a \<Rightarrow> patch_error + 'a" where
  "of_io (Inl (repo_error.Io k)) = Inl (PatchIo k)"
| "of_io (Inl _) = Inl (PatchIo InvalidData)"
| "of_io (Inr a) = Inr a"

section \<open>Extracting\<close>

definition classify_path :: "string \<Rightarrow> entry_kind" where
  "classify_path rel = (if is_region rel then RegionEntry else if is_dat rel then NbtEntry else BlobEntry)"

definition chunk_entry :: "chunk_pos \<Rightarrow> status \<Rightarrow> patch_op list \<Rightarrow> chunk_patch" where
  "chunk_entry p st ops = \<lparr>cp_x = pos_x p, cp_z = pos_z p, cp_status = st, cp_ops = ops\<rparr>"

definition entry_of_region :: "string \<Rightarrow> status \<Rightarrow> chunk_patch list \<Rightarrow> file_entry" where
  "entry_of_region rel st chunks = \<lparr>fe_path = rel, fe_kind = RegionEntry, fe_status = st, fe_ops = None,
     fe_chunks = Some chunks, fe_base_blob = None, fe_value_blob = None\<rparr>"

definition entry_of_nbt :: "string \<Rightarrow> status \<Rightarrow> patch_op list \<Rightarrow> file_entry" where
  "entry_of_nbt rel st ops = \<lparr>fe_path = rel, fe_kind = NbtEntry, fe_status = st, fe_ops = Some ops,
     fe_chunks = None, fe_base_blob = None, fe_value_blob = None\<rparr>"

definition entry_of_blob :: "patch_tools \<Rightarrow> string \<Rightarrow> status \<Rightarrow> bytes option \<Rightarrow> bytes option \<Rightarrow> file_entry" where
  "entry_of_blob T rel st b v = \<lparr>fe_path = rel, fe_kind = BlobEntry, fe_status = st, fe_ops = None, fe_chunks = None,
     fe_base_blob = map_option (pt_b64 T) b, fe_value_blob = map_option (pt_b64 T) v\<rparr>"

definition patch_chunk :: "patch_tools \<Rightarrow> region_file \<Rightarrow> region_file \<Rightarrow> chunk_pos \<Rightarrow> patch_error + chunk_patch list" where
  "patch_chunk T ra rb p = (let D = pt_diff T; ft = dt_float D in
     case (region_get ra p, region_get rb p) of
       (Some ca, Some cb) \<Rightarrow>
         if payload_equals ca cb then Inr []
         else rbind (of_diff (decode D ca)) (\<lambda>va. rbind (of_diff (decode D cb)) (\<lambda>vb.
           let ops = node_ops ft va vb in Inr (if ops = [] then [] else [chunk_entry p SModified ops])))
     | (Some ca, None) \<Rightarrow> rbind (of_diff (decode D ca)) (\<lambda>va. Inr [chunk_entry p SRemoved [whole_remove ft va]])
     | (None, Some cb) \<Rightarrow> rbind (of_diff (decode D cb)) (\<lambda>vb. Inr [chunk_entry p SAdded [whole_add ft vb]])
     | (None, None) \<Rightarrow> Inr [])"

definition region_patches :: "patch_tools \<Rightarrow> fs \<Rightarrow> fs \<Rightarrow> path \<Rightarrow> bytes \<Rightarrow> bytes \<Rightarrow> patch_error + chunk_patch list" where
  "region_patches T wa wb p ba bb =
     rbind (of_diff (parse_at wa p ba)) (\<lambda>ra. rbind (of_diff (parse_at wb p bb)) (\<lambda>rb.
     rbind (collect_res (map (patch_chunk T ra rb) (positions ra rb))) (\<lambda>cs. Inr (concat cs))))"

text \<open>Every chunk of a region that is there in one of the worlds only.\<close>

definition whole_chunks :: "patch_tools \<Rightarrow> status \<Rightarrow> (float_text \<Rightarrow> nbt_value \<Rightarrow> patch_op) \<Rightarrow> fs \<Rightarrow> path \<Rightarrow> bytes \<Rightarrow>
    patch_error + chunk_patch list" where
  "whole_chunks T st whole w p b = rbind (of_diff (parse_at w p b)) (\<lambda>rf.
     collect_res (map (\<lambda>c. rbind (of_diff (decode (pt_diff T) c)) (\<lambda>v.
       Inr (chunk_entry (rc_pos c) st [whole (dt_float (pt_diff T)) v]))) (region_chunks rf)))"

definition removed_entry :: "patch_tools \<Rightarrow> string \<Rightarrow> entry_kind \<Rightarrow> fs \<Rightarrow> path \<Rightarrow> patch_error + file_entry" where
  "removed_entry T rel k wa p = rbind (of_diff (read_octets wa p)) (\<lambda>b. case k of
     RegionEntry \<Rightarrow> rbind (whole_chunks T SRemoved whole_remove wa p b) (\<lambda>cs. Inr (entry_of_region rel SRemoved cs))
   | NbtEntry \<Rightarrow> (case load_nbt_file (pt_diff T) wa p of
       Some v \<Rightarrow> Inr (entry_of_nbt rel SRemoved [whole_remove (dt_float (pt_diff T)) v])
     | None \<Rightarrow> Inr (entry_of_blob T rel SRemoved (Some b) None))
   | BlobEntry \<Rightarrow> Inr (entry_of_blob T rel SRemoved (Some b) None))"

definition added_entry :: "patch_tools \<Rightarrow> string \<Rightarrow> entry_kind \<Rightarrow> fs \<Rightarrow> path \<Rightarrow> patch_error + file_entry" where
  "added_entry T rel k wb p = rbind (of_diff (read_octets wb p)) (\<lambda>b. case k of
     RegionEntry \<Rightarrow> rbind (whole_chunks T SAdded whole_add wb p b) (\<lambda>cs. Inr (entry_of_region rel SAdded cs))
   | NbtEntry \<Rightarrow> (case load_nbt_file (pt_diff T) wb p of
       Some v \<Rightarrow> Inr (entry_of_nbt rel SAdded [whole_add (dt_float (pt_diff T)) v])
     | None \<Rightarrow> Inr (entry_of_blob T rel SAdded None (Some b)))
   | BlobEntry \<Rightarrow> Inr (entry_of_blob T rel SAdded None (Some b)))"

definition modified_entry :: "patch_tools \<Rightarrow> string \<Rightarrow> entry_kind \<Rightarrow> fs \<Rightarrow> fs \<Rightarrow> path \<Rightarrow> bytes \<Rightarrow> bytes \<Rightarrow>
    patch_error + file_entry option" where
  "modified_entry T rel k wa wb p ba bb = (case k of
     RegionEntry \<Rightarrow> rbind (region_patches T wa wb p ba bb) (\<lambda>chunks.
       Inr (if chunks = [] then None else Some (entry_of_region rel SModified chunks)))
   | NbtEntry \<Rightarrow> (case (load_nbt_file (pt_diff T) wa p, load_nbt_file (pt_diff T) wb p) of
       (Some va, Some vb) \<Rightarrow> (let ops = node_ops (dt_float (pt_diff T)) va vb
         in Inr (if ops = [] then None else Some (entry_of_nbt rel SModified ops)))
     | _ \<Rightarrow> Inr (Some (entry_of_blob T rel SModified (Some ba) (Some bb))))
   | BlobEntry \<Rightarrow> Inr (Some (entry_of_blob T rel SModified (Some ba) (Some bb))))"

definition extract_one :: "patch_tools \<Rightarrow> fs \<Rightarrow> fs \<Rightarrow> string \<Rightarrow> patch_error + file_entry option" where
  "extract_one T wa wb rel = (let p = components rel; k = classify_path rel in
     case (is_file wa p, is_file wb p) of
       (True, True) \<Rightarrow> rbind (of_diff (read_octets wa p)) (\<lambda>ba. rbind (of_diff (read_octets wb p)) (\<lambda>bb.
         if ba = bb then Inr None else modified_entry T rel k wa wb p ba bb))
     | (True, False) \<Rightarrow> rbind (removed_entry T rel k wa p) (\<lambda>e. Inr (Some e))
     | (False, True) \<Rightarrow> rbind (added_entry T rel k wb p) (\<lambda>e. Inr (Some e))
     | (False, False) \<Rightarrow> Inr None)"

definition extract_patch :: "patch_tools \<Rightarrow> string \<Rightarrow> string \<Rightarrow> fs \<Rightarrow> fs \<Rightarrow> patch_error + world_patch" where
  "extract_patch T base_name target_name wa wb =
     rbind (collect_res (map (extract_one T wa wb) (all_files wa wb))) (\<lambda>es.
     Inr (patch_new\<lparr>wp_base := Some base_name, wp_target := Some target_name, wp_files := List.map_filter id es\<rparr>))"

section \<open>Applying\<close>

fun flip :: "status \<Rightarrow> status" where
  "flip SAdded = SRemoved"
| "flip SRemoved = SAdded"
| "flip SModified = SModified"

definition copy_file :: "path \<Rightarrow> path \<times> node \<Rightarrow> fs \<Rightarrow> patch_error + fs" where
  "copy_file out x w = (case x of (p, Dir) \<Rightarrow> Inr w
   | (p, File c) \<Rightarrow> rbind (of_io (create_dir_all (butlast (out @ p)) w)) (\<lambda>w.
       of_io (fs_write (out @ p) c (remove_file (out @ p) w))))"

definition copy_world :: "fs \<Rightarrow> path \<Rightarrow> fs \<Rightarrow> patch_error + fs" where
  "copy_world src out w = each (copy_file out) src w"

type_synonym chunk_map = "((int \<times> int) \<times> nbt_value) list"

definition load_chunks :: "diff_tools \<Rightarrow> fs \<Rightarrow> path \<Rightarrow> patch_error + chunk_map" where
  "load_chunks D w p = (if is_file w p
     then rbind (of_diff (read_octets w p)) (\<lambda>b. rbind (of_diff (parse_at w p b)) (\<lambda>rf.
       each (\<lambda>c m. rbind (of_diff (decode D c)) (\<lambda>v. Inr (bm_insert (pos_key (rc_pos c)) v m))) (region_chunks rf) []))
     else Inr [])"

definition apply_chunk :: "float_text \<Rightarrow> string \<Rightarrow> bool \<Rightarrow> bool \<Rightarrow> chunk_patch \<Rightarrow> chunk_map \<times> apply_report \<Rightarrow>
    patch_error + chunk_map \<times> apply_report" where
  "apply_chunk ft rel reverse force cp st = (case st of (m, rep) \<Rightarrow>
     let k = (sint (cp_x cp), sint (cp_z cp));
         ctx = rel @ '' chunk '' @ show_i32 (cp_x cp) @ '','' @ show_i32 (cp_z cp)
     in rbind (of_nbt (apply_ops ft ctx reverse force (cp_ops cp) (bm_get m k, rep))) (\<lambda>(slot, rep).
          Inr (case slot of None \<Rightarrow> bm_remove k m | Some v \<Rightarrow> bm_insert k v (bm_remove k m), rep)))"

definition raw_of :: "diff_tools \<Rightarrow> (int \<times> int) \<times> nbt_value \<Rightarrow> patch_error + raw_chunk" where
  "raw_of D x = (case x of ((cx, cz), v) \<Rightarrow>
     rbind (of_anvil (encode_chunk (dt_compress D) (dt_codec D) v ZLib)) (\<lambda>payload. Inr
       \<lparr>rc_pos = mk_pos (word_of_int cx) (word_of_int cz), rc_compression = ZLib, rc_payload = payload,
        rc_external = False, rc_timestamp = 0\<rparr>))"

definition apply_region :: "diff_tools \<Rightarrow> file_entry \<Rightarrow> path \<Rightarrow> bool \<Rightarrow> bool \<Rightarrow> fs \<times> apply_report \<Rightarrow>
    patch_error + fs \<times> apply_report" where
  "apply_region D e p reverse force st = (case st of (w, rep) \<Rightarrow>
     rbind (load_chunks D w p) (\<lambda>m.
     rbind (each (apply_chunk (dt_float D) (fe_path e) reverse force) (case fe_chunks e of None \<Rightarrow> [] | Some cs \<Rightarrow> cs) (m, rep)) (\<lambda>(m, rep).
     rbind (of_io (create_dir_all (butlast p) w)) (\<lambda>w.
     rbind (collect_res (map (raw_of D) m)) (\<lambda>raws.
     rbind (of_io (write_region p raws w)) (\<lambda>w. Inr (w, rep)))))))"

definition apply_nbt :: "diff_tools \<Rightarrow> file_entry \<Rightarrow> path \<Rightarrow> bool \<Rightarrow> bool \<Rightarrow> fs \<times> apply_report \<Rightarrow>
    patch_error + fs \<times> apply_report" where
  "apply_nbt D e p reverse force st = (case st of (w, rep) \<Rightarrow>
     rbind (of_nbt (apply_ops (dt_float D) (fe_path e) reverse force (case fe_ops e of None \<Rightarrow> [] | Some ops \<Rightarrow> ops)
       (load_nbt_file D w p, rep))) (\<lambda>(slot, rep).
     rbind (of_io (create_dir_all (butlast p) w)) (\<lambda>w.
     case slot of
       None \<Rightarrow> Inr (remove_file p w, rep)
     | Some v \<Rightarrow> rbind (of_anvil (save_nbt_bytes (dt_compress D) (dt_codec D) v GZip)) (\<lambda>z.
         rbind (of_io (fs_write p (chars z) w)) (\<lambda>w. Inr (w, rep))))))"

definition unb64 :: "patch_tools \<Rightarrow> string option \<Rightarrow> patch_error + bytes option" where
  "unb64 T s = (case s of None \<Rightarrow> Inr None | Some s \<Rightarrow> rbind (ok_or (pt_unb64 T s) PatchB64) (\<lambda>b. Inr (Some b)))"

definition apply_blob :: "patch_tools \<Rightarrow> file_entry \<Rightarrow> path \<Rightarrow> bool \<Rightarrow> bool \<Rightarrow> fs \<times> apply_report \<Rightarrow>
    patch_error + fs \<times> apply_report" where
  "apply_blob T e p reverse force st = (case st of (w, rep) \<Rightarrow>
     (case (if reverse then (fe_value_blob e, fe_base_blob e) else (fe_base_blob e, fe_value_blob e)) of (from_b, to_b) \<Rightarrow>
     rbind (unb64 T from_b) (\<lambda>from_bytes. rbind (unb64 T to_b) (\<lambda>to_bytes.
     if map_option octets (contents w p) \<noteq> from_bytes \<and> \<not> force
     then Inr (w, report_conflict (fe_path e @ '' (blob)'') rep)
     else (case to_bytes of
       None \<Rightarrow> Inr (remove_file p w, report_applied rep)
     | Some b \<Rightarrow> rbind (of_io (create_dir_all (butlast p) w)) (\<lambda>w.
         rbind (of_io (fs_write p (chars b) w)) (\<lambda>w. Inr (w, report_applied rep))))))))"

definition apply_entry :: "patch_tools \<Rightarrow> path \<Rightarrow> bool \<Rightarrow> bool \<Rightarrow> file_entry \<Rightarrow> fs \<times> apply_report \<Rightarrow>
    patch_error + fs \<times> apply_report" where
  "apply_entry T out reverse force e st =
     (let eff = (if reverse then flip (fe_status e) else fe_status e); p = path_join out (fe_path e) in
      case fe_kind e of
        RegionEntry \<Rightarrow> if eff = SRemoved then Inr (remove_file p (fst st), snd st)
          else apply_region (pt_diff T) e p reverse force st
      | NbtEntry \<Rightarrow> if eff = SRemoved then Inr (remove_file p (fst st), snd st)
          else apply_nbt (pt_diff T) e p reverse force st
      | BlobEntry \<Rightarrow> apply_blob T e p reverse force st)"

definition apply_patch :: "patch_tools \<Rightarrow> world_patch \<Rightarrow> fs \<Rightarrow> path \<Rightarrow> bool \<Rightarrow> bool \<Rightarrow> fs \<Rightarrow> patch_error + fs \<times> apply_report" where
  "apply_patch T patch base out reverse force w =
     (if wp_version patch \<noteq> 1 then Inl (PatchVersion (wp_version patch))
      else rbind (copy_world base out w) (\<lambda>w. each (apply_entry T out reverse force) (wp_files patch) (w, empty_report)))"

section \<open>Results\<close>

lemma of_Inr_iff [res_simps]:
  "of_diff rd = Inr a \<longleftrightarrow> rd = Inr a" "of_nbt rn = Inr a \<longleftrightarrow> rn = Inr a"
  "of_anvil ra = Inr a \<longleftrightarrow> ra = Inr a" "of_io rf = Inr a \<longleftrightarrow> rf = Inr a"
  by (cases rd rule: of_diff.cases; cases rn; cases ra; cases rf rule: of_io.cases; simp)+

section \<open>The display and the patch\<close>

fun as_file :: "status \<Rightarrow> file_status" where
  "as_file SAdded = FileAdded"
| "as_file SRemoved = FileRemoved"
| "as_file SModified = FileModified"

fun as_chunk :: "status \<Rightarrow> chunk_status" where
  "as_chunk SAdded = ChunkAdded"
| "as_chunk SRemoved = ChunkRemoved"
| "as_chunk SModified = ChunkModified"

definition chunk_agrees :: "chunk_diff \<Rightarrow> chunk_patch \<Rightarrow> bool" where
  "chunk_agrees c q \<longleftrightarrow> cd_x c = cp_x q \<and> cd_z c = cp_z q \<and> cd_status c = as_chunk (cp_status q) \<and>
     (cp_status q = SModified \<longrightarrow> map ch_path (cd_changes c) = sort (map op_path (cp_ops q)))"

definition file_agrees :: "file_diff \<Rightarrow> file_entry \<Rightarrow> bool" where
  "file_agrees f e \<longleftrightarrow> fd_path f = fe_path e \<and> fd_status f = as_file (fe_status e) \<and>
     (fe_status e = SModified \<longrightarrow>
       map ch_path (fd_changes f) = sort (map op_path (case fe_ops e of None \<Rightarrow> [] | Some ops \<Rightarrow> ops)) \<and>
       list_all2 chunk_agrees (fd_chunks f) (case fe_chunks e of None \<Rightarrow> [] | Some cs \<Rightarrow> cs))"

lemma map_sort_key: "map f (sort_key f xs) = sort (map f xs)"
proof -
  have "map f (insort_key f x ys) = insort (f x) (map f ys)" for x ys by (induction ys) simp_all
  then show ?thesis by (induction xs) simp_all
qed

lemma same_paths: "map ch_path (display_compare ft dbg a b) = sort (map op_path (node_ops ft' a b))"
proof -
  have "ch_path (display_row ft dbg p c) = p" "op_path (patch_row ft' p c) = p" for p c
    by (cases c; simp add: change_row_def patch_row_def)+
  then show ?thesis
    by (simp add: display_compare_def node_ops_def display.walk_rows [where s = "[]", simplified]
      patch.walk_rows [where s = "[]", simplified] map_sort_key comp_def split_beta)
qed

lemma no_ops_iff: "node_ops ft a b = [] \<longleftrightarrow> display_compare ft' dbg a b = []"
  using same_paths [of ft' dbg a b ft] by (metis length_0_conv length_map length_sort)

lemma chunks_agree:
  assumes "diff_chunk (pt_diff T) ra rb p = Inr cs" "patch_chunk T ra rb p = Inr qs"
  shows "list_all2 chunk_agrees cs qs"
proof (cases "region_get ra p"; cases "region_get rb p")
  fix ca cb
  assume get: "region_get ra p = Some ca" "region_get rb p = Some cb"
  show ?thesis
  proof (cases "payload_equals ca cb")
    case False
    with assms get obtain va vb where v: "decode (pt_diff T) ca = Inr va" "decode (pt_diff T) cb = Inr vb"
      by (auto simp: diff_chunk_def res_simps Let_def)
    note s = same_paths [of "dt_float (pt_diff T)" "dt_debug (pt_diff T)" va vb "dt_float (pt_diff T)"]
    show ?thesis
      using assms get False v s no_ops_iff [of "dt_float (pt_diff T)" va vb "dt_float (pt_diff T)" "dt_debug (pt_diff T)"]
      by (auto simp: diff_chunk_def patch_chunk_def Let_def chunk_row_def chunk_entry_def chunk_agrees_def)
  qed (use assms get in \<open>simp add: diff_chunk_def patch_chunk_def Let_def\<close>)
qed (use assms in \<open>auto simp: diff_chunk_def patch_chunk_def Let_def chunk_row_def chunk_entry_def chunk_agrees_def res_simps\<close>)

lemma regions_agree:
  assumes "diff_region (pt_diff T) wa wb p ba bb = Inr cs" "region_patches T wa wb p ba bb = Inr qs"
  shows "list_all2 chunk_agrees cs qs"
proof -
  from assms obtain ra rb css qss where 1:
      "collect_res (map (diff_chunk (pt_diff T) ra rb) (positions ra rb)) = Inr css" "cs = concat css"
      "collect_res (map (patch_chunk T ra rb) (positions ra rb)) = Inr qss" "qs = concat qss"
    by (auto simp: diff_region_def region_patches_def res_simps)
  have "list_all2 chunk_agrees (concat css) (concat qss)"
    if "list_all2 (\<lambda>p c. diff_chunk (pt_diff T) ra rb p = Inr c) ps css" "list_all2 (\<lambda>p q. patch_chunk T ra rb p = Inr q) ps qss"
    for ps css qss
    using that
  proof (induction ps arbitrary: css qss)
    case (Cons x ps)
    from Cons.prems obtain c css' q qss' where 2: "css = c # css'" "qss = q # qss'"
        "diff_chunk (pt_diff T) ra rb x = Inr c" "patch_chunk T ra rb x = Inr q"
        "list_all2 (\<lambda>p c. diff_chunk (pt_diff T) ra rb p = Inr c) ps css'" "list_all2 (\<lambda>p q. patch_chunk T ra rb p = Inr q) ps qss'"
      by (auto simp: list_all2_Cons1)
    show ?case using list_all2_appendI [OF chunks_agree [OF 2(3,4)] Cons.IH [OF 2(5,6)]] by (simp add: 2(1,2))
  qed simp
  from this [OF collect_all2 [OF 1(1)] collect_all2 [OF 1(3)]] show ?thesis by (simp add: 1)
qed

lemma whole_entry_shape:
  "removed_entry T rel k wa p = Inr e \<Longrightarrow> fe_path e = rel \<and> fe_status e = SRemoved"
  "added_entry T rel k wb p = Inr e \<Longrightarrow> fe_path e = rel \<and> fe_status e = SAdded"
  by (cases k; auto simp: removed_entry_def added_entry_def res_simps entry_of_region_def entry_of_nbt_def entry_of_blob_def
    split: option.splits)+

lemma files_agree:
  assumes "diff_one (pt_diff T) wa wb rel = Inr f" "extract_one T wa wb rel = Inr e"
  shows "rel_option file_agrees f e"
proof -
  let ?p = "components rel" and ?D = "pt_diff T"
  show ?thesis
  proof (cases "contents wa ?p"; cases "contents wb ?p")
    fix a b
    assume ab: "contents wa ?p = Some a" "contents wb ?p = Some b"
    then have read: "read_octets wa ?p = Inr (octets a)" "read_octets wb ?p = Inr (octets b)"
      by (simp_all add: read_octets_iff)
    note d = assms(1) [unfolded diff_one_def Let_def is_file_iff ab read, simplified]
    note x = assms(2) [unfolded extract_one_def Let_def is_file_iff ab read, simplified]
    show ?thesis
    proof (cases "a = b")
      case False
      consider "is_region rel" | "\<not> is_region rel" "is_dat rel" | "\<not> is_region rel" "\<not> is_dat rel" by blast
      then show ?thesis
      proof cases
        case 1
        with d x False obtain cs qs where c: "diff_region ?D wa wb ?p (octets a) (octets b) = Inr cs"
          "f = (if cs = [] then None else Some (file_row rel FileModified [] cs))"
          "region_patches T wa wb ?p (octets a) (octets b) = Inr qs"
          "e = (if qs = [] then None else Some (entry_of_region rel SModified qs))"
          by (auto simp: res_simps modified_entry_def classify_path_def)
        have "list_all2 chunk_agrees cs qs" using regions_agree c(1,3) by blast
        then show ?thesis by (auto simp: c file_row_def entry_of_region_def file_agrees_def)
      next
        case 2
        show ?thesis
        proof (cases "\<exists>va vb. load_nbt_file ?D wa ?p = Some va \<and> load_nbt_file ?D wb ?p = Some vb")
          case True
          then obtain va vb where v: "load_nbt_file ?D wa ?p = Some va" "load_nbt_file ?D wb ?p = Some vb" by blast
          note s = same_paths [of "dt_float ?D" "dt_debug ?D" va vb "dt_float ?D"]
          show ?thesis
            using d x False 2 v s no_ops_iff [of "dt_float ?D" va vb "dt_float ?D" "dt_debug ?D"]
            by (auto simp: modified_entry_def classify_path_def file_row_def entry_of_nbt_def file_agrees_def Let_def split: if_splits)
        next
          case no: False
          then have "f = Some (file_row rel FileModified [] [])" "e = Some (entry_of_blob T rel SModified (Some (octets a)) (Some (octets b)))"
            using d x False 2 by (auto simp: modified_entry_def classify_path_def split: option.splits)
          then show ?thesis by (simp add: file_row_def entry_of_blob_def file_agrees_def)
        qed
      next
        case 3
        then show ?thesis
          using d x False by (auto simp: modified_entry_def classify_path_def file_row_def entry_of_blob_def file_agrees_def)
      qed
    qed (use d x in simp)
  next
    fix a assume "contents wa ?p = Some a" "contents wb ?p = None"
    then show ?thesis
      using assms by (auto simp: diff_one_def extract_one_def is_file_iff Let_def res_simps file_row_def file_agrees_def
        dest!: whole_entry_shape)
  next
    fix b assume "contents wa ?p = None" "contents wb ?p = Some b"
    then show ?thesis
      using assms by (auto simp: diff_one_def extract_one_def is_file_iff Let_def res_simps file_row_def file_agrees_def
        dest!: whole_entry_shape)
  qed (use assms in \<open>simp add: diff_one_def extract_one_def is_file_iff Let_def\<close>)
qed

lemma map_filter_all2:
  "list_all2 (\<lambda>x r. f x = Inr r) xs rs \<Longrightarrow> list_all2 (\<lambda>x s. g x = Inr s) xs ss \<Longrightarrow>
     (\<And>x r s. f x = Inr r \<Longrightarrow> g x = Inr s \<Longrightarrow> rel_option P r s) \<Longrightarrow>
     list_all2 P (List.map_filter id rs) (List.map_filter id ss)"
proof (induction xs arbitrary: rs ss)
  case (Cons x xs)
  from Cons.prems(1,2) obtain r rs' s ss' where 1: "rs = r # rs'" "ss = s # ss'" "f x = Inr r" "g x = Inr s"
      "list_all2 (\<lambda>x r. f x = Inr r) xs rs'" "list_all2 (\<lambda>x s. g x = Inr s) xs ss'"
    by (auto simp: list_all2_Cons1)
  have "rel_option P r s" using Cons.prems(3) [OF 1(3,4)] .
  then show ?case using Cons.IH [OF 1(5,6) Cons.prems(3)] by (cases r; cases s) (auto simp: 1(1,2) List.map_filter_simps)
qed (simp add: List.map_filter_simps)

section \<open>Files that are the same\<close>

lemma same_chunk_none:
  assumes "rel_option (same_chunk D) (region_get ra q) (region_get rb q)"
  shows "diff_chunk D ra rb q = Inr []"
proof (cases "region_get ra q"; cases "region_get rb q")
  fix ca cb
  assume get: "region_get ra q = Some ca" "region_get rb q = Some cb"
  with assms have "same_chunk D ca cb" by simp
  then consider "payload_equals ca cb" | va vb where "decode D ca = Inr va" "decode D cb = Inr vb" "upto_order va vb"
    by (auto simp: same_chunk_def)
  then show ?thesis
  proof cases
    case 2
    then have "display_compare ft dbg va vb = []" for ft dbg using no_changes_iff decode_shape(1) by blast
    with 2 get show ?thesis by (simp add: diff_chunk_def)
  qed (use get in \<open>simp add: diff_chunk_def\<close>)
qed (use assms in \<open>auto simp: diff_chunk_def\<close>)

lemma collect_const: "(\<And>x. x \<in> set xs \<Longrightarrow> f x = Inr c) \<Longrightarrow> collect_res (map f xs) = Inr (map (\<lambda>_. c) xs)"
  by (induction xs) simp_all

lemma same_region_diff:
  assumes "parse_at wa p a = Inr ra" "parse_at wb p b = Inr rb" "same_region D ra rb"
  shows "diff_region D wa wb p a b = Inr []"
proof -
  have "diff_chunk D ra rb q = Inr []" for q using assms(3) same_chunk_none by (simp add: same_region_def)
  then have "collect_res (map (diff_chunk D ra rb) (positions ra rb)) = Inr (map (\<lambda>_. []) (positions ra rb))"
    by (intro collect_const)
  then show ?thesis by (simp add: diff_region_def assms(1,2) map_replicate_const)
qed

lemma same_file_none: "same_file D wa wb rel \<Longrightarrow> diff_one D wa wb rel = Inr None"
proof -
  let ?p = "components rel"
  assume same: "same_file D wa wb rel"
  show ?thesis
  proof (cases "contents wa ?p = contents wb ?p")
    case True
    then show ?thesis
      by (cases "contents wb ?p") (auto simp: diff_one_def Let_def is_file_iff read_octets_iff [THEN iffD2])
  next
    case False
    with same obtain a b where ab: "contents wa ?p = Some a" "contents wb ?p = Some b"
      "is_region rel \<longrightarrow> (\<exists>ra rb. parse_at wa ?p (octets a) = Inr ra \<and> parse_at wb ?p (octets b) = Inr rb \<and> same_region D ra rb)"
      "\<not> is_region rel \<longrightarrow> is_dat rel \<and> (\<exists>va vb. load_nbt_file D wa ?p = Some va \<and> load_nbt_file D wb ?p = Some vb \<and> upto_order va vb)"
      by (auto simp: same_file_def Let_def)
    then have read: "read_octets wa ?p = Inr (octets a)" "read_octets wb ?p = Inr (octets b)" "a \<noteq> b"
      using False by (simp_all add: read_octets_iff)
    show ?thesis
    proof (cases "is_region rel")
      case True
      with ab obtain ra rb where "parse_at wa ?p (octets a) = Inr ra" "parse_at wb ?p (octets b) = Inr rb" "same_region D ra rb" by blast
      from same_region_diff [OF this] True ab(1,2) read show ?thesis by (simp add: diff_one_def Let_def is_file_iff)
    next
      case no: False
      with ab obtain va vb where v: "is_dat rel" "load_nbt_file D wa ?p = Some va" "load_nbt_file D wb ?p = Some vb" "upto_order va vb"
        by blast
      then have "display_compare ft dbg va vb = []" for ft dbg using no_changes_iff load_nbt_file_shape(1) by blast
      with no v ab(1,2) read show ?thesis by (simp add: diff_one_def Let_def is_file_iff)
    qed
  qed
qed

lemma no_ops_same:
  assumes "nbt_wf a" "nbt_wf b"
  shows "node_ops ft a b = [] \<longleftrightarrow> upto_order a b"
  using no_ops_iff [of ft a b ft id] no_changes_iff [OF assms] by simp

lemma patch_chunk_none:
  assumes "patch_chunk T ra rb q = Inr []"
  shows "rel_option (same_chunk (pt_diff T)) (region_get ra q) (region_get rb q)"
proof (cases "region_get ra q"; cases "region_get rb q")
  fix ca cb
  assume get: "region_get ra q = Some ca" "region_get rb q = Some cb"
  show ?thesis
  proof (cases "payload_equals ca cb")
    case False
    with assms get obtain va vb where "decode (pt_diff T) ca = Inr va" "decode (pt_diff T) cb = Inr vb"
      "node_ops (dt_float (pt_diff T)) va vb = []" by (auto simp: patch_chunk_def res_simps Let_def split: if_splits)
    moreover from this(1,2) have "nbt_wf va" "nbt_wf vb" by (auto intro: decode_shape)
    ultimately show ?thesis by (auto simp: get same_chunk_def no_ops_same)
  qed (simp add: get same_chunk_def)
qed (use assms in \<open>auto simp: patch_chunk_def res_simps Let_def\<close>)

lemma extract_none_same:
  assumes "extract_one T wa wb rel = Inr None"
  shows "same_file (pt_diff T) wa wb rel"
proof -
  let ?p = "components rel" and ?D = "pt_diff T"
  show ?thesis
  proof (cases "contents wa ?p"; cases "contents wb ?p")
    fix a b
    assume ab: "contents wa ?p = Some a" "contents wb ?p = Some b"
    then have read: "read_octets wa ?p = Inr (octets a)" "read_octets wb ?p = Inr (octets b)"
      by (simp_all add: read_octets_iff)
    note x = assms [unfolded extract_one_def Let_def is_file_iff ab read, simplified]
    show ?thesis
    proof (cases "a = b")
      case False
      consider "is_region rel" | "\<not> is_region rel" "is_dat rel" | "\<not> is_region rel" "\<not> is_dat rel" by blast
      then show ?thesis
      proof cases
        case 1
        with x False obtain ra rb qss where c: "parse_at wa ?p (octets a) = Inr ra" "parse_at wb ?p (octets b) = Inr rb"
          "collect_res (map (patch_chunk T ra rb) (positions ra rb)) = Inr qss" "concat qss = []"
          by (auto simp: res_simps modified_entry_def classify_path_def region_patches_def split: if_splits)
        have "patch_chunk T ra rb q = Inr []" if "q \<in> set (positions ra rb)" for q
          using all2_left [OF collect_all2 [OF c(3)] that] c(4) by auto
        then have "rel_option (same_chunk ?D) (region_get ra q) (region_get rb q)" if "q \<in> set (positions ra rb)" for q
          using patch_chunk_none that by blast
        moreover have "rel_option (same_chunk ?D) (region_get ra q) (region_get rb q)" if "q \<notin> set (positions ra rb)" for q
          using that positions_set [OF c(1,2)] by auto
        ultimately have "same_region ?D ra rb" unfolding same_region_def by blast
        with c(1,2) 1 ab show ?thesis by (auto simp: same_file_def Let_def)
      next
        case 2
        with x False obtain va vb where v: "load_nbt_file ?D wa ?p = Some va" "load_nbt_file ?D wb ?p = Some vb"
          "node_ops (dt_float ?D) va vb = []"
          by (auto simp: modified_entry_def classify_path_def Let_def split: option.splits if_splits)
        then have "upto_order va vb" using no_ops_same load_nbt_file_shape(1) by blast
        with v 2 ab show ?thesis by (auto simp: same_file_def Let_def)
      next
        case 3
        with x False show ?thesis by (simp add: modified_entry_def classify_path_def)
      qed
    qed (use ab in \<open>simp add: same_file_def\<close>)
  qed (use assms in \<open>auto simp: extract_one_def is_file_iff Let_def res_simps same_file_def\<close>)
qed

end
