(* ===== verification/PatchCarry.thy ===== *)
theory PatchCarry imports
  PatchWorld
begin

text \<open>
  The patch of \<^verbatim>\<open>PatchWorld\<close> carries one world over to the other: which worlds that is true of, what each
  entry of the patch leaves at its path, that the entries do not touch each other's paths, and the
  round trip of extraction and application.
\<close>

section \<open>Worlds a patch carries over\<close>

text \<open>A tree the codec and the inflate cap let through, and one small enough to stay in its region file.\<close>

definition writable :: "diff_tools \<Rightarrow> nbt_value \<Rightarrow> bool" where
  "writable D v \<longleftrightarrow> from_binary (dt_codec D) (to_binary (dt_codec D) (doc_compound False v) []) = Inr (doc_compound False v, []) \<and>
     length (write_named (to_binary (dt_codec D)) [] v False) \<le> MAX_INFLATED"

definition inline_tree :: "diff_tools \<Rightarrow> nbt_value \<Rightarrow> bool" where
  "inline_tree D v \<longleftrightarrow> (\<forall>z. encode_chunk (dt_compress D) (dt_codec D) v ZLib = Inr z \<longrightarrow>
     z \<noteq> [] \<and> (5 + length z + (SECTOR - 1)) div SECTOR \<le> MAX_INLINE_SECTORS)"

definition tools_ok :: "patch_tools \<Rightarrow> bool" where
  "tools_ok T \<longleftrightarrow> float_text_ok (dt_float (pt_diff T)) \<and> compressors_ok (dt_compress (pt_diff T)) \<and>
     gzip_magic (dt_compress (pt_diff T)) \<and> (\<forall>b. pt_unb64 T (pt_b64 T b) = Some b)"

definition no_region :: region_file where
  "no_region = \<lparr>rf_x = 0, rf_z = 0, rf_chunks = []\<rparr>"

definition portable_region :: "diff_tools \<Rightarrow> region_file \<Rightarrow> region_file \<Rightarrow> u32 \<Rightarrow> u32 \<Rightarrow> bool" where
  "portable_region D ra rb rx rz \<longleftrightarrow>
     (\<forall>ca \<in> set (region_chunks ra). \<exists>va. decode D ca = Inr va \<and> nan_free va) \<and>
     (\<forall>cb \<in> set (region_chunks rb). \<exists>vb. decode D cb = Inr vb \<and> region_of (rc_pos cb) = (rx, rz) \<and> nan_free vb \<and>
       (\<forall>r. upto_order r vb \<and> nbt_wf r \<longrightarrow> writable D r \<and> inline_tree D r) \<and>
       (\<forall>ca \<in> set (region_chunks ra). rc_pos ca = rc_pos cb \<longrightarrow> (\<forall>va. decode D ca = Inr va \<longrightarrow> patchable va vb)))"

text \<open>
  What is asked of a path whose file changes: a region has its name, no external chunks in the old
  file, and chunks whose trees a patch carries over; so has a document.
\<close>

definition portable_file :: "diff_tools \<Rightarrow> fs \<Rightarrow> fs \<Rightarrow> string \<Rightarrow> bool" where
  "portable_file D wa wb rel \<longleftrightarrow> (let p = components rel in
     \<forall>b. contents wb p = Some b \<and> contents wa p \<noteq> Some b \<longrightarrow>
       (is_region rel \<longrightarrow> (\<exists>rx rz ra rb. parse_region_coords (last p) = Inr (rx, rz) \<and> parse_at wb p (octets b) = Inr rb \<and>
         (case contents wa p of None \<Rightarrow> ra = no_region | Some a \<Rightarrow> (\<forall>w. parse_at w p (octets a) = Inr ra)) \<and>
         portable_region D ra rb rx rz)) \<and>
       (\<not> is_region rel \<and> is_dat rel \<longrightarrow> (\<forall>vb. load_nbt_file D wb p = Some vb \<longrightarrow> nan_free vb \<and>
         (\<forall>r. upto_order r vb \<and> nbt_wf r \<longrightarrow> writable D r) \<and>
         (\<forall>va. load_nbt_file D wa p = Some va \<longrightarrow> nan_free va \<and> patchable va vb))))"

section \<open>Trees written and read back\<close>

lemma upto_order_homogeneous: "upto_order r b \<Longrightarrow> homogeneous b \<Longrightarrow> nbt_wf r \<Longrightarrow> homogeneous r"
proof (induction rule: upto_order.induct)
  case (leaf a b)
  then show ?case by (cases a) auto
next
  case (compound ma mb)
  have "homogeneous (snd p)" if p: "p \<in> set ma" for p
  proof -
    have "im_wf ma" using compound.prems by simp
    then have "im_get ma (fst p) = Some (snd p)" using p by (simp add: im_get_Some_iff)
    then obtain v where v: "im_get mb (fst p) = Some v" "upto_order (snd p) v" "homogeneous v \<longrightarrow> nbt_wf (snd p) \<longrightarrow> homogeneous (snd p)"
      using compound(1) [of "fst p"] by (auto simp: option_rel_Some1)
    then show ?thesis using compound.prems p im_get_SomeD [OF v(1)] by auto
  qed
  then show ?case by simp
next
  case (aligned la lb)
  have tags: "tag_id x = tag_id (hd la)" if "x \<in> set la" for x
  proof -
    have t: "\<exists>y \<in> set lb. tag_id x = tag_id y" if "x \<in> set la" for x
      using all2_left [OF aligned(1) that] upto_order_tag by blast
    have "hd la \<in> set la" using that by (cases la) auto
    then show ?thesis using t [OF that] t [of "hd la"] aligned.prems(1) by (metis homogeneous_simps(1))
  qed
  moreover have "homogeneous x" if "x \<in> set la" for x
    using all2_left [OF aligned(1) that] aligned.prems that by auto
  ultimately show ?case by simp
next
  case (matched la lb lb')
  have sets: "set lb' = set lb" using matched(3) by (metis set_mset_mset)
  have tags: "tag_id x = tag_id (hd la)" if "x \<in> set la" for x
  proof -
    have t: "\<exists>y \<in> set lb. tag_id x = tag_id y" if "x \<in> set la" for x
      using all2_left [OF matched(4) that] upto_order_tag sets by blast
    have "hd la \<in> set la" using that by (cases la) auto
    then show ?thesis using t [OF that] t [of "hd la"] matched.prems(1) by (metis homogeneous_simps(1))
  qed
  moreover have "homogeneous x" if "x \<in> set la" for x
    using all2_left [OF matched(4) that] matched.prems that sets by auto
  ultimately show ?case by simp
qed

lemma upto_order_refl: "nbt_wf v \<Longrightarrow> nan_free v \<Longrightarrow> upto_order v v"
  using nbt_eq_refl nbt_eq_upto_order by blast

lemma upto_order_compound: "upto_order r (Compound m) \<Longrightarrow> \<exists>m'. r = Compound m'"
  using upto_order_tag by (cases r) force+

lemma encode_decode:
  assumes "compressors_ok (dt_compress D)" "writable D v" "nbt_wf v" "homogeneous v" "\<exists>m. v = Compound m"
  shows "\<exists>z. encode_chunk (dt_compress D) (dt_codec D) v ZLib = Inr z \<and>
    (\<forall>ch. rc_compression ch = ZLib \<and> rc_payload ch = z \<longrightarrow> decode D ch = Inr v)"
proof -
  obtain m where m: "v = Compound m" using assms(5) by blast
  have round: "\<exists>z. encode_chunk (dt_compress D) (dt_codec D) v ZLib = Inr z \<and>
      decode_chunk (dt_compress D) (dt_codec D)
        \<lparr>rc_pos = p, rc_compression = ZLib, rc_payload = z, rc_external = e, rc_timestamp = t\<rparr> = Inr v" for p e t
    unfolding m using assms by (intro chunk_codec_roundtrip) (simp_all add: writable_def m)
  then obtain z where z: "encode_chunk (dt_compress D) (dt_codec D) v ZLib = Inr z" by blast
  have "decode D ch = Inr v" if "rc_compression ch = ZLib" "rc_payload ch = z" for ch :: raw_chunk
    using round [of "rc_pos ch" "rc_external ch" "rc_timestamp ch"] z that by (cases ch) (simp add: decode_def)
  with z show ?thesis by blast
qed

lemma save_load:
  assumes "compressors_ok (dt_compress D)" "gzip_magic (dt_compress D)" "writable D v" "nbt_wf v" "homogeneous v" "\<exists>m. v = Compound m"
  shows "\<exists>z. save_nbt_bytes (dt_compress D) (dt_codec D) v GZip = Inr z \<and>
    load_nbt_bytes (dt_compress D) (dt_codec D) z = Inr v"
proof -
  obtain m where m: "v = Compound m" using assms(6) by blast
  let ?raw = "write_named (to_binary (dt_codec D)) [] v False"
  have len: "length ?raw \<le> MAX_INFLATED" using assms(3) by (simp add: writable_def)
  obtain p where p: "compress_level (dt_compress D) GZip ?raw 6 = Inr p" "decompress (dt_compress D) GZip p = Inr ?raw"
    using compress_decompress [OF assms(1) _ len, of GZip 6] by blast
  have "sniff p = GZip" using assms(2) p(1) by (auto simp: gzip_magic_def compress_level_def)
  moreover have "nbt_read (from_binary (dt_codec D)) ?raw = Inr ([], v)"
    using assms(3-5) from_doc_compound [of m False]
    by (simp add: m writable_def write_named_doc nbt_read_def key_norm_False)
  ultimately have "load_nbt_bytes (dt_compress D) (dt_codec D) p = Inr v" using p(2) by (simp add: load_nbt_bytes_def)
  then show ?thesis using p(1) by (simp add: save_nbt_bytes_def compress_def)
qed

section \<open>Whole trees\<close>

lemma apply_whole_add:
  assumes "float_text_ok ft" "nbt_wf v" "nan_free v"
  shows "apply_ops ft ctx False force [whole_add ft v] (None, rep) = Inr (Some (key_norm True v), report_applied rep)"
  using from_to_json [OF assms] by (simp add: apply_op_def whole_add_def decode_side_def)

lemma apply_whole_remove:
  assumes "float_text_ok ft" "nbt_wf v" "nan_free v"
  shows "apply_ops ft ctx False force [whole_remove ft v] (Some v, rep) = Inr (None, report_applied rep)"
  using from_to_json [OF assms] key_norm_eq [OF assms(2,3)] by (simp add: apply_op_def whole_remove_def decode_side_def)

section \<open>The chunks of a region as a map\<close>

definition tree_at :: "diff_tools \<Rightarrow> region_file \<Rightarrow> chunk_pos \<Rightarrow> nbt_value option" where
  "tree_at D rf q = (case region_get rf q of None \<Rightarrow> None
   | Some ch \<Rightarrow> (case decode D ch of Inl _ \<Rightarrow> None | Inr v \<Rightarrow> Some v))"

definition holds :: "chunk_map \<Rightarrow> (chunk_pos \<Rightarrow> nbt_value option) \<Rightarrow> bool" where
  "holds m f \<longleftrightarrow> bm_wf m \<and> fst ` set m \<subseteq> range pos_key \<and> (\<forall>q. bm_get m (pos_key q) = f q)"

lemma pos_key_inject [simp]: "pos_key p = pos_key q \<longleftrightarrow> p = q"
  by (cases p; cases q) (auto simp: pos_key_def intro: signed_word_eqI)

lemma pos_key_back: "mk_pos (word_of_int (fst (pos_key q))) (word_of_int (snd (pos_key q))) = q"
  by (simp add: pos_key_def mk_pos_def)

lemma holds_insert: "holds m f \<Longrightarrow> holds (bm_insert (pos_key q) v m) (f(q \<mapsto> v))"
  by (auto simp: holds_def omap_simps bm_insert_keys)

lemma holds_remove: "holds m f \<Longrightarrow> holds (bm_remove (pos_key q) m) (f(q := None))"
proof -
  have "fst ` set (bm_remove (pos_key q) m) \<subseteq> fst ` set m" by (auto simp: bm_remove_def)
  then show "holds m f \<Longrightarrow> holds (bm_remove (pos_key q) m) (f(q := None))" by (auto simp: holds_def omap_simps)
qed

lemma region_parse_distinct: "region_parse dir name b = Inr rf \<Longrightarrow> distinct (map rc_pos (region_chunks rf))"
proof -
  assume "region_parse dir name b = Inr rf"
  then have "\<forall>(p, ch) \<in> set (rf_chunks rf). p = rc_pos ch" "im_wf (rf_chunks rf)"
    using parse_slots_keyed [of dir b _ _ _ "[]"] parse_slots_wf [of dir b _ _ _ "[]"]
    by (fastforce simp: region_parse_def res_simps split: if_splits)+
  moreover from this(1) have "map rc_pos (region_chunks rf) = map fst (rf_chunks rf)"
    by (auto simp: region_chunks_def)
  ultimately show ?thesis by (simp add: im_wf_def)
qed

lemma load_region:
  assumes "contents w p = Some a" "parse_at w p (octets a) = Inr ra" "\<forall>ch \<in> set (region_chunks ra). \<exists>v. decode D ch = Inr v"
  shows "\<exists>m. load_chunks D w p = Inr m \<and> holds m (tree_at D ra)"
proof -
  let ?f = "\<lambda>c m. rbind (of_diff (decode D c)) (\<lambda>v. Inr (bm_insert (pos_key (rc_pos c)) v m))"
  have p: "region_parse (directory_of w (butlast p)) (last p) (octets a) = Inr ra"
    using assms(2) by (simp add: parse_at_def res_simps)
  have run: "\<exists>m'. each ?f cs m = Inr m' \<and> holds m' (\<lambda>q. case find (\<lambda>c. rc_pos c = q) cs of None \<Rightarrow> g q
      | Some c \<Rightarrow> (case decode D c of Inl _ \<Rightarrow> None | Inr v \<Rightarrow> Some v))"
    if "\<forall>ch \<in> set cs. \<exists>v. decode D ch = Inr v" "distinct (map rc_pos cs)" "holds m g" for cs m g
    using that
  proof (induction cs arbitrary: m g)
    case (Cons c cs)
    then obtain v where v: "decode D c = Inr v" by auto
    have "holds (bm_insert (pos_key (rc_pos c)) v m) (g(rc_pos c \<mapsto> v))" by (rule holds_insert [OF Cons.prems(3)])
    with Cons obtain m' where m': "each ?f cs (bm_insert (pos_key (rc_pos c)) v m) = Inr m'"
      "holds m' (\<lambda>q. case find (\<lambda>c. rc_pos c = q) cs of None \<Rightarrow> (g(rc_pos c \<mapsto> v)) q
         | Some c \<Rightarrow> (case decode D c of Inl _ \<Rightarrow> None | Inr v \<Rightarrow> Some v))" by fastforce
    have "rc_pos d \<noteq> rc_pos c" if "d \<in> set cs" for d using Cons.prems(2) that by (metis distinct.simps(2) image_eqI list.set_map list.simps(9))
    then have "find (\<lambda>d. rc_pos d = rc_pos c) cs = None" by (auto simp: find_None_iff)
    then have "(\<lambda>q. case find (\<lambda>c. rc_pos c = q) cs of None \<Rightarrow> (g(rc_pos c \<mapsto> v)) q
         | Some c \<Rightarrow> (case decode D c of Inl _ \<Rightarrow> None | Inr v \<Rightarrow> Some v)) =
       (\<lambda>q. case find (\<lambda>c. rc_pos c = q) (c # cs) of None \<Rightarrow> g q
         | Some c \<Rightarrow> (case decode D c of Inl _ \<Rightarrow> None | Inr v \<Rightarrow> Some v))"
      by (auto simp: fun_eq_iff v split: option.splits)
    with m' v show ?case by simp
  qed simp
  have "find (\<lambda>c. rc_pos c = q) (region_chunks ra) = region_get ra q" for q
  proof (cases "find (\<lambda>c. rc_pos c = q) (region_chunks ra)")
    case None
    then show ?thesis using region_parse_chunks(3) [OF p, of q] by (cases "region_get ra q") (auto simp: find_None_iff)
  next
    case (Some c)
    then have "c \<in> set (region_chunks ra)" "rc_pos c = q" by (auto simp: find_Some_iff)
    then show ?thesis using region_parse_chunks(3) [OF p, of q c] Some by simp
  qed
  then have get: "(\<lambda>q. case find (\<lambda>c. rc_pos c = q) (region_chunks ra) of None \<Rightarrow> None
      | Some c \<Rightarrow> (case decode D c of Inl _ \<Rightarrow> None | Inr v \<Rightarrow> Some v)) = tree_at D ra"
    by (simp add: tree_at_def fun_eq_iff)
  have "holds [] (\<lambda>_. None)" by (simp add: holds_def omap_simps)
  from run [OF assms(3) region_parse_distinct [OF p] this] obtain m where
    "each ?f (region_chunks ra) [] = Inr m" "holds m (tree_at D ra)" unfolding get by blast
  with assms(1,2) show ?thesis by (simp add: load_chunks_def is_file_iff read_octets_iff [THEN iffD2])
qed

lemma apply_chunk_holds:
  assumes "holds m f" "cp_x cp = pos_x q" "cp_z cp = pos_z q"
    "\<And>ctx. apply_ops ft ctx False False (cp_ops cp) (f q, rep) = Inr (slot, rep')"
  shows "\<exists>m'. apply_chunk ft rel False False cp (m, rep) = Inr (m', rep') \<and> holds m' (f(q := slot))"
proof -
  have k: "(sint (cp_x cp), sint (cp_z cp)) = pos_key q" by (simp add: pos_key_def assms(2,3))
  have get: "bm_get m (pos_key q) = f q" using assms(1) by (simp add: holds_def)
  show ?thesis
  proof (cases slot)
    case None
    with holds_remove [OF assms(1), of q] show ?thesis by (simp add: apply_chunk_def k get assms(4))
  next
    case (Some v)
    with holds_insert [OF holds_remove [OF assms(1), of q], of q v] show ?thesis
      by (simp add: apply_chunk_def k get assms(4) Let_def)
  qed
qed

text \<open>A chunk patch with the tree it leaves.\<close>

definition leaves :: "float_text \<Rightarrow> nbt_value option \<Rightarrow> chunk_patch \<Rightarrow> chunk_pos \<Rightarrow> nbt_value option \<Rightarrow> bool" where
  "leaves ft before cp q after \<longleftrightarrow> cp_x cp = pos_x q \<and> cp_z cp = pos_z q \<and>
     (\<forall>rep. \<exists>rep'. rep_conflicts rep' = rep_conflicts rep \<and>
       (\<forall>ctx. apply_ops ft ctx False False (cp_ops cp) (before, rep) = Inr (after, rep')))"

lemma apply_chunks_holds:
  assumes "list_all2 (\<lambda>cp q. leaves ft (f q) cp q (g q)) cps qs" "distinct qs" "holds m f"
  shows "\<exists>m' rep'. each (apply_chunk ft rel False False) cps (m, rep) = Inr (m', rep') \<and> rep_conflicts rep' = rep_conflicts rep \<and>
    holds m' (\<lambda>q. if q \<in> set qs then g q else f q)"
  using assms
proof (induction cps arbitrary: qs m f rep)
  case (Cons cp cps)
  then obtain q qs' where qs: "qs = q # qs'" "leaves ft (f q) cp q (g q)" "list_all2 (\<lambda>cp q. leaves ft (f q) cp q (g q)) cps qs'"
    by (auto simp: list_all2_Cons1)
  from qs(2) obtain rep1 where 1: "cp_x cp = pos_x q" "cp_z cp = pos_z q" "rep_conflicts rep1 = rep_conflicts rep"
    "\<forall>ctx. apply_ops ft ctx False False (cp_ops cp) (f q, rep) = Inr (g q, rep1)" by (auto simp only: leaves_def)
  from apply_chunk_holds [OF Cons.prems(3) 1(1,2) 1(4) [rule_format]] obtain m1 where
    m1: "apply_chunk ft rel False False cp (m, rep) = Inr (m1, rep1)" "holds m1 (f(q := g q))" by blast
  have "list_all2 (\<lambda>cp q'. leaves ft ((f(q := g q)) q') cp q' (g q')) cps qs'"
    using qs(3) Cons.prems(2) by (auto simp: qs(1) list_all2_conv_all_nth)
  moreover have "distinct qs'" using Cons.prems(2) qs(1) by simp
  ultimately obtain m' rep' where 2: "each (apply_chunk ft rel False False) cps (m1, rep1) = Inr (m', rep')"
    "rep_conflicts rep' = rep_conflicts rep1" "holds m' (\<lambda>q'. if q' \<in> set qs' then g q' else (f(q := g q)) q')"
    using Cons.IH [OF _ _ m1(2), of qs' rep1] by blast
  have "(\<lambda>q'. if q' \<in> set qs' then g q' else (f(q := g q)) q') = (\<lambda>q'. if q' \<in> set qs then g q' else f q')"
    by (auto simp: qs(1))
  with m1(1) 1(3) 2 show ?case by (simp add: qs(1))
qed auto

lemma tree_at_Some:
  "tree_at D rf q = Some v \<longleftrightarrow> (\<exists>ch. region_get rf q = Some ch \<and> decode D ch = Inr v)"
  by (auto simp: tree_at_def split: option.splits sum.splits)

lemma portable_sides:
  assumes "portable_region D ra rb rx rz" "parse_at wa p a = Inr ra \<or> ra = no_region" "parse_at wb p b = Inr rb"
  shows "region_get ra q = Some ca \<Longrightarrow> \<exists>va. decode D ca = Inr va \<and> tree_at D ra q = Some va \<and> nbt_wf va \<and> nan_free va"
    "region_get rb q = Some cb \<Longrightarrow> \<exists>vb. decode D cb = Inr vb \<and> tree_at D rb q = Some vb \<and> nbt_wf vb \<and> nan_free vb \<and> homogeneous vb \<and>
       (\<exists>m. vb = Compound m) \<and> region_of q = (rx, rz) \<and> (\<forall>r. upto_order r vb \<and> nbt_wf r \<longrightarrow> writable D r \<and> inline_tree D r)"
    "tree_at D ra q = Some va \<Longrightarrow> tree_at D rb q = Some vb \<Longrightarrow> patchable va vb"
proof -
  have no: "region_get no_region q = None" for q by (simp add: no_region_def region_get_def omap_simps)
  have a: "ca \<in> set (region_chunks ra) \<and> rc_pos ca = q" if "region_get ra q = Some ca" for ca
    using that assms(2) region_parse_chunks(3) by (auto simp: parse_at_def res_simps no)
  have b: "cb \<in> set (region_chunks rb) \<and> rc_pos cb = q" if "region_get rb q = Some cb" for cb
    using that assms(3) region_parse_chunks(3) by (auto simp: parse_at_def res_simps)
  show "\<exists>va. decode D ca = Inr va \<and> tree_at D ra q = Some va \<and> nbt_wf va \<and> nan_free va" if "region_get ra q = Some ca"
    using a [OF that] assms(1) that decode_shape by (fastforce simp: portable_region_def tree_at_Some)
  show "\<exists>vb. decode D cb = Inr vb \<and> tree_at D rb q = Some vb \<and> nbt_wf vb \<and> nan_free vb \<and> homogeneous vb \<and>
       (\<exists>m. vb = Compound m) \<and> region_of q = (rx, rz) \<and> (\<forall>r. upto_order r vb \<and> nbt_wf r \<longrightarrow> writable D r \<and> inline_tree D r)"
    if "region_get rb q = Some cb"
  proof -
    from b [OF that] assms(1) obtain vb where vb: "decode D cb = Inr vb" "region_of (rc_pos cb) = (rx, rz)" "nan_free vb"
      "\<forall>r. upto_order r vb \<and> nbt_wf r \<longrightarrow> writable D r \<and> inline_tree D r" by (auto simp: portable_region_def)
    with b [OF that] that decode_shape [OF vb(1)] show ?thesis by (auto simp: tree_at_Some)
  qed
  show "patchable va vb" if "tree_at D ra q = Some va" "tree_at D rb q = Some vb"
  proof -
    from that obtain ca cb where c: "region_get ra q = Some ca" "decode D ca = Inr va" "region_get rb q = Some cb" "decode D cb = Inr vb"
      by (auto simp: tree_at_Some)
    with a [OF c(1)] b [OF c(3)] assms(1) show ?thesis by (fastforce simp: portable_region_def)
  qed
qed

text \<open>What one chunk of a modified region contributes to the patch, and what it leaves.\<close>

lemma patch_chunk_leaves:
  assumes T: "tools_ok T" and P: "portable_region (pt_diff T) ra rb rx rz" "parse_at wa p a = Inr ra" "parse_at wb p b = Inr rb"
    and run: "patch_chunk T ra rb q = Inr cs"
  shows "\<exists>t. rel_option upto_order t (tree_at (pt_diff T) rb q) \<and> pred_option nbt_wf t \<and>
    (cs = [] \<and> t = tree_at (pt_diff T) ra q \<or> (\<exists>cp. cs = [cp] \<and> leaves (dt_float (pt_diff T)) (tree_at (pt_diff T) ra q) cp q t))"
proof -
  let ?D = "pt_diff T" and ?ft = "dt_float (pt_diff T)"
  have ft: "float_text_ok ?ft" using T by (simp add: tools_ok_def)
  note sides = portable_sides [OF P(1) disjI1 [OF P(2)] P(3)]
  show ?thesis
  proof (cases "region_get ra q"; cases "region_get rb q")
    assume "region_get ra q = None" "region_get rb q = None"
    then show ?thesis using run by (auto simp: patch_chunk_def tree_at_def)
  next
    fix cb assume get: "region_get ra q = None" "region_get rb q = Some cb"
    from sides(2) [OF get(2)] obtain vb where vb: "decode ?D cb = Inr vb" "tree_at ?D rb q = Some vb" "nbt_wf vb" "nan_free vb" by blast
    have cs: "cs = [chunk_entry q SAdded [whole_add ?ft vb]]" using run get vb(1) by (simp add: patch_chunk_def Let_def)
    have "leaves ?ft (tree_at ?D ra q) (chunk_entry q SAdded [whole_add ?ft vb]) q (Some (key_norm True vb))"
      using apply_whole_add [OF ft vb(3,4)] get
      by (auto simp: leaves_def chunk_entry_def tree_at_def report_applied_def intro!: exI [of _ "report_applied _"])
    then show ?thesis using cs vb key_norm_upto key_norm_wf by (intro exI [of _ "Some (key_norm True vb)"]) simp
  next
    fix ca assume get: "region_get ra q = Some ca" "region_get rb q = None"
    from sides(1) [OF get(1)] obtain va where va: "decode ?D ca = Inr va" "tree_at ?D ra q = Some va" "nbt_wf va" "nan_free va" by blast
    have cs: "cs = [chunk_entry q SRemoved [whole_remove ?ft va]]" using run get va(1) by (simp add: patch_chunk_def Let_def)
    have "leaves ?ft (tree_at ?D ra q) (chunk_entry q SRemoved [whole_remove ?ft va]) q None"
      using apply_whole_remove [OF ft va(3,4)] va(2)
      by (auto simp: leaves_def chunk_entry_def report_applied_def intro!: exI [of _ "report_applied _"])
    then show ?thesis using cs get by (intro exI [of _ None]) (simp add: tree_at_def)
  next
    fix ca cb assume get: "region_get ra q = Some ca" "region_get rb q = Some cb"
    from sides(1) [OF get(1)] obtain va where va: "decode ?D ca = Inr va" "tree_at ?D ra q = Some va" "nbt_wf va" "nan_free va" by blast
    from sides(2) [OF get(2)] obtain vb where vb: "decode ?D cb = Inr vb" "tree_at ?D rb q = Some vb" "nbt_wf vb" "nan_free vb" by blast
    show ?thesis
    proof (cases "payload_equals ca cb")
      case True
      then have "va = vb" using va(1) vb(1) by (simp add: decode_def decode_chunk_def payload_equals_def)
      with True get run va vb upto_order_refl show ?thesis by (auto simp: patch_chunk_def)
    next
      case False
      then have cs: "cs = (if node_ops ?ft va vb = [] then [] else [chunk_entry q SModified (node_ops ?ft va vb)])"
        using run get va(1) vb(1) by (simp add: patch_chunk_def Let_def)
      show ?thesis
      proof (cases "node_ops ?ft va vb = []")
        case True
        then have "upto_order va vb" using no_ops_same va(3) vb(3) by blast
        with True cs va vb show ?thesis by auto
      next
        case ops: False
        obtain r where r: "upto_order r vb" "nbt_wf r"
          "\<And>ctx rep. apply_ops ?ft ctx False False (node_ops ?ft va vb) (Some va, rep) =
             Inr (Some r, rep\<lparr>rep_applied := rep_applied rep + length (node_ops ?ft va vb)\<rparr>)"
          using node_ops_carry [OF ft va(3) vb(3) va(4) vb(4) sides(3) [OF va(2) vb(2)]] by blast
        have "leaves ?ft (tree_at ?D ra q) (chunk_entry q SModified (node_ops ?ft va vb)) q (Some r)"
          using r(3) va(2) by (auto simp: leaves_def chunk_entry_def
            intro!: exI [of _ "_\<lparr>rep_applied := _\<rparr>"])
        with r(1,2) cs ops vb(2) show ?thesis by (intro exI [of _ "Some r"]) simp
      qed
    qed
  qed
qed

text \<open>All chunks of a region that changed or is new.\<close>

definition carries_region :: "patch_tools \<Rightarrow> region_file \<Rightarrow> region_file \<Rightarrow> chunk_patch list \<Rightarrow> bool" where
  "carries_region T ra rb cps \<longleftrightarrow> (\<exists>qs g. list_all2 (\<lambda>cp q. leaves (dt_float (pt_diff T)) (tree_at (pt_diff T) ra q) cp q (g q)) cps qs \<and>
     distinct qs \<and> (\<forall>q. rel_option upto_order (if q \<in> set qs then g q else tree_at (pt_diff T) ra q) (tree_at (pt_diff T) rb q) \<and>
       pred_option nbt_wf (if q \<in> set qs then g q else tree_at (pt_diff T) ra q)))"

lemma tree_at_wf: "pred_option nbt_wf (tree_at D rf q)"
  by (auto simp: tree_at_def decode_shape split: option.splits sum.splits)

lemma region_patches_carry:
  assumes T: "tools_ok T" and P: "portable_region (pt_diff T) ra rb rx rz" "parse_at wa p a = Inr ra" "parse_at wb p b = Inr rb"
    and run: "region_patches T wa wb p a b = Inr cps"
  shows "carries_region T ra rb cps"
proof -
  let ?D = "pt_diff T" and ?L = "\<lambda>q cp t. leaves (dt_float (pt_diff T)) (tree_at (pt_diff T) ra q) cp q t"
  from run P(2,3) obtain css where css: "collect_res (map (patch_chunk T ra rb) (positions ra rb)) = Inr css" "cps = concat css"
    by (auto simp: region_patches_def res_simps)
  define ok where "ok q t \<longleftrightarrow> rel_option upto_order t (tree_at ?D rb q) \<and> pred_option nbt_wf t \<and>
    (\<forall>cs. patch_chunk T ra rb q = Inr cs \<longrightarrow> cs = [] \<and> t = tree_at ?D ra q \<or> (\<exists>cp. cs = [cp] \<and> ?L q cp t))" for q t
  have all: "list_all2 (\<lambda>q cs. patch_chunk T ra rb q = Inr cs) (positions ra rb) css" using css(1) by (rule collect_all2)
  have "\<exists>t. ok q t" for q
  proof (cases "q \<in> set (positions ra rb)")
    case True
    from all2_left [OF all this] obtain cs where "patch_chunk T ra rb q = Inr cs" by blast
    with patch_chunk_leaves [OF T P this] show ?thesis by (auto simp: ok_def)
  next
    case False
    then have "region_get ra q = None" "region_get rb q = None" using positions_set [OF P(2,3)] by auto
    then show ?thesis by (intro exI [of _ None]) (auto simp: ok_def tree_at_def patch_chunk_def)
  qed
  then obtain g where g: "\<And>q. ok q (g q)" by metis
  let ?qs = "\<lambda>ps. filter (\<lambda>q. patch_chunk T ra rb q \<noteq> Inr []) ps"
  have "list_all2 (\<lambda>cp q. ?L q cp (g q)) (concat css) (?qs ps)"
    if "list_all2 (\<lambda>q cs. patch_chunk T ra rb q = Inr cs) ps css" for ps css
    using that
  proof (induction rule: list_all2_induct)
    case (Cons q ps cs css)
    with g [of q] show ?case by (auto simp: ok_def)
  qed simp
  from this [OF all] have L: "list_all2 (\<lambda>cp q. ?L q cp (g q)) cps (?qs (positions ra rb))" by (simp add: css(2))
  moreover have "distinct (?qs (positions ra rb))" by (simp add: positions_def)
  moreover have "rel_option upto_order (if q \<in> set (?qs (positions ra rb)) then g q else tree_at ?D ra q) (tree_at ?D rb q) \<and>
      pred_option nbt_wf (if q \<in> set (?qs (positions ra rb)) then g q else tree_at ?D ra q)" for q
  proof (cases "q \<in> set (positions ra rb)")
    case True
    from all2_left [OF all this] obtain cs where "patch_chunk T ra rb q = Inr cs" by blast
    with True g [of q] show ?thesis by (auto simp: ok_def)
  next
    case False
    then have "region_get ra q = None" "region_get rb q = None" using positions_set [OF P(2,3)] by auto
    then show ?thesis using False by (auto simp: tree_at_def)
  qed
  ultimately show ?thesis unfolding carries_region_def by blast
qed

lemma whole_chunks_carry:
  assumes T: "tools_ok T" and P: "portable_region (pt_diff T) no_region rb rx rz" "parse_at wb p b = Inr rb"
    and run: "whole_chunks T SAdded whole_add wb p b = Inr cps"
  shows "carries_region T no_region rb cps"
proof -
  let ?D = "pt_diff T" and ?ft = "dt_float (pt_diff T)"
  have ft: "float_text_ok ?ft" using T by (simp add: tools_ok_def)
  have rp: "region_parse (directory_of wb (butlast p)) (last p) b = Inr rb" using P(2) by (simp add: parse_at_def res_simps)
  note sides = portable_sides(2) [OF P(1) disjI2 [OF refl] P(2)]
  define g where "g q = map_option (key_norm True) (tree_at ?D rb q)" for q
  have all: "list_all2 (\<lambda>c cp. rbind (of_diff (decode ?D c)) (\<lambda>v. Inr (chunk_entry (rc_pos c) SAdded [whole_add ?ft v])) = Inr cp)
      (region_chunks rb) cps"
    using run P(2) by (intro collect_all2) (auto simp: whole_chunks_def res_simps)
  have none: "tree_at ?D no_region q = None" for q by (simp add: tree_at_def no_region_def region_get_def omap_simps)
  have "leaves ?ft (tree_at ?D no_region (rc_pos c)) cp (rc_pos c) (g (rc_pos c))"
    if "c \<in> set (region_chunks rb)" "rbind (of_diff (decode ?D c)) (\<lambda>v. Inr (chunk_entry (rc_pos c) SAdded [whole_add ?ft v])) = Inr cp" for c cp
  proof -
    have "region_get rb (rc_pos c) = Some c" using region_parse_chunks(3) [OF rp] that(1) by blast
    from sides [OF this] obtain v where v: "decode ?D c = Inr v" "tree_at ?D rb (rc_pos c) = Some v" "nbt_wf v" "nan_free v" by blast
    then show ?thesis
      using that(2) apply_whole_add [OF ft v(3,4)]
      by (auto simp: none g_def leaves_def chunk_entry_def report_applied_def intro!: exI [of _ "report_applied _"])
  qed
  then have "list_all2 (\<lambda>cp q. leaves ?ft (tree_at ?D no_region q) cp q (g q)) cps (map rc_pos (region_chunks rb))"
    using all by (auto simp: list_all2_conv_all_nth)
  moreover have "distinct (map rc_pos (region_chunks rb))" by (rule region_parse_distinct [OF rp])
  moreover have "rel_option upto_order (if q \<in> set (map rc_pos (region_chunks rb)) then g q else tree_at ?D no_region q) (tree_at ?D rb q) \<and>
      pred_option nbt_wf (if q \<in> set (map rc_pos (region_chunks rb)) then g q else tree_at ?D no_region q)" for q
  proof (cases "region_get rb q")
    case None
    then have "q \<notin> set (map rc_pos (region_chunks rb))" using region_parse_chunks(1) [OF rp] by auto
    moreover have "tree_at ?D rb q = None" using None by (simp add: tree_at_def)
    ultimately show ?thesis by (simp add: none)
  next
    case (Some c)
    then have "q \<in> set (map rc_pos (region_chunks rb))" using region_parse_chunks(3) [OF rp] by force
    moreover obtain v where "tree_at ?D rb q = Some v" "nbt_wf v" "nan_free v" using sides [OF Some] by blast
    ultimately show ?thesis by (auto simp: g_def key_norm_upto key_norm_wf)
  qed
  ultimately show ?thesis unfolding carries_region_def by blast
qed

section \<open>Writing a region back\<close>

lemma inline_small:
  assumes "inline_tree D v" "encode_chunk (dt_compress D) (dt_codec D) v ZLib = Inr (rc_payload ch)" "region_of (rc_pos ch) = (rx, rz)"
  shows "keepable rx rz ch" "\<not> spills ch"
proof -
  have size: "rc_payload ch \<noteq> []" "(5 + length (rc_payload ch) + (SECTOR - 1)) div SECTOR \<le> MAX_INLINE_SECTORS"
    using assms(1,2) by (auto simp: inline_tree_def)
  then show "\<not> spills ch" by (simp add: spills_def sectors_needed_def)
  let ?n = "5 + length (rc_payload ch) + (SECTOR - 1)"
  have "?n = ?n div 4096 * 4096 + ?n mod 4096" "?n mod 4096 < 4096" by simp_all
  moreover have "?n div 4096 * 4096 \<le> 255 * 4096" using size(2) by (intro mult_le_mono1) (simp add: SECTOR_def MAX_INLINE_SECTORS_def)
  ultimately have "?n < 256 * 4096" by linarith
  then show "keepable rx rz ch" using size(1) assms(3) by (simp add: keepable_def MAX_EXTERNAL_CHUNK_def)
qed

text \<open>Trees that agree with those of the new region are encoded to chunks which decode to them.\<close>

lemma raws_of_chunks:
  assumes C: "compressors_ok (dt_compress D)" and P: "portable_region D ra rb rx rz" "parse_at wa p a = Inr ra \<or> ra = no_region" "parse_at wb p b = Inr rb"
    and m: "holds m h" "\<And>q. rel_option upto_order (h q) (tree_at D rb q)" "\<And>q. pred_option nbt_wf (h q)"
  shows "\<exists>raws. collect_res (map (raw_of D) m) = Inr raws \<and> distinct (map rc_pos raws) \<and>
    (\<forall>ch \<in> set raws. keepable rx rz ch \<and> \<not> spills ch \<and> \<not> rc_external ch \<and> (\<exists>v. h (rc_pos ch) = Some v \<and> decode D ch = Inr v)) \<and>
    (\<forall>q. h q \<noteq> None \<longrightarrow> (\<exists>ch \<in> set raws. rc_pos ch = q))"
proof -
  note sides = portable_sides(2) [OF P]
  have one: "\<exists>ch. raw_of D x = Inr ch \<and> pos_key (rc_pos ch) = fst x \<and> keepable rx rz ch \<and> \<not> spills ch \<and> \<not> rc_external ch \<and>
      h (rc_pos ch) = Some (snd x) \<and> decode D ch = Inr (snd x)" if x: "x \<in> set m" for x
  proof -
    obtain k r where kr: "x = (k, r)" by (cases x)
    from m(1) x kr obtain q where q: "k = pos_key q" by (force simp: holds_def)
    have h: "h q = Some r" using m(1) x bm_get_Some_iff [of m k r] by (simp add: holds_def kr q)
    obtain vb where vb: "tree_at D rb q = Some vb" "upto_order r vb" using m(2) [of q] h by (auto simp: option_rel_Some1)
    have r: "nbt_wf r" using m(3) [of q] h by simp
    from vb(1) obtain cb where "region_get rb q = Some cb" by (auto simp: tree_at_Some)
    from sides [OF this] vb(1) have v: "homogeneous vb" "\<exists>m. vb = Compound m" "region_of q = (rx, rz)" "writable D r" "inline_tree D r"
      using vb(2) r by auto
    have "homogeneous r" "\<exists>m. r = Compound m"
      using upto_order_homogeneous [OF vb(2) v(1) r] upto_order_compound vb(2) v(2) by auto
    from encode_decode [OF C v(4) r this] obtain z where z: "encode_chunk (dt_compress D) (dt_codec D) r ZLib = Inr z"
      "\<And>ch. rc_compression ch = ZLib \<Longrightarrow> rc_payload ch = z \<Longrightarrow> decode D ch = Inr r" by blast
    let ?ch = "\<lparr>rc_pos = q, rc_compression = ZLib, rc_payload = z, rc_external = False, rc_timestamp = 0\<rparr>"
    have "raw_of D x = Inr ?ch"
      using z(1) pos_key_back [of q] by (cases "pos_key q") (simp add: raw_of_def kr q)
    moreover have "keepable rx rz ?ch" "\<not> spills ?ch" using inline_small [OF v(5), of ?ch] z(1) v(3) by simp_all
    ultimately show ?thesis using z(2) [of ?ch] h by (intro exI [of _ ?ch]) (simp add: kr q)
  qed
  then obtain c where c: "\<And>x. x \<in> set m \<Longrightarrow> raw_of D x = Inr (c x) \<and> pos_key (rc_pos (c x)) = fst x \<and> keepable rx rz (c x) \<and>
      \<not> spills (c x) \<and> \<not> rc_external (c x) \<and> h (rc_pos (c x)) = Some (snd x) \<and> decode D (c x) = Inr (snd x)" by metis
  have "collect_res (map (raw_of D) xs) = Inr (map c xs)" if "set xs \<subseteq> set m" for xs
    using that c by (induction xs) auto
  then have "collect_res (map (raw_of D) m) = Inr (map c m)" by simp
  moreover have "distinct (map rc_pos (map c m))"
  proof -
    have eq: "map pos_key (map rc_pos (map c m)) = map fst m" using c by simp
    have "distinct (map fst m)" using m(1) by (simp add: holds_def bm_wf_distinct)
    then have "distinct (map pos_key (map rc_pos (map c m)))" unfolding eq .
    then show ?thesis by (rule distinct_map [THEN iffD1, THEN conjunct1])
  qed
  moreover have "\<exists>ch \<in> set (map c m). rc_pos ch = q" if "h q \<noteq> None" for q
  proof -
    from that m(1) have "bm_get m (pos_key q) \<noteq> None" by (simp add: holds_def)
    then obtain v where v: "(pos_key q, v) \<in> set m" by (auto dest: bm_get_SomeD)
    with c [OF v] show ?thesis by (intro bexI [of _ "c (pos_key q, v)"]) auto
  qed
  ultimately show ?thesis using c by (intro exI [of _ "map c m"]) auto
qed

text \<open>The file that is written from them is the same region, whatever lies beside it.\<close>

lemma written_region_same:
  assumes name: "parse_region_coords (last p) = Inr (rx, rz)"
    and raws: "distinct (map rc_pos raws)" "\<forall>ch \<in> set raws. keepable rx rz ch \<and> \<not> spills ch \<and> \<not> rc_external ch \<and> (\<exists>v. h (rc_pos ch) = Some v \<and> decode D ch = Inr v)"
      "\<forall>q. h q \<noteq> None \<longrightarrow> (\<exists>ch \<in> set raws. rc_pos ch = q)"
    and m: "\<And>q. rel_option upto_order (h q) (tree_at D rb q)" "\<And>q cb. region_get rb q = Some cb \<Longrightarrow> \<exists>vb. decode D cb = Inr vb"
    and w: "region_write (last p) raws dir (last p) = Some (Regular z)"
  shows "\<exists>rf. (\<forall>v. parse_at v p z = Inr rf) \<and> same_region D rf rb"
proof -
  have keep: "ch \<in> set raws \<Longrightarrow> keepable rx rz ch" for ch using raws(2) by blast
  obtain rf where get: "\<And>q c. region_get rf q = Some c \<longleftrightarrow> (\<exists>ch \<in> set raws. rc_pos ch = q \<and> c = stored ch)"
    and parse: "\<And>d. \<forall>ch \<in> set raws. spills ch \<longrightarrow> d (mcc_name (rc_pos ch)) = region_write (last p) raws dir (mcc_name (rc_pos ch)) \<Longrightarrow>
      region_parse d (last p) z = Inr rf"
    using region_write_parse [OF name keep raws(1) w] by auto
  have "region_parse d (last p) z = Inr rf" for d by (rule parse) (use raws(2) in simp)
  note rf = get this
  have stored: "stored ch = ch" if "ch \<in> set raws" for ch
    using raws(2) that by (cases ch) (auto simp: stored_def)
  have "rel_option (same_chunk D) (region_get rf q) (region_get rb q)" for q
  proof (cases "h q")
    case None
    have "region_get rf q \<noteq> Some c" for c
    proof
      assume "region_get rf q = Some c"
      then obtain ch where "ch \<in> set raws" "rc_pos ch = q" using rf(1) by blast
      with raws(2) None show False by auto
    qed
    then have "region_get rf q = None" by (cases "region_get rf q") auto
    moreover have "region_get rb q = None"
      using m(1) [of q] m(2) [of q] None by (cases "region_get rb q") (auto simp: tree_at_def)
    ultimately show ?thesis by simp
  next
    case (Some v)
    then obtain ch where ch: "ch \<in> set raws" "rc_pos ch = q" using raws(3) by blast
    then have "decode D ch = Inr v" using raws(2) Some by auto
    moreover have "region_get rf q = Some ch" using rf(1) ch stored by auto
    moreover obtain vb where vb: "tree_at D rb q = Some vb" "upto_order v vb" using m(1) [of q] Some by (auto simp: option_rel_Some1)
    moreover from vb(1) obtain cb where "region_get rb q = Some cb" "decode D cb = Inr vb" by (auto simp: tree_at_Some)
    ultimately show ?thesis by (auto simp: same_chunk_def)
  qed
  then have "same_region D rf rb" by (simp add: same_region_def)
  then show ?thesis using rf(2) by (auto simp: parse_at_def)
qed

section \<open>One entry of a patch\<close>

text \<open>Applying the entry of a path changes no other file, and leaves the path as it is in the new world.\<close>

definition settles :: "diff_tools \<Rightarrow> fs \<Rightarrow> string \<Rightarrow> fs \<Rightarrow> fs \<Rightarrow> bool" where
  "settles D wb rel w w' \<longleftrightarrow> (\<forall>q. q \<noteq> components rel \<longrightarrow> contents w' q = contents w q) \<and>
     (\<forall>q. is_dir w' q \<longrightarrow> is_dir w q \<or> contents wb (components rel) \<noteq> None \<and> under q (butlast (components rel))) \<and>
     (\<forall>v. contents v (components rel) = contents w' (components rel) \<longrightarrow> same_file D v wb rel)"

lemma entry_way_free_put:
  assumes "way_free w p"
  obtains w1 where "create_dir_all (butlast p) w = Inr w1" "\<And>c. \<exists>w2. fs_write p c w1 = Inr w2"
proof -
  from fs_put_ok [OF assms, of "[]"] obtain w1 where "create_dir_all (butlast p) w = Inr w1" "is_dir w1 (butlast p)" "\<not> is_dir w1 p"
    by (auto simp: fs_put_def res_simps fs_write_iff)
  with that show thesis by (simp add: fs_write_iff)
qed

lemma writes_settles:
  assumes "writes (components rel) c w w'" "contents wb (components rel) \<noteq> None"
    "\<And>v. contents v (components rel) = Some c \<Longrightarrow> same_file D v wb rel"
  shows "settles D wb rel w w'"
  using assms by (auto simp: settles_def writes_def)

lemma remove_settles:
  assumes "contents wb (components rel) = None"
  shows "settles D wb rel w (remove_file (components rel) w)"
proof -
  have "is_dir w q" if "is_dir (remove_file p w) q" for p q
    using that by (auto simp: remove_file_def is_dir_def fs_lookup_def omap_simps split: if_splits)
  then show ?thesis using assms by (auto simp: settles_def contents_remove_file same_file_def Let_def)
qed

lemma apply_region_settles:
  assumes T: "tools_ok T" and carry: "carries_region T ra rb cps" and e: "fe_chunks e = Some cps"
    and P: "portable_region (pt_diff T) ra rb rx rz" "parse_region_coords (last (components rel)) = Inr (rx, rz)"
      "parse_at wb (components rel) (octets b) = Inr rb" "contents wb (components rel) = Some b"
      "case contents w (components rel) of None \<Rightarrow> ra = no_region | Some a \<Rightarrow> (\<forall>v. parse_at v (components rel) (octets a) = Inr ra)"
    and rel: "is_region rel" and free: "way_free w (components rel)"
  shows "\<exists>w' rep'. apply_region (pt_diff T) e (components rel) False False (w, rep) = Inr (w', rep') \<and>
    rep_conflicts rep' = rep_conflicts rep \<and> settles (pt_diff T) wb rel w w'"
proof -
  let ?D = "pt_diff T" and ?p = "components rel"
  have C: "compressors_ok (dt_compress ?D)" using T by (simp add: tools_ok_def)
  have ra: "parse_at w ?p (octets (the (contents w ?p))) = Inr ra \<or> ra = no_region"
    using P(5) by (auto split: option.splits)
  note sides = portable_sides [OF P(1) ra P(3)]
  have "\<exists>m. load_chunks ?D w ?p = Inr m \<and> holds m (tree_at ?D ra)"
  proof (cases "contents w ?p")
    case None
    then have "ra = no_region" using P(5) by simp
    moreover have "tree_at ?D no_region = (\<lambda>_. None)" by (auto simp: tree_at_def no_region_def region_get_def omap_simps)
    ultimately show ?thesis using None by (simp add: load_chunks_def is_file_iff holds_def omap_simps)
  next
    case (Some a)
    have "\<forall>ch \<in> set (region_chunks ra). \<exists>v. decode ?D ch = Inr v" using P(1) by (auto simp: portable_region_def)
    then show ?thesis using load_region [OF Some] P(5) Some by simp
  qed
  then obtain m where m: "load_chunks ?D w ?p = Inr m" "holds m (tree_at ?D ra)" by blast
  from carry obtain qs g where g: "list_all2 (\<lambda>cp q. leaves (dt_float ?D) (tree_at ?D ra q) cp q (g q)) cps qs" "distinct qs"
    "\<And>q. rel_option upto_order (if q \<in> set qs then g q else tree_at ?D ra q) (tree_at ?D rb q)"
    "\<And>q. pred_option nbt_wf (if q \<in> set qs then g q else tree_at ?D ra q)" by (auto simp: carries_region_def)
  let ?h = "\<lambda>q. if q \<in> set qs then g q else tree_at ?D ra q"
  from apply_chunks_holds [OF g(1,2) m(2)] obtain m' rep' where m': "each (apply_chunk (dt_float ?D) (fe_path e) False False) cps (m, rep) = Inr (m', rep')"
    "rep_conflicts rep' = rep_conflicts rep" "holds m' ?h" by blast
  from raws_of_chunks [OF C P(1) ra P(3) m'(3) g(3,4)] obtain raws where raws: "collect_res (map (raw_of ?D) m') = Inr raws"
    "distinct (map rc_pos raws)" "\<forall>ch \<in> set raws. keepable rx rz ch \<and> \<not> spills ch \<and> \<not> rc_external ch \<and> (\<exists>v. ?h (rc_pos ch) = Some v \<and> decode ?D ch = Inr v)"
    "\<forall>q. ?h q \<noteq> None \<longrightarrow> (\<exists>ch \<in> set raws. rc_pos ch = q)" by auto
  from entry_way_free_put [OF free] obtain w1 where w1: "create_dir_all (butlast ?p) w = Inr w1" "\<And>c. \<exists>w2. fs_write ?p c w1 = Inr w2" by metis
  have p: "?p \<noteq> []" using free by (simp add: way_free_def)
  have "filter (\<lambda>ch. sectors_needed ch > MAX_INLINE_SECTORS) raws = []"
    using raws(3) by (simp add: filter_empty_conv spills_def)
  moreover obtain zz where "region_write (last ?p) raws (directory_of w1 (butlast ?p)) (last ?p) = Some (Regular zz)"
    by (simp add: region_write_def Let_def)
  ultimately have "\<exists>w2. write_region ?p raws w1 = Inr w2"
    using w1(2) [of "chars zz"] p by (auto simp: write_region_def Let_def)
  then obtain w2 where w2: "write_region ?p raws w1 = Inr w2" by blast
  from write_region_writes [OF w1(1) w2 _ p] raws(3) obtain z dir where z:
    "region_write (last ?p) raws dir (last ?p) = Some (Regular z)" "writes ?p (chars z) w w2" by blast
  from written_region_same [OF P(2) raws(2,3,4) g(3) _ z(1)] sides(2) obtain rf where rf: "\<And>v. parse_at v ?p z = Inr rf" "same_region ?D rf rb" by blast
  have "settles ?D wb rel w w2"
  proof (rule writes_settles [OF z(2)])
    fix v assume "contents v ?p = Some (chars z)"
    then show "same_file ?D v wb rel" using rf P(3,4) rel by (auto simp: same_file_def Let_def)
  qed (simp add: P(4))
  moreover have "apply_region ?D e ?p False False (w, rep) = Inr (w2, rep')"
    by (simp add: apply_region_def m(1) e m'(1) w1(1) raws(1) w2)
  ultimately show ?thesis using m'(2) by blast
qed

lemma apply_nbt_settles:
  assumes T: "tools_ok T" and slot: "load_nbt_file (pt_diff T) w (components rel) = x"
    and ops: "\<And>ctx. \<exists>rep'. rep_conflicts rep' = rep_conflicts rep \<and>
        apply_ops (dt_float (pt_diff T)) ctx False False (case fe_ops e of None \<Rightarrow> [] | Some ops \<Rightarrow> ops) (x, rep) = Inr (Some r, rep')"
    and r: "upto_order r vb" "nbt_wf r" "writable (pt_diff T) r"
    and b: "load_nbt_file (pt_diff T) wb (components rel) = Some vb"
    and rel: "\<not> is_region rel" "is_dat rel" and free: "way_free w (components rel)"
  shows "\<exists>w' rep'. apply_nbt (pt_diff T) e (components rel) False False (w, rep) = Inr (w', rep') \<and>
    rep_conflicts rep' = rep_conflicts rep \<and> settles (pt_diff T) wb rel w w'"
proof -
  let ?D = "pt_diff T" and ?p = "components rel"
  from b obtain cb where cb: "contents wb ?p = Some cb"
    by (auto simp: load_nbt_file_def read_octets_def contents_def split: sum.splits option.splits node.splits)
  from load_nbt_file_shape(2,3) [OF b] have "homogeneous r" "\<exists>m. r = Compound m"
    using upto_order_homogeneous [OF r(1) _ r(2)] upto_order_compound r(1) by auto
  from save_load [OF _ _ r(3,2) this] T obtain z where z: "save_nbt_bytes (dt_compress ?D) (dt_codec ?D) r GZip = Inr z"
    "load_nbt_bytes (dt_compress ?D) (dt_codec ?D) z = Inr r" by (auto simp: tools_ok_def)
  from entry_way_free_put [OF free] obtain w1 where w1: "create_dir_all (butlast ?p) w = Inr w1" "\<And>c. \<exists>w2. fs_write ?p c w1 = Inr w2" by metis
  then obtain w2 where w2: "fs_write ?p (chars z) w1 = Inr w2" by blast
  have "settles ?D wb rel w w2"
  proof (rule writes_settles [OF put_file_writes [OF w1(1) w2]])
    fix v assume "contents v ?p = Some (chars z)"
    moreover from this have "load_nbt_file ?D v ?p = Some r" by (simp add: load_nbt_file_def read_octets_iff [THEN iffD2] z(2))
    ultimately show "same_file ?D v wb rel" using r(1) b cb rel by (auto simp: same_file_def Let_def)
  qed (simp add: cb)
  moreover obtain rep' where "rep_conflicts rep' = rep_conflicts rep" "apply_nbt ?D e ?p False False (w, rep) = Inr (w2, rep')"
    using ops [of "fe_path e"] slot by (auto simp: apply_nbt_def w1(1) z(1) w2)
  ultimately show ?thesis by blast
qed

lemma apply_blob_settles:
  assumes T: "tools_ok T" and e: "e = entry_of_blob T rel st (map_option octets (contents w (components rel))) (map_option octets (contents wb (components rel)))"
    and free: "contents wb (components rel) \<noteq> None \<Longrightarrow> way_free w (components rel)"
  shows "\<exists>w' rep'. apply_blob T e (components rel) False False (w, rep) = Inr (w', rep') \<and>
    rep_conflicts rep' = rep_conflicts rep \<and> settles (pt_diff T) wb rel w w'"
proof -
  let ?p = "components rel"
  have un: "unb64 T (map_option (pt_b64 T) x) = Inr x" for x using T by (cases x) (simp_all add: unb64_def tools_ok_def)
  have co: "chars (octets s) = s" for s
  proof -
    have "octets (chars (octets s)) = octets s" by simp
    then show ?thesis by (simp only: octets_inject)
  qed
  show ?thesis
  proof (cases "contents wb ?p")
    case None
    have "apply_blob T e ?p False False (w, rep) = Inr (remove_file ?p w, report_applied rep)"
      by (simp add: apply_blob_def e entry_of_blob_def un None) (simp add: unb64_def)
    with remove_settles [OF None] show ?thesis by (auto simp: report_applied_def)
  next
    case (Some b)
    from entry_way_free_put [OF free] Some obtain w1 where w1: "create_dir_all (butlast ?p) w = Inr w1" "\<And>c. \<exists>w2. fs_write ?p c w1 = Inr w2"
      by (metis option.distinct(1))
    then obtain w2 where w2: "fs_write ?p b w1 = Inr w2" by blast
    have "apply_blob T e ?p False False (w, rep) = Inr (w2, report_applied rep)"
      using un [of "Some (octets b)"] by (simp add: apply_blob_def e entry_of_blob_def un Some w1(1) w2 co)
    moreover have "settles (pt_diff T) wb rel w w2"
      by (rule writes_settles [OF put_file_writes [OF w1(1) w2]]) (simp_all add: Some same_file_def Let_def)
    ultimately show ?thesis by (auto simp: report_applied_def)
  qed
qed

text \<open>The entry extracted for a path, applied where the path is still as in the old world.\<close>

lemma entry_settles:
  assumes T: "tools_ok T" and x: "extract_one T wa wb rel = Inr (Some e)" and P: "portable_file (pt_diff T) wa wb rel"
    and w: "contents w (components rel) = contents wa (components rel)"
    and free: "contents wb (components rel) \<noteq> None \<Longrightarrow> way_free w (components rel)"
  shows "\<exists>w' rep'. apply_entry T [] False False e (w, rep) = Inr (w', rep') \<and>
    rep_conflicts rep' = rep_conflicts rep \<and> settles (pt_diff T) wb rel w w'"
proof -
  let ?D = "pt_diff T" and ?p = "components rel" and ?ft = "dt_float (pt_diff T)"
  have ft: "float_text_ok ?ft" using T by (simp add: tools_ok_def)
  have path: "path_join [] rel = ?p" by (simp add: path_join_def)
  have load: "load_nbt_file ?D w ?p = load_nbt_file ?D wa ?p"
    using w by (auto simp: load_nbt_file_def read_octets_def contents_def split: option.splits node.splits)
  have blob: "\<exists>w' rep'. apply_entry T [] False False e (w, rep) = Inr (w', rep') \<and>
      rep_conflicts rep' = rep_conflicts rep \<and> settles ?D wb rel w w'"
    if "e = entry_of_blob T rel st (map_option octets (contents wa ?p)) (map_option octets (contents wb ?p))" for st
    using apply_blob_settles [OF T, of e rel st w wb rep] that w free path by (simp add: apply_entry_def entry_of_blob_def)
  show ?thesis
  proof (cases "contents wb ?p")
    case None
    then obtain a where a: "contents wa ?p = Some a" and r: "removed_entry T rel (classify_path rel) wa ?p = Inr e"
      using x by (cases "contents wa ?p") (auto simp: extract_one_def Let_def is_file_iff res_simps)
    have read: "read_octets wa ?p = Inr (octets a)" using a by (simp add: read_octets_iff)
    show ?thesis
    proof (cases "fe_kind e = BlobEntry")
      case True
      then have "e = entry_of_blob T rel SRemoved (Some (octets a)) None"
        using r by (auto simp: removed_entry_def read res_simps entry_of_region_def entry_of_nbt_def split: entry_kind.splits option.splits)
      then show ?thesis using blob [of SRemoved] a None by simp
    next
      case False
      moreover have "fe_status e = SRemoved" "fe_path e = rel" using whole_entry_shape(1) [OF r] by simp_all
      ultimately have "apply_entry T [] False False e (w, rep) = Inr (remove_file ?p w, rep)"
        by (cases "fe_kind e") (simp_all add: apply_entry_def path)
      with remove_settles [OF None] show ?thesis by blast
    qed
  next
    case b: (Some b)
    then have fr: "way_free w ?p" using free by simp
    have readb: "read_octets wb ?p = Inr (octets b)" using b by (simp add: read_octets_iff)
    have ne: "contents wa ?p \<noteq> Some b" using x b by (auto simp: extract_one_def Let_def is_file_iff read_octets_iff [THEN iffD2])
    consider (region) "is_region rel" | (nbt) "\<not> is_region rel" "is_dat rel" | (plain) "\<not> is_region rel" "\<not> is_dat rel" by blast
    then show ?thesis
    proof cases
      case region
      with P b ne obtain rx rz ra rb where R: "parse_region_coords (last ?p) = Inr (rx, rz)" "parse_at wb ?p (octets b) = Inr rb"
        "case contents wa ?p of None \<Rightarrow> ra = no_region | Some a \<Rightarrow> (\<forall>w. parse_at w ?p (octets a) = Inr ra)"
        "portable_region ?D ra rb rx rz" by (auto simp: portable_file_def Let_def)
      have k: "classify_path rel = RegionEntry" using region by (simp add: classify_path_def)
      obtain st cps where e: "e = entry_of_region rel st cps" "st \<noteq> SRemoved" "carries_region T ra rb cps"
      proof (cases "contents wa ?p")
        case None
        then have "added_entry T rel RegionEntry wb ?p = Inr e" using x b k by (simp add: extract_one_def Let_def is_file_iff res_simps)
        then obtain cps where c: "whole_chunks T SAdded whole_add wb ?p (octets b) = Inr cps" "e = entry_of_region rel SAdded cps"
          by (auto simp: added_entry_def readb res_simps)
        have "ra = no_region" using R(3) None by simp
        with whole_chunks_carry [OF T _ R(2) c(1)] R(4) c(2) that show thesis by blast
      next
        case (Some a)
        then have "read_octets wa ?p = Inr (octets a)" "a \<noteq> b" using ne by (simp_all add: read_octets_iff)
        with x b k Some readb obtain cps where c: "region_patches T wa wb ?p (octets a) (octets b) = Inr cps" "e = entry_of_region rel SModified cps"
          by (auto simp: extract_one_def Let_def is_file_iff modified_entry_def res_simps split: if_splits)
        from region_patches_carry [OF T R(4) _ R(2) c(1)] R(3) Some c(2) that show thesis by simp
      qed
      from R(3) w have "case contents w ?p of None \<Rightarrow> ra = no_region | Some a \<Rightarrow> (\<forall>v. parse_at v ?p (octets a) = Inr ra)" by simp
      from apply_region_settles [OF T e(3) _ R(4,1,2) b this region fr, of e rep] e(1,2) path show ?thesis
        by (simp add: apply_entry_def entry_of_region_def)
    next
      case nbt
      have k: "classify_path rel = NbtEntry" using nbt by (simp add: classify_path_def)
      show ?thesis
      proof (cases "load_nbt_file ?D wb ?p")
        case None
        have "e = entry_of_blob T rel (if contents wa ?p = None then SAdded else SModified) (map_option octets (contents wa ?p)) (Some (octets b))"
          using x b k ne None readb
          by (cases "contents wa ?p") (auto simp: extract_one_def Let_def is_file_iff res_simps added_entry_def modified_entry_def
              read_octets_iff [THEN iffD2] split: option.splits if_splits)
        with blob b show ?thesis by simp
      next
        case vb: (Some vb)
        note B = load_nbt_file_shape [OF vb]
        have pb: "nan_free vb" "\<And>r. upto_order r vb \<Longrightarrow> nbt_wf r \<Longrightarrow> writable ?D r"
          "\<And>va. load_nbt_file ?D wa ?p = Some va \<Longrightarrow> nan_free va \<and> patchable va vb"
          using P b ne nbt vb by (auto simp: portable_file_def Let_def)
        consider (added) "contents wa ?p = None" "e = entry_of_nbt rel SAdded [whole_add ?ft vb]"
          | (modified) va where "load_nbt_file ?D wa ?p = Some va" "e = entry_of_nbt rel SModified (node_ops ?ft va vb)"
          | (raw) st where "e = entry_of_blob T rel st (map_option octets (contents wa ?p)) (Some (octets b))"
          using x b k ne vb readb
          by (cases "contents wa ?p") (auto simp: extract_one_def Let_def is_file_iff res_simps added_entry_def modified_entry_def
              read_octets_iff [THEN iffD2] split: option.splits if_splits)
        then show ?thesis
        proof cases
          case added
          have "load_nbt_file ?D w ?p = None" unfolding load using added(1) by (auto simp: load_nbt_file_def read_octets_def contents_def split: option.splits node.splits)
          moreover have "\<exists>rep'. rep_conflicts rep' = rep_conflicts rep \<and>
            apply_ops ?ft ctx False False (case fe_ops e of None \<Rightarrow> [] | Some ops \<Rightarrow> ops) (None, rep) = Inr (Some (key_norm True vb), rep')" for ctx
            using apply_whole_add [OF ft B(1) pb(1)] by (simp add: added(2) entry_of_nbt_def report_applied_def)
          ultimately have "\<exists>w' rep'. apply_nbt ?D e ?p False False (w, rep) = Inr (w', rep') \<and>
              rep_conflicts rep' = rep_conflicts rep \<and> settles ?D wb rel w w'"
            using key_norm_upto [OF B(1) pb(1)] key_norm_wf [OF B(1), of True] pb(2) vb nbt fr
            by (intro apply_nbt_settles [OF T]) auto
          then show ?thesis using path by (simp add: apply_entry_def added(2) entry_of_nbt_def)
        next
          case modified
          note A = load_nbt_file_shape [OF modified(1)] and pa = pb(3) [OF modified(1)]
          obtain r where r: "upto_order r vb" "nbt_wf r"
            "\<And>ctx rep. apply_ops ?ft ctx False False (node_ops ?ft va vb) (Some va, rep) =
               Inr (Some r, rep\<lparr>rep_applied := rep_applied rep + length (node_ops ?ft va vb)\<rparr>)"
            using node_ops_carry [OF ft A(1) B(1) _ pb(1)] pa by blast
          have "\<exists>rep'. rep_conflicts rep' = rep_conflicts rep \<and>
            apply_ops ?ft ctx False False (case fe_ops e of None \<Rightarrow> [] | Some ops \<Rightarrow> ops) (Some va, rep) = Inr (Some r, rep')" for ctx
            using r(3) by (simp add: modified(2) entry_of_nbt_def)
          then have "\<exists>w' rep'. apply_nbt ?D e ?p False False (w, rep) = Inr (w', rep') \<and>
              rep_conflicts rep' = rep_conflicts rep \<and> settles ?D wb rel w w'"
            using r(1,2) pb(2) [OF r(1,2)] vb nbt fr modified(1) load by (intro apply_nbt_settles [OF T, where r = r]) auto
          then show ?thesis using path by (simp add: apply_entry_def modified(2) entry_of_nbt_def)
        next
          case raw
          with blob b show ?thesis by simp
        qed
      qed
    next
      case plain
      then have "classify_path rel = BlobEntry" by (simp add: classify_path_def)
      then have "e = entry_of_blob T rel (if contents wa ?p = None then SAdded else SModified) (map_option octets (contents wa ?p)) (Some (octets b))"
        using x b ne readb
        by (cases "contents wa ?p") (auto simp: extract_one_def Let_def is_file_iff res_simps added_entry_def modified_entry_def
            read_octets_iff [THEN iffD2] split: option.splits if_splits)
      with blob b show ?thesis by simp
    qed
  qed
qed

section \<open>A whole world\<close>

text \<open>
  The worlds are trees whose names survive the text of a path, and no file of the new world stands
  where the old one has a directory or below one of its files.
\<close>

definition portable_names :: "fs \<Rightarrow> fs \<Rightarrow> bool" where
  "portable_names wa wb \<longleftrightarrow> fs_wf wa \<and> fs_wf wb \<and>
     (\<forall>p. contents wa p \<noteq> None \<or> contents wb p \<noteq> None \<longrightarrow> components (rel_path p) = p) \<and>
     (\<forall>p. contents wb p \<noteq> None \<longrightarrow> way_free wa p)"

text \<open>A region that goes away is written into the patch whole, so that its chunks have to decode.\<close>

definition removable :: "diff_tools \<Rightarrow> fs \<Rightarrow> fs \<Rightarrow> string \<Rightarrow> bool" where
  "removable D wa wb rel \<longleftrightarrow> (let p = components rel in
     \<forall>a. is_region rel \<and> contents wa p = Some a \<and> contents wb p = None \<longrightarrow>
       (\<exists>ra. parse_at wa p (octets a) = Inr ra \<and> (\<forall>ca \<in> set (region_chunks ra). \<exists>va. decode D ca = Inr va)))"

definition portable :: "patch_tools \<Rightarrow> fs \<Rightarrow> fs \<Rightarrow> bool" where
  "portable T wa wb \<longleftrightarrow> portable_names wa wb \<and>
     (\<forall>rel \<in> set (all_files wa wb). portable_file (pt_diff T) wa wb rel \<and> removable (pt_diff T) wa wb rel)"

lemma above_is_dir: "fs_wf w \<Longrightarrow> contents w p \<noteq> None \<Longrightarrow> under q (butlast p) \<Longrightarrow> is_dir w q"
proof -
  assume wf: "fs_wf w" and p: "contents w p \<noteq> None" and q: "under q (butlast p)"
  have step: "is_dir w (butlast d)" if "is_dir w d \<or> contents w d \<noteq> None" for d
  proof (cases "d = []")
    case False
    then have "d \<in> fst ` set w"
      using that wf by (auto simp: is_dir_def contents_def fs_lookup_def fs_wf_def dest!: im_get_SomeD split: option.splits) force+
    then show ?thesis using wf by (auto simp: fs_wf_def)
  qed simp
  have "is_dir w (take n d)" if "is_dir w d" for n d
    using that
  proof (induction d rule: rev_induct)
    case (snoc x d)
    then have "is_dir w d" using step [of "d @ [x]"] by simp
    then show ?case using snoc by (cases "n \<le> length d") simp_all
  qed simp
  from this [of "butlast p" "length q"] step [of p] p q show "is_dir w q" by (simp add: under_def)
qed

text \<open>Files and directories of a tree on the way from the old world to the new one.\<close>

definition between :: "fs \<Rightarrow> fs \<Rightarrow> fs \<Rightarrow> bool" where
  "between wa wb w \<longleftrightarrow> (\<forall>q. contents w q \<noteq> None \<longrightarrow> contents wa q \<noteq> None \<or> contents wb q \<noteq> None) \<and>
     (\<forall>q. is_dir w q \<longrightarrow> q = [] \<or> (\<exists>p. (contents wa p \<noteq> None \<or> contents wb p \<noteq> None) \<and> under q (butlast p)))"

lemma between_free:
  assumes "fs_wf wa" "fs_wf wb" "between wa wb w" "contents wb p \<noteq> None" "way_free wa p"
  shows "way_free w p"
proof -
  have p: "p \<noteq> []" "\<not> is_dir wa p" "\<And>k. k < length p \<Longrightarrow> contents wa (take k p) = None"
    using assms(5) by (auto simp: way_free_def list_all_iff)
  have "\<not> is_dir wb p" using assms(4) contents_dir by auto
  then have "\<not> is_dir w p" using assms(1-3) p(1,2) above_is_dir unfolding between_def by metis
  moreover have "contents w (take k p) = None" if "k < length p" for k
  proof -
    have "under (take k p) (butlast p)" using that by (simp add: under_def take_butlast)
    then have "contents wb (take k p) = None" using above_is_dir [OF assms(2,4)] contents_dir by blast
    then show ?thesis using p(3) [OF that] assms(3) unfolding between_def by metis
  qed
  ultimately show ?thesis using p(1) by (simp add: way_free_def list_all_iff)
qed

lemma copy_world_ok:
  assumes "fs_wf wa"
  shows "\<exists>w. copy_world wa [] [] = Inr w \<and> contents w = contents wa \<and> between wa wa w"
proof -
  have run: "\<exists>w'. each (copy_file []) xs w = Inr w' \<and> contents w' = (\<lambda>q. if q \<in> fst ` set xs then contents wa q else contents w q) \<and> between wa wa w'"
    if "set xs \<subseteq> set wa" "distinct (map fst xs)" "\<forall>q \<in> fst ` set xs. contents w q = None" "between wa wa w" for xs w
    using that
  proof (induction xs arbitrary: w)
    case (Cons x xs)
    obtain p n where x: "x = (p, n)" by (cases x)
    have wf: "im_wf wa" "p \<noteq> []" using assms Cons.prems(1) by (auto simp: fs_wf_def x)
    then have look: "fs_lookup wa p = Some n" using Cons.prems(1) by (simp add: fs_lookup_def im_get_Some_iff x)
    show ?case
    proof (cases n)
      case Dir
      then have "contents wa p = None" using look by (simp add: contents_def)
      moreover obtain w' where "each (copy_file []) xs w = Inr w'"
        "contents w' = (\<lambda>q. if q \<in> fst ` set xs then contents wa q else contents w q)" "between wa wa w'"
        using Cons.IH [of w] Cons.prems by auto
      moreover have "copy_file [] x w = Inr w" by (simp add: copy_file_def x Dir)
      ultimately show ?thesis using Cons.prems(3) by (auto simp: x fun_eq_iff)
    next
      case (File c)
      then have c: "contents wa p = Some c" using look by (simp add: contents_def)
      have "way_free wa p"
      proof -
        have "\<not> is_dir wa p" using c contents_dir by force
        moreover have "contents wa (take k p) = None" if "k < length p" for k
          using above_is_dir [OF assms, of p "take k p"] c that contents_dir by (auto simp: under_def take_butlast)
        ultimately show ?thesis using wf(2) by (simp add: way_free_def list_all_iff)
      qed
      then have "way_free w p" using between_free [OF assms assms Cons.prems(4)] c by simp
      then obtain w1 where w1: "create_dir_all (butlast p) w = Inr w1" "\<And>c. \<exists>w2. fs_write p c w1 = Inr w2"
        using entry_way_free_put by metis
      then obtain w2 where w2: "fs_write p c w1 = Inr w2" by blast
      have "contents w1 p = None" using create_dir_all_contents [OF w1(1)] Cons.prems(3) by (simp add: x)
      then have "remove_file p w1 = w1" by (simp add: remove_file_def is_file_iff)
      then have copy: "copy_file [] x w = Inr w2" by (simp add: copy_file_def x File w1(1) w2)
      have wr: "writes p c w w2" by (rule put_file_writes [OF w1(1) w2])
      have "between wa wa w2"
        using Cons.prems(4) wr c unfolding between_def writes_def by (metis fun_upd_apply option.distinct(1))
      moreover have "\<forall>q \<in> fst ` set xs. contents w2 q = None"
        using Cons.prems(2,3) wr by (auto simp: x writes_def image_iff)
      ultimately obtain w' where w': "each (copy_file []) xs w2 = Inr w'"
        "contents w' = (\<lambda>q. if q \<in> fst ` set xs then contents wa q else contents w2 q)" "between wa wa w'"
        using Cons.IH [of w2] Cons.prems(1,2) by auto
      have "contents w' = (\<lambda>q. if q \<in> fst ` set (x # xs) then contents wa q else contents w q)"
        using w'(2) wr c by (auto simp: x writes_def fun_eq_iff)
      with w'(1,3) copy show ?thesis by simp
    qed
  qed auto
  have "between wa wa []" by (auto simp: between_def contents_def is_dir_def fs_lookup_def omap_simps split: if_splits)
  moreover have "contents [] q = None" for q by (simp add: contents_def fs_lookup_def omap_simps)
  ultimately obtain w where w: "each (copy_file []) wa [] = Inr w" "contents w = (\<lambda>q. if q \<in> fst ` set wa then contents wa q else contents [] q)"
    "between wa wa w" using run [of wa "[]"] assms by (auto simp: fs_wf_def im_wf_def)
  have "contents wa q = None" if "q \<notin> fst ` set wa" for q
    using that by (auto simp: contents_def fs_lookup_def image_iff split: option.splits dest!: im_get_SomeD)
  then have "contents w = contents wa" by (auto simp: w(2) fun_eq_iff contents_def fs_lookup_def omap_simps)
  with w show ?thesis by (simp add: copy_world_def)
qed

lemma none_settles:
  assumes x: "extract_one T wa wb rel = Inr None" and P: "portable_file (pt_diff T) wa wb rel"
    and v: "contents v (components rel) = contents wa (components rel)"
  shows "same_file (pt_diff T) v wb rel"
proof -
  let ?p = "components rel" and ?D = "pt_diff T"
  have same: "same_file ?D wa wb rel" by (rule extract_none_same [OF x])
  show ?thesis
  proof (cases "contents wa ?p = contents wb ?p")
    case False
    obtain a b where ab: "contents wa ?p = Some a" "contents wb ?p = Some b"
      using same False by (cases "contents wa ?p"; cases "contents wb ?p") (simp_all add: same_file_def Let_def)
    with False have "a \<noteq> b" by simp
    note ab = ab this
    have load: "load_nbt_file ?D v ?p = load_nbt_file ?D wa ?p"
      using v by (auto simp: load_nbt_file_def read_octets_def contents_def split: option.splits node.splits)
    show ?thesis
    proof (cases "is_region rel")
      case True
      then obtain ra rb where r: "parse_at wa ?p (octets a) = Inr ra" "parse_at wb ?p (octets b) = Inr rb" "same_region ?D ra rb"
        using same ab by (auto simp: same_file_def Let_def)
      obtain ra' where "\<forall>w. parse_at w ?p (octets a) = Inr ra'" using P True ab by (auto simp: portable_file_def Let_def)
      then have "parse_at v ?p (octets a) = Inr ra" using r(1) by simp
      then show ?thesis using r(2,3) True ab v by (auto simp: same_file_def Let_def)
    next
      case no: False
      then show ?thesis using same ab v load by (simp add: same_file_def Let_def)
    qed
  qed (simp add: same_file_def v)
qed

lemma apply_entries:
  assumes T: "tools_ok T" and N: "portable_names wa wb"
    and all: "list_all2 (\<lambda>rel r. extract_one T wa wb rel = Inr r) rels rs"
    and P: "\<forall>rel \<in> set rels. portable_file (pt_diff T) wa wb rel" and d: "distinct (map components rels)"
    and w: "between wa wb w" "\<forall>rel \<in> set rels. contents w (components rel) = contents wa (components rel)"
  shows "\<exists>w' rep'. each (apply_entry T [] False False) (List.map_filter id rs) (w, rep) = Inr (w', rep') \<and>
    rep_conflicts rep' = rep_conflicts rep \<and> between wa wb w' \<and>
    (\<forall>q. q \<notin> components ` set rels \<longrightarrow> contents w' q = contents w q) \<and>
    (\<forall>rel \<in> set rels. \<forall>v. contents v (components rel) = contents w' (components rel) \<longrightarrow> same_file (pt_diff T) v wb rel)"
  using all P d w
proof (induction arbitrary: w rep rule: list_all2_induct)
  case (Cons rel rels r rs)
  let ?p = "components rel"
  have Pr: "portable_file (pt_diff T) wa wb rel" and wr: "contents w ?p = contents wa ?p" using Cons.prems by simp_all
  obtain w1 rep1 where 1: "each (apply_entry T [] False False) (List.map_filter id [r]) (w, rep) = Inr (w1, rep1)"
    "rep_conflicts rep1 = rep_conflicts rep" "settles (pt_diff T) wb rel w w1"
  proof (cases r)
    case None
    have "settles (pt_diff T) wb rel w w"
      using none_settles [OF Cons.hyps(1) [unfolded None] Pr] wr by (auto simp: settles_def)
    then show thesis using that None by (simp add: List.map_filter_simps)
  next
    case (Some e)
    have "way_free w ?p" if "contents wb ?p \<noteq> None"
      using between_free [OF _ _ Cons.prems(3) that] N that by (simp add: portable_names_def)
    from entry_settles [OF T Cons.hyps(1) [unfolded Some] Pr wr this] obtain w' rep' where
      "apply_entry T [] False False e (w, rep) = Inr (w', rep')" "rep_conflicts rep' = rep_conflicts rep" "settles (pt_diff T) wb rel w w'"
      by blast
    then show thesis using that Some by (simp add: List.map_filter_simps)
  qed
  have settle: "\<And>q. q \<noteq> ?p \<Longrightarrow> contents w1 q = contents w q" "\<And>v. contents v ?p = contents w1 ?p \<Longrightarrow> same_file (pt_diff T) v wb rel"
    "\<And>q. is_dir w1 q \<Longrightarrow> is_dir w q \<or> contents wb ?p \<noteq> None \<and> under q (butlast ?p)"
    using 1(3) by (auto simp: settles_def)
  have only: "contents w1 ?p \<noteq> None \<Longrightarrow> contents wb ?p \<noteq> None"
  proof -
    have "same_file (pt_diff T) w1 wb rel" by (rule settle(2)) simp
    then show "contents w1 ?p \<noteq> None \<Longrightarrow> contents wb ?p \<noteq> None" by (auto simp: same_file_def Let_def)
  qed
  have b1: "between wa wb w1"
    unfolding between_def
  proof (intro conjI allI impI)
    fix q assume "contents w1 q \<noteq> None"
    then show "contents wa q \<noteq> None \<or> contents wb q \<noteq> None"
      using settle(1) [of q] only Cons.prems(3) unfolding between_def by (cases "q = ?p") metis+
  next
    fix q assume "is_dir w1 q"
    from settle(3) [OF this] show "q = [] \<or> (\<exists>p. (contents wa p \<noteq> None \<or> contents wb p \<noteq> None) \<and> under q (butlast p))"
      using Cons.prems(3) unfolding between_def by metis
  qed
  have fresh: "?p \<notin> components ` set rels" using Cons.prems(2) by auto
  then have w1: "\<forall>rel' \<in> set rels. contents w1 (components rel') = contents wa (components rel')"
    using Cons.prems(4) settle(1) by (metis image_eqI list.set_intros(2))
  have "distinct (map components rels)" "\<forall>rel \<in> set rels. portable_file (pt_diff T) wa wb rel" using Cons.prems by simp_all
  from Cons.IH [OF this(2,1) b1 w1, of rep1] obtain w2 rep2 where 2:
    "each (apply_entry T [] False False) (List.map_filter id rs) (w1, rep1) = Inr (w2, rep2)" "rep_conflicts rep2 = rep_conflicts rep1"
    "between wa wb w2" "\<And>q. q \<notin> components ` set rels \<Longrightarrow> contents w2 q = contents w1 q"
    "\<And>rel v. rel \<in> set rels \<Longrightarrow> contents v (components rel) = contents w2 (components rel) \<Longrightarrow> same_file (pt_diff T) v wb rel"
    by blast
  have split: "List.map_filter id (r # rs) = List.map_filter id [r] @ List.map_filter id rs"
    by (cases r) (simp_all add: List.map_filter_simps)
  have run: "each (apply_entry T [] False False) (List.map_filter id (r # rs)) (w, rep) = Inr (w2, rep2)"
    unfolding split each_append 1(1) using 2(1) by simp
  have "same_file (pt_diff T) v wb rel" if "contents v ?p = contents w2 ?p" for v
    using settle(2) 2(4) [OF fresh] that by simp
  moreover have "contents w2 q = contents w q" if "q \<notin> components ` set (rel # rels)" for q
    using that 2(4) settle(1) by auto
  moreover have "rep_conflicts rep2 = rep_conflicts rep" using 1(2) 2(2) by simp
  ultimately show ?case
    using 2(5) by (intro exI [of _ w2] exI [of _ rep2] conjI run 2(3)) auto
qed (auto simp: List.map_filter_simps)

lemma listed:
  assumes "portable_names wa wb" "rel \<in> set (list_files w)" "\<And>q. contents w q \<noteq> None \<Longrightarrow> contents wa q \<noteq> None \<or> contents wb q \<noteq> None"
    "im_wf w" "[] \<notin> fst ` set w"
  shows "contents w (components rel) \<noteq> None" "rel \<noteq> ''session.lock''" "rel_path (components rel) = rel"
proof -
  from assms(2) obtain p n where p: "(p, n) \<in> set w" "n \<noteq> Dir" "rel = rel_path p" "rel \<noteq> ''session.lock''"
    by (auto simp: list_files_def)
  have "p \<noteq> []" using p(1) assms(5) by force
  then have found: "contents w p \<noteq> None"
    using p(1,2) assms(4) by (cases n) (auto simp: contents_def fs_lookup_def im_get_Some_iff [THEN iffD2])
  then have "components (rel_path p) = p" using assms(1,3) by (auto simp: portable_names_def)
  then show "contents w (components rel) \<noteq> None" "rel \<noteq> ''session.lock''" "rel_path (components rel) = rel"
    using p(3,4) found by simp_all
qed


section \<open>Trees stay well formed\<close>

lemma copy_world_wf: "copy_world src out w = Inr w' \<Longrightarrow> fs_wf w \<Longrightarrow> fs_wf w'"
proof -
  have "fs_wf w2" if "copy_file out x w1 = Inr w2" "fs_wf w1" for x w1 w2
    using that by (cases x) (auto simp: copy_file_def res_simps split: node.splits
      intro: fs_wf_write fs_wf_remove_file fs_wf_create_dir_all)
  then show "copy_world src out w = Inr w' \<Longrightarrow> fs_wf w \<Longrightarrow> fs_wf w'"
    unfolding copy_world_def by (induction src arbitrary: w) (auto simp: res_simps)
qed

lemma apply_entry_wf: "apply_entry T out reverse force e (w, rep) = Inr (w', rep') \<Longrightarrow> fs_wf w \<Longrightarrow> fs_wf w'"
  by (auto simp: apply_entry_def apply_region_def apply_nbt_def apply_blob_def Let_def res_simps
    split: entry_kind.splits if_splits option.splits prod.splits
    intro: fs_wf_write fs_wf_remove_file fs_wf_create_dir_all write_region_wf)

lemma entries_wf: "each (apply_entry T out reverse force) es (w, rep) = Inr (w', rep') \<Longrightarrow> fs_wf w \<Longrightarrow> fs_wf w'"
proof (induction es arbitrary: w rep)
  case (Cons e es)
  then show ?case by (auto simp: res_simps dest: apply_entry_wf)
qed simp

lemma apply_patch_wf: "apply_patch T p base out reverse force w = Inr (w', rep') \<Longrightarrow> fs_wf w \<Longrightarrow> fs_wf w'"
  by (auto simp: apply_patch_def res_simps split: if_splits dest: copy_world_wf entries_wf)


section \<open>A patch takes one world to the other\<close>

lemma in_list_files:
  assumes "contents w p \<noteq> None" "rel_path p \<noteq> []" "rel_path p \<noteq> ''session.lock''"
  shows "rel_path p \<in> set (list_files w)"
proof -
  have "p \<noteq> []" using assms(2) by (auto simp: rel_path_def)
  then obtain c where "(p, File c) \<in> set w"
    using assms(1) by (auto simp: contents_def fs_lookup_def split: option.splits node.splits dest!: im_get_SomeD)
  then show ?thesis using assms(2,3) by (force simp: list_files_def)
qed

lemma collect_total: "(\<And>x. x \<in> set xs \<Longrightarrow> \<exists>y. f x = Inr y) \<Longrightarrow> \<exists>ys. collect_res (map f xs) = Inr ys"
  by (induction xs) (fastforce simp: res_simps)+

lemma whole_chunks_total:
  assumes "parse_at w p b = Inr rf" "\<forall>c \<in> set (region_chunks rf). \<exists>v. decode (pt_diff T) c = Inr v"
  shows "\<exists>cs. whole_chunks T st whole w p b = Inr cs"
  unfolding whole_chunks_def using assms by (auto simp: res_simps intro!: collect_total)

lemma region_patches_total:
  assumes parse: "parse_at wa p a = Inr ra" "parse_at wb p b = Inr rb"
    and dec: "\<forall>c \<in> set (region_chunks ra) \<union> set (region_chunks rb). \<exists>v. decode (pt_diff T) c = Inr v"
  shows "\<exists>cs. region_patches T wa wb p a b = Inr cs"
proof -
  have get: "\<exists>v. decode (pt_diff T) c = Inr v" if "region_get ra q = Some c \<or> region_get rb q = Some c" for q c
    using that dec region_parse_chunks(3) parse unfolding parse_at_def anvil_Inr_iff by blast
  have "\<exists>cs. patch_chunk T ra rb q = Inr cs" for q
    using get [of q] by (cases "region_get ra q"; cases "region_get rb q") (fastforce simp: patch_chunk_def Let_def res_simps)+
  then have "\<exists>qss. collect_res (map (patch_chunk T ra rb) (positions ra rb)) = Inr qss" by (intro collect_total)
  with parse show ?thesis by (auto simp: region_patches_def res_simps)
qed

lemma portable_decodes:
  assumes "portable_region D ra rb rx rz"
  shows "\<forall>c \<in> set (region_chunks ra) \<union> set (region_chunks rb). \<exists>v. decode D c = Inr v"
  using assms unfolding portable_region_def by blast

lemma extract_one_total:
  assumes P: "portable_file (pt_diff T) wa wb rel" and R: "removable (pt_diff T) wa wb rel"
  shows "\<exists>r. extract_one T wa wb rel = Inr r"
proof -
  let ?p = "components rel"
  have read: "contents w ?p = Some c \<Longrightarrow> read_octets w ?p = Inr (octets c)" for w c by (simp add: read_octets_iff)
  consider (none) "contents wa ?p = None" "contents wb ?p = None"
    | (gone) a where "contents wa ?p = Some a" "contents wb ?p = None"
    | (new) b where "contents wa ?p = None" "contents wb ?p = Some b"
    | (both) a b where "contents wa ?p = Some a" "contents wb ?p = Some b"
    by (cases "contents wa ?p"; cases "contents wb ?p") auto
  then show ?thesis
  proof cases
    case none
    then show ?thesis by (simp add: extract_one_def is_file_iff)
  next
    case gone
    show ?thesis
    proof (cases "is_region rel")
      case True
      then obtain ra where "parse_at wa ?p (octets a) = Inr ra" "\<forall>ca \<in> set (region_chunks ra). \<exists>va. decode (pt_diff T) ca = Inr va"
        using R gone by (auto simp: removable_def Let_def)
      from whole_chunks_total [OF this] show ?thesis
        using gone True by (auto simp: extract_one_def is_file_iff removed_entry_def classify_path_def read [of wa] res_simps)
    qed (use gone in \<open>auto simp: extract_one_def is_file_iff removed_entry_def classify_path_def read [of wa] split: option.splits\<close>)
  next
    case new
    show ?thesis
    proof (cases "is_region rel")
      case True
      then obtain rb where "parse_at wb ?p (octets b) = Inr rb" "\<forall>cb \<in> set (region_chunks rb). \<exists>vb. decode (pt_diff T) cb = Inr vb"
        using P new by (auto simp: portable_file_def Let_def dest: portable_decodes)
      from whole_chunks_total [OF this] show ?thesis
        using new True by (auto simp: extract_one_def is_file_iff added_entry_def classify_path_def read [of wb] res_simps)
    qed (use new in \<open>auto simp: extract_one_def is_file_iff added_entry_def classify_path_def read [of wb] split: option.splits\<close>)
  next
    case both
    show ?thesis
    proof (cases "is_region rel \<and> a \<noteq> b")
      case True
      then obtain ra rb where "parse_at wa ?p (octets a) = Inr ra" "parse_at wb ?p (octets b) = Inr rb"
        "\<forall>c \<in> set (region_chunks ra) \<union> set (region_chunks rb). \<exists>v. decode (pt_diff T) c = Inr v"
        using P both True by (auto simp: portable_file_def Let_def dest!: portable_decodes)
      from region_patches_total [OF this] show ?thesis
        using both True by (auto simp: extract_one_def is_file_iff modified_entry_def classify_path_def read res_simps)
    qed (use both in \<open>auto simp: extract_one_def is_file_iff modified_entry_def classify_path_def read Let_def split: option.splits\<close>)
  qed
qed

text \<open>C1. Between two worlds whose changes a patch can carry, extraction succeeds, its patch applies to the first
  world without conflicts, and the world it leaves shows no difference to the second: \<^verbatim>\<open>diff_worlds\<close> on the output
  directory and the second world finds nothing.\<close>

theorem patch_world_roundtrip:
  assumes T: "tools_ok T" and P: "portable T wa wb"
  shows "\<exists>p w rep. extract_patch T base_name target_name wa wb = Inr p \<and>
    apply_patch T p wa [] False False [] = Inr (w, rep) \<and> rep_conflicts rep = [] \<and> diff_worlds (pt_diff T) w wb = Inr []"
proof -
  have N: "portable_names wa wb" and F: "\<forall>rel \<in> set (all_files wa wb). portable_file (pt_diff T) wa wb rel"
    and R: "\<forall>rel \<in> set (all_files wa wb). removable (pt_diff T) wa wb rel"
    using P by (simp_all add: portable_def)
  have wf: "fs_wf wa" "fs_wf wb" using N by (simp_all add: portable_names_def)
  have root: "im_wf w" "[] \<notin> fst ` set w" if "fs_wf w" for w using that by (auto simp: fs_wf_def)
  obtain rs where xs: "collect_res (map (extract_one T wa wb) (all_files wa wb)) = Inr rs"
    using collect_total [of "all_files wa wb" "extract_one T wa wb"] extract_one_total F R by blast
  define p where "p = patch_new\<lparr>wp_base := Some base_name, wp_target := Some target_name, wp_files := List.map_filter id rs\<rparr>"
  have rs: "list_all2 (\<lambda>rel r. extract_one T wa wb rel = Inr r) (all_files wa wb) rs"
    "wp_files p = List.map_filter id rs" "wp_version p = 1"
    using collect_all2 [OF xs] by (simp_all add: p_def patch_new_def)
  have extracted: "extract_patch T base_name target_name wa wb = Inr p" by (simp add: extract_patch_def xs p_def)
  obtain w0 where w0: "copy_world wa [] [] = Inr w0" "contents w0 = contents wa" "between wa wa w0"
    using copy_world_ok [OF wf(1)] by blast
  have names: "contents w (components rel) \<noteq> None \<and> rel \<noteq> ''session.lock'' \<and> rel_path (components rel) = rel"
    if "fs_wf w" "\<And>q. contents w q \<noteq> None \<Longrightarrow> contents wa q \<noteq> None \<or> contents wb q \<noteq> None" "rel \<in> set (list_files w)" for w rel
    using listed [OF N that(3) that(2) root [OF that(1)]] by blast
  have paths: "rel_path (components rel) = rel" if "rel \<in> set (all_files wa wb)" for rel
    using that names [OF wf(1)] names [OF wf(2)] by (auto simp: all_files_def)
  then have "inj_on components (set (all_files wa wb))" by (rule inj_on_inverseI)
  then have d: "distinct (map components (all_files wa wb))" by (simp add: distinct_map all_files_def)
  have b0: "between wa wb w0" using w0(3) unfolding between_def by blast
  obtain w rep where w: "each (apply_entry T [] False False) (wp_files p) (w0, empty_report) = Inr (w, rep)"
    "rep_conflicts rep = rep_conflicts empty_report" "between wa wb w"
    "\<And>rel v. rel \<in> set (all_files wa wb) \<Longrightarrow> contents v (components rel) = contents w (components rel) \<Longrightarrow> same_file (pt_diff T) v wb rel"
    using apply_entries [OF T N rs(1) F d b0, of empty_report] w0(2) unfolding rs(2) by auto
  have run: "apply_patch T p wa [] False False [] = Inr (w, rep)" by (simp add: apply_patch_def rs(3) w0(1) w(1))
  then have "fs_wf w" by (rule apply_patch_wf) (simp add: fs_wf_def im_wf_def)
  have in_ab: "\<And>q. contents w q \<noteq> None \<Longrightarrow> contents wa q \<noteq> None \<or> contents wb q \<noteq> None" using w(3) by (auto simp: between_def)
  have "diff_one (pt_diff T) w wb rel = Inr None" if "rel \<in> set (all_files w wb)" for rel
  proof -
    have "rel \<in> set (all_files wa wb)"
    proof (cases "rel \<in> set (list_files wb)")
      case False
      then have rel: "rel \<in> set (list_files w)" using that by (simp add: all_files_def)
      note n = names [OF \<open>fs_wf w\<close> in_ab rel]
      then have "contents wa (components rel) \<noteq> None \<or> contents wb (components rel) \<noteq> None" using in_ab by blast
      moreover have "rel \<noteq> []" using rel by (simp add: list_files_def)
      ultimately show ?thesis using n in_list_files [of _ "components rel"] by (auto simp: all_files_def)
    qed (simp add: all_files_def)
    then show ?thesis by (intro same_file_none w(4)) simp_all
  qed
  then have "diff_worlds (pt_diff T) w wb = Inr []"
    by (simp add: diff_worlds_def collect_const comp_def List.map_filter_def)
  with extracted run w(2) show ?thesis by (simp add: empty_report_def)
qed

definition health :: "u32 \<Rightarrow> nbt_value" where
  "health n = Compound [(''hp'', IntV n)]"

definition health_codec :: nbt_codec where
  "health_codec = \<lparr>to_binary = (\<lambda>c _. if c = [(''hp'', VInt 20)] then [20] else [7]),
     from_binary = (\<lambda>b. Inr ([(''hp'', VInt (if b = [20] then 20 else 7))], []))\<rparr>"

definition health_tools :: patch_tools where
  "health_tools = \<lparr>pt_diff = \<lparr>dt_compress = magic_compressors, dt_codec = health_codec, dt_float = digits_ft, dt_debug = (\<lambda>s. s)\<rparr>,
     pt_b64 = chars, pt_unb64 = (\<lambda>s. Some (octets s))\<rparr>"

definition health_chunk :: "u8 \<Rightarrow> raw_chunk" where
  "health_chunk n = \<lparr>rc_pos = mk_pos 0 0, rc_compression = ZLib, rc_payload = [n], rc_external = False, rc_timestamp = 0\<rparr>"

definition health_region :: "u8 \<Rightarrow> bytes" where
  "health_region n = (case region_write ''r.0.0.mca'' [health_chunk n] Map.empty ''r.0.0.mca'' of Some (Regular b) \<Rightarrow> b | _ \<Rightarrow> [])"

definition health_world :: "u8 \<Rightarrow> fs" where
  "health_world n = [([''level.dat''], File (chars [0x1f, 0x8b, n])), ([''region''], Dir),
     ([''region'', ''r.0.0.mca''], File (chars (health_region n)))]"

lemma region_of_origin: "region_of (mk_pos 0 0) = (0, 0)" by code_simp

lemma health_region_parse:
  "\<exists>rf. (\<forall>d. region_parse d ''r.0.0.mca'' (health_region n) = Inr rf) \<and> set (region_chunks rf) = {health_chunk n}"
proof -
  have name: "parse_region_coords ''r.0.0.mca'' = Inr (0, 0)" by code_simp
  have small: "\<not> spills (health_chunk n)" by (simp add: spills_def health_chunk_def sectors_needed_def SECTOR_def MAX_INLINE_SECTORS_def)
  have keep: "keepable 0 0 ch" if "ch \<in> set [health_chunk n]" for ch
    using that region_of_origin by (simp add: keepable_def health_chunk_def MAX_EXTERNAL_CHUNK_def)
  have "region_write ''r.0.0.mca'' [health_chunk n] Map.empty ''r.0.0.mca'' = Some (Regular (health_region n))"
    by (simp add: health_region_def region_write_def Let_def)
  from region_write_parse [OF name keep _ this] obtain rf where
    rf: "\<And>p c. region_get rf p = Some c \<longleftrightarrow> mk_pos 0 0 = p \<and> c = stored (health_chunk n)"
    "\<And>d. region_parse d ''r.0.0.mca'' (health_region n) = Inr rf"
    using small by (auto simp: health_chunk_def)
  have "c \<in> set (region_chunks rf) \<longleftrightarrow> c = health_chunk n" for c
    using region_parse_chunks(3) [OF rf(2), of "rc_pos c" c] rf(1) small by (auto simp: stored_def health_chunk_def)
  with rf(2) show ?thesis by blast
qed

lemma health_read: "nbt_read (from_binary health_codec) [20] = Inr ([], health 20)" "nbt_read (from_binary health_codec) [7] = Inr ([], health 7)"
  by code_simp+

lemma health_decode: "decode (pt_diff health_tools) (health_chunk 20) = Inr (health 20)"
  "decode (pt_diff health_tools) (health_chunk 7) = Inr (health 7)"
  by (simp_all add: decode_def decode_chunk_def health_tools_def health_chunk_def magic_compressors_def plain_compressors_def
     decompress_def inflate_bounded_def stored_bytes_def MAX_INFLATED_def health_read)

lemma health_only: "upto_order r (health n) \<Longrightarrow> nbt_wf r \<Longrightarrow> r = health n"
proof -
  assume "upto_order r (health n)" "nbt_wf r"
  then obtain m where m: "r = Compound m" "\<And>k. rel_option upto_order (im_get m k) (im_get [(''hp'', IntV n)] k)" "im_wf m"
    using upto_order_compound by (fastforce simp: health_def upto_order_Compound)
  have "im_get m k = im_get [(''hp'', IntV n)] k" for k
    using m(2) [of k] by (auto simp: im_get_def option_rel_Some2 dest: upto_order_exact_right split: if_splits)
  then have "x \<in> set m \<longleftrightarrow> x = (''hp'', IntV n)" for x
    using im_get_Some_iff [OF m(3), of "fst x" "snd x"] by (cases x) (auto simp: im_get_def split: if_splits)
  then have set: "set m = {(''hp'', IntV n)}" by blast
  moreover have "distinct m" using m(3) by (simp add: im_wf_def distinct_map)
  ultimately have "length m = 1" using distinct_card [of m] by simp
  with set have "m = [(''hp'', IntV n)]" by (cases m) auto
  then show ?thesis using m(1) by (simp add: health_def)
qed

lemma health_fits: "writable (pt_diff health_tools) (health 7)" "inline_tree (pt_diff health_tools) (health 7)"
  by (simp_all add: writable_def inline_tree_def health_tools_def health_codec_def health_def doc_compound_def write_named_def
    MAX_INFLATED_def encode_chunk_def magic_compressors_def plain_compressors_def compress_def compress_level_def to_compound_of_def im_of_list_def SECTOR_def MAX_INLINE_SECTORS_def)

lemma health_tools_ok: "tools_ok health_tools"
  using magic_compressors_ok by (simp add: tools_ok_def health_tools_def digits_ft_ok)

lemma health_contents: "contents (health_world n) p = (if p = [''level.dat''] then Some (chars [0x1f, 0x8b, n])
   else if p = [''region'', ''r.0.0.mca''] then Some (chars (health_region n)) else None)"
  by (simp add: health_world_def contents_def fs_lookup_def im_get_def)

lemma health_dirs: "is_dir (health_world n) p \<longleftrightarrow> p = [] \<or> p = [''region'']"
  by (auto simp: health_world_def is_dir_def fs_lookup_def im_get_def)

lemma health_load: "load_nbt_file (pt_diff health_tools) (health_world n) [''level.dat''] =
    (if n = 20 then Some (health 20) else Some (health 7))"
proof -
  have magic: "sniff [31, 139, n] = GZip" by (simp add: sniff_def)
  have "nbt_read (from_binary health_codec) [n] = Inr ([], if n = 20 then health 20 else health 7)"
    using health_read by (cases "n = 20") (simp_all add: nbt_read_def health_codec_def)
  then have "load_nbt_bytes magic_compressors health_codec [0x1f, 0x8b, n] = Inr (if n = 20 then health 20 else health 7)"
    by (simp add: load_nbt_bytes_def magic decompress_def magic_compressors_def plain_compressors_def inflate_bounded_def
      stored_bytes_def MAX_INFLATED_def)
  then show ?thesis
    by (simp add: load_nbt_file_def read_octets_def health_world_def fs_lookup_def im_get_def health_tools_def)
qed

lemma health_names: "portable_names (health_world 20) (health_world 7)"
proof -
  have "components (rel_path p) = p" if "p = [''level.dat''] \<or> p = [''region'', ''r.0.0.mca'']" for p
  proof -
    have "components (rel_path [''level.dat'']) = [''level.dat'']"
      "components (rel_path [''region'', ''r.0.0.mca'']) = [''region'', ''r.0.0.mca'']" by code_simp+
    with that show ?thesis by blast
  qed
  moreover have "fs_wf (health_world n)" for n
    by (simp add: fs_wf_def im_wf_def health_dirs) (simp add: health_world_def)
  ultimately show ?thesis
    by (auto simp: portable_names_def health_contents way_free_def health_dirs)
qed

theorem patch_world_roundtrip_witness:
  "\<exists>p w rep. extract_patch health_tools ''a'' ''b'' (health_world 20) (health_world 7) = Inr p \<and>
    apply_patch health_tools p (health_world 20) [] False False [] = Inr (w, rep) \<and> rep_conflicts rep = [] \<and>
    diff_worlds (pt_diff health_tools) w (health_world 7) = Inr []"
proof (rule patch_world_roundtrip [OF health_tools_ok])
  have files: "rel = ''level.dat'' \<or> rel = ''region/r.0.0.mca''" if "rel \<in> set (all_files (health_world 20) (health_world 7))" for rel
    using that by (auto simp: all_files_def list_files_def health_world_def rel_path_def)
  have kinds: "is_region ''region/r.0.0.mca''" "\<not> is_region ''level.dat''" "is_dat ''level.dat''"
    "components ''level.dat'' = [''level.dat'']" "components ''region/r.0.0.mca'' = [''region'', ''r.0.0.mca'']"
    "parse_region_coords ''r.0.0.mca'' = Inr (0, 0)" by code_simp+
  have plain: "nan_free (health n)" for n by (simp add: health_def)
  have small: "clean_seg (Key ''hp'')" by code_simp
  have ok: "patchable (health m) (health n)" for m n
    unfolding health_def using small by (intro patchable.compound) (auto simp: im_get_def intro: patchable.leaf split: if_splits)
  have fits: "\<forall>r. upto_order r (health 7) \<and> nbt_wf r \<longrightarrow> writable (pt_diff health_tools) r \<and> inline_tree (pt_diff health_tools) r"
    using health_only health_fits by blast
  obtain ra rb where r: "\<And>d. region_parse d ''r.0.0.mca'' (health_region 20) = Inr ra" "set (region_chunks ra) = {health_chunk 20}"
    "\<And>d. region_parse d ''r.0.0.mca'' (health_region 7) = Inr rb" "set (region_chunks rb) = {health_chunk 7}"
    using health_region_parse by metis
  have "portable_region (pt_diff health_tools) ra rb 0 0"
    using plain ok fits region_of_origin by (simp add: portable_region_def r health_decode) (simp add: health_chunk_def)
  then have "portable_file (pt_diff health_tools) (health_world 20) (health_world 7) ''region/r.0.0.mca''"
    by (auto simp: portable_file_def Let_def kinds health_contents parse_at_def r)
  moreover have "portable_file (pt_diff health_tools) (health_world 20) (health_world 7) ''level.dat''"
    using plain ok fits by (simp add: portable_file_def Let_def kinds health_load)
  moreover have "removable (pt_diff health_tools) (health_world 20) (health_world 7) rel" if "rel = ''level.dat'' \<or> rel = ''region/r.0.0.mca''" for rel
    using that by (auto simp: removable_def Let_def kinds health_contents)
  ultimately show "portable health_tools (health_world 20) (health_world 7)"
    using files health_names by (auto simp: portable_def)
qed

end
