(* ===== verification/PatchLimits.thy ===== *)
theory PatchLimits imports
  PatchCarry
begin

text \<open>
  The two comparisons of worlds agree with each other, and what an application of a patch does not
  guard: the paths of its entries, and the content of a file it removes.
\<close>

section \<open>The display and the patch list the same changes\<close>

text \<open>C11. The comparison shown to the user and the patch extracted between the same two worlds list the same files
  in the same order, with the same status; for a file present in both, the same chunks, and in each chunk or document
  the same paths.\<close>

theorem diff_and_patch_agree:
  assumes d: "diff_worlds (pt_diff T) wa wb = Inr d" and p: "extract_patch T base_name target_name wa wb = Inr p"
  shows "list_all2 file_agrees d (wp_files p)"
proof -
  obtain rs where rs: "list_all2 (\<lambda>rel r. diff_one (pt_diff T) wa wb rel = Inr r) (all_files wa wb) rs" "d = List.map_filter id rs"
    using diff_worlds_list [OF d] by blast
  obtain es where "collect_res (map (extract_one T wa wb) (all_files wa wb)) = Inr es" "wp_files p = List.map_filter id es"
    using p by (auto simp: extract_patch_def res_simps)
  with rs collect_all2 show ?thesis by (auto intro: map_filter_all2 files_agree)
qed

definition plain_patch :: patch_tools where
  "plain_patch = \<lparr>pt_diff = plain_diff, pt_b64 = chars, pt_unb64 = (\<lambda>s. Some (octets s))\<rparr>"

theorem diff_and_patch_agree_witness:
  "\<exists>d p. diff_worlds plain_diff old_world new_world = Inr d \<and>
     extract_patch plain_patch ''a'' ''b'' old_world new_world = Inr p \<and>
     list_all2 file_agrees d (wp_files p) \<and> map fe_path (wp_files p) = [''data/a.txt'', ''data/b.txt'']"
proof -
  let ?d = "[file_row ''data/a.txt'' FileRemoved [] [], file_row ''data/b.txt'' FileAdded [] []]"
  let ?p = "patch_new\<lparr>wp_base := Some ''a'', wp_target := Some ''b'', wp_files :=
    [entry_of_blob plain_patch ''data/a.txt'' SRemoved (Some (octets ''one'')) None,
     entry_of_blob plain_patch ''data/b.txt'' SAdded None (Some (octets ''two''))]\<rparr>"
  have files: "all_files old_world new_world = [''data/a.txt'', ''data/b.txt'', ''icon.png'']" by code_simp
  have names: "components ''data/a.txt'' = [''data'', ''a.txt'']" "components ''data/b.txt'' = [''data'', ''b.txt'']"
    "components ''icon.png'' = [''icon.png'']" "classify_path ''data/a.txt'' = BlobEntry" "classify_path ''data/b.txt'' = BlobEntry"
    by code_simp+
  note run = is_file_def fs_lookup_def old_world_def new_world_def im_get_def Let_def read_octets_def List.map_filter_simps
  have d: "diff_worlds plain_diff old_world new_world = Inr ?d"
    using files names by (simp add: diff_worlds_def diff_one_def file_row_def run)
  have p: "extract_patch plain_patch ''a'' ''b'' old_world new_world = Inr ?p"
    using files names by (simp add: extract_patch_def extract_one_def removed_entry_def added_entry_def run)
  have "list_all2 file_agrees ?d (wp_files ?p)"
    by (rule diff_and_patch_agree [of plain_patch, OF _ p]) (simp add: plain_patch_def d)
  with d p show ?thesis by (auto simp: entry_of_blob_def)
qed

section \<open>What is not guarded\<close>

text \<open>C26. The path of an entry is not confined to the output directory: applying a patch whose entry adds a file under
  an absolute path writes that file wherever it points to, without a conflict, whatever the output directory.\<close>

theorem entry_path_escapes:
  assumes abs: "rel = CHR ''/'' # rest" and free: "contents w (components rel) = None"
    and dir: "create_dir_all (butlast (components rel)) w = Inr w1" "fs_write (components rel) (chars b) w1 = Inr w2"
    and b64: "pt_unb64 T s = Some b"
    and e: "fe_kind e = BlobEntry" "fe_path e = rel" "fe_base_blob e = None" "fe_value_blob e = Some s"
  shows "\<exists>w' rep. apply_patch T (patch_new\<lparr>wp_files := [e]\<rparr>) [] out False force w = Inr (w', rep) \<and>
    rep_conflicts rep = [] \<and> contents w' (components rel) = Some (chars b)"
proof -
  have "path_join out rel = components rel" by (simp add: path_join_def abs)
  then have "apply_entry T out False force e (w, empty_report) = Inr (w2, report_applied empty_report)"
    using free dir b64 e by (simp add: apply_entry_def apply_blob_def unb64_def)
  then have "apply_patch T (patch_new\<lparr>wp_files := [e]\<rparr>) [] out False force w = Inr (w2, report_applied empty_report)"
    by (simp add: apply_patch_def patch_new_def copy_world_def)
  moreover have "contents w2 (components rel) = Some (chars b)" using put_file_writes [OF dir] by (simp add: writes_def)
  ultimately show ?thesis by (auto simp: report_applied_def empty_report_def)
qed

theorem entry_path_escapes_witness:
  "\<exists>w' rep. apply_patch plain_patch (patch_new\<lparr>wp_files := [entry_of_blob plain_patch ''/etc/cron'' SAdded None (Some [7])]\<rparr>)
     [] [''out''] False False [] = Inr (w', rep) \<and> rep_conflicts rep = [] \<and> contents w' [''etc'', ''cron''] = Some (chars [7])"
proof -
  have c: "components ''/etc/cron'' = [''etc'', ''cron'']" by code_simp
  have 1: "create_dir_all (butlast (components ''/etc/cron'')) [] = Inr [([''etc''], Dir)]" by code_simp
  have 2: "fs_write (components ''/etc/cron'') (chars [7]) [([''etc''], Dir)] =
    Inr [([''etc''], Dir), ([''etc'', ''cron''], File (chars [7]))]" unfolding c by code_simp
  show ?thesis
    unfolding c [symmetric]
    by (rule entry_path_escapes [OF refl _ 1 2, of plain_patch "chars [7]"])
      (simp_all add: c plain_patch_def entry_of_blob_def contents_def fs_lookup_def im_get_def)
qed

text \<open>C30. The removal of a region or of a document is not guarded: the entry extracted for it deletes the file at its
  path whatever that file holds by then, and neither counts nor reports anything.\<close>

theorem removal_ignores_content:
  assumes e: "extract_one T wa wb rel = Inr (Some e)" and gone: "contents wb (components rel) = None"
    and kind: "is_region rel \<or> is_dat rel \<and> load_nbt_file (pt_diff T) wa (components rel) \<noteq> None"
  shows "\<exists>w'. apply_entry T out False force e (w, rep) = Inr (w', rep) \<and> contents w' (path_join out rel) = None"
proof -
  have "fe_path e = rel \<and> fe_status e = SRemoved \<and> fe_kind e \<noteq> BlobEntry"
    using e gone kind by (cases "contents wa (components rel)") (auto simp: extract_one_def is_file_iff Let_def res_simps
      removed_entry_def classify_path_def entry_of_region_def entry_of_nbt_def split: option.splits if_splits)
  then show ?thesis
    by (cases "fe_kind e") (auto simp: apply_entry_def contents_remove_file)
qed

theorem removal_ignores_content_witness:
  "\<exists>e w'. extract_one health_tools (health_world 20) [] ''level.dat'' = Inr (Some e) \<and>
     apply_entry health_tools [] False False e ([([''level.dat''], File ''other'')], empty_report) = Inr (w', empty_report) \<and>
     contents w' [''level.dat''] = None"
proof -
  have c: "components ''level.dat'' = [''level.dat'']" "is_dat ''level.dat''" "classify_path ''level.dat'' = NbtEntry" by code_simp+
  have look: "contents (health_world 20) [''level.dat''] = Some (chars [0x1f, 0x8b, 20])" by (simp add: health_contents)
  have e: "\<exists>e. extract_one health_tools (health_world 20) [] ''level.dat'' = Inr (Some e)"
  proof -
    have "contents [] [''level.dat''] = None" "read_octets (health_world 20) [''level.dat''] = Inr (octets (chars [0x1f, 0x8b, 20]))"
      using look by (simp_all add: read_octets_iff contents_def fs_lookup_def im_get_def)
    then show ?thesis using look by (simp add: extract_one_def is_file_iff Let_def c removed_entry_def health_load)
  qed
  then obtain e where e: "extract_one health_tools (health_world 20) [] ''level.dat'' = Inr (Some e)" by blast
  have "path_join [] ''level.dat'' = [''level.dat'']" by (simp add: path_join_def c)
  with e removal_ignores_content [OF e, of "[]" False "[([''level.dat''], File ''other'')]" empty_report] show ?thesis
    by (auto simp: c health_load contents_def fs_lookup_def im_get_def)
qed

end
