(* ===== verification/RepoManifest.thy ===== *)
theory RepoManifest imports
  RepoFs
begin

text \<open>
  \<^verbatim>\<open>crates/repo/src/manifest.rs\<close>: the snapshot of a world by object ids, the commit and the
  annotated tag. JSON, blake3 and zstd belong to other packages: they are the fields of a record
  \<open>ext\<close> that every definition using them takes as its first argument.
\<close>

section \<open>Records\<close>

type_synonym smap = "(string, string) bmap"

record manifest =
  regions :: "(string, smap) bmap"
  nbt_files :: smap
  blobs :: smap
  empty_dirs :: "string list"

definition empty_manifest :: manifest where
  "empty_manifest = \<lparr>regions = [], nbt_files = [], blobs = [], empty_dirs = []\<rparr>"

record commit_object =
  tree :: string
  parents :: "string list"
  message :: string
  author :: string
  time :: string
  committer :: "string option"
  commit_time :: "string option"
  signature :: "string option"

record tag_object =
  tag_target :: string
  tag_kind :: string
  tag_name :: string
  tagger :: string
  tag_time :: string
  tag_message :: string
  tag_signature :: "string option"

section \<open>The packages the code calls\<close>

text \<open>
  \<open>blake3\<close> is the hexadecimal digest of a byte string; \<open>zenc\<close> and \<open>zdec\<close> are zstd's \<^verbatim>\<open>encode_all\<close> and
  \<^verbatim>\<open>decode_all\<close>; the rest is serde_json at the types the repository stores.
\<close>

record ext =
  blake3 :: "string \<Rightarrow> string"
  zenc :: "string \<Rightarrow> string"
  zdec :: "string \<Rightarrow> string option"
  manifest_json :: "manifest \<Rightarrow> string"
  manifest_parse :: "string \<Rightarrow> manifest option"
  commit_json :: "commit_object \<Rightarrow> string"
  commit_parse :: "string \<Rightarrow> commit_object option"
  tag_json :: "tag_object \<Rightarrow> string"
  tag_parse :: "string \<Rightarrow> tag_object option"
  idx_json :: "(string, nat \<times> nat) bmap \<Rightarrow> string"
  idx_parse :: "string \<Rightarrow> (string, nat \<times> nat) bmap option"

definition manifest_from_json :: "ext \<Rightarrow> string \<Rightarrow> repo_error + manifest" where
  "manifest_from_json E s = ok_or (manifest_parse E s) Json"

definition commit_from_json :: "ext \<Rightarrow> string \<Rightarrow> repo_error + commit_object" where
  "commit_from_json E s = ok_or (commit_parse E s) Json"

definition commit_signable_payload :: "ext \<Rightarrow> commit_object \<Rightarrow> string" where
  "commit_signable_payload E c = commit_json E (c\<lparr>signature := None\<rparr>)"

definition tag_signable_payload :: "ext \<Rightarrow> tag_object \<Rightarrow> string" where
  "tag_signable_payload E t = tag_json E (t\<lparr>tag_signature := None\<rparr>)"

definition tag_try_from_json :: "ext \<Rightarrow> string \<Rightarrow> tag_object option" where
  "tag_try_from_json E text =
     (if take 1 text \<noteq> ''{'' then None
      else case tag_parse E text of None \<Rightarrow> None
        | Some t \<Rightarrow> if tag_target t \<noteq> [] \<and> tag_name t \<noteq> [] \<and> tagger t \<noteq> [] then Some t else None)"

section \<open>Sparse views\<close>

definition region_coord :: "string \<Rightarrow> (int \<times> int) option" where
  "region_coord rel =
     (case strip_prefix ''r.'' (last (split_on (CHR ''/'') rel)) of None \<Rightarrow> None | Some n \<Rightarrow>
      case strip_suffix ''.mca'' n of None \<Rightarrow> None | Some stem \<Rightarrow>
      case split_once (CHR ''.'') stem of None \<Rightarrow> None | Some (x, z) \<Rightarrow>
      case (parse_signed 32 x, parse_signed 32 z) of (Some i, Some j) \<Rightarrow> Some (i, j) | _ \<Rightarrow> None)"

definition select_regions :: "(int \<times> int) set \<Rightarrow> manifest \<Rightarrow> manifest" where
  "select_regions want m = m\<lparr>regions := filter
     (\<lambda>(rel, chunks). case region_coord rel of None \<Rightarrow> False | Some c \<Rightarrow> c \<in> want) (regions m)\<rparr>"

text \<open>Every map of a manifest is a \<^verbatim>\<open>BTreeMap\<close>.\<close>

definition manifest_wf :: "manifest \<Rightarrow> bool" where
  "manifest_wf m = (bm_wf (regions m) \<and> (\<forall>(rel, chunks) \<in> set (regions m). bm_wf chunks) \<and>
     bm_wf (nbt_files m) \<and> bm_wf (blobs m))"

lemma bm_wf_filter: "bm_wf m \<Longrightarrow> bm_wf (filter P m)"
  by (induction m) (auto simp: bm_wf_Cons)

lemma manifest_wf_empty [simp]: "manifest_wf empty_manifest"
  by (simp add: manifest_wf_def empty_manifest_def)

lemma manifest_wf_select: "manifest_wf m \<Longrightarrow> manifest_wf (select_regions want m)"
  by (auto simp: manifest_wf_def select_regions_def bm_wf_filter)

text \<open>The name a region file is written under is the one its coordinate is read from.\<close>

definition i32_range :: "int \<Rightarrow> bool" where
  "i32_range i = (- (2 ^ 31) \<le> i \<and> i < 2 ^ 31)"

lemma split_on_split: "split_on c (a @ c # b) = split_on c a @ split_on c b"
  by (induction a) (auto split: list.splits)

lemma last_split_on: "last (split_on c (a @ c # b)) = last (split_on c b)"
  by (simp add: split_on_split)

lemma show_int_no_dot: "CHR ''.'' \<notin> set (show_int i)" "CHR ''/'' \<notin> set (show_int i)"
  using show_int_chars not_digit_punct by fastforce+

lemma region_coord_name:
  assumes "i32_range x" "i32_range z"
  shows "region_coord (dir @ ''/r.'' @ show_int x @ ''.'' @ show_int z @ ''.mca'') = Some (x, z)"
proof -
  let ?n = "''r.'' @ show_int x @ ''.'' @ show_int z @ ''.mca''"
  have "CHR ''/'' \<notin> set ?n" using show_int_no_dot by simp
  then have "last (split_on (CHR ''/'') (dir @ CHR ''/'' # ?n)) = ?n"
    by (simp only: last_split_on split_on_none last.simps simp_thms if_True)
  moreover have "strip_suffix ''.mca'' (show_int x @ ''.'' @ show_int z @ ''.mca'') = Some (show_int x @ ''.'' @ show_int z)"
    using strip_suffix_append [of "''.mca''" "show_int x @ ''.'' @ show_int z"] by simp
  ultimately show ?thesis
    using assms show_int_no_dot strip_prefix_append [of "''r.''"] by (simp add: region_coord_def split_once_append
        i32_range_def parse_signed_show_int)
qed

end
