(* ===== verification/RepoObjects.thy ===== *)
theory RepoObjects imports
  RepoManifest
begin

text \<open>
  \<^verbatim>\<open>crates/repo/src/object_store.rs\<close> and \<^verbatim>\<open>pack.rs\<close>: objects named by the digest of their content,
  loose in \<^verbatim>\<open>objects/<aa>/<rest>\<close> or in a pack. The state of a repository is its directory tree and
  the packs it loaded when it was opened. Offsets and lengths of packs (\<^verbatim>\<open>u64\<close>) are naturals.
\<close>

record packfile =
  pk_bytes :: string
  pk_index :: "(string, nat \<times> nat) bmap"

record repo =
  disk :: fs
  packs :: "packfile list"

section \<open>Packs\<close>

definition pack_open :: "ext \<Rightarrow> fs \<Rightarrow> path \<Rightarrow> path \<Rightarrow> repo_error + packfile" where
  "pack_open E d pack idx =
     rbind (fs_read d idx) (\<lambda>s. rbind (ok_or (idx_parse E s) Json) (\<lambda>i.
     rbind (fs_read d pack) (\<lambda>b. Inr \<lparr>pk_bytes = b, pk_index = i\<rparr>)))"

definition pack_contains :: "string \<Rightarrow> packfile \<Rightarrow> bool" where
  "pack_contains oid pf = (bm_get (pk_index pf) oid \<noteq> None)"

definition slice :: "nat \<Rightarrow> nat \<Rightarrow> string \<Rightarrow> string" where
  "slice off len b = take len (drop off b)"

definition pack_read :: "ext \<Rightarrow> string \<Rightarrow> packfile \<Rightarrow> repo_error + string option" where
  "pack_read E oid pf = (case bm_get (pk_index pf) oid of
     None \<Rightarrow> Inr None
   | Some (off, len) \<Rightarrow>
       if off + len \<le> length (pk_bytes pf)
       then rbind (ok_or (zdec E (slice off len (pk_bytes pf))) (Io InvalidData)) (\<lambda>c. Inr (Some c))
       else Inl Panic)"

definition pack_ids :: "packfile \<Rightarrow> string list" where
  "pack_ids pf = map fst (pk_index pf)"

section \<open>Writing a pack\<close>

record pack_writer =
  pw_index :: "(string, nat \<times> nat) bmap"
  pw_offset :: nat

definition pack_dir :: path where
  "pack_dir = [''objects'', ''pack'']"

definition pw_tmp :: path where
  "pw_tmp = pack_dir @ [''incoming.pack.tmp'']"

definition pack_path :: "string \<Rightarrow> path" where
  "pack_path oid = pack_dir @ [''pack-'' @ oid @ ''.pack'']"

definition idx_path :: "string \<Rightarrow> path" where
  "idx_path oid = pack_dir @ [''pack-'' @ oid @ ''.idx'']"

definition pw_new :: "fs \<Rightarrow> repo_error + pack_writer \<times> fs" where
  "pw_new d = rbind (create_dir_all pack_dir d) (\<lambda>d. rbind (fs_write pw_tmp [] d) (\<lambda>d.
     Inr (\<lparr>pw_index = [], pw_offset = 0\<rparr>, d)))"

definition push_packed :: "string \<Rightarrow> string \<Rightarrow> pack_writer \<Rightarrow> fs \<Rightarrow> repo_error + pack_writer \<times> fs" where
  "push_packed oid packed w d =
     (if bm_get (pw_index w) oid \<noteq> None then Inr (w, d)
      else rbind (fs_append pw_tmp packed d) (\<lambda>d. Inr
        (\<lparr>pw_index = bm_insert oid (pw_offset w, length packed) (pw_index w),
          pw_offset = pw_offset w + length packed\<rparr>, d)))"

definition pw_add :: "ext \<Rightarrow> string \<Rightarrow> string \<Rightarrow> pack_writer \<Rightarrow> fs \<Rightarrow> repo_error + pack_writer \<times> fs" where
  "pw_add E oid content w d = push_packed oid (zenc E content) w d"

definition pw_is_empty :: "pack_writer \<Rightarrow> bool" where
  "pw_is_empty w = (pw_index w = [])"

definition pw_finish :: "ext \<Rightarrow> pack_writer \<Rightarrow> fs \<Rightarrow> repo_error + string \<times> fs" where
  "pw_finish E w d =
     rbind (fs_read d pw_tmp) (\<lambda>bytes. let oid = blake3 E bytes in
     rbind (fs_rename pw_tmp (pack_path oid) d) (\<lambda>d.
     rbind (fs_write (idx_path oid) (idx_json E (pw_index w)) d) (\<lambda>d. Inr (oid, d))))"

section \<open>The object store\<close>

definition is_hex :: "char \<Rightarrow> bool" where
  "is_hex c = (c \<in> set ''0123456789abcdefABCDEF'')"

definition is_object_id :: "string \<Rightarrow> bool" where
  "is_object_id oid = (length oid = 64 \<and> list_all is_hex oid)"

definition object_path :: "string \<Rightarrow> path" where
  "object_path oid = [''objects'', take 2 oid, drop 2 oid]"

text \<open>\<^verbatim>\<open>Path::extension\<close>, with the stem before the last dot.\<close>

definition file_ext :: "string \<Rightarrow> (string \<times> string) option" where
  "file_ext n = (let ps = split_on (CHR ''.'') n; stem = join ''.'' (butlast ps)
     in if stem = [] then None else Some (stem, last ps))"

definition load_packs :: "ext \<Rightarrow> fs \<Rightarrow> packfile list" where
  "load_packs E d = (case read_dir d pack_dir of None \<Rightarrow> [] | Some names \<Rightarrow>
     List.map_filter (\<lambda>n. case file_ext n of None \<Rightarrow> None | Some (stem, e) \<Rightarrow>
       if e = ''idx''
       then (case pack_open E d (pack_dir @ [stem @ ''.pack'']) (pack_dir @ [n]) of
               Inr pf \<Rightarrow> Some pf | Inl _ \<Rightarrow> None)
       else None) names)"

definition store_new :: "ext \<Rightarrow> fs \<Rightarrow> repo" where
  "store_new E d = \<lparr>disk = d, packs = load_packs E d\<rparr>"

definition reload_packs :: "ext \<Rightarrow> repo \<Rightarrow> repo" where
  "reload_packs E r = r\<lparr>packs := load_packs E (disk r)\<rparr>"

definition loose_ids :: "fs \<Rightarrow> string list" where
  "loose_ids d = (case read_dir d [''objects''] of None \<Rightarrow> [] | Some subs \<Rightarrow>
     concat (map (\<lambda>sub. if length sub = 2 \<and> is_dir d [''objects'', sub]
       then (case read_dir d [''objects'', sub] of None \<Rightarrow> [] | Some fs \<Rightarrow>
         map (\<lambda>f. sub @ f) (filter (\<lambda>f. \<not> ends_with ''.tmp'' f) fs))
       else []) subs))"

definition all_ids :: "repo \<Rightarrow> string list" where
  "all_ids r = remdups (loose_ids (disk r) @ concat (map pack_ids (packs r)))"

definition store_write :: "ext \<Rightarrow> string \<Rightarrow> repo \<Rightarrow> repo_error + string \<times> repo" where
  "store_write E content r =
     (let oid = blake3 E content; p = object_path oid; z = zenc E content
      in case fs_create_new p z (disk r) of
        Inr d \<Rightarrow> Inr (oid, r\<lparr>disk := d\<rparr>)
      | Inl e \<Rightarrow>
          if e = Io AlreadyExists then Inr (oid, r)
          else if e = Io NotFound
          then rbind (create_dir_all [''objects'', take 2 oid] (disk r)) (\<lambda>d.
            case fs_create_new p z d of
              Inr d' \<Rightarrow> Inr (oid, r\<lparr>disk := d'\<rparr>)
            | Inl e \<Rightarrow> if e = Io AlreadyExists then Inr (oid, r\<lparr>disk := d\<rparr>) else Inl e)
          else Inl e)"

fun packs_read :: "ext \<Rightarrow> string \<Rightarrow> packfile list \<Rightarrow> repo_error + string option" where
  "packs_read E oid [] = Inr None"
| "packs_read E oid (pf # pfs) = rbind (pack_read E oid pf) (\<lambda>v.
     case v of Some c \<Rightarrow> Inr (Some c) | None \<Rightarrow> packs_read E oid pfs)"

definition store_read :: "ext \<Rightarrow> repo \<Rightarrow> string \<Rightarrow> repo_error + string" where
  "store_read E r oid =
     (if \<not> is_object_id oid then Inl (Other (''invalid object id: '' @ oid))
      else rbind (packs_read E oid (packs r)) (\<lambda>v. case v of
        Some c \<Rightarrow> Inr c
      | None \<Rightarrow> rbind (fs_read (disk r) (object_path oid)) (\<lambda>z. ok_or (zdec E z) (Io InvalidData))))"

definition store_exists :: "repo \<Rightarrow> string \<Rightarrow> bool" where
  "store_exists r oid =
     (is_object_id oid \<and> (list_ex (pack_contains oid) (packs r) \<or> fs_exists (disk r) (object_path oid)))"

section \<open>Paths of objects stay inside the store\<close>

lemma is_hex_plain: "is_hex c \<Longrightarrow> c \<noteq> CHR ''/'' \<and> c \<noteq> CHR ''.'' \<and> \<not> is_ws c"
  by (auto simp: is_hex_def is_ws_def)

lemma components_plain: "s \<noteq> [] \<Longrightarrow> list_all is_hex s \<Longrightarrow> components s = [s]"
proof -
  assume s: "s \<noteq> []" "list_all is_hex s"
  then have "CHR ''/'' \<notin> set s" "CHR ''.'' \<notin> set s"
    by (auto simp: list_all_iff dest: is_hex_plain)
  then have "split_on (CHR ''/'') s = [s]" "s \<noteq> ''.''" by (auto intro: split_on_none)
  with s(1) show ?thesis by (simp add: components_def)
qed

lemma object_path_join:
  assumes "is_object_id i"
  shows "object_path i = path_join (path_join [''objects''] (take 2 i)) (drop 2 i)"
proof -
  have hex: "list_all is_hex (take 2 i)" "list_all is_hex (drop 2 i)" "take 2 i \<noteq> []" "drop 2 i \<noteq> []"
    using assms by (auto simp: is_object_id_def list_all_iff dest: in_set_takeD in_set_dropD)
  moreover have "take 1 (take 2 i) \<noteq> ''/''" "take 1 (drop 2 i) \<noteq> ''/''"
    using hex by (cases "take 2 i"; cases "drop 2 i"; auto simp: is_hex_def)+
  ultimately show ?thesis by (simp add: path_join_def components_plain object_path_def)
qed

lemma object_path_inject: "object_path i = object_path j \<longleftrightarrow> i = j"
  by (auto simp: object_path_def) (metis append_take_drop_id)

section \<open>Storing an object\<close>

definition zstd_ok :: "ext \<Rightarrow> bool" where
  "zstd_ok E = ((\<forall>c. zdec E (zenc E c) = Some c) \<and> (\<forall>c. is_object_id (blake3 E c)))"

text \<open>A sound store: every object it holds can be read and hashes to its name.\<close>

definition store_ok :: "ext \<Rightarrow> repo \<Rightarrow> bool" where
  "store_ok E r = (zstd_ok E \<and>
     (\<forall>i. store_exists r i \<longrightarrow> (\<exists>c. store_read E r i = Inr c \<and> blake3 E c = i)))"

lemma fs_create_new_Inr:
  "fs_create_new p c fs = Inr fs' \<longleftrightarrow>
     is_dir fs (butlast p) \<and> \<not> fs_exists fs p \<and> fs' = im_insert p (File c) fs"
  by (auto simp: fs_create_new_def res_simps parent_ok_iff)

lemma fs_create_new_exists: "fs_create_new p c fs = Inl (Io AlreadyExists) \<Longrightarrow> fs_exists fs p"
  by (auto simp: fs_create_new_def parent_ok_def res_simps split: option.splits node.splits if_splits)

lemma make_dirs_lookup:
  "make_dirs base cs fs = Inr fs' \<Longrightarrow>
     fs_lookup fs' q = fs_lookup fs q \<or> (\<exists>k. q = base @ take k cs \<and> fs_lookup fs' q = Some Dir)"
proof (induction cs arbitrary: base fs)
  case (Cons c cs)
  then obtain fs1 where 1: "make_dir (base @ [c]) fs = Inr fs1" "make_dirs (base @ [c]) cs fs1 = Inr fs'"
    by (auto simp: res_simps)
  note look = make_dir_lookup(1) [OF 1(1)]
  consider "fs_lookup fs' q = fs_lookup fs1 q"
    | k where "q = base @ take (Suc k) (c # cs)" "fs_lookup fs' q = Some Dir"
    using Cons.IH [OF 1(2)] by auto
  then show ?case
  proof cases
    case 1
    show ?thesis
    proof (cases "q = base @ [c]")
      case True
      then have "fs_lookup fs' q = Some Dir" using 1 look by simp
      then show ?thesis using True by (intro disjI2 exI [of _ 1]) simp
    qed (use 1 look in simp)
  qed blast
qed simp

lemma create_dir_all_lookup:
  assumes "create_dir_all p fs = Inr fs'" "length p < length q"
  shows "fs_lookup fs' q = fs_lookup fs q"
  using make_dirs_lookup [of "[]" p fs fs' q] assms by (auto simp: create_dir_all_def)

text \<open>A write either finds the object there or creates it, in a fan-out directory made if need be.\<close>

lemma store_write_cases:
  assumes "store_write E c r = Inr (i, r')"
  obtains d where "i = blake3 E c" "r' = r\<lparr>disk := d\<rparr>"
      "d = disk r \<or> create_dir_all [''objects'', take 2 i] (disk r) = Inr d" "fs_exists d (object_path i)"
  | d d' where "i = blake3 E c" "r' = r\<lparr>disk := d'\<rparr>"
      "d = disk r \<or> create_dir_all [''objects'', take 2 i] (disk r) = Inr d"
      "fs_create_new (object_path i) (zenc E c) d = Inr d'"
proof (cases "fs_create_new (object_path (blake3 E c)) (zenc E c) (disk r)")
  case (Inr d)
  then show ?thesis using assms that(2) [of d "disk r"] by (simp add: store_write_def Let_def)
next
  case (Inl e)
  show ?thesis
  proof (cases "e = Io AlreadyExists")
    case True
    then have "fs_exists (disk r) (object_path (blake3 E c))" using Inl fs_create_new_exists by simp
    then show ?thesis using assms Inl True that(1) [of "disk r"] by (simp add: store_write_def Let_def)
  next
    case False
    with assms Inl obtain d where d: "create_dir_all [''objects'', take 2 (blake3 E c)] (disk r) = Inr d"
        "(case fs_create_new (object_path (blake3 E c)) (zenc E c) d of
            Inr d' \<Rightarrow> Inr (blake3 E c, r\<lparr>disk := d'\<rparr>)
          | Inl e \<Rightarrow> if e = Io AlreadyExists then Inr (blake3 E c, r\<lparr>disk := d\<rparr>) else Inl e) = Inr (i, r')"
      by (auto simp: store_write_def Let_def res_simps split: if_splits)
    show ?thesis
    proof (cases "fs_create_new (object_path (blake3 E c)) (zenc E c) d")
      case (Inl e')
      then have "e' = Io AlreadyExists" "i = blake3 E c" "r' = r\<lparr>disk := d\<rparr>" using d(2) by (auto split: if_splits)
      moreover have "fs_exists d (object_path i)" using Inl calculation fs_create_new_exists by simp
      ultimately show ?thesis using d(1) that(1) [of d] by simp
    next
      case (Inr d')
      then show ?thesis using d that(2) [of d' d] by simp
    qed
  qed
qed

lemma fan_out_same:
  assumes "d = disk r \<or> create_dir_all [''objects'', sub] (disk r) = Inr d"
  shows "fs_lookup d (object_path j) = fs_lookup (disk r) (object_path j)" "contents d = contents (disk r)"
  using assms create_dir_all_lookup [of "[''objects'', sub]" "disk r" d "object_path j"]
    create_dir_all_contents [of "[''objects'', sub]" "disk r" d] by (auto simp: object_path_def)

lemma store_write_effect:
  assumes "store_write E c r = Inr (i, r')"
  shows "i = blake3 E c" "packs r' = packs r"
    "fs_exists (disk r) (object_path i) \<and> contents (disk r') = contents (disk r) \<or>
     \<not> fs_exists (disk r) (object_path i) \<and>
       contents (disk r') = (contents (disk r))(object_path i \<mapsto> zenc E c)"
    "\<And>j. fs_exists (disk r') (object_path j) \<longleftrightarrow> j = i \<or> fs_exists (disk r) (object_path j)"
proof -
  have p: "object_path j \<noteq> []" for j by (simp add: object_path_def)
  have "i = blake3 E c \<and> packs r' = packs r \<and>
    (fs_exists (disk r) (object_path i) \<and> contents (disk r') = contents (disk r) \<or>
     \<not> fs_exists (disk r) (object_path i) \<and>
       contents (disk r') = (contents (disk r))(object_path i \<mapsto> zenc E c)) \<and>
    (\<forall>j. fs_exists (disk r') (object_path j) \<longleftrightarrow> j = i \<or> fs_exists (disk r) (object_path j))"
    using assms
  proof (cases rule: store_write_cases)
    case (1 d)
    then show ?thesis using fan_out_same [OF 1(3)] by (auto simp: fs_exists_def)
  next
    case (2 d d')
    then have "d' = im_insert (object_path i) (File (zenc E c)) d" "\<not> fs_exists d (object_path i)"
      by (simp_all add: fs_create_new_Inr)
    then show ?thesis using fan_out_same [OF 2(3)] 2(1,2) p
      by (auto simp: fs_exists_def contents_insert lookup_insert object_path_inject)
  qed
  then show "i = blake3 E c" "packs r' = packs r"
    "fs_exists (disk r) (object_path i) \<and> contents (disk r') = contents (disk r) \<or>
     \<not> fs_exists (disk r) (object_path i) \<and>
       contents (disk r') = (contents (disk r))(object_path i \<mapsto> zenc E c)"
    "\<And>j. fs_exists (disk r') (object_path j) \<longleftrightarrow> j = i \<or> fs_exists (disk r) (object_path j)"
    by blast+
qed

lemma packs_read_None:
  "packs_read E i ps = Inr None \<longleftrightarrow> \<not> list_ex (pack_contains i) ps"
  by (induction ps) (auto simp: pack_read_def pack_contains_def res_simps split: option.splits prod.splits if_splits)

lemma store_read_id: "store_read E r i = Inr c \<Longrightarrow> is_object_id i"
  by (auto simp: store_read_def split: if_splits)

lemma packs_read_Some: "packs_read E i ps = Inr (Some c) \<Longrightarrow> list_ex (pack_contains i) ps"
  by (rule ccontr) (simp flip: packs_read_None [of E i ps])

lemma store_read_exists:
  assumes "store_read E r i = Inr c"
  shows "store_exists r i"
proof -
  note i = store_read_id [OF assms]
  with assms obtain v where v: "packs_read E i (packs r) = Inr v"
      "v = None \<Longrightarrow> fs_read (disk r) (object_path i) \<in> range Inr"
    by (auto simp: store_read_def res_simps split: option.splits)
  show ?thesis
  proof (cases v)
    case None
    then have "fs_exists (disk r) (object_path i)"
      using v(2) by (auto simp: fs_read_iff contents_def fs_exists_def split: option.splits)
    then show ?thesis using i by (simp add: store_exists_def)
  next
    case (Some d)
    then show ?thesis using i v(1) packs_read_Some by (simp add: store_exists_def)
  qed
qed

lemma store_read_cong:
  assumes "packs r' = packs r" "contents (disk r') (object_path i) = contents (disk r) (object_path i)"
    "store_read E r i = Inr c"
  shows "store_read E r' i = Inr c"
  using assms by (auto simp: store_read_def res_simps fs_read_iff split: if_splits option.splits)

lemma store_write_keeps:
  assumes "store_write E c r = Inr (i, r')" "store_read E r j = Inr d"
  shows "store_read E r' j = Inr d"
proof (cases "contents (disk r') (object_path j) = contents (disk r) (object_path j)")
  case True
  then show ?thesis using store_read_cong assms store_write_effect(2) by blast
next
  case False
  with store_write_effect(3) [OF assms(1)] have "j = i" "\<not> fs_exists (disk r) (object_path i)"
    by (auto simp: object_path_inject split: if_splits)
  then have "contents (disk r) (object_path j) = None" by (simp add: fs_exists_def contents_def)
  then have "packs_read E j (packs r) = Inr (Some d)"
    using assms(2) by (auto simp: store_read_def res_simps fs_read_iff split: if_splits option.splits)
  then show ?thesis
    using store_read_id [OF assms(2)] store_write_effect(2) [OF assms(1)] by (simp add: store_read_def)
qed

lemma store_write_stored:
  assumes "store_write E c r = Inr (i, r')" "zstd_ok E" "\<not> store_exists r i"
  shows "store_read E r' i = Inr c"
proof -
  note eff = store_write_effect [OF assms(1)]
  have i: "is_object_id i" using assms(2) eff(1) by (simp add: zstd_ok_def)
  with assms(3) have no: "packs_read E i (packs r') = Inr None" "\<not> fs_exists (disk r) (object_path i)"
    by (auto simp: store_exists_def packs_read_None eff(2))
  then have "contents (disk r') (object_path i) = Some (zenc E c)" using eff(3) by auto
  then have "fs_read (disk r') (object_path i) = Inr (zenc E c)" by (simp add: fs_read_iff)
  then show ?thesis using i no assms(2) by (simp add: store_read_def zstd_ok_def)
qed

lemma store_write_ok:
  assumes "store_write E c r = Inr (i, r')" "store_ok E r"
  shows "store_ok E r'" "store_exists r' i"
proof -
  note eff = store_write_effect [OF assms(1)]
  have z: "zstd_ok E" using assms(2) by (simp add: store_ok_def)
  then have i: "is_object_id i" using eff(1) by (simp add: zstd_ok_def)
  show ex: "store_exists r' i" using i eff(4) by (simp add: store_exists_def)
  have "\<exists>d. store_read E r' j = Inr d \<and> blake3 E d = j" if j: "store_exists r' j" for j
  proof (cases "store_exists r j")
    case True
    then show ?thesis using assms store_write_keeps store_ok_def by blast
  next
    case False
    with j have "j = i" by (auto simp: store_exists_def eff(2,4))
    then show ?thesis using store_write_stored [OF assms(1) z] False eff(1) by auto
  qed
  then show "store_ok E r'" using z by (simp add: store_ok_def)
qed

section \<open>Content-addressed stores\<close>

text \<open>
  What the rest of the repository relies on when it stores objects: a sound store stays sound,
  everything stored before is still there unchanged, and the new object is there under its digest.
\<close>

locale content_store =
  fixes ok :: "'s \<Rightarrow> bool"
    and get :: "'s \<Rightarrow> string \<Rightarrow> string option"
    and put :: "string \<Rightarrow> 's \<Rightarrow> 'e + string \<times> 's"
    and hash :: "string \<Rightarrow> string"
  assumes put_ok: "ok s \<Longrightarrow> put c s = Inr (i, s') \<Longrightarrow> ok s'"
    and put_id: "put c s = Inr (i, s') \<Longrightarrow> i = hash c"
    and put_get: "ok s \<Longrightarrow> put c s = Inr (i, s') \<Longrightarrow> get s' i \<noteq> None"
    and put_keeps: "put c s = Inr (i, s') \<Longrightarrow> get s j = Some d \<Longrightarrow> get s' j = Some d"
    and get_hash: "ok s \<Longrightarrow> get s i = Some d \<Longrightarrow> hash d = i"
begin

text \<open>With no other content of the same digest in sight, reading gives back what was stored.\<close>

lemma put_get_same:
  assumes "ok s" "put c s = Inr (i, s')" "\<And>d. get s' i = Some d \<Longrightarrow> hash d = hash c \<Longrightarrow> d = c"
  shows "get s' i = Some c"
proof -
  obtain d where d: "get s' i = Some d" using put_get [OF assms(1,2)] by auto
  then have "hash d = hash c" using get_hash put_ok put_id assms(1,2) by blast
  then show ?thesis using assms(3) d by blast
qed

fun put_each :: "string list \<Rightarrow> 's \<Rightarrow> 'e + 's" where
  "put_each [] s = Inr s"
| "put_each (c # cs) s = rbind (put c s) (\<lambda>(i, s'). put_each cs s')"

lemma put_each_spec:
  assumes "ok s" "put_each cs s = Inr s'"
  shows "ok s' \<and> (\<forall>c \<in> set cs. get s' (hash c) \<noteq> None) \<and> (\<forall>j d. get s j = Some d \<longrightarrow> get s' j = Some d)"
  using assms
proof (induction cs arbitrary: s)
  case (Cons c cs)
  then obtain i s1 where 1: "put c s = Inr (i, s1)" "put_each cs s1 = Inr s'"
    by (auto simp: res_simps)
  with Cons have IH: "ok s'" "\<forall>c \<in> set cs. get s' (hash c) \<noteq> None"
      "\<And>j d. get s1 j = Some d \<Longrightarrow> get s' j = Some d"
    using put_ok by blast+
  have "get s' (hash c) \<noteq> None"
    using put_get [OF Cons.prems(1) 1(1)] put_id [OF 1(1)] IH(3) by auto
  with IH 1 show ?case using put_keeps by auto
qed simp

end

definition store_get :: "ext \<Rightarrow> repo \<Rightarrow> string \<Rightarrow> string option" where
  "store_get E r i = (case store_read E r i of Inr c \<Rightarrow> Some c | Inl _ \<Rightarrow> None)"

lemma store_get_iff: "store_get E r i = Some c \<longleftrightarrow> store_read E r i = Inr c"
  by (auto simp: store_get_def split: sum.splits)

interpretation object_store: content_store "store_ok E" "store_get E" "store_write E" "blake3 E" for E
proof unfold_locales
  fix s c i s'
  assume "store_ok E s" "store_write E c s = Inr (i, s')"
  then show "store_ok E s'" "store_get E s' i \<noteq> None"
    using store_write_ok store_ok_def store_get_iff by (metis, metis option.distinct(1))
next
  fix s i d
  assume "store_ok E s" "store_get E s i = Some d"
  then show "blake3 E d = i"
    by (metis store_get_iff store_ok_def store_read_exists sum.inject(2))
qed (auto simp: store_get_iff store_write_effect(1) store_write_keeps)

lemma store_write_succeeds:
  assumes "contents (disk r) [''objects''] = None" "contents (disk r) [''objects'', take 2 (blake3 E c)] = None"
  shows "\<exists>r'. store_write E c r = Inr (blake3 E c, r')"
proof -
  let ?p = "object_path (blake3 E c)" and ?q = "[''objects'', take 2 (blake3 E c)]"
  have bl: "butlast ?p = ?q" by (simp add: object_path_def)
  have new: "\<exists>e. fs_create_new ?p z d = Inl e \<and> e = Io AlreadyExists \<or> (\<exists>d'. fs_create_new ?p z d = Inr d')"
    if "is_dir d ?q" for z d
    using that by (auto simp: fs_create_new_def parent_ok_def bl is_dir_def)
  show ?thesis
  proof (cases "is_dir (disk r) ?q")
    case True
    from new [OF this, of "zenc E c"] show ?thesis by (auto simp: store_write_def Let_def)
  next
    case False
    with assms(2) have "fs_lookup (disk r) ?q = None"
      by (auto simp: is_dir_def contents_def split: option.splits node.splits)
    then have nf: "fs_create_new ?p (zenc E c) (disk r) = Inl (Io NotFound)"
      by (simp add: fs_create_new_def parent_ok_def bl)
    have "\<forall>k \<in> {1..length ?q}. contents (disk r) ([] @ take k ?q) = None"
      using assms by (auto simp: numeral_2_eq_2 le_Suc_eq)
    from make_dirs_ok [OF this] obtain d where d: "create_dir_all ?q (disk r) = Inr d" "is_dir d ?q"
      by (auto simp: create_dir_all_def)
    from new [OF d(2), of "zenc E c"] show ?thesis using nf d(1)
      by (auto simp: store_write_def Let_def)
  qed
qed

section \<open>A pack under construction\<close>

fun pw_add_all :: "ext \<Rightarrow> (string \<times> string) list \<Rightarrow> pack_writer \<Rightarrow> fs \<Rightarrow> repo_error + pack_writer \<times> fs" where
  "pw_add_all E [] w d = Inr (w, d)"
| "pw_add_all E ((i, c) # objs) w d = rbind (pw_add E i c w d) (\<lambda>(w, d). pw_add_all E objs w d)"

definition indexed_bytes :: "ext \<Rightarrow> (string \<rightharpoonup> string) \<Rightarrow> (string, nat \<times> nat) bmap \<Rightarrow> string \<Rightarrow> bool" where
  "indexed_bytes E objs idx bytes = (\<forall>i. case bm_get idx i of
     None \<Rightarrow> objs i = None
   | Some (off, len) \<Rightarrow> \<exists>c. objs i = Some c \<and> off + len \<le> length bytes \<and> slice off len bytes = zenc E c)"

definition pw_inv :: "ext \<Rightarrow> (string \<rightharpoonup> string) \<Rightarrow> pack_writer \<Rightarrow> fs \<Rightarrow> bool" where
  "pw_inv E objs w d = (bm_wf (pw_index w) \<and> (\<exists>bytes. contents d pw_tmp = Some bytes \<and>
     pw_offset w = length bytes \<and> indexed_bytes E objs (pw_index w) bytes))"

lemma pw_new_inv: "pw_new d = Inr (w, d') \<Longrightarrow> pw_inv E Map.empty w d' \<and> contents d' = (contents d)(pw_tmp \<mapsto> [])"
  by (auto simp: pw_new_def res_simps fs_simps pw_inv_def indexed_bytes_def omap_simps)

lemma indexed_bytes_append:
  assumes "indexed_bytes E objs idx bytes" "bm_get idx i = None" "bm_wf idx"
  shows "indexed_bytes E (objs(i \<mapsto> c)) (bm_insert i (length bytes, length (zenc E c)) idx) (bytes @ zenc E c)"
  unfolding indexed_bytes_def
proof (rule allI)
  fix j
  show "case bm_get (bm_insert i (length bytes, length (zenc E c)) idx) j of
     None \<Rightarrow> (objs(i \<mapsto> c)) j = None
   | Some (off, len) \<Rightarrow> \<exists>c'. (objs(i \<mapsto> c)) j = Some c' \<and> off + len \<le> length (bytes @ zenc E c) \<and>
       slice off len (bytes @ zenc E c) = zenc E c'"
    using assms(1) [unfolded indexed_bytes_def, rule_format, of j] assms(3)
    by (auto simp: omap_simps slice_def split: option.splits)
qed

lemma pw_add_inv:
  assumes "pw_inv E objs w d" "pw_add E i c w d = Inr (w', d')"
  shows "pw_inv E (if objs i = None then objs(i \<mapsto> c) else objs) w' d'"
    "\<And>q. q \<noteq> pw_tmp \<Longrightarrow> contents d' q = contents d q"
proof -
  from assms(1) obtain bytes where wf: "bm_wf (pw_index w)" and b: "contents d pw_tmp = Some bytes"
      "pw_offset w = length bytes" "indexed_bytes E objs (pw_index w) bytes"
    by (auto simp: pw_inv_def)
  have idx: "objs i = None \<longleftrightarrow> bm_get (pw_index w) i = None"
    using b(3) [unfolded indexed_bytes_def, rule_format, of i] by (auto split: option.splits)
  have "pw_inv E (if objs i = None then objs(i \<mapsto> c) else objs) w' d' \<and> (\<forall>q. q \<noteq> pw_tmp \<longrightarrow> contents d' q = contents d q)"
  proof (cases "bm_get (pw_index w) i")
    case None
    then have "contents d' = (contents d)(pw_tmp \<mapsto> bytes @ zenc E c)"
        "w' = \<lparr>pw_index = bm_insert i (length bytes, length (zenc E c)) (pw_index w),
          pw_offset = length bytes + length (zenc E c)\<rparr>"
      using assms(2) b by (auto simp: pw_add_def push_packed_def res_simps contents_append)
    then show ?thesis using None idx wf indexed_bytes_append [OF b(3) None wf] by (auto simp: pw_inv_def)
  next
    case (Some e)
    then have "w' = w" "d' = d" using assms(2) by (auto simp: pw_add_def push_packed_def)
    then show ?thesis using Some idx assms(1) by auto
  qed
  then show "pw_inv E (if objs i = None then objs(i \<mapsto> c) else objs) w' d'"
    "\<And>q. q \<noteq> pw_tmp \<Longrightarrow> contents d' q = contents d q" by blast+
qed

lemma pw_add_all_inv:
  assumes "pw_inv E objs w d" "pw_add_all E new w d = Inr (w', d')"
  shows "pw_inv E (map_of new ++ objs) w' d' \<and> (\<forall>q. q \<noteq> pw_tmp \<longrightarrow> contents d' q = contents d q)"
  using assms
proof (induction E new w d arbitrary: objs rule: pw_add_all.induct)
  case (2 E i c new w d)
  then obtain w1 d1 where 1: "pw_add E i c w d = Inr (w1, d1)" "pw_add_all E new w1 d1 = Inr (w', d')"
    by (auto simp: res_simps)
  note step = pw_add_inv [OF "2.prems"(1) 1(1)]
  have eq: "map_of new ++ (if objs i = None then objs(i \<mapsto> c) else objs) = map_of ((i, c) # new) ++ objs"
    by (auto simp: fun_eq_iff map_add_def split: option.splits)
  from "2.IH" [OF 1(1) refl step(1) 1(2)] show ?case
    unfolding eq using step(2) by (simp add: fun_upd_def)
qed simp

lemma pack_names_differ: "pw_tmp \<noteq> pack_path i" "pw_tmp \<noteq> idx_path j" "pack_path i \<noteq> idx_path j"
proof -
  have "last (''pack-'' @ i @ ''.pack'') \<noteq> last (''pack-'' @ j @ ''.idx'')" by simp
  then have "''pack-'' @ i @ ''.pack'' \<noteq> ''pack-'' @ j @ ''.idx''" by metis
  then show "pack_path i \<noteq> idx_path j" by (simp add: pack_path_def idx_path_def)
  show "pw_tmp \<noteq> pack_path i" "pw_tmp \<noteq> idx_path j"
    by (simp_all add: pw_tmp_def pack_path_def idx_path_def)
qed

lemma pw_finish_contents:
  assumes "pw_finish E w d = Inr (i, d')" "contents d pw_tmp = Some bytes"
  shows "i = blake3 E bytes"
    "contents d' = (contents d)(pw_tmp := None, pack_path i \<mapsto> bytes, idx_path i \<mapsto> idx_json E (pw_index w))"
proof -
  from assms obtain d1 where i: "i = blake3 E bytes" and 1: "fs_rename pw_tmp (pack_path i) d = Inr d1"
      "fs_write (idx_path i) (idx_json E (pw_index w)) d1 = Inr d'"
    by (auto simp: pw_finish_def res_simps fs_read_iff Let_def)
  show "i = blake3 E bytes" by (rule i)
  show "contents d' = (contents d)(pw_tmp := None, pack_path i \<mapsto> bytes, idx_path i \<mapsto> idx_json E (pw_index w))"
    using contents_rename_file [OF 1(1) assms(2) pack_names_differ(1)] contents_write [OF 1(2)]
      pack_names_differ(1) [of i] by (auto simp: fun_upd_twist)
qed

lemma pack_finish_open:
  assumes "pw_inv E objs w d" "pw_finish E w d = Inr (i, d')"
    "idx_parse E (idx_json E (pw_index w)) = Some (pw_index w)" "zstd_ok E"
  shows "\<exists>pf. pack_open E d' (pack_path i) (idx_path i) = Inr pf \<and> (\<forall>j. pack_read E j pf = Inr (objs j))"
proof -
  from assms(1) obtain bytes where b: "contents d pw_tmp = Some bytes" "indexed_bytes E objs (pw_index w) bytes"
    by (auto simp: pw_inv_def)
  note fin = pw_finish_contents(2) [OF assms(2) b(1)]
  let ?pf = "\<lparr>pk_bytes = bytes, pk_index = pw_index w\<rparr>"
  have "fs_read d' (idx_path i) = Inr (idx_json E (pw_index w))" "fs_read d' (pack_path i) = Inr bytes"
    using fin pack_names_differ(3) [of i i] by (auto simp: fs_read_iff)
  then have "pack_open E d' (pack_path i) (idx_path i) = Inr ?pf"
    using assms(3) by (simp add: pack_open_def)
  moreover have "pack_read E j ?pf = Inr (objs j)" for j
    using b(2) [unfolded indexed_bytes_def, rule_format, of j] assms(4)
    by (auto simp: pack_read_def zstd_ok_def split: option.splits)
  ultimately show ?thesis by blast
qed

section \<open>Properties\<close>

text \<open>
  C14. Storing an object in a sound store always succeeds when no file stands where its directory
  belongs. The object is there afterwards under the digest of its content, with that content if it
  was new, and everything that could be read before still reads the same; the store stays sound.
\<close>

theorem store_write_spec:
  assumes "store_ok E r" "contents (disk r) [''objects''] = None"
    "contents (disk r) [''objects'', take 2 (blake3 E c)] = None"
  shows "\<exists>r'. store_write E c r = Inr (blake3 E c, r') \<and> store_ok E r' \<and> store_exists r' (blake3 E c) \<and>
    (\<not> store_exists r (blake3 E c) \<longrightarrow> store_read E r' (blake3 E c) = Inr c) \<and>
    (\<forall>j d. store_read E r j = Inr d \<longrightarrow> store_read E r' j = Inr d)"
proof -
  obtain r' where w: "store_write E c r = Inr (blake3 E c, r')"
    using store_write_succeeds assms(2,3) by blast
  moreover have "zstd_ok E" using assms(1) by (simp add: store_ok_def)
  ultimately show ?thesis
    using store_write_ok [OF w assms(1)] store_write_keeps [OF w] store_write_stored [OF w] by blast
qed

text \<open>Stand-ins for the packages, to evaluate the model: a digest, and no compression.\<close>

definition hex_digit :: "nat \<Rightarrow> char" where
  "hex_digit n = ''0123456789abcdef'' ! (n mod 16)"

definition plain_digest :: "string \<Rightarrow> string" where
  "plain_digest s = take 64 (concat (map (\<lambda>c. [hex_digit (of_char c div 16), hex_digit (of_char c)]) s)
     @ replicate 64 (CHR ''0''))"

definition plain_ext :: ext where
  "plain_ext = \<lparr>blake3 = plain_digest, zenc = (\<lambda>c. c), zdec = Some,
     manifest_json = (\<lambda>_. []), manifest_parse = (\<lambda>_. None), commit_json = (\<lambda>_. []), commit_parse = (\<lambda>_. None),
     tag_json = (\<lambda>_. []), tag_parse = (\<lambda>_. None), idx_json = (\<lambda>_. []), idx_parse = (\<lambda>_. None)\<rparr>"

lemma plain_digest_id: "is_object_id (plain_digest c)"
proof -
  have "hex_digit n \<in> set ''0123456789abcdef''" for n
    unfolding hex_digit_def by (rule nth_mem) simp
  then have hex: "is_hex (hex_digit n)" for n by (auto simp: is_hex_def)
  have "\<forall>x \<in> set (plain_digest c). is_hex x"
  proof
    fix x assume "x \<in> set (plain_digest c)"
    then have "x \<in> range hex_digit \<or> x = CHR ''0''"
      unfolding plain_digest_def by (auto dest!: in_set_takeD)
    then show "is_hex x" using hex by (auto simp: is_hex_def)
  qed
  then show ?thesis by (simp add: is_object_id_def list_all_iff plain_digest_def)
qed

lemma plain_ext_zstd: "zstd_ok plain_ext"
  by (simp add: zstd_ok_def plain_ext_def plain_digest_id)

definition empty_repo :: repo where
  "empty_repo = \<lparr>disk = [([''objects''], Dir)], packs = []\<rparr>"

lemma empty_repo_ok: "store_ok plain_ext empty_repo"
  by (simp add: store_ok_def plain_ext_zstd store_exists_def empty_repo_def fs_exists_def fs_lookup_def
      object_path_def im_get_def)

theorem store_write_spec_witness:
  "\<exists>r'. store_write plain_ext ''chunk'' empty_repo = Inr (plain_digest ''chunk'', r') \<and>
     store_read plain_ext r' (plain_digest ''chunk'') = Inr ''chunk''"
proof -
  have "\<not> store_exists empty_repo (plain_digest ''chunk'')"
    by (simp add: store_exists_def empty_repo_def fs_exists_def fs_lookup_def object_path_def im_get_def)
  moreover have "blake3 plain_ext = plain_digest" by (simp add: plain_ext_def)
  ultimately show ?thesis
    using store_write_spec [OF empty_repo_ok, of "''chunk''"]
    by (auto simp: empty_repo_def contents_def fs_lookup_def im_get_def)
qed

text \<open>
  A pack reads back what went into it. After any sequence of objects was added to a new pack and
  the pack was finished, opening the two files it left finds, under every id, the content that
  was added first under it, and nothing under an id never added; no other file has changed.
\<close>

theorem pack_roundtrip:
  assumes "zstd_ok E" "pw_new d = Inr (w0, d0)" "pw_add_all E objs w0 d0 = Inr (w, d1)"
    "pw_finish E w d1 = Inr (i, d2)" "idx_parse E (idx_json E (pw_index w)) = Some (pw_index w)"
  shows "(\<exists>pf. pack_open E d2 (pack_path i) (idx_path i) = Inr pf \<and> (\<forall>j. pack_read E j pf = Inr (map_of objs j))) \<and>
    (\<forall>q. q \<notin> {pw_tmp, pack_path i, idx_path i} \<longrightarrow> contents d2 q = contents d q)"
proof -
  note new = pw_new_inv [OF assms(2)]
  then have "pw_inv E Map.empty w0 d0" by blast
  from pw_add_all_inv [OF this assms(3)]
  have add: "pw_inv E (map_of objs) w d1" "\<And>q. q \<noteq> pw_tmp \<Longrightarrow> contents d1 q = contents d0 q" by auto
  obtain bytes where b: "contents d1 pw_tmp = Some bytes" using add(1) by (auto simp: pw_inv_def)
  have "contents d2 q = contents d q" if "q \<notin> {pw_tmp, pack_path i, idx_path i}" for q
    using that new add(2) [of q] pw_finish_contents(2) [OF assms(4) b] by auto
  with pack_finish_open [OF add(1) assms(4,5,1)] show ?thesis by blast
qed

definition index_ext :: ext where
  "index_ext = plain_ext\<lparr>idx_parse := (\<lambda>_. Some [(''a'', 0, 2), (''b'', 2, 1)])\<rparr>"

fun is_ok :: "'e + 'a \<Rightarrow> bool" where
  "is_ok (Inr _) = True"
| "is_ok (Inl _) = False"

lemma is_ok_iff: "is_ok r \<longleftrightarrow> (\<exists>a. r = Inr a)"
  by (cases r) auto

definition pack_run :: "repo_error + (pack_writer \<times> fs) \<times> string \<times> fs" where
  "pack_run = rbind (pw_new (disk empty_repo)) (\<lambda>(w, d).
     rbind (pw_add_all index_ext [(''a'', ''xy''), (''b'', ''z''), (''a'', ''q'')] w d) (\<lambda>(w, d).
     rbind (pw_finish index_ext w d) (\<lambda>r. Inr ((w, d), r))))"

lemma pack_run_ok:
  "(case pack_run of Inl _ \<Rightarrow> False | Inr ((w, _), _) \<Rightarrow> pw_index w = [(''a'', 0, 2), (''b'', 2, 1)])"
  by code_simp

theorem pack_roundtrip_witness:
  "\<exists>w0 d0 w d i d' pf. pw_new (disk empty_repo) = Inr (w0, d0) \<and>
     pw_add_all index_ext [(''a'', ''xy''), (''b'', ''z''), (''a'', ''q'')] w0 d0 = Inr (w, d) \<and>
     pw_finish index_ext w d = Inr (i, d') \<and> pack_open index_ext d' (pack_path i) (idx_path i) = Inr pf \<and>
     pack_read index_ext ''a'' pf = Inr (Some ''xy'') \<and> pack_read index_ext ''c'' pf = Inr None"
proof -
  obtain w0 d0 w d i d' where run: "pw_new (disk empty_repo) = Inr (w0, d0)"
      "pw_add_all index_ext [(''a'', ''xy''), (''b'', ''z''), (''a'', ''q'')] w0 d0 = Inr (w, d)"
      "pw_finish index_ext w d = Inr (i, d')"
    and idx: "pw_index w = [(''a'', 0, 2), (''b'', 2, 1)]"
    using pack_run_ok by (auto simp: pack_run_def res_simps simp del: pw_add_all.simps split: sum.splits)
  then have "idx_parse index_ext (idx_json index_ext (pw_index w)) = Some (pw_index w)"
    by (simp add: index_ext_def)
  moreover have "zstd_ok index_ext" using plain_ext_zstd by (simp add: zstd_ok_def index_ext_def)
  ultimately obtain pf where "pack_open index_ext d' (pack_path i) (idx_path i) = Inr pf"
      "\<And>j. pack_read index_ext j pf = Inr (map_of [(''a'', ''xy''), (''b'', ''z''), (''a'', ''q'')] j)"
    using pack_roundtrip [OF _ run] by blast
  then show ?thesis using run by fastforce
qed

end
