(* ===== verification/RepoRefs.thy ===== *)
theory RepoRefs imports
  RepoObjects
begin

text \<open>
  \<^verbatim>\<open>crates/repo/src/repository.rs\<close>: branches, tags, \<^verbatim>\<open>HEAD\<close>, their reflogs, the objects of history,
  the resolution of revisions, the shallow and the promisor markers. Paths are relative to the
  repository directory. An operation that fails returns only its error: what it had written by
  then is not part of the result.
\<close>

section \<open>Names of refs\<close>

definition safe_ref_name :: "string \<Rightarrow> bool" where
  "safe_ref_name n = (n \<noteq> [] \<and> length n \<le> 255 \<and> hd n \<noteq> CHR ''/'' \<and> hd n \<noteq> CHR ''.'' \<and>
     last n \<noteq> CHR ''/'' \<and> \<not> contains ''..'' n \<and> CHR 0x5C \<notin> set n \<and> CHR 0x00 \<notin> set n)"

definition branch_path :: "string \<Rightarrow> path" where
  "branch_path n = path_join [''refs'', ''heads''] n"

definition tag_path :: "string \<Rightarrow> path" where
  "tag_path n = path_join [''refs'', ''tags''] n"

definition remote_ref_path :: "string \<Rightarrow> string \<Rightarrow> path" where
  "remote_ref_path n b = path_join (path_join [''refs'', ''remotes''] n) b"

definition head_path :: path where "head_path = [''HEAD'']"

definition head_log_path :: path where "head_log_path = [''logs'', ''HEAD'']"

definition branch_log_path :: "string \<Rightarrow> path" where
  "branch_log_path n = path_join [''logs'', ''refs'', ''heads''] n"

section \<open>Reflogs\<close>

definition zero_id :: string where "zero_id = replicate 64 (CHR ''0'')"

definition one_line :: "string \<Rightarrow> string" where
  "one_line s = map (\<lambda>c. if c = CHR 0x0A then CHR '' '' else c) s"

definition reflog_line :: "string option \<Rightarrow> string \<Rightarrow> string \<Rightarrow> string" where
  "reflog_line from to msg = (case from of None \<Rightarrow> zero_id | Some f \<Rightarrow> f) @ '' '' @ to @ '' '' @ one_line msg"

definition append_reflog :: "path \<Rightarrow> string option \<Rightarrow> string \<Rightarrow> string \<Rightarrow> fs \<Rightarrow> repo_error + fs" where
  "append_reflog p from to msg d = rbind (create_dir_all (butlast p) d)
     (fs_append p (reflog_line from to msg @ [CHR 0x0A]))"

definition read_reflog :: "fs \<Rightarrow> path \<Rightarrow> string list" where
  "read_reflog d p = (case fs_read d p of Inl _ \<Rightarrow> []
     | Inr s \<Rightarrow> rev (filter (\<lambda>l. trim l \<noteq> []) (lines s)))"

definition at_brace :: string where
  "at_brace = [CHR ''@'', CHR 0x7B]"

definition at_entry :: "nat \<Rightarrow> string" where
  "at_entry n = at_brace @ show_nat n @ ''}''"

definition reflog_at :: "string list \<Rightarrow> string \<Rightarrow> nat \<Rightarrow> repo_error + string" where
  "reflog_at entries what n =
     (if n < length entries
      then (case split_on (CHR '' '') (entries ! n) of
              _ # h # _ \<Rightarrow> if h \<noteq> [] then Inr h else Inl (BadRef (''malformed reflog entry '' @ at_entry n))
            | _ \<Rightarrow> Inl (BadRef (''malformed reflog entry '' @ at_entry n)))
      else Inl (BadRef (''reflog for '' @ what @ '' has no entry '' @ at_entry n)))"

definition record_head :: "string option \<Rightarrow> string \<Rightarrow> string \<Rightarrow> fs \<Rightarrow> repo_error + fs" where
  "record_head from to msg d = append_reflog head_log_path from to msg d"

definition reflog :: "fs \<Rightarrow> string list" where
  "reflog d = read_reflog d head_log_path"

definition branch_reflog :: "fs \<Rightarrow> string \<Rightarrow> string list" where
  "branch_reflog d n = (if safe_ref_name n then read_reflog d (branch_log_path n) else [])"

definition reflog_commit_at :: "fs \<Rightarrow> nat \<Rightarrow> repo_error + string" where
  "reflog_commit_at d n = reflog_at (reflog d) ''HEAD'' n"

definition branch_reflog_commit_at :: "fs \<Rightarrow> string \<Rightarrow> nat \<Rightarrow> repo_error + string" where
  "branch_reflog_commit_at d name n = reflog_at (branch_reflog d name) name n"

section \<open>Branches, tags and remote-tracking refs\<close>

text \<open>The text of a ref file, trimmed; an empty or unreadable file is no ref.\<close>

definition read_ref :: "fs \<Rightarrow> path \<Rightarrow> string option" where
  "read_ref d p = (case fs_read d p of Inl _ \<Rightarrow> None
     | Inr s \<Rightarrow> if trim s = [] then None else Some (trim s))"

definition read_branch :: "fs \<Rightarrow> string \<Rightarrow> string option" where
  "read_branch d n = (if safe_ref_name n then read_ref d (branch_path n) else None)"

definition write_branch :: "string \<Rightarrow> string \<Rightarrow> fs \<Rightarrow> repo_error + fs" where
  "write_branch n h d =
     (if \<not> safe_ref_name n then Inl (BadRef n)
      else let old = read_branch d n
           in rbind (fs_put (branch_path n) (h @ [CHR 0x0A]) d)
                (append_reflog (branch_log_path n) old h ''update''))"

definition delete_branch :: "string \<Rightarrow> fs \<Rightarrow> repo_error + fs" where
  "delete_branch n d =
     (if \<not> safe_ref_name n then Inl (BadRef n)
      else Inr (remove_file (branch_log_path n) (remove_file (branch_path n) d)))"

definition branches :: "fs \<Rightarrow> string list" where
  "branches d = (case read_dir d [''refs'', ''heads''] of None \<Rightarrow> [] | Some ns \<Rightarrow> sort ns)"

definition write_tag :: "string \<Rightarrow> string \<Rightarrow> fs \<Rightarrow> repo_error + fs" where
  "write_tag n c d =
     (if \<not> safe_ref_name n then Inl (BadRef n) else fs_put (tag_path n) (c @ [CHR 0x0A]) d)"

definition read_tag :: "fs \<Rightarrow> string \<Rightarrow> string option" where
  "read_tag d n = (if safe_ref_name n then read_ref d (tag_path n) else None)"

definition delete_tag :: "string \<Rightarrow> fs \<Rightarrow> repo_error + fs" where
  "delete_tag n d = (if \<not> safe_ref_name n then Inl (BadRef n) else Inr (remove_file (tag_path n) d))"

definition tags :: "fs \<Rightarrow> string list" where
  "tags d = (case read_dir d [''refs'', ''tags''] of None \<Rightarrow> [] | Some ns \<Rightarrow> sort ns)"

definition read_remote_ref :: "fs \<Rightarrow> string \<Rightarrow> string \<Rightarrow> string option" where
  "read_remote_ref d n b = read_ref d (remote_ref_path n b)"

definition write_remote_ref :: "string \<Rightarrow> string \<Rightarrow> string \<Rightarrow> fs \<Rightarrow> repo_error + fs" where
  "write_remote_ref n b h d =
     (if \<not> safe_ref_name n \<or> \<not> safe_ref_name b then Inl (BadRef (n @ ''/'' @ b))
      else fs_put (remote_ref_path n b) (h @ [CHR 0x0A]) d)"

section \<open>HEAD\<close>

definition branch_prefix :: string where "branch_prefix = ''ref: refs/heads/''"

definition current_branch :: "fs \<Rightarrow> string option" where
  "current_branch d = (case fs_read d head_path of Inl _ \<Rightarrow> None
     | Inr s \<Rightarrow> strip_prefix branch_prefix (trim s))"

definition set_head_to_branch :: "string \<Rightarrow> fs \<Rightarrow> repo_error + fs" where
  "set_head_to_branch n d = fs_write head_path (branch_prefix @ n @ [CHR 0x0A]) d"

definition set_head_detached :: "string \<Rightarrow> fs \<Rightarrow> repo_error + fs" where
  "set_head_detached h d = fs_write head_path (h @ [CHR 0x0A]) d"

definition head_commit :: "fs \<Rightarrow> string option" where
  "head_commit d = (case fs_read d head_path of Inl _ \<Rightarrow> None
     | Inr s \<Rightarrow> (case strip_prefix branch_prefix (trim s) of
         Some b \<Rightarrow> read_branch d b
       | None \<Rightarrow> if trim s = [] then None else Some (trim s)))"

section \<open>The objects of history\<close>

definition write_manifest :: "ext \<Rightarrow> manifest \<Rightarrow> repo \<Rightarrow> repo_error + string \<times> repo" where
  "write_manifest E m r = store_write E (manifest_json E m) r"

definition read_manifest :: "ext \<Rightarrow> repo \<Rightarrow> string \<Rightarrow> repo_error + manifest" where
  "read_manifest E r t = rbind (store_read E r t) (manifest_from_json E)"

definition write_commit :: "ext \<Rightarrow> commit_object \<Rightarrow> repo \<Rightarrow> repo_error + string \<times> repo" where
  "write_commit E c r = store_write E (commit_json E c) r"

definition read_commit :: "ext \<Rightarrow> repo \<Rightarrow> string \<Rightarrow> repo_error + commit_object" where
  "read_commit E r h = rbind (store_read E r h) (commit_from_json E)"

definition create_commit_signed :: "ext \<Rightarrow> string \<Rightarrow> string list \<Rightarrow> string \<Rightarrow> string \<Rightarrow> string
    \<Rightarrow> (string \<Rightarrow> repo_error + string) option \<Rightarrow> repo \<Rightarrow> repo_error + string \<times> repo" where
  "create_commit_signed E t ps msg auth tm sign r =
     (let c = \<lparr>tree = t, parents = ps, message = msg, author = auth, time = tm,
               committer = None, commit_time = None, signature = None\<rparr>
      in case sign of
        None \<Rightarrow> write_commit E c r
      | Some signer \<Rightarrow> rbind (signer (commit_signable_payload E c)) (\<lambda>s.
          write_commit E (c\<lparr>signature := Some s\<rparr>) r))"

definition create_commit :: "ext \<Rightarrow> string \<Rightarrow> string list \<Rightarrow> string \<Rightarrow> string \<Rightarrow> string
    \<Rightarrow> repo \<Rightarrow> repo_error + string \<times> repo" where
  "create_commit E t ps msg auth tm r = create_commit_signed E t ps msg auth tm None r"

definition write_annotated_tag :: "ext \<Rightarrow> tag_object \<Rightarrow> repo \<Rightarrow> repo_error + string \<times> repo" where
  "write_annotated_tag E t r = rbind (store_write E (tag_json E t) r) (\<lambda>(h, r).
     rbind (write_tag (tag_name t) h (disk r)) (\<lambda>d. Inr (h, r\<lparr>disk := d\<rparr>)))"

definition read_tag_object :: "ext \<Rightarrow> repo \<Rightarrow> string \<Rightarrow> tag_object option" where
  "read_tag_object E r h = (case store_read E r h of Inl _ \<Rightarrow> None | Inr s \<Rightarrow> tag_try_from_json E s)"

definition read_annotated_tag :: "ext \<Rightarrow> repo \<Rightarrow> string \<Rightarrow> tag_object option" where
  "read_annotated_tag E r n = (case read_tag (disk r) n of None \<Rightarrow> None | Some h \<Rightarrow> read_tag_object E r h)"

text \<open>Following a chain of annotated tags, at most 100 of them.\<close>

fun peel_steps :: "nat \<Rightarrow> ext \<Rightarrow> repo \<Rightarrow> string \<Rightarrow> repo_error + string" where
  "peel_steps 0 E r h = Inl (Other ''tag chain too deep (cycle?)'')"
| "peel_steps (Suc n) E r h = (case store_read E r h of
     Inl _ \<Rightarrow> Inr h
   | Inr s \<Rightarrow> (case tag_try_from_json E s of None \<Rightarrow> Inr h | Some t \<Rightarrow> peel_steps n E r (tag_target t)))"

definition peel_to_commit :: "ext \<Rightarrow> repo \<Rightarrow> string \<Rightarrow> repo_error + string" where
  "peel_to_commit E r h = peel_steps 100 E r h"

section \<open>Shallow and partial clones\<close>

definition shallow_path :: path where "shallow_path = [''shallow'']"

definition shallow_boundary :: "fs \<Rightarrow> string list" where
  "shallow_boundary d = (case fs_read d shallow_path of Inl _ \<Rightarrow> [] | Inr s \<Rightarrow> entry_lines s)"

definition is_shallow :: "fs \<Rightarrow> bool" where
  "is_shallow d = is_file d shallow_path"

definition write_shallow :: "string list \<Rightarrow> fs \<Rightarrow> repo_error + fs" where
  "write_shallow boundary d = (let s = remdups_adj (sort boundary)
     in if s = [] then Inr (remove_file shallow_path d) else fs_write shallow_path (unlines s) d)"

definition parents_of :: "ext \<Rightarrow> repo \<Rightarrow> string \<Rightarrow> repo_error + string list" where
  "parents_of E r c =
     (if is_shallow (disk r) \<and> c \<in> set (shallow_boundary (disk r)) then Inr []
      else rbind (read_commit E r c) (\<lambda>co. Inr (parents co)))"

definition promisor_path :: path where "promisor_path = [''promisor'']"

definition is_partial :: "fs \<Rightarrow> bool" where
  "is_partial d = is_file d promisor_path"

definition promisor_remote :: "fs \<Rightarrow> string option" where
  "promisor_remote d = read_ref d promisor_path"

definition write_promisor :: "string \<Rightarrow> fs \<Rightarrow> repo_error + fs" where
  "write_promisor url d = fs_write promisor_path (url @ [CHR 0x0A]) d"

section \<open>Revisions\<close>

definition first_parent :: "ext \<Rightarrow> repo \<Rightarrow> string \<Rightarrow> repo_error + string" where
  "first_parent E r h = rbind (read_commit E r h) (\<lambda>c.
     case parents c of [] \<Rightarrow> Inl (BadRef (h @ '': no parent'')) | p # _ \<Rightarrow> Inr p)"

definition nth_parent :: "ext \<Rightarrow> repo \<Rightarrow> string \<Rightarrow> nat \<Rightarrow> repo_error + string" where
  "nth_parent E r h n = rbind (read_commit E r h) (\<lambda>c.
     if n - 1 < length (parents c) then Inr (parents c ! (n - 1))
     else Inl (BadRef (h @ ''^'' @ show_nat n @ '': no such parent'')))"

fun nth_ancestor :: "ext \<Rightarrow> repo \<Rightarrow> nat \<Rightarrow> string \<Rightarrow> repo_error + string" where
  "nth_ancestor E r 0 h = Inr h"
| "nth_ancestor E r (Suc n) h = rbind (first_parent E r h) (nth_ancestor E r n)"

definition find_object_by_prefix :: "repo \<Rightarrow> string \<Rightarrow> string option" where
  "find_object_by_prefix r prefix = (let sub = take 2 prefix; rest = drop 2 prefix
     in case read_dir (disk r) [''objects'', sub] of None \<Rightarrow> None | Some ns \<Rightarrow>
       (case filter (\<lambda>n. \<not> ends_with ''.tmp'' n \<and> strip_prefix rest n \<noteq> None) ns of
          [n] \<Rightarrow> Some (sub @ n) | _ \<Rightarrow> None))"

text \<open>\<^verbatim>\<open>split_once\<close> at a string.\<close>

fun split_once_at :: "string \<Rightarrow> string \<Rightarrow> (string \<times> string) option" where
  "split_once_at sep s = (case strip_prefix sep s of Some rest \<Rightarrow> Some ([], rest)
     | None \<Rightarrow> (case s of [] \<Rightarrow> None | c # cs \<Rightarrow> map_option (\<lambda>(a, b). (c # a, b)) (split_once_at sep cs)))"

declare split_once_at.simps [simp del]

definition or_else :: "'a option \<Rightarrow> 'a option \<Rightarrow> 'a option" where
  "or_else x y = (case x of None \<Rightarrow> y | Some _ \<Rightarrow> x)"

definition resolve_name :: "ext \<Rightarrow> repo \<Rightarrow> string \<Rightarrow> repo_error + string" where
  "resolve_name E r base =
     (if base = [] \<or> base = ''HEAD'' then ok_or (head_commit (disk r)) (BadRef ''HEAD'')
      else case read_branch (disk r) base of Some h \<Rightarrow> Inr h | None \<Rightarrow>
      (case read_tag (disk r) base of Some h \<Rightarrow> peel_to_commit E r h | None \<Rightarrow>
       if 4 \<le> length base \<and> list_all is_hex base \<and> store_exists r base then Inr base
       else if 4 \<le> length base \<and> list_all is_hex base
       then ok_or (find_object_by_prefix r base) (BadRef base)
       else Inl (BadRef base)))"

definition resolve_branch_log :: "ext \<Rightarrow> repo \<Rightarrow> string \<Rightarrow> repo_error + string" where
  "resolve_branch_log E r base = (case split_once_at at_brace base of
     Some (name, rest) \<Rightarrow> (case strip_suffix ''}'' rest of
       Some n \<Rightarrow>
         if read_branch (disk r) name \<noteq> None \<or> branch_reflog (disk r) name \<noteq> []
         then rbind (ok_or (parse_usize n) (BadRef base)) (branch_reflog_commit_at (disk r) name)
         else resolve_name E r base
     | None \<Rightarrow> resolve_name E r base)
   | None \<Rightarrow> resolve_name E r base)"

definition resolve_base :: "ext \<Rightarrow> repo \<Rightarrow> string \<Rightarrow> repo_error + string" where
  "resolve_base E r base = (case or_else (strip_prefix (''HEAD'' @ at_brace) base) (strip_prefix at_brace base) of
     Some rest \<Rightarrow> (case strip_suffix ''}'' rest of
       Some n \<Rightarrow> rbind (ok_or (parse_usize n) (BadRef base)) (reflog_commit_at (disk r))
     | None \<Rightarrow> resolve_branch_log E r base)
   | None \<Rightarrow> resolve_branch_log E r base)"

function resolve_ops :: "ext \<Rightarrow> repo \<Rightarrow> string \<Rightarrow> string \<Rightarrow> string \<Rightarrow> repo_error + string" where
  "resolve_ops E r spec hash [] = Inr hash"
| "resolve_ops E r spec hash (op # rest) =
     (let digits = takeWhile is_digit rest;
          n = (if digits = [] then 1 else case parse_usize digits of Some n \<Rightarrow> n | None \<Rightarrow> 1)
      in rbind (if op = CHR ''~'' then nth_ancestor E r n hash
                else if op = CHR ''^'' then nth_parent E r hash n
                else Inl (BadRef spec))
           (\<lambda>h. resolve_ops E r spec h (dropWhile is_digit rest)))"
  by pat_completeness auto
termination
  by (relation "measure (\<lambda>(_, _, _, _, s). length s)") (auto simp: le_imp_less_Suc length_dropWhile_le)

definition is_rev_op :: "char \<Rightarrow> bool" where
  "is_rev_op c = (c = CHR ''~'' \<or> c = CHR ''^'')"

definition resolve_ref :: "ext \<Rightarrow> repo \<Rightarrow> string \<Rightarrow> repo_error + string" where
  "resolve_ref E r spec = rbind (resolve_base E r (takeWhile (\<lambda>c. \<not> is_rev_op c) spec)) (\<lambda>h.
     resolve_ops E r spec h (dropWhile (\<lambda>c. \<not> is_rev_op c) spec))"

section \<open>Where refs live\<close>

lemma contains_infix: "contains p (a @ p @ b)"
  unfolding contains_def list_ex_iff by (intro bexI [of _ "length a"]) auto

lemma join_Cons: "join sep ((y # q) # qs) = y # join sep (q # qs)"
  by (cases qs) auto

lemma join_split_on: "join [c] (split_on c s) = s"
proof (induction s)
  case (Cons y s)
  obtain q qs where q: "split_on c s = q # qs" by (cases "split_on c s") auto
  with Cons show ?case by (simp add: join_Cons)
qed simp

lemma split_on_infix: "x \<in> set (split_on c s) \<Longrightarrow> \<exists>a b. s = a @ x @ b"
proof (induction s arbitrary: x)
  case (Cons y s)
  show ?case
  proof (cases "y = c")
    case True
    with Cons.prems have "x = [] \<or> x \<in> set (split_on c s)" by auto
    then show ?thesis
    proof
      assume "x \<in> set (split_on c s)"
      then obtain a b where "s = a @ x @ b" using Cons.IH by blast
      then have "y # s = (y # a) @ x @ b" by simp
      then show ?thesis by blast
    qed (metis append_Nil)
  next
    case False
    obtain q qs where q: "split_on c s = q # qs" by (cases "split_on c s") auto
    with False Cons.prems have "x = y # q \<or> x \<in> set qs" by auto
    then show ?thesis
    proof
      assume x: "x = y # q"
      from q have "s = join [c] (q # qs)" using join_split_on [of c s] by simp
      then obtain b where "s = q @ b" by (cases qs) auto
      then show ?thesis using x by (metis append_Cons append_Nil)
    next
      assume "x \<in> set qs"
      then obtain a b where "s = a @ x @ b" using Cons.IH q by force
      then have "y # s = (y # a) @ x @ b" by simp
      then show ?thesis by blast
    qed
  qed
qed auto

lemma components_safe:
  assumes "safe_ref_name n"
  shows "components n \<noteq> []" "''..'' \<notin> set (components n)" "[] \<notin> set (components n)"
    "path_join base n = base @ components n"
proof -
  obtain c s where n: "n = c # s" "c \<noteq> CHR ''/''" "c \<noteq> CHR ''.''"
    using assms by (cases n) (auto simp: safe_ref_name_def)
  obtain q qs where "split_on (CHR ''/'') s = q # qs" by (cases "split_on (CHR ''/'') s") auto
  with n show "components n \<noteq> []" by (simp add: components_def)
  show "''..'' \<notin> set (components n)"
    using assms split_on_infix contains_infix by (fastforce simp: components_def safe_ref_name_def)
  show "[] \<notin> set (components n)" by (simp add: components_def)
  show "path_join base n = base @ components n" using n by (simp add: path_join_def)
qed

lemma branch_path_eq: "safe_ref_name n \<Longrightarrow> branch_path n = [''refs'', ''heads''] @ components n"
  and tag_path_eq: "safe_ref_name n \<Longrightarrow> tag_path n = [''refs'', ''tags''] @ components n"
  and branch_log_path_eq: "safe_ref_name n \<Longrightarrow> branch_log_path n = [''logs'', ''refs'', ''heads''] @ components n"
  by (simp_all only: branch_path_def tag_path_def branch_log_path_def components_safe(4))

section \<open>Writing refs\<close>

definition log_text :: "fs \<Rightarrow> path \<Rightarrow> string" where
  "log_text d p = (case contents d p of None \<Rightarrow> [] | Some s \<Rightarrow> s)"

lemma append_reflog_put:
  "append_reflog p from to msg d = fs_put p (log_text d p @ reflog_line from to msg @ [CHR 0x0A]) d"
proof (cases "create_dir_all (butlast p) d")
  case (Inr d1)
  then have "contents d1 = contents d" by (rule create_dir_all_contents)
  then have rd: "fs_read d1 p = Inr s \<longleftrightarrow> contents d p = Some s" for s by (simp add: fs_read_iff)
  show ?thesis
  proof (cases "fs_read d1 p")
    case (Inl e)
    then have "contents d p = None" using rd by (cases "contents d p") auto
    then show ?thesis using Inl Inr by (simp add: append_reflog_def fs_put_def fs_append_def log_text_def)
  next
    case (Inr s)
    then have "contents d p = Some s" using rd by simp
    then show ?thesis using Inr \<open>create_dir_all (butlast p) d = Inr d1\<close>
      by (simp add: append_reflog_def fs_put_def fs_append_def log_text_def)
  qed
qed (simp add: append_reflog_def fs_put_def)

lemma read_ref_contents:
  "read_ref d p = (case contents d p of None \<Rightarrow> None | Some s \<Rightarrow> if trim s = [] then None else Some (trim s))"
  by (auto simp: read_ref_def fs_read_def contents_def split: option.splits node.splits sum.splits)

lemma read_ref_written:
  "contents d' = (contents d)(p \<mapsto> h @ [CHR 0x0A]) \<Longrightarrow> word_text h \<Longrightarrow>
     read_ref d' q = (if q = p then Some h else read_ref d q)"
  by (auto simp: read_ref_contents trim_newline word_text_def)

lemma write_branch_contents:
  assumes "write_branch n h d = Inr d'"
  shows "safe_ref_name n"
    "contents d' = (contents d)(branch_path n \<mapsto> h @ [CHR 0x0A],
       branch_log_path n \<mapsto> log_text d (branch_log_path n) @ reflog_line (read_branch d n) h ''update'' @ [CHR 0x0A])"
proof -
  show s: "safe_ref_name n" using assms by (auto simp: write_branch_def split: if_splits)
  with assms obtain d1 where 1: "fs_put (branch_path n) (h @ [CHR 0x0A]) d = Inr d1"
      "append_reflog (branch_log_path n) (read_branch d n) h ''update'' d1 = Inr d'"
    by (auto simp: write_branch_def Let_def res_simps)
  have "branch_log_path n \<noteq> branch_path n" using s by (simp add: branch_path_eq branch_log_path_eq)
  then have "log_text d1 (branch_log_path n) = log_text d (branch_log_path n)"
    using contents_put [OF 1(1)] by (simp add: log_text_def)
  then show "contents d' = (contents d)(branch_path n \<mapsto> h @ [CHR 0x0A],
       branch_log_path n \<mapsto> log_text d (branch_log_path n) @ reflog_line (read_branch d n) h ''update'' @ [CHR 0x0A])"
    using 1(2) contents_put [OF 1(1)] by (simp add: append_reflog_put contents_put)
qed

lemma ref_paths_differ:
  assumes "safe_ref_name n" "safe_ref_name m"
  shows "branch_path n \<noteq> branch_log_path m" "branch_path n \<noteq> tag_path m" "tag_path n \<noteq> branch_log_path m"
    "branch_path n = branch_path m \<longleftrightarrow> components n = components m"
    "tag_path n = tag_path m \<longleftrightarrow> components n = components m"
    "branch_log_path n = branch_log_path m \<longleftrightarrow> components n = components m"
  using assms by (simp_all add: branch_path_eq branch_log_path_eq tag_path_eq)

definition ref_cell :: "string \<Rightarrow> path option" where
  "ref_cell n = (if safe_ref_name n then Some (components n) else None)"

definition or_unchanged :: "('s \<Rightarrow> 'e + 's) \<Rightarrow> 's \<Rightarrow> 's" where
  "or_unchanged f s = (case f s of Inr s' \<Rightarrow> s' | Inl _ \<Rightarrow> s)"

interpretation branch_cells: erasable_cells read_branch write_branch word_text ref_cell
  "\<lambda>n. or_unchanged (delete_branch n)"
proof unfold_locales
  fix n h d d' m
  assume w: "write_branch n h d = Inr d'" and h: "word_text h"
  note c = write_branch_contents [OF w]
  show "read_branch d' m = (if ref_cell m = ref_cell n then Some h else read_branch d m)"
  proof (cases "safe_ref_name m")
    case True
    have "contents d' (branch_path m) = ((contents d)(branch_path n \<mapsto> h @ [CHR 0x0A])) (branch_path m)"
      using c(2) ref_paths_differ(1) [OF True c(1)] by simp
    then show ?thesis using True c(1) h ref_paths_differ(4) [OF True c(1)]
      by (auto simp: read_branch_def read_ref_contents ref_cell_def trim_newline word_text_def)
  qed (use c(1) in \<open>auto simp: read_branch_def ref_cell_def\<close>)
next
  fix n d m
  show "read_branch (or_unchanged (delete_branch n) d) m = (if ref_cell m = ref_cell n then None else read_branch d m)"
    using ref_paths_differ
    by (auto simp: read_branch_def or_unchanged_def delete_branch_def ref_cell_def read_ref_contents fs_simps)
qed

interpretation tag_cells: erasable_cells read_tag write_tag word_text ref_cell
  "\<lambda>n. or_unchanged (delete_tag n)"
proof unfold_locales
  fix n h d d' m
  assume w: "write_tag n h d = Inr d'" and h: "word_text h"
  then have s: "safe_ref_name n" "contents d' = (contents d)(tag_path n \<mapsto> h @ [CHR 0x0A])"
    by (auto simp: write_tag_def fs_simps split: if_splits)
  show "read_tag d' m = (if ref_cell m = ref_cell n then Some h else read_tag d m)"
    using s h ref_paths_differ(5) by (auto simp: read_tag_def ref_cell_def read_ref_written [OF s(2) h])
next
  fix n d m
  show "read_tag (or_unchanged (delete_tag n) d) m = (if ref_cell m = ref_cell n then None else read_tag d m)"
    using ref_paths_differ
    by (auto simp: read_tag_def or_unchanged_def delete_tag_def ref_cell_def read_ref_contents fs_simps)
qed

interpretation remote_cells: cells "\<lambda>d (n, b). read_remote_ref d n b" "\<lambda>(n, b). write_remote_ref n b" word_text
  "\<lambda>(n, b). remote_ref_path n b"
proof unfold_locales
  fix k h d d' m
  assume w: "(case k of (n, b) \<Rightarrow> write_remote_ref n b) h d = Inr d'" and h: "word_text h"
  obtain n b where k: "k = (n, b)" by (cases k)
  with w have s: "contents d' = (contents d)(remote_ref_path n b \<mapsto> h @ [CHR 0x0A])"
    by (auto simp: write_remote_ref_def fs_simps split: if_splits)
  show "(case m of (n, b) \<Rightarrow> read_remote_ref d' n b) =
      (if (case m of (n, b) \<Rightarrow> remote_ref_path n b) = (case k of (n, b) \<Rightarrow> remote_ref_path n b) then Some h
       else case m of (n, b) \<Rightarrow> read_remote_ref d n b)"
    by (cases m) (simp add: k read_remote_ref_def read_ref_written [OF s h])
qed

lemma branch_write_tags:
  assumes "write_branch n h d = Inr d'"
  shows "read_tag d' m = read_tag d m"
proof (cases "safe_ref_name m")
  case True
  note c = write_branch_contents [OF assms]
  have "contents d' (tag_path m) = contents d (tag_path m)"
    using c(2) ref_paths_differ(2) [OF c(1) True] ref_paths_differ(3) [OF True c(1)] by auto
  then show ?thesis using True by (simp add: read_tag_def read_ref_contents)
qed (simp add: read_tag_def)

section \<open>Reflogs grow at the front\<close>

definition log_ok :: "fs \<Rightarrow> path \<Rightarrow> bool" where
  "log_ok d p = (log_text d p = [] \<or> last (log_text d p) = CHR 0x0A)"

lemma lines_snoc:
  assumes "s = [] \<or> last s = CHR 0x0A" "CHR 0x0A \<notin> set l"
  shows "lines (s @ l @ [CHR 0x0A]) = lines s @ [strip_cr l]"
proof (cases "s = []")
  case True
  then show ?thesis using split_on_append [OF assms(2), of "[]"] by (simp add: lines_def)
next
  case False
  with assms(1) obtain s' where s: "s = s' @ [CHR 0x0A]" by (metis append_butlast_last_id)
  have 1: "split_on (CHR 0x0A) s = split_on (CHR 0x0A) s' @ [[]]"
    using split_on_split [of "CHR 0x0A" s' "[]"] by (simp add: s)
  have 2: "split_on (CHR 0x0A) (s @ l @ [CHR 0x0A]) = split_on (CHR 0x0A) s' @ [l, []]"
    using split_on_split [of "CHR 0x0A" s' "l @ [CHR 0x0A]"] split_on_append [OF assms(2), of "[]"] by (simp add: s)
  show ?thesis unfolding lines_def 1 2 by (simp add: butlast_append)
qed

lemma trim_nonempty: "c \<in> set l \<Longrightarrow> \<not> is_ws c \<Longrightarrow> trim l \<noteq> []"
proof
  assume c: "c \<in> set l" "\<not> is_ws c" and t: "trim l = []"
  from t have "\<forall>x \<in> set (dropWhile is_ws l). is_ws x" by (simp add: trim_def dropWhile_eq_Nil_conv)
  then have "dropWhile is_ws l = []" by (metis hd_dropWhile hd_in_set)
  then show False using c by (auto simp: dropWhile_eq_Nil_conv)
qed

lemma read_reflog_text: "read_reflog d p = rev (filter (\<lambda>l. trim l \<noteq> []) (lines (log_text d p)))"
proof -
  have "lines [] = []" by (simp add: lines_def)
  then show ?thesis by (auto simp: read_reflog_def log_text_def fs_read_def contents_def
      split: option.splits node.splits sum.splits)
qed

lemma word_no_blank: "word_text s \<Longrightarrow> CHR '' '' \<notin> set s \<and> CHR 0x0A \<notin> set s \<and> CHR 0x0D \<notin> set s"
proof -
  assume w: "word_text s"
  have "is_ws (CHR '' '')" "is_ws (CHR 0x0A)" "is_ws (CHR 0x0D)" by (simp_all add: is_ws_def)
  then show ?thesis using w by (auto simp: word_text_def)
qed

lemma zero_id_word: "word_text zero_id"
  by (simp add: word_text_def zero_id_def is_ws_def)

lemma reflog_grows:
  assumes "log_text d' p = log_text d p @ reflog_line from to msg @ [CHR 0x0A]" "log_ok d p"
    "word_text to" "\<And>f. from = Some f \<Longrightarrow> word_text f"
  shows "\<exists>l. read_reflog d' p = l # read_reflog d p \<and> (\<exists>a b. split_on (CHR '' '') l = a # to # b)" "log_ok d' p"
proof -
  let ?f = "case from of None \<Rightarrow> zero_id | Some f \<Rightarrow> f" and ?l = "reflog_line from to msg"
  have f: "word_text ?f" using assms(4) zero_id_word by (simp split: option.splits)
  have noline: "CHR 0x0A \<notin> set ?l"
    using word_no_blank [OF f] word_no_blank [OF assms(3)] by (auto simp: reflog_line_def one_line_def)
  have lines: "lines (log_text d' p) = lines (log_text d p) @ [strip_cr ?l]"
    using lines_snoc [OF assms(2) [unfolded log_ok_def] noline] by (simp add: assms(1))
  obtain msg' where cr: "strip_cr ?l = ?f @ '' '' @ to @ '' '' @ msg'"
  proof (cases "strip_suffix [CHR 0x0D] ?l")
    case None
    then show ?thesis using that by (simp add: strip_cr_def reflog_line_def)
  next
    case (Some l')
    then have l: "?l = l' @ [CHR 0x0D]" by (rule strip_suffix_SomeD)
    then have "one_line msg \<noteq> []" by (auto simp: reflog_line_def split: option.splits)
    then have "l' = ?f @ '' '' @ to @ '' '' @ butlast (one_line msg)"
      using arg_cong [OF l, of butlast] by (simp add: reflog_line_def butlast_append del: butlast_snoc)
    then show ?thesis using that Some by (simp add: strip_cr_def)
  qed
  obtain c where "c \<in> set to" "\<not> is_ws c" using assms(3) by (cases to) (auto simp: word_text_def)
  then have "trim (strip_cr ?l) \<noteq> []" by (intro trim_nonempty [of c]) (simp_all add: cr)
  then have "read_reflog d' p = strip_cr ?l # read_reflog d p"
    by (simp add: read_reflog_text lines)
  moreover have "split_on (CHR '' '') (strip_cr ?l) = ?f # to # split_on (CHR '' '') msg'"
    using word_no_blank [OF f] word_no_blank [OF assms(3)] by (simp add: cr split_on_append)
  ultimately show "\<exists>l. read_reflog d' p = l # read_reflog d p \<and> (\<exists>a b. split_on (CHR '' '') l = a # to # b)" by blast
  show "log_ok d' p" by (simp add: log_ok_def assms(1))
qed

lemma reflog_at_Cons:
  assumes "split_on (CHR '' '') l = a # h # b" "h \<noteq> []"
  shows "reflog_at (l # es) what 0 = Inr h" "reflog_at es what k = Inr x \<Longrightarrow> reflog_at (l # es) what (Suc k) = Inr x"
  using assms by (auto simp: reflog_at_def split: list.splits if_splits)

section \<open>When a branch can be written\<close>

lemma fs_put_dirs:
  assumes "fs_put p c fs = Inr fs'" "is_dir fs' q"
  shows "is_dir fs q \<or> (\<exists>k < length p. q = take k p)"
proof -
  from assms(1) obtain fs1 where 1: "create_dir_all (butlast p) fs = Inr fs1" "fs_write p c fs1 = Inr fs'"
    by (auto simp: fs_put_def res_simps)
  then have p: "p \<noteq> []" by (auto simp: fs_write_iff)
  with 1(2) have "is_dir fs1 q"
    using assms(2) by (auto simp: fs_write_iff is_dir_def lookup_insert split: if_splits)
  then consider "is_dir fs q" | k where "q = take k (butlast p)"
    using make_dirs_lookup [of "[]" "butlast p" fs fs1 q] 1(1) by (auto simp: create_dir_all_def is_dir_def)
  then show ?thesis
  proof cases
    case 2
    then have "q = take (min k (length p - 1)) p" by (simp add: butlast_conv_take min.commute)
    moreover have "min k (length p - 1) < length p" using p by (cases p) (simp_all add: min_def)
    ultimately show ?thesis by blast
  qed blast
qed

lemma way_free_put:
  assumes "way_free fs q" "fs_put p c fs = Inr fs'" "\<And>k. take k q \<noteq> p" "\<And>k. take k p \<noteq> q"
  shows "way_free fs' q"
proof -
  have "\<not> is_dir fs' q" using assms(1,4) fs_put_dirs [OF assms(2)] by (auto simp: way_free_def)
  then show ?thesis using assms(1,3) by (simp add: way_free_def list_all_iff contents_put [OF assms(2)])
qed

lemma write_branch_succeeds:
  assumes "safe_ref_name n" "way_free d (branch_path n)" "way_free d (branch_log_path n)"
  shows "\<exists>d'. write_branch n h d = Inr d'"
proof -
  obtain d1 where 1: "fs_put (branch_path n) (h @ [CHR 0x0A]) d = Inr d1"
    using fs_put_ok [OF assms(2)] by blast
  have "way_free d1 (branch_log_path n)"
  proof (rule way_free_put [OF assms(3) 1])
    show "take k (branch_log_path n) \<noteq> branch_path n" for k
      by (cases k) (simp_all add: branch_path_eq [OF assms(1)] branch_log_path_eq [OF assms(1)])
    show "take k (branch_path n) \<noteq> branch_log_path n" for k
      by (cases k) (simp_all add: branch_path_eq [OF assms(1)] branch_log_path_eq [OF assms(1)])
  qed
  from fs_put_ok [OF this] show ?thesis
    using 1 assms(1) by (auto simp: write_branch_def Let_def append_reflog_put)
qed

section \<open>Properties\<close>

text \<open>
  A ref name that passes the check of untrusted names only ever reaches files below the
  directory of its kind: the path it stands for is the directory followed by at least one component,
  none of them the parent directory.
\<close>

theorem safe_ref_stays_inside:
  assumes "safe_ref_name n"
  shows "\<exists>cs. cs \<noteq> [] \<and> ''..'' \<notin> set cs \<and> [] \<notin> set cs \<and>
    branch_path n = [''refs'', ''heads''] @ cs \<and> tag_path n = [''refs'', ''tags''] @ cs \<and>
    branch_log_path n = [''logs'', ''refs'', ''heads''] @ cs"
  using components_safe [OF assms] branch_path_eq [OF assms] tag_path_eq [OF assms] branch_log_path_eq [OF assms]
  by blast

theorem safe_ref_stays_inside_witness:
  "\<exists>cs. cs \<noteq> [] \<and> branch_path ''feature//foo'' = [''refs'', ''heads''] @ cs"
proof -
  have "safe_ref_name ''feature//foo''" by (simp add: safe_ref_name_def contains_def)
  from safe_ref_stays_inside [OF this] show ?thesis by blast
qed

text \<open>
  C18. Moving a branch. With no file in the way the move succeeds. Afterwards the branch reads the new
  tip, every branch kept in another file and every tag reads as before, entry 0 of its reflog is the
  new tip, and each older entry is still there one position further back: a tip that was moved away
  from stays recoverable.
\<close>

theorem write_branch_spec:
  assumes "safe_ref_name n" "way_free d (branch_path n)" "way_free d (branch_log_path n)" "word_text h"
    "\<forall>t. read_branch d n = Some t \<longrightarrow> word_text t" "log_ok d (branch_log_path n)"
  shows "\<exists>d'. write_branch n h d = Inr d' \<and> read_branch d' n = Some h \<and> log_ok d' (branch_log_path n) \<and>
    (\<forall>m. components m \<noteq> components n \<longrightarrow> read_branch d' m = read_branch d m) \<and>
    (\<forall>m. read_tag d' m = read_tag d m) \<and>
    branch_reflog_commit_at d' n 0 = Inr h \<and>
    (\<forall>k t. branch_reflog_commit_at d n k = Inr t \<longrightarrow> branch_reflog_commit_at d' n (Suc k) = Inr t)"
proof -
  obtain d' where w: "write_branch n h d = Inr d'" using write_branch_succeeds assms(1-3) by blast
  have log: "log_text d' (branch_log_path n) =
      log_text d (branch_log_path n) @ reflog_line (read_branch d n) h ''update'' @ [CHR 0x0A]"
    by (simp add: log_text_def [of d'] write_branch_contents(2) [OF w])
  from reflog_grows [OF log assms(6,4)] assms(5)
  have g: "\<exists>l. read_reflog d' (branch_log_path n) = l # read_reflog d (branch_log_path n) \<and>
      (\<exists>a b. split_on (CHR '' '') l = a # h # b)" "log_ok d' (branch_log_path n)" by blast+
  then obtain l a b where l: "branch_reflog d' n = l # branch_reflog d n" "split_on (CHR '' '') l = a # h # b"
    using assms(1) by (auto simp: branch_reflog_def)
  have "h \<noteq> []" using assms(4) by (simp add: word_text_def)
  note at = reflog_at_Cons [OF l(2) this]
  have "read_branch d' m = read_branch d m" if "components m \<noteq> components n" for m
    using branch_cells.get_put [OF w assms(4), of m] that assms(1) by (auto simp: ref_cell_def)
  then show ?thesis
    using w g(2) at branch_cells.get_put_same [OF w assms(4)] branch_write_tags [OF w]
    by (auto simp: branch_reflog_commit_at_def l(1))
qed

definition fresh_repo :: fs where
  "fresh_repo = [([''objects''], Dir), ([''refs''], Dir), ([''refs'', ''heads''], Dir),
     ([''HEAD''], File (branch_prefix @ ''main'' @ [CHR 0x0A]))]"

theorem write_branch_spec_witness:
  "\<exists>d'. write_branch ''feature/foo'' ''c1'' fresh_repo = Inr d' \<and> read_branch d' ''feature/foo'' = Some ''c1'' \<and>
     branch_reflog_commit_at d' ''feature/foo'' 0 = Inr ''c1''"
proof -
  have "way_free fresh_repo (branch_path ''feature/foo'')" "way_free fresh_repo (branch_log_path ''feature/foo'')"
    by code_simp+
  moreover have "safe_ref_name ''feature/foo''" "word_text ''c1''" by code_simp+
  moreover have "read_branch fresh_repo ''feature/foo'' = None" "log_ok fresh_repo (branch_log_path ''feature/foo'')"
    by code_simp+
  moreover from this have "\<forall>t. read_branch fresh_repo ''feature/foo'' = Some t \<longrightarrow> word_text t" by simp
  ultimately show ?thesis
    using write_branch_spec [of "''feature/foo''" fresh_repo "''c1''"] by blast
qed

fun rev_text :: "(bool \<times> nat option) list \<Rightarrow> string" where
  "rev_text [] = []"
| "rev_text ((up, n) # ops) = (if up then ''^'' else ''~'') @
     (case n of None \<Rightarrow> [] | Some n \<Rightarrow> show_nat n) @ rev_text ops"

fun rev_walk :: "ext \<Rightarrow> repo \<Rightarrow> (bool \<times> nat option) list \<Rightarrow> string \<Rightarrow> repo_error + string" where
  "rev_walk E r [] h = Inr h"
| "rev_walk E r ((up, n) # ops) h = rbind
     (let k = (case n of None \<Rightarrow> 1 | Some k \<Rightarrow> k)
      in if up then nth_parent E r h k else nth_ancestor E r k h) (rev_walk E r ops)"

lemma rev_text_stop:
  "takeWhile is_digit (rev_text ops) = []" "dropWhile is_digit (rev_text ops) = rev_text ops"
  "takeWhile (\<lambda>c. \<not> is_rev_op c) (rev_text ops) = []" "dropWhile (\<lambda>c. \<not> is_rev_op c) (rev_text ops) = rev_text ops"
  by (cases ops rule: rev_text.cases; simp add: is_digit_def digit_val_def is_rev_op_def)+

lemma resolve_ops_text:
  "\<forall>op \<in> set ops. case snd op of None \<Rightarrow> True | Some n \<Rightarrow> n < 2 ^ 64 \<Longrightarrow>
     resolve_ops E r spec h (rev_text ops) = rev_walk E r ops h"
proof (induction ops arbitrary: h)
  case (Cons op ops)
  obtain up n where op: "op = (up, n)" by (cases op)
  define ds where "ds = (case n of None \<Rightarrow> [] | Some n \<Rightarrow> show_nat n)"
  have digits: "\<forall>c \<in> set ds. is_digit c" by (auto simp: ds_def dest: show_nat_digits split: option.splits)
  then have ds: "takeWhile is_digit (ds @ rev_text ops) = ds" "dropWhile is_digit (ds @ rev_text ops) = rev_text ops"
    by (simp_all add: rev_text_stop)
  have k: "(if ds = [] then 1 else case parse_usize ds of Some n \<Rightarrow> n | None \<Rightarrow> 1) = (case n of None \<Rightarrow> 1 | Some k \<Rightarrow> k)"
    using Cons.prems by (auto simp: ds_def op parse_usize_show_nat split: option.splits)
  have "resolve_ops E r spec h (rev_text ops) = rev_walk E r ops h" for h
    using Cons by simp
  then show ?case
    by (simp add: op Let_def k ds del: One_nat_def flip: ds_def)
qed simp

text \<open>
  Revision suffixes are read off left to right: resolving a name followed by any sequence of
  parent and ancestor steps, each with or without a number, is resolving the name and then taking
  the steps one after another.
\<close>

theorem resolve_ref_steps:
  assumes "\<forall>c \<in> set base. \<not> is_rev_op c" "\<forall>op \<in> set ops. case snd op of None \<Rightarrow> True | Some n \<Rightarrow> n < 2 ^ 64"
  shows "resolve_ref E r (base @ rev_text ops) = rbind (resolve_base E r base) (rev_walk E r ops)"
proof -
  have "takeWhile (\<lambda>c. \<not> is_rev_op c) (base @ rev_text ops) = base"
    "dropWhile (\<lambda>c. \<not> is_rev_op c) (base @ rev_text ops) = rev_text ops"
    using assms(1) by (simp_all add: rev_text_stop)
  then show ?thesis by (simp add: resolve_ref_def resolve_ops_text [OF assms(2)])
qed

text \<open>A history to evaluate the model on: commits are stored as their tree and parents, in plain text.\<close>

definition oid :: "char \<Rightarrow> string" where
  "oid c = replicate 64 c"

definition line_ext :: ext where
  "line_ext = plain_ext\<lparr>
     commit_json := (\<lambda>c. join '' '' (tree c # parents c)),
     commit_parse := (\<lambda>s. case split_on (CHR '' '') s of [] \<Rightarrow> None
       | t # ps \<Rightarrow> Some \<lparr>tree = t, parents = ps, message = [], author = [], time = [],
                         committer = None, commit_time = None, signature = None\<rparr>)\<rparr>"

definition commit_files :: "(char \<times> char list) list \<Rightarrow> fs" where
  "commit_files cs = map (\<lambda>(c, ps). (object_path (oid c), File (join '' '' (oid (CHR ''f'') # map oid ps)))) cs"

definition demo_repo :: repo where
  "demo_repo = \<lparr>disk = ([''HEAD''], File (oid (CHR ''c'') @ [CHR 0x0A])) #
     commit_files [(CHR ''a'', []), (CHR ''b'', [CHR ''a'']), (CHR ''c'', [CHR ''b'', CHR ''a''])], packs = []\<rparr>"

theorem resolve_ref_steps_witness:
  "resolve_ref line_ext demo_repo ''HEAD~1^'' = Inr (oid (CHR ''a''))"
proof -
  have "rbind (resolve_base line_ext demo_repo ''HEAD'') (rev_walk line_ext demo_repo [(False, Some 1), (True, None)]) =
      Inr (oid (CHR ''a''))" by code_simp
  moreover have "''HEAD'' @ rev_text [(False, Some 1), (True, None)] = ''HEAD~1^''" by code_simp
  moreover have "\<forall>c \<in> set ''HEAD''. \<not> is_rev_op c" by code_simp
  ultimately show ?thesis
    using resolve_ref_steps [of "''HEAD''" "[(False, Some 1), (True, None)]" line_ext demo_repo] by simp
qed

end
