(* ===== verification/RepoWalk.thy ===== *)
theory RepoWalk imports
  RepoRefs
begin

text \<open>
  The worklist loops of the repository: \<^verbatim>\<open>while let Some(c) = stack.pop()\<close> over the object graph with
  a set of visited ids. The loop is a partial function into \<^typ>\<open>'a option\<close>, where \<^const>\<open>None\<close> stands for
  not returning; that it returns is proved from the finiteness of the store.
\<close>

section \<open>Runs\<close>

type_synonym 'a run = "(repo_error + 'a) option"

definition ret :: "'a \<Rightarrow> 'a run" where
  "ret a = Some (Inr a)"

definition run_bind :: "'a run \<Rightarrow> ('a \<Rightarrow> 'b run) \<Rightarrow> 'b run" where
  "run_bind m f = (case m of None \<Rightarrow> None | Some (Inl e) \<Rightarrow> Some (Inl e) | Some (Inr a) \<Rightarrow> f a)"

lemma run_bind_simps [simp]:
  "run_bind None f = None" "run_bind (Some (Inl e)) f = Some (Inl e)" "run_bind (Some (Inr a)) f = f a"
  "run_bind (ret a) f = f a"
  by (simp_all add: run_bind_def ret_def)

lemma run_bind_ret_iff [res_simps]: "run_bind m f = Some (Inr b) \<longleftrightarrow> (\<exists>a. m = Some (Inr a) \<and> f a = Some (Inr b))"
  by (auto simp: run_bind_def split: option.splits sum.splits)

section \<open>The loop\<close>

text \<open>
  The head of the list is the top of the stack. A visit gets the visited ids, the new one included,
  and the output so far; it may mark more ids and pushes ids in the order given.
\<close>

partial_function (option) walk ::
  "('a \<Rightarrow> 'a list \<Rightarrow> 'o \<Rightarrow> repo_error + 'a list \<times> 'a list \<times> 'o) \<Rightarrow> 'a list \<Rightarrow> 'a list \<Rightarrow> 'o \<Rightarrow> ('a list \<times> 'o) run"
where
  "walk visit stack seen out = (case stack of
     [] \<Rightarrow> Some (Inr (seen, out))
   | x # rest \<Rightarrow>
       if x \<in> set seen then walk visit rest seen out
       else (case visit x (x # seen) out of
               Inl e \<Rightarrow> Some (Inl e)
             | Inr (push, seen', out') \<Rightarrow> walk visit (rev push @ rest) seen' out'))"

declare walk.simps [code]

lemma walk_Nil [simp]: "walk visit [] seen out = Some (Inr (seen, out))"
  by (simp add: walk.simps)

lemma walk_seen: "x \<in> set seen \<Longrightarrow> walk visit (x # rest) seen out = walk visit rest seen out"
  by (subst walk.simps) simp

lemma walk_visit:
  "x \<notin> set seen \<Longrightarrow> visit x (x # seen) out = Inr (push, seen', out') \<Longrightarrow>
     walk visit (x # rest) seen out = walk visit (rev push @ rest) seen' out'"
  by (subst walk.simps) simp

lemma walk_error:
  "x \<notin> set seen \<Longrightarrow> visit x (x # seen) out = Inl e \<Longrightarrow> walk visit (x # rest) seen out = Some (Inl e)"
  by (subst walk.simps) simp

text \<open>
  What holds of the stack, the marks and the output and is kept by every iteration holds at the end,
  if the loop returns.
\<close>

lemma walk_keeps:
  assumes "walk visit stack seen out = Some (Inr (seen', out'))" "Inv stack seen out"
    and "\<And>x rest seen out. Inv (x # rest) seen out \<Longrightarrow> x \<in> set seen \<Longrightarrow> Inv rest seen out"
    and "\<And>x rest seen out push seen' out'. Inv (x # rest) seen out \<Longrightarrow> x \<notin> set seen \<Longrightarrow>
           visit x (x # seen) out = Inr (push, seen', out') \<Longrightarrow> Inv (rev push @ rest) seen' out'"
  shows "Inv [] seen' out'"
proof -
  have "v = visit \<longrightarrow> Inv stk sn ou \<longrightarrow> (\<forall>a b. res = Inr (a, b) \<longrightarrow> Inv [] a b)"
    if "walk v stk sn ou = Some res" for v stk sn ou res
    using that
  proof (rule walk.raw_induct [rotated])
    fix w :: "('a \<Rightarrow> 'a list \<Rightarrow> 'b \<Rightarrow> repo_error + 'a list \<times> 'a list \<times> 'b) \<Rightarrow> 'a list \<Rightarrow> 'a list \<Rightarrow> 'b \<Rightarrow> ('a list \<times> 'b) run"
    fix v stk sn ou res
    assume IH: "\<And>v stk sn ou res. w v stk sn ou = Some res \<Longrightarrow>
        v = visit \<longrightarrow> Inv stk sn ou \<longrightarrow> (\<forall>a b. res = Inr (a, b) \<longrightarrow> Inv [] a b)"
      and body: "(case stk of [] \<Rightarrow> Some (Inr (sn, ou))
        | x # rest \<Rightarrow> if x \<in> set sn then w v rest sn ou
            else (case v x (x # sn) ou of Inl e \<Rightarrow> Some (Inl e)
              | Inr (push, sn', ou') \<Rightarrow> w v (rev push @ rest) sn' ou')) = Some res"
    show "v = visit \<longrightarrow> Inv stk sn ou \<longrightarrow> (\<forall>a b. res = Inr (a, b) \<longrightarrow> Inv [] a b)"
      using body assms(3,4) IH by (auto split: list.splits if_splits sum.splits prod.splits; blast)
  qed
  then show ?thesis using assms(1,2) by blast
qed

text \<open>
  A graph walked by the loop: a finite universe of ids that visits stay in, as long as the state
  the loop threads is one of those that occur (\<open>okay\<close>); a visit never unmarks an id. Then the loop
  returns, and what every visit keeps holds when it does.
\<close>

locale state_walk =
  fixes visit :: "'a \<Rightarrow> 'a list \<Rightarrow> 'o \<Rightarrow> repo_error + 'a list \<times> 'a list \<times> 'o"
    and universe :: "'a set"
    and okay :: "'o \<Rightarrow> bool"
  assumes finite_universe: "finite universe"
    and push_universe: "okay out \<Longrightarrow> x \<in> universe \<Longrightarrow> visit x seen out = Inr (push, seen', out') \<Longrightarrow> set push \<subseteq> universe"
    and stays_okay: "okay out \<Longrightarrow> x \<in> universe \<Longrightarrow> visit x seen out = Inr (push, seen', out') \<Longrightarrow> okay out'"
    and marks_grow: "visit x seen out = Inr (push, seen', out') \<Longrightarrow> set seen \<subseteq> set seen'"
begin

lemma unmarked_shrinks:
  assumes "x \<in> universe" "x \<notin> set seen" "visit x (x # seen) out = Inr (push, seen', out')"
  shows "card (universe - set seen') < card (universe - set seen)"
proof (rule psubset_card_mono)
  show "finite (universe - set seen)" using finite_universe by simp
  show "universe - set seen' \<subset> universe - set seen" using marks_grow [OF assms(3)] assms(1,2) by auto
qed

lemma walk_induct [consumes 2, case_names Nil seen visit error]:
  assumes "set stack \<subseteq> universe" "okay out"
    and "\<And>seen out. okay out \<Longrightarrow> P [] seen out"
    and "\<And>x rest seen out. okay out \<Longrightarrow> x \<in> set seen \<Longrightarrow> P rest seen out \<Longrightarrow> P (x # rest) seen out"
    and "\<And>x rest seen out push seen' out'. okay out \<Longrightarrow> x \<in> universe \<Longrightarrow> x \<notin> set seen \<Longrightarrow>
           visit x (x # seen) out = Inr (push, seen', out') \<Longrightarrow> P (rev push @ rest) seen' out' \<Longrightarrow> P (x # rest) seen out"
    and "\<And>x rest seen out e. okay out \<Longrightarrow> x \<in> universe \<Longrightarrow> x \<notin> set seen \<Longrightarrow> visit x (x # seen) out = Inl e \<Longrightarrow>
           P (x # rest) seen out"
  shows "P stack seen out"
  using assms(1,2)
proof (induction "(card (universe - set seen), length stack)" arbitrary: stack seen out
    rule: wf_induct_rule [OF wf_lex_prod [OF wf_less_than wf_less_than]])
  case (1 stack seen out)
  note IH = 1(1) and sub = 1(2) and ok = 1(3)
  show ?case
  proof (cases stack)
    case (Cons x rest)
    have x: "x \<in> universe" using sub Cons by simp
    show ?thesis
    proof (cases "x \<in> set seen")
      case True
      have "P rest seen out" by (rule IH) (use sub ok Cons in auto)
      then show ?thesis using True ok assms(4) Cons by blast
    next
      case False
      show ?thesis
      proof (cases "visit x (x # seen) out")
        case (Inl e)
        then show ?thesis using False ok x assms(6) Cons by blast
      next
        case (Inr a)
        obtain push seen' out' where a: "a = (push, seen', out')" by (cases a)
        note v = Inr [unfolded a]
        have "P (rev push @ rest) seen' out'"
          by (rule IH) (use sub Cons unmarked_shrinks [OF x False v] push_universe [OF ok x v] stays_okay [OF ok x v] in auto)
        then show ?thesis using False x ok v assms(5) Cons by blast
      qed
    qed
  qed (use ok assms(3) in simp)
qed

lemma walk_returns: "set stack \<subseteq> universe \<Longrightarrow> okay out \<Longrightarrow> \<exists>r. walk visit stack seen out = Some r"
  by (induction stack seen out rule: walk_induct) (auto simp: walk_seen walk_visit walk_error)

text \<open>Where no visit fails, the walk ends with a result.\<close>

lemma walk_total:
  assumes "set stack \<subseteq> universe" "okay out"
    and "\<And>x seen out. okay out \<Longrightarrow> x \<in> universe \<Longrightarrow> \<exists>a. visit x seen out = Inr a"
  shows "\<exists>seen' out'. walk visit stack seen out = Some (Inr (seen', out'))"
  using assms(1,2)
proof (induction stack seen out rule: walk_induct)
  case (error x rest seen out e)
  then show ?case using assms(3) [of out x "x # seen"] by auto
qed (simp_all add: walk_seen walk_visit)

end

text \<open>Walks whose visits need nothing of the state.\<close>

locale graph_walk =
  fixes visit :: "'a \<Rightarrow> 'a list \<Rightarrow> 'o \<Rightarrow> repo_error + 'a list \<times> 'a list \<times> 'o"
    and universe :: "'a set"
  assumes finite_nodes: "finite universe"
    and push_nodes: "x \<in> universe \<Longrightarrow> visit x seen out = Inr (push, seen', out') \<Longrightarrow> set push \<subseteq> universe"
    and marks_nodes: "visit x seen out = Inr (push, seen', out') \<Longrightarrow> set seen \<subseteq> set seen'"
begin

sublocale st: state_walk visit universe "\<lambda>_. True"
  by unfold_locales (use finite_nodes push_nodes marks_nodes in blast)+

lemma walk_induct [consumes 1, case_names Nil seen visit error]:
  assumes "set stack \<subseteq> universe"
    and "\<And>seen out. P [] seen out"
    and "\<And>x rest seen out. x \<in> set seen \<Longrightarrow> P rest seen out \<Longrightarrow> P (x # rest) seen out"
    and "\<And>x rest seen out push seen' out'. x \<in> universe \<Longrightarrow> x \<notin> set seen \<Longrightarrow>
           visit x (x # seen) out = Inr (push, seen', out') \<Longrightarrow> P (rev push @ rest) seen' out' \<Longrightarrow> P (x # rest) seen out"
    and "\<And>x rest seen out e. x \<notin> set seen \<Longrightarrow> visit x (x # seen) out = Inl e \<Longrightarrow> P (x # rest) seen out"
  shows "P stack seen out"
  by (rule st.walk_induct [OF assms(1) TrueI]) (use assms(2-5) in blast)+

lemmas walk_returns = st.walk_returns [OF _ TrueI]

lemma walk_total:
  assumes "set stack \<subseteq> universe" "\<And>x seen out. \<exists>a. visit x seen out = Inr a"
  shows "\<exists>seen' out'. walk visit stack seen out = Some (Inr (seen', out'))"
  by (rule st.walk_total [OF assms(1) TrueI assms(2)])

end

section \<open>Plain searches\<close>

text \<open>Searches that only mark what they visit: the marks at the end are what can be reached.\<close>

definition edges :: "('a \<Rightarrow> repo_error + 'a list) \<Rightarrow> ('a \<times> 'a) set" where
  "edges succ = {(x, y). \<exists>ys. succ x = Inr ys \<and> y \<in> set ys}"

definition plain_visit :: "('a \<Rightarrow> repo_error + 'a list) \<Rightarrow> 'a \<Rightarrow> 'a list \<Rightarrow> unit \<Rightarrow> repo_error + 'a list \<times> 'a list \<times> unit" where
  "plain_visit succ x seen out = rbind (succ x) (\<lambda>ys. Inr (ys, seen, ()))"

definition search :: "('a \<Rightarrow> repo_error + 'a list) \<Rightarrow> 'a \<Rightarrow> 'a list run" where
  "search succ x = run_bind (walk (plain_visit succ) [x] [] ()) (\<lambda>(seen, _). ret seen)"

locale finite_graph =
  fixes succ :: "'a \<Rightarrow> repo_error + 'a list" and universe :: "'a set"
  assumes finite_graph: "finite universe"
    and succ_universe: "x \<in> universe \<Longrightarrow> succ x = Inr ys \<Longrightarrow> set ys \<subseteq> universe"
begin

sublocale graph_walk "plain_visit succ" universe
  by unfold_locales (use finite_graph succ_universe in \<open>auto simp: plain_visit_def res_simps\<close>)

lemma search_reaches:
  assumes "x \<in> universe" "search succ x = Some (Inr S)"
  shows "set S = {y. (x, y) \<in> (edges succ)\<^sup>*}"
proof -
  let ?Inv = "\<lambda>stack seen (out :: unit). x \<in> set stack \<union> set seen \<and>
    set stack \<union> set seen \<subseteq> {y. (x, y) \<in> (edges succ)\<^sup>*} \<and>
    (\<forall>y \<in> set seen. \<exists>ys. succ y = Inr ys \<and> set ys \<subseteq> set stack \<union> set seen)"
  have "walk (plain_visit succ) [x] [] () = Some (Inr (S, ()))"
    using assms(2) by (auto simp: search_def res_simps ret_def)
  moreover have "?Inv [x] [] ()" by simp
  moreover have "?Inv rest seen out" if "?Inv (y # rest) seen out" "y \<in> set seen" for y rest seen out
    using that by (auto simp: insert_absorb)
  moreover have "?Inv (rev push @ rest) seen' out'"
    if "?Inv (y # rest) seen out" "y \<notin> set seen" "plain_visit succ y (y # seen) out = Inr (push, seen', out')"
    for y rest seen out push seen' out'
  proof -
    from that(3) have y: "succ y = Inr push" "seen' = y # seen" by (auto simp: plain_visit_def res_simps)
    have "(x, y) \<in> (edges succ)\<^sup>*" using that(1) by auto
    then have "\<forall>z \<in> set push. (x, z) \<in> (edges succ)\<^sup>*"
      using y(1) by (auto simp: edges_def intro: rtrancl_into_rtrancl)
    moreover have "\<exists>ys. succ z = Inr ys \<and> set ys \<subseteq> set (rev push @ rest) \<union> set seen'" if "z \<in> set seen'" for z
    proof (cases "z = y")
      case False
      with that y(2) obtain ys where "succ z = Inr ys" "set ys \<subseteq> set (y # rest) \<union> set seen"
        using \<open>?Inv (y # rest) seen out\<close> by auto
      then show ?thesis using y(2) by auto
    qed (use y in auto)
    ultimately show ?thesis using that(1) y(2) by auto
  qed
  ultimately have inv: "?Inv [] S ()" using walk_keeps [where Inv = ?Inv, of "plain_visit succ" "[x]" "[]" "()" S "()"] by blast
  have "(x, y) \<in> (edges succ)\<^sup>* \<Longrightarrow> y \<in> set S" for y
  proof (induction rule: rtrancl_induct)
    case (step y z)
    then obtain ys where "succ y = Inr ys" "z \<in> set ys" by (auto simp: edges_def)
    moreover have "\<exists>ys. succ y = Inr ys \<and> set ys \<subseteq> set S" using inv step.IH by simp
    ultimately show ?case by auto
  qed (use inv in simp)
  with inv show ?thesis by auto
qed

lemma search_returns: "x \<in> universe \<Longrightarrow> \<exists>r. search succ x = Some r"
  using walk_returns [of "[x]" "[]" "()"] by (auto simp: search_def run_bind_def ret_def split: sum.splits)

text \<open>Where every node has successors, possibly none, the search cannot fail.\<close>

lemma search_total:
  assumes "x \<in> universe" "\<And>y. \<exists>ys. succ y = Inr ys"
  shows "\<exists>S. search succ x = Some (Inr S) \<and> set S = {y. (x, y) \<in> (edges succ)\<^sup>*}"
proof -
  have "walk (plain_visit succ) stack seen out \<noteq> Some (Inl e)" if "set stack \<subseteq> universe" for stack seen out e
    using that
  proof (induction stack seen out rule: walk_induct)
    case (error y rest seen out e')
    then show ?case using assms(2) [of y] by (auto simp: plain_visit_def)
  qed (simp_all add: walk_seen walk_visit)
  then have "search succ x \<noteq> Some (Inl e)" for e
    using assms(1) by (auto simp: search_def run_bind_def ret_def split: option.splits sum.splits)
  then obtain S where "search succ x = Some (Inr S)"
    using search_returns [OF assms(1)] by (metis old.sum.exhaust)
  then show ?thesis using search_reaches [OF assms(1)] by blast
qed

end

end
