(* ===== verification/RepoHistory.thy ===== *)
theory RepoHistory imports
  RepoWalk
begin

text \<open>
  The commit graph: ancestors and merge bases (\<^verbatim>\<open>crates/repo/src/merge.rs\<close>) and the search for the
  first bad commit (\<^verbatim>\<open>bisect.rs\<close>). A \<^verbatim>\<open>HashSet\<close> is a list here; the code never relies on its order.
\<close>

section \<open>Ancestors\<close>

definition ancestor_succ :: "ext \<Rightarrow> repo \<Rightarrow> string \<Rightarrow> repo_error + string list" where
  "ancestor_succ E r c = (case read_commit E r c of Inr _ \<Rightarrow> parents_of E r c | Inl _ \<Rightarrow> Inr [])"

definition ancestors :: "ext \<Rightarrow> repo \<Rightarrow> string \<Rightarrow> string list run" where
  "ancestors E r start = search (ancestor_succ E r) start"

definition ancestors_incl :: "ext \<Rightarrow> repo \<Rightarrow> string \<Rightarrow> string list run" where
  "ancestors_incl E r commit = search (parents_of E r) commit"

section \<open>Merge bases\<close>

fun dominated :: "ext \<Rightarrow> repo \<Rightarrow> string \<Rightarrow> string list \<Rightarrow> bool run" where
  "dominated E r c [] = ret False"
| "dominated E r c (a # as) =
     (if a = c then dominated E r c as
      else run_bind (ancestors E r a) (\<lambda>s. if c \<in> set s then ret True else dominated E r c as))"

fun undominated :: "ext \<Rightarrow> repo \<Rightarrow> string list \<Rightarrow> string list \<Rightarrow> string list run" where
  "undominated E r common [] = ret []"
| "undominated E r common (c # cs) = run_bind (dominated E r c common) (\<lambda>d.
     run_bind (undominated E r common cs) (\<lambda>bs. ret (if d then bs else c # bs)))"

definition merge_base :: "ext \<Rightarrow> repo \<Rightarrow> string \<Rightarrow> string \<Rightarrow> string option run" where
  "merge_base E r a b = run_bind (ancestors E r a) (\<lambda>aa. run_bind (ancestors E r b) (\<lambda>ab.
     let common = filter (\<lambda>c. c \<in> set ab) aa
     in if common = [] then ret None
        else run_bind (undominated E r common common) (\<lambda>bases.
          ret (case sort bases of [] \<Rightarrow> None | c # _ \<Rightarrow> Some c))))"

section \<open>Bisection\<close>

datatype bisect_state = NeedMarks | Done string | Step string nat

definition read_lines :: "fs \<Rightarrow> string \<Rightarrow> string list" where
  "read_lines d name = (case fs_read d [name] of Inl _ \<Rightarrow> [] | Inr s \<Rightarrow> entry_lines s)"

definition append_unique :: "string \<Rightarrow> string \<Rightarrow> fs \<Rightarrow> repo_error + fs" where
  "append_unique name v d = (let ls = read_lines d name
     in if v \<in> set ls then Inr d else fs_write [name] (unlines (ls @ [v])) d)"

definition bisect_clear :: "fs \<Rightarrow> fs" where
  "bisect_clear d = fold (\<lambda>f. remove_file [f])
     [''BISECT_START'', ''BISECT_BAD'', ''BISECT_GOOD'', ''BISECT_SKIP'', ''BISECT_LOG''] d"

definition bisect_start :: "string \<Rightarrow> fs \<Rightarrow> repo_error + fs" where
  "bisect_start original d = fs_write [''BISECT_START''] (original @ [CHR 0x0A]) (bisect_clear d)"

definition in_bisect :: "fs \<Rightarrow> bool" where
  "in_bisect d = is_file d [''BISECT_START'']"

definition first_line :: "fs \<Rightarrow> string \<Rightarrow> string option" where
  "first_line d name = (case read_lines d name of [] \<Rightarrow> None | l # _ \<Rightarrow> Some l)"

definition bisect_original :: "fs \<Rightarrow> string option" where
  "bisect_original d = first_line d ''BISECT_START''"

definition set_bad :: "string \<Rightarrow> fs \<Rightarrow> repo_error + fs" where
  "set_bad c d = fs_write [''BISECT_BAD''] (c @ [CHR 0x0A]) d"

definition bad :: "fs \<Rightarrow> string option" where
  "bad d = first_line d ''BISECT_BAD''"

definition add_good :: "string \<Rightarrow> fs \<Rightarrow> repo_error + fs" where
  "add_good c d = append_unique ''BISECT_GOOD'' c d"

definition good :: "fs \<Rightarrow> string list" where
  "good d = read_lines d ''BISECT_GOOD''"

definition add_skip :: "string \<Rightarrow> fs \<Rightarrow> repo_error + fs" where
  "add_skip c d = append_unique ''BISECT_SKIP'' c d"

definition skip :: "fs \<Rightarrow> string list" where
  "skip d = read_lines d ''BISECT_SKIP''"

definition append_log :: "string \<Rightarrow> fs \<Rightarrow> repo_error + fs" where
  "append_log line d = fs_append [''BISECT_LOG''] (line @ [CHR 0x0A]) d"

definition log_lines :: "fs \<Rightarrow> string list" where
  "log_lines d = read_lines d ''BISECT_LOG''"

fun exonerate :: "ext \<Rightarrow> repo \<Rightarrow> string list \<Rightarrow> string list \<Rightarrow> string list run" where
  "exonerate E r [] suspects = ret suspects"
| "exonerate E r (g # gs) suspects = run_bind (ancestors_incl E r g) (\<lambda>s.
     exonerate E r gs (filter (\<lambda>c. c \<notin> set s) suspects))"

fun pick :: "ext \<Rightarrow> repo \<Rightarrow> string list \<Rightarrow> string list \<Rightarrow> (string \<times> nat) option \<Rightarrow> (string \<times> nat) option run" where
  "pick E r suspects [] best = ret best"
| "pick E r suspects (c # cs) best = run_bind (ancestors_incl E r c) (\<lambda>anc.
     let n = length (filter (\<lambda>a. a \<in> set suspects) anc);
         score = min n (length suspects - n)
     in pick E r suspects cs (case best of None \<Rightarrow> Some (c, score)
          | Some (b, s) \<Rightarrow> if s < score then Some (c, score) else best))"

definition bisect_compute :: "ext \<Rightarrow> repo \<Rightarrow> bisect_state run" where
  "bisect_compute E r = (case bad (disk r) of None \<Rightarrow> ret NeedMarks | Some b \<Rightarrow>
     (let goods = good (disk r) in if goods = [] then ret NeedMarks else
      run_bind (ancestors_incl E r b) (\<lambda>anc. run_bind (exonerate E r goods anc) (\<lambda>suspects.
        let candidates = sort (filter (\<lambda>c. c \<noteq> b \<and> c \<notin> set (skip (disk r))) suspects)
        in if candidates = [] then ret (Done b)
           else run_bind (pick E r suspects candidates None) (\<lambda>best. case best of
             None \<Rightarrow> Some (Inl Panic) | Some (c, _) \<Rightarrow> ret (Step c (length candidates)))))))"

section \<open>The commit graph is finite\<close>

definition stored :: "repo \<Rightarrow> string set" where
  "stored r = {i. store_exists r i}"

lemma finite_stored: "finite (stored r)"
proof -
  have "finite ((\<lambda>i. object_path i) -` (fst ` set (disk r)))"
    by (rule finite_vimageI) (auto intro: injI simp: object_path_inject)
  moreover have "stored r \<subseteq> (\<Union>pf \<in> set (packs r). fst ` set (pk_index pf)) \<union> (\<lambda>i. object_path i) -` (fst ` set (disk r))"
  proof
    fix i assume "i \<in> stored r"
    then consider pf where "pf \<in> set (packs r)" "pack_contains i pf" | "fs_exists (disk r) (object_path i)"
      by (auto simp: stored_def store_exists_def list_ex_iff)
    then show "i \<in> (\<Union>pf \<in> set (packs r). fst ` set (pk_index pf)) \<union> (\<lambda>i. object_path i) -` (fst ` set (disk r))"
    proof cases
      case 1
      then show ?thesis by (auto simp: pack_contains_def bm_get_None_iff)
    next
      case 2
      moreover have "object_path i \<noteq> []" by (simp add: object_path_def)
      ultimately show ?thesis by (auto simp: fs_exists_def fs_lookup_def im_get_None_iff)
    qed
  qed
  moreover have "finite (\<Union>pf \<in> set (packs r). fst ` set (pk_index pf))" by simp
  ultimately show ?thesis by (meson finite_Un finite_subset)
qed

lemma read_commit_stored: "read_commit E r i = Inr c \<Longrightarrow> i \<in> stored r"
  by (auto simp: read_commit_def res_simps stored_def dest: store_read_exists)

definition commit_universe :: "ext \<Rightarrow> repo \<Rightarrow> string set" where
  "commit_universe E r = (\<Union>i \<in> stored r. case read_commit E r i of Inr c \<Rightarrow> set (parents c) | Inl _ \<Rightarrow> {})"

lemma finite_commit_universe: "finite (commit_universe E r)"
  by (auto simp: commit_universe_def finite_stored split: sum.splits)

lemma parents_universe: "parents_of E r c = Inr ps \<Longrightarrow> set ps \<subseteq> commit_universe E r"
  by (auto simp: parents_of_def res_simps commit_universe_def dest: read_commit_stored split: if_splits
      intro!: bexI [of _ c])

interpretation commits: finite_graph "parents_of E r" "insert s (commit_universe E r)" for E r s
proof unfold_locales
  fix x ys assume "parents_of E r x = Inr ys"
  then show "set ys \<subseteq> insert s (commit_universe E r)" using parents_universe by blast
qed (simp add: finite_commit_universe)

interpretation lenient_commits: finite_graph "ancestor_succ E r" "insert s (commit_universe E r)" for E r s
proof unfold_locales
  fix x ys assume "ancestor_succ E r x = Inr ys"
  then show "set ys \<subseteq> insert s (commit_universe E r)"
    using parents_universe [of E r x ys] by (auto simp: ancestor_succ_def split: sum.splits)
qed (simp add: finite_commit_universe)

text \<open>One commit is a parent of another; a shallow boundary cuts the edges below it.\<close>

definition parent_of :: "ext \<Rightarrow> repo \<Rightarrow> (string \<times> string) set" where
  "parent_of E r = edges (parents_of E r)"

lemma ancestor_succ_ok: "\<exists>ys. ancestor_succ E r c = Inr ys"
  by (auto simp: ancestor_succ_def parents_of_def split: sum.splits)

lemma parents_of_unread: "read_commit E r c = Inl e \<Longrightarrow> parents_of E r c = Inr ps \<Longrightarrow> ps = []"
  by (auto simp: parents_of_def split: if_splits)

lemma ancestor_edges: "edges (ancestor_succ E r) = parent_of E r"
proof -
  have "(\<exists>ys. ancestor_succ E r c = Inr ys \<and> y \<in> set ys) \<longleftrightarrow> (\<exists>ps. parents_of E r c = Inr ps \<and> y \<in> set ps)" for c y
  proof (cases "read_commit E r c")
    case (Inl e)
    then show ?thesis using parents_of_unread by (fastforce simp: ancestor_succ_def)
  next
    case (Inr co)
    then show ?thesis by (simp add: ancestor_succ_def)
  qed
  then show ?thesis by (simp add: edges_def parent_of_def)
qed

lemma ancestors_spec:
  obtains S where "ancestors E r c = Some (Inr S)" "set S = {a. (c, a) \<in> (parent_of E r)\<^sup>*}"
  using lenient_commits.search_total [of c c E r] ancestor_succ_ok that
  by (auto simp: ancestors_def ancestor_edges)

lemma ancestors_incl_returns: "\<exists>res. ancestors_incl E r c = Some res"
  using commits.search_returns [of c c E r] by (simp add: ancestors_incl_def)

lemma ancestors_incl_spec: "ancestors_incl E r c = Some (Inr S) \<Longrightarrow> set S = {a. (c, a) \<in> (parent_of E r)\<^sup>*}"
  using commits.search_reaches [of c c E r S] by (simp add: ancestors_incl_def parent_of_def)

section \<open>The best common ancestor\<close>

definition common_ancestors :: "ext \<Rightarrow> repo \<Rightarrow> string \<Rightarrow> string \<Rightarrow> string set" where
  "common_ancestors E r a b = {c. (a, c) \<in> (parent_of E r)\<^sup>* \<and> (b, c) \<in> (parent_of E r)\<^sup>*}"

text \<open>A common ancestor that no other common ancestor descends from.\<close>

definition best_base :: "ext \<Rightarrow> repo \<Rightarrow> string \<Rightarrow> string \<Rightarrow> string \<Rightarrow> bool" where
  "best_base E r a b c \<longleftrightarrow> c \<in> common_ancestors E r a b \<and>
     (\<forall>x \<in> common_ancestors E r a b. x \<noteq> c \<longrightarrow> (x, c) \<notin> (parent_of E r)\<^sup>*)"

lemma dominated_spec:
  "dominated E r c as = Some (Inr (\<exists>a \<in> set as. a \<noteq> c \<and> (a, c) \<in> (parent_of E r)\<^sup>*))"
proof (induction as)
  case (Cons a as)
  obtain S where "ancestors E r a = Some (Inr S)" "set S = {x. (a, x) \<in> (parent_of E r)\<^sup>*}"
    by (rule ancestors_spec)
  with Cons show ?case by (auto simp: ret_def)
qed (simp add: ret_def)

lemma undominated_spec:
  "\<exists>bs. undominated E r common cs = Some (Inr bs) \<and>
     set bs = {c \<in> set cs. \<forall>a \<in> set common. a \<noteq> c \<longrightarrow> (a, c) \<notin> (parent_of E r)\<^sup>*}"
proof (induction cs)
  case (Cons c cs)
  then obtain bs where "undominated E r common cs = Some (Inr bs)"
      "set bs = {c \<in> set cs. \<forall>a \<in> set common. a \<noteq> c \<longrightarrow> (a, c) \<notin> (parent_of E r)\<^sup>*}" by blast
  then show ?case by (auto simp: dominated_spec ret_def)
qed (simp add: ret_def)

lemma merge_base_best:
  obtains m where "merge_base E r a b = Some (Inr m)"
    "case m of None \<Rightarrow> \<not> (\<exists>c. best_base E r a b c)
     | Some c \<Rightarrow> best_base E r a b c \<and> (\<forall>c'. best_base E r a b c' \<longrightarrow> c \<le> c')"
proof -
  obtain A B where A: "ancestors E r a = Some (Inr A)" "set A = {x. (a, x) \<in> (parent_of E r)\<^sup>*}"
      and B: "ancestors E r b = Some (Inr B)" "set B = {x. (b, x) \<in> (parent_of E r)\<^sup>*}"
    by (metis ancestors_spec)
  define common where "common = filter (\<lambda>c. c \<in> set B) A"
  have C: "set common = common_ancestors E r a b" using A B by (auto simp: common_def common_ancestors_def)
  obtain bs where bs: "undominated E r common common = Some (Inr bs)"
      "set bs = {c \<in> set common. \<forall>a \<in> set common. a \<noteq> c \<longrightarrow> (a, c) \<notin> (parent_of E r)\<^sup>*}"
    using undominated_spec by blast
  then have best: "c \<in> set bs \<longleftrightarrow> best_base E r a b c" for c by (auto simp: best_base_def C)
  let ?m = "case sort bs of [] \<Rightarrow> None | c # _ \<Rightarrow> Some c"
  show thesis
  proof (rule that)
    have "common = [] \<Longrightarrow> ?m = None" using bs(2) by simp
    then show "merge_base E r a b = Some (Inr ?m)"
      using A(1) B(1) bs(1) by (auto simp: merge_base_def ret_def Let_def simp flip: common_def)
    show "case ?m of None \<Rightarrow> \<not> (\<exists>c. best_base E r a b c)
      | Some c \<Rightarrow> best_base E r a b c \<and> (\<forall>c'. best_base E r a b c' \<longrightarrow> c \<le> c')"
    proof (cases "sort bs")
      case Nil
      then have "bs = []" by (metis set_empty set_sort)
      with best show ?thesis by auto
    next
      case (Cons c cs)
      then have "set bs = insert c (set cs)" "\<forall>y \<in> set cs. c \<le> y"
        by (metis list.simps(15) set_sort) (metis Cons sorted_simps(2) sorted_sort)
      then have "c \<in> set bs" "\<forall>y \<in> set bs. c \<le> y" by simp_all
      then have "best_base E r a b c" "\<forall>c'. best_base E r a b c' \<longrightarrow> c \<le> c'"
        using best by blast+
      then show ?thesis by (simp add: Cons)
    qed
  qed
qed

lemma best_base_exists:
  assumes "acyclic (parent_of E r)" "common_ancestors E r a b \<noteq> {}"
  shows "\<exists>c. best_base E r a b c"
proof -
  let ?C = "common_ancestors E r a b" and ?R = "(parent_of E r)\<^sup>+"
  obtain S where "set S = {x. (a, x) \<in> (parent_of E r)\<^sup>*}" using ancestors_spec by metis
  then have "?C \<subseteq> set S" by (auto simp: common_ancestors_def)
  then have fin: "finite ?C" by (rule finite_subset) simp
  have "acyclic ?R" using assms(1) by (simp add: acyclic_def trancl_id)
  then have "acyclic (?R \<inter> ?C \<times> ?C)" by (rule acyclic_subset) blast
  then have wf: "wf (?R \<inter> ?C \<times> ?C)" by (intro finite_acyclic_wf) (use fin in auto)
  obtain c where c: "c \<in> ?C" "\<And>x. (x, c) \<in> ?R \<inter> ?C \<times> ?C \<Longrightarrow> x \<notin> ?C"
    using assms(2) wfE_min' [OF wf, of ?C] by blast
  have "(x, c) \<notin> (parent_of E r)\<^sup>*" if "x \<in> ?C" "x \<noteq> c" for x
  proof
    assume "(x, c) \<in> (parent_of E r)\<^sup>*"
    with that(2) have "(x, c) \<in> ?R" by (metis rtranclD)
    with that(1) c show False by blast
  qed
  with c(1) have "best_base E r a b c" by (simp add: best_base_def)
  then show ?thesis ..
qed

section \<open>Bisection narrows\<close>

definition exonerated :: "ext \<Rightarrow> repo \<Rightarrow> string list \<Rightarrow> string set" where
  "exonerated E r gs = {a. \<exists>g \<in> set gs. (g, a) \<in> (parent_of E r)\<^sup>*}"

text \<open>What a session still has to test: descends to the bad commit, not exonerated, not skipped.\<close>

definition candidates :: "ext \<Rightarrow> repo \<Rightarrow> string set" where
  "candidates E r = (case bad (disk r) of None \<Rightarrow> {} | Some b \<Rightarrow>
     {c. (b, c) \<in> (parent_of E r)\<^sup>* \<and> c \<notin> exonerated E r (good (disk r)) \<and> c \<noteq> b \<and> c \<notin> set (skip (disk r))})"

lemma exonerate_returns: "\<exists>res. exonerate E r gs suspects = Some res"
proof (induction gs arbitrary: suspects)
  case (Cons g gs)
  obtain res where "ancestors_incl E r g = Some res" using ancestors_incl_returns by blast
  with Cons show ?case by (cases res) simp_all
qed (simp add: ret_def)

lemma exonerate_spec:
  "exonerate E r gs suspects = Some (Inr S) \<Longrightarrow> set S = set suspects - exonerated E r gs \<and> (distinct suspects \<longrightarrow> distinct S)"
proof (induction gs arbitrary: suspects)
  case (Cons g gs)
  then obtain A where A: "ancestors_incl E r g = Some (Inr A)"
      "exonerate E r gs (filter (\<lambda>c. c \<notin> set A) suspects) = Some (Inr S)"
    by (auto simp: res_simps)
  from Cons.IH [OF A(2)] ancestors_incl_spec [OF A(1)] show ?case by (auto simp: exonerated_def)
qed (simp add: ret_def exonerated_def)

lemma pick_returns: "\<exists>res. pick E r suspects cs best = Some res"
proof (induction cs arbitrary: best)
  case (Cons c cs)
  obtain res where "ancestors_incl E r c = Some res" using ancestors_incl_returns by blast
  with Cons show ?case by (cases res) (simp_all add: Let_def)
qed (simp add: ret_def)

lemma pick_spec:
  "pick E r suspects cs best = Some (Inr res) \<Longrightarrow>
     (best = None \<longrightarrow> cs \<noteq> [] \<longrightarrow> res \<noteq> None) \<and> (best \<noteq> None \<longrightarrow> res \<noteq> None) \<and>
     (\<forall>c s. res = Some (c, s) \<longrightarrow> best = Some (c, s) \<or> c \<in> set cs)"
proof (induction cs arbitrary: best)
  case (Cons c cs)
  then obtain A where A: "ancestors_incl E r c = Some (Inr A)" by (auto simp: res_simps)
  define best' where "best' = (let n = length (filter (\<lambda>a. a \<in> set suspects) A);
         score = min n (length suspects - n)
     in case best of None \<Rightarrow> Some (c, score) | Some (b, s) \<Rightarrow> if s < score then Some (c, score) else best)"
  have "pick E r suspects cs best' = Some (Inr res)" using Cons.prems A by (simp add: best'_def Let_def)
  note IH = Cons.IH [OF this]
  have "best' \<noteq> None" "\<And>x s. best' = Some (x, s) \<Longrightarrow> best = Some (x, s) \<or> x = c"
    by (auto simp: best'_def Let_def split: option.splits if_splits)
  with IH show ?case by auto
qed (simp add: ret_def)

lemma search_distinct: "ancestors_incl E r c = Some (Inr S) \<Longrightarrow> distinct S"
proof -
  assume "ancestors_incl E r c = Some (Inr S)"
  then have w: "walk (plain_visit (parents_of E r)) [c] [] () = Some (Inr (S, ()))"
    by (auto simp: ancestors_incl_def search_def res_simps ret_def)
  show "distinct S"
    using walk_keeps [OF w, where Inv = "\<lambda>_ seen _. distinct seen"]
    by (force simp: plain_visit_def res_simps)
qed

lemma ancestors_incl_visited:
  assumes "ancestors_incl E r c = Some (Inr S)" "a \<in> set S"
  shows "\<exists>ps. parents_of E r a = Inr ps"
proof -
  have w: "walk (plain_visit (parents_of E r)) [c] [] () = Some (Inr (S, ()))"
    using assms(1) by (auto simp: ancestors_incl_def search_def res_simps ret_def)
  let ?Inv = "\<lambda>stack seen (out :: unit). \<forall>a \<in> set seen. \<exists>ps. parents_of E r a = Inr ps"
  have "?Inv (rev push @ rest) seen' out'"
    if "?Inv (x # rest) seen out" "plain_visit (parents_of E r) x (x # seen) out = Inr (push, seen', out')"
    for x rest seen out push seen' out'
    using that by (auto simp: plain_visit_def res_simps)
  moreover have "?Inv rest seen out" if "?Inv (x # rest) seen out" for x rest seen out
    using that .
  moreover have "?Inv [c] [] ()" by simp
  ultimately have "?Inv [] S ()"
    using walk_keeps [OF w, where Inv = ?Inv] by blast
  with assms(2) show ?thesis by blast
qed

text \<open>The outcome of a computation in terms of the graph.\<close>

lemma bisect_compute_cases:
  assumes "bisect_compute E r = Some (Inr st)"
  obtains (need) "st = NeedMarks" "bad (disk r) = None \<or> good (disk r) = []"
  | (finished) b where "st = Done b" "bad (disk r) = Some b" "candidates E r = {}"
  | (testing) b c n where "st = Step c n" "bad (disk r) = Some b" "c \<in> candidates E r" "n = card (candidates E r)"
      "\<exists>ps. parents_of E r c = Inr ps"
proof (cases "bad (disk r) = None \<or> good (disk r) = []")
  case True
  then show ?thesis using assms need by (auto simp: bisect_compute_def Let_def ret_def split: option.splits)
next
  case False
  then obtain b where b: "bad (disk r) = Some b" "good (disk r) \<noteq> []" by auto
  with assms obtain A S where A: "ancestors_incl E r b = Some (Inr A)"
      and S: "exonerate E r (good (disk r)) A = Some (Inr S)"
      and rest: "(let cs = sort (filter (\<lambda>c. c \<noteq> b \<and> c \<notin> set (skip (disk r))) S)
        in if cs = [] then ret (Done b)
           else run_bind (pick E r S cs None) (\<lambda>best. case best of
             None \<Rightarrow> Some (Inl Panic) | Some (c, _) \<Rightarrow> ret (Step c (length cs)))) = Some (Inr st)"
    by (auto simp: bisect_compute_def Let_def res_simps)
  define cs where "cs = sort (filter (\<lambda>c. c \<noteq> b \<and> c \<notin> set (skip (disk r))) S)"
  have cands: "set cs = candidates E r"
    using exonerate_spec [OF S] ancestors_incl_spec [OF A] b(1) by (auto simp: cs_def candidates_def)
  have dist: "distinct cs" using exonerate_spec [OF S] search_distinct [OF A] by (simp add: cs_def)
  show ?thesis
  proof (cases "cs = []")
    case True
    then have "st = Done b" using rest by (simp add: ret_def flip: cs_def)
    moreover have "candidates E r = {}" using cands True by simp
    ultimately show ?thesis using b(1) finished by blast
  next
    case False
    with rest obtain best where best: "pick E r S cs None = Some (Inr best)"
        "(case best of None \<Rightarrow> Some (Inl Panic) | Some (c, _) \<Rightarrow> ret (Step c (length cs))) = Some (Inr st)"
      by (auto simp: res_simps Let_def simp flip: cs_def)
    then obtain c s where c: "best = Some (c, s)" "st = Step c (length cs)"
      by (auto simp: ret_def split: option.splits)
    with pick_spec [OF best(1)] have "c \<in> set cs" by auto
    moreover have "c \<in> set A" using calculation exonerate_spec [OF S] by (auto simp: cs_def)
    ultimately show ?thesis
      using c b testing cands distinct_card [OF dist] ancestors_incl_visited [OF A] by simp
  qed
qed

lemma bisect_returns: "\<exists>res. bisect_compute E r = Some res"
proof (cases "bad (disk r) = None \<or> good (disk r) = []")
  case True
  then show ?thesis by (auto simp: bisect_compute_def Let_def ret_def split: option.splits)
next
  case False
  then obtain b where b: "bad (disk r) = Some b" "good (disk r) \<noteq> []" by auto
  obtain A where A: "ancestors_incl E r b = Some A" using ancestors_incl_returns by blast
  show ?thesis
  proof (cases A)
    case (Inr A')
    obtain S where S: "exonerate E r (good (disk r)) A' = Some S" using exonerate_returns by blast
    show ?thesis
    proof (cases S)
      case (Inr S')
      define cs where "cs = sort (filter (\<lambda>c. c \<noteq> b \<and> c \<notin> set (skip (disk r))) S')"
      obtain res where "pick E r S' cs None = Some res" using pick_returns by blast
      then have "\<exists>x. run_bind (pick E r S' cs None) (\<lambda>best. case best of
             None \<Rightarrow> Some (Inl Panic) | Some (c, _) \<Rightarrow> ret (Step c (length cs))) = Some x"
        by (cases res) (auto simp: ret_def split: option.splits)
      then show ?thesis using b A S \<open>A = Inr A'\<close> Inr
        by (simp add: bisect_compute_def Let_def flip: cs_def) (simp add: ret_def)
    qed (use b A S Inr in \<open>simp add: bisect_compute_def Let_def\<close>)
  qed (use b A in \<open>simp add: bisect_compute_def Let_def\<close>)
qed

section \<open>Marks\<close>

lemma parents_of_frame:
  assumes "\<And>p. p \<noteq> [name] \<Longrightarrow> fs_lookup d p = fs_lookup (disk r) p" "name \<noteq> ''shallow''"
  shows "parents_of E (r\<lparr>disk := d\<rparr>) = parents_of E r"
proof -
  have p: "object_path i \<noteq> [name]" "shallow_path \<noteq> [name]" for i
    using assms(2) by (simp_all add: object_path_def shallow_path_def)
  have "fs_lookup d (object_path i) = fs_lookup (disk r) (object_path i)"
    "fs_lookup d shallow_path = fs_lookup (disk r) shallow_path" for i
    using assms(1) p by blast+
  then have rd: "fs_read d (object_path i) = fs_read (disk r) (object_path i)"
    "fs_read d shallow_path = fs_read (disk r) shallow_path" "is_file d shallow_path = is_file (disk r) shallow_path" for i
    by (simp_all add: fs_read_def is_file_def)
  then have "store_read E (r\<lparr>disk := d\<rparr>) i = store_read E r i" for i
    by (simp add: store_read_def)
  then have "read_commit E (r\<lparr>disk := d\<rparr>) i = read_commit E r i" for i
    by (simp add: read_commit_def)
  moreover have "shallow_boundary d = shallow_boundary (disk r)" "is_shallow d = is_shallow (disk r)"
    by (simp_all only: shallow_boundary_def is_shallow_def rd)
  ultimately show ?thesis by (simp add: fun_eq_iff parents_of_def)
qed

lemma fs_write_lookup: "fs_write [name] c d = Inr d' \<Longrightarrow> fs_lookup d' = (fs_lookup d)([name] \<mapsto> File c)"
  by (auto simp: fs_write_iff lookup_insert)

lemma read_lines_written:
  "fs_write [name] (unlines ls) d = Inr d' \<Longrightarrow> \<forall>l \<in> set ls. entry_text l \<Longrightarrow>
     read_lines d' other = (if other = name then ls else read_lines d other)"
  by (auto simp: read_lines_def fs_read_def fs_write_lookup entry_lines_unlines)

lemma read_lines_entries: "l \<in> set (read_lines d name) \<Longrightarrow> entry_text l"
  by (auto simp: read_lines_def entry_lines_entries split: sum.splits)

lemma append_unique_spec:
  assumes "append_unique name c d = Inr d'" "entry_text c" "c \<notin> set (read_lines d name)"
  shows "read_lines d' other = (if other = name then read_lines d name @ [c] else read_lines d other)"
    "\<And>p. p \<noteq> [name] \<Longrightarrow> fs_lookup d' p = fs_lookup d p"
proof -
  have w: "fs_write [name] (unlines (read_lines d name @ [c])) d = Inr d'"
    using assms by (simp add: append_unique_def)
  have "\<forall>l \<in> set (read_lines d name @ [c]). entry_text l"
    using assms(2) read_lines_entries by auto
  then show "read_lines d' other = (if other = name then read_lines d name @ [c] else read_lines d other)"
    by (rule read_lines_written [OF w])
  show "\<And>p. p \<noteq> [name] \<Longrightarrow> fs_lookup d' p = fs_lookup d p" using fs_write_lookup [OF w] by simp
qed

lemma object_id_word: "is_object_id i \<Longrightarrow> word_text i"
  unfolding is_object_id_def word_text_def list_all_iff using is_hex_plain by fastforce

text \<open>Ids that can be visited are plain entries of the session files.\<close>

lemma visited_entry: "parents_of E r c = Inr ps \<Longrightarrow> entry_text c"
proof -
  assume p: "parents_of E r c = Inr ps"
  show "entry_text c"
  proof (cases "c \<in> set (shallow_boundary (disk r))")
    case True
    then show ?thesis by (auto simp: shallow_boundary_def entry_lines_entries split: sum.splits)
  next
    case False
    with p have "is_object_id c"
      by (auto simp: parents_of_def read_commit_def res_simps dest: store_read_id)
    then show ?thesis by (intro word_entry object_id_word)
  qed
qed

lemma mark_good_shrinks:
  assumes "c \<in> candidates E r" "entry_text c" "add_good c (disk r) = Inr d \<or> add_skip c (disk r) = Inr d"
  shows "candidates E (r\<lparr>disk := d\<rparr>) \<subseteq> candidates E r - {c}"
proof -
  obtain b where b: "bad (disk r) = Some b" "c \<notin> exonerated E r (good (disk r))" "c \<notin> set (skip (disk r))"
    using assms(1) by (auto simp: candidates_def split: option.splits)
  then have "c \<notin> set (good (disk r))" by (auto simp: exonerated_def)
  then obtain name where name: "append_unique name c (disk r) = Inr d" "c \<notin> set (read_lines (disk r) name)"
      "name = ''BISECT_GOOD'' \<or> name = ''BISECT_SKIP''"
    using assms(3) b(3) by (auto simp: add_good_def add_skip_def good_def skip_def)
  note eff = append_unique_spec [OF name(1) assms(2) name(2)]
  have "parents_of E (r\<lparr>disk := d\<rparr>) = parents_of E r"
    by (rule parents_of_frame [OF eff(2)]) (use name(3) in auto)
  then have P: "parent_of E (r\<lparr>disk := d\<rparr>) = parent_of E r" by (simp add: parent_of_def)
  have "good d = (if name = ''BISECT_GOOD'' then good (disk r) @ [c] else good (disk r))"
    "skip d = (if name = ''BISECT_SKIP'' then skip (disk r) @ [c] else skip (disk r))" "bad d = bad (disk r)"
    using eff(1) name(3) by (auto simp: good_def skip_def bad_def first_line_def)
  then show ?thesis using name(3) b(1)
    by (auto simp: candidates_def P exonerated_def split: if_splits)
qed

lemma mark_bad_shrinks:
  assumes "c \<in> candidates E r" "entry_text c" "set_bad c (disk r) = Inr d" "acyclic (parent_of E r)"
  shows "candidates E (r\<lparr>disk := d\<rparr>) \<subseteq> candidates E r - {c}"
proof -
  obtain b where b: "bad (disk r) = Some b" "(b, c) \<in> (parent_of E r)\<^sup>*" "c \<noteq> b"
    using assms(1) by (auto simp: candidates_def split: option.splits)
  have w: "fs_write [''BISECT_BAD''] (unlines [c]) (disk r) = Inr d"
    using assms(3) by (simp add: set_bad_def unlines_def)
  have "parents_of E (r\<lparr>disk := d\<rparr>) = parents_of E r"
    by (rule parents_of_frame [of "''BISECT_BAD''"]) (simp_all add: fs_write_lookup [OF w])
  then have P: "parent_of E (r\<lparr>disk := d\<rparr>) = parent_of E r" by (simp add: parent_of_def)
  have "good d = good (disk r)" "skip d = skip (disk r)" "bad d = Some c"
    using read_lines_written [OF w] assms(2) by (auto simp: good_def skip_def bad_def first_line_def)
  moreover have "a \<noteq> b" if "(c, a) \<in> (parent_of E r)\<^sup>*" for a
    using that b(2,3) assms(4) by (metis acyclic_def rtranclD rtrancl_trancl_trancl)
  ultimately show ?thesis using b by (auto simp: candidates_def exonerated_def P)
qed

section \<open>A history to evaluate on\<close>

lemma demo_stored: "store_exists demo_repo i \<Longrightarrow> i \<in> {oid (CHR ''a''), oid (CHR ''b''), oid (CHR ''c'')}"
proof -
  have "object_path i \<noteq> [''HEAD'']" "object_path i \<noteq> []" for i by (simp_all add: object_path_def)
  moreover assume "store_exists demo_repo i"
  ultimately show ?thesis
    by (auto simp: store_exists_def demo_repo_def commit_files_def fs_exists_def fs_lookup_def im_get_def
        object_path_inject split: if_splits)
qed

lemma demo_parents:
  "parents_of line_ext demo_repo (oid (CHR ''a'')) = Inr []"
  "parents_of line_ext demo_repo (oid (CHR ''b'')) = Inr [oid (CHR ''a'')]"
  "parents_of line_ext demo_repo (oid (CHR ''c'')) = Inr [oid (CHR ''b''), oid (CHR ''a'')]"
  by code_simp+

lemma demo_edges:
  "parent_of line_ext demo_repo \<subseteq> {(oid (CHR ''b''), oid (CHR ''a'')), (oid (CHR ''c''), oid (CHR ''b'')),
     (oid (CHR ''c''), oid (CHR ''a''))}"
proof -
  have "\<not> is_shallow (disk demo_repo)" by code_simp
  then have "c \<in> stored demo_repo" if "parents_of line_ext demo_repo c = Inr ps" for c ps
    using that read_commit_stored by (auto simp: parents_of_def res_simps)
  then have visited: "c \<in> {oid (CHR ''a''), oid (CHR ''b''), oid (CHR ''c'')}"
    if "parents_of line_ext demo_repo c = Inr ps" for c ps
    using that demo_stored [of c] by (simp add: stored_def)
  show ?thesis
  proof (rule subrelI)
    fix x y assume "(x, y) \<in> parent_of line_ext demo_repo"
    then obtain ys where ys: "parents_of line_ext demo_repo x = Inr ys" "y \<in> set ys"
      by (auto simp: parent_of_def edges_def)
    with visited [OF ys(1)] show "(x, y) \<in> {(oid (CHR ''b''), oid (CHR ''a'')), (oid (CHR ''c''), oid (CHR ''b'')),
        (oid (CHR ''c''), oid (CHR ''a''))}"
      by (elim insertE emptyE) (auto simp: demo_parents)
  qed
qed

lemma demo_acyclic: "acyclic (parent_of line_ext demo_repo)"
proof -
  let ?f = "\<lambda>i :: string. 255 - of_char (hd i) :: nat"
  have "?f (oid c) = 255 - of_char c" for c by (simp add: oid_def hd_replicate)
  then have "parent_of line_ext demo_repo \<subseteq> measure ?f"
    by (intro subset_trans [OF demo_edges]) simp
  then show ?thesis by (meson wf_acyclic wf_measure wf_subset)
qed

section \<open>Properties\<close>



text \<open>
  C21. Bisection, in any store: the computation returns. When it asks for a test, it names one of the
  commits still in question and their number, and any answer leaves strictly fewer of them: marking
  the named commit good or skipping it always, marking it bad when history has no cycles. So a
  session takes at most as many answers as it first counts commits.
\<close>

theorem bisect_narrows:
  "(\<exists>res. bisect_compute E r = Some res) \<and>
   (\<forall>c n. bisect_compute E r = Some (Inr (Step c n)) \<longrightarrow>
      c \<in> candidates E r \<and> n = card (candidates E r) \<and>
      (\<forall>d. add_good c (disk r) = Inr d \<or> add_skip c (disk r) = Inr d \<or>
           set_bad c (disk r) = Inr d \<and> acyclic (parent_of E r) \<longrightarrow>
         card (candidates E (r\<lparr>disk := d\<rparr>)) < n))"
proof (intro conjI allI impI)
  fix c n assume "bisect_compute E r = Some (Inr (Step c n))"
  then have c: "c \<in> candidates E r" "n = card (candidates E r)" "entry_text c"
    by (auto elim!: bisect_compute_cases dest: visited_entry)
  then show "c \<in> candidates E r" "n = card (candidates E r)" by simp_all
  fix d assume "add_good c (disk r) = Inr d \<or> add_skip c (disk r) = Inr d \<or>
    set_bad c (disk r) = Inr d \<and> acyclic (parent_of E r)"
  then have "candidates E (r\<lparr>disk := d\<rparr>) \<subseteq> candidates E r - {c}"
    using mark_good_shrinks [OF c(1,3)] mark_bad_shrinks [OF c(1,3)] by blast
  moreover have "finite (candidates E r)"
  proof -
    have "candidates E r \<subseteq> (case bad (disk r) of None \<Rightarrow> {} | Some b \<Rightarrow> {a. (b, a) \<in> (parent_of E r)\<^sup>*})"
      by (auto simp: candidates_def split: option.splits)
    moreover have "finite {a. (b, a) \<in> (parent_of E r)\<^sup>*}" for b
      by (metis List.finite_set ancestors_spec)
    ultimately show ?thesis by (auto intro: finite_subset split: option.splits)
  qed
  ultimately show "card (candidates E (r\<lparr>disk := d\<rparr>)) < n"
    unfolding c(2) using c(1) by (intro psubset_card_mono) auto
qed (rule bisect_returns)

definition session_repo :: "string \<Rightarrow> string \<Rightarrow> repo" where
  "session_repo b g = demo_repo\<lparr>disk := ([''BISECT_BAD''], File (unlines [b])) #
     ([''BISECT_GOOD''], File (unlines [g])) # disk demo_repo\<rparr>"

theorem bisect_narrows_witness:
  "oid (CHR ''b'') \<in> candidates line_ext (session_repo (oid (CHR ''c'')) (oid (CHR ''a''))) \<and>
   card (candidates line_ext (session_repo (oid (CHR ''c'')) (oid (CHR ''a'')))) = 1"
proof -
  have "bisect_compute line_ext (session_repo (oid (CHR ''c'')) (oid (CHR ''a''))) = Some (Inr (Step (oid (CHR ''b'')) 1))"
    by code_simp
  then show ?thesis using bisect_narrows [of line_ext "session_repo (oid (CHR ''c'')) (oid (CHR ''a''))"] by auto
qed

text \<open>
  When bisection reports the first bad commit, every other ancestor of that commit is an ancestor of
  a good one, unless it was skipped: skipped commits can leave the answer open, and the report does
  not say so.
\<close>

theorem bisect_done:
  assumes "bisect_compute E r = Some (Inr (Done b))"
  shows "bad (disk r) = Some b \<and>
    (\<forall>a. (b, a) \<in> (parent_of E r)\<^sup>* \<longrightarrow>
       a = b \<or> a \<in> set (skip (disk r)) \<or> (\<exists>g \<in> set (good (disk r)). (g, a) \<in> (parent_of E r)\<^sup>*))"
  using assms by (rule bisect_compute_cases) (auto simp: candidates_def exonerated_def split: option.splits)

theorem bisect_done_witness:
  "bisect_compute line_ext (session_repo (oid (CHR ''b'')) (oid (CHR ''a''))) = Some (Inr (Done (oid (CHR ''b'')))) \<and>
   bad (disk (session_repo (oid (CHR ''b'')) (oid (CHR ''a'')))) = Some (oid (CHR ''b''))"
proof -
  have "bisect_compute line_ext (session_repo (oid (CHR ''b'')) (oid (CHR ''a''))) = Some (Inr (Done (oid (CHR ''b''))))"
    by code_simp
  with bisect_done [OF this] show ?thesis by blast
qed

end
