(* ===== verification/RepoMerge.thy ===== *)
theory RepoMerge imports
  RepoHistory
begin

text \<open>
  \<^verbatim>\<open>crates/repo/src/merge.rs\<close> and \<^verbatim>\<open>replay.rs\<close>: the three-way combination of manifests, and merge,
  cherry-pick, revert and rebase on top of it.
\<close>

section \<open>Three-way combination\<close>

text \<open>One entry: \<^verbatim>\<open>Ok(Some)\<close> keeps an id, \<^verbatim>\<open>Ok(None)\<close> is a deletion, \<^verbatim>\<open>Err\<close> a conflict.\<close>

definition three_way :: "string option \<Rightarrow> string option \<Rightarrow> string option \<Rightarrow> unit + string option" where
  "three_way base ours theirs =
     (if ours = theirs then Inr ours
      else if ours = base then Inr theirs
      else if theirs = base then Inr ours
      else Inl ())"

text \<open>The keys of three maps, ascending, each once: a \<^verbatim>\<open>BTreeSet\<close> of the chained keys.\<close>

definition union_keys :: "(string, 'v) bmap \<Rightarrow> (string, 'v) bmap \<Rightarrow> (string, 'v) bmap \<Rightarrow> string list" where
  "union_keys a b c = remdups_adj (sort (bm_keys a @ bm_keys b @ bm_keys c))"

fun merge_keys :: "(string \<Rightarrow> string) \<Rightarrow> smap \<Rightarrow> smap \<Rightarrow> smap \<Rightarrow> string list \<Rightarrow> smap \<Rightarrow> string list \<Rightarrow> smap \<times> string list" where
  "merge_keys label base ours theirs [] out conflicts = (out, conflicts)"
| "merge_keys label base ours theirs (k # ks) out conflicts =
     (case three_way (bm_get base k) (bm_get ours k) (bm_get theirs k) of
        Inr (Some h) \<Rightarrow> merge_keys label base ours theirs ks (bm_insert k h out) conflicts
      | Inr None \<Rightarrow> merge_keys label base ours theirs ks out conflicts
      | Inl _ \<Rightarrow> merge_keys label base ours theirs ks out (conflicts @ [label k]))"

definition merge_map :: "smap \<Rightarrow> smap \<Rightarrow> smap \<Rightarrow> smap \<Rightarrow> string list \<Rightarrow> smap \<times> string list" where
  "merge_map base ours theirs out conflicts =
     merge_keys (\<lambda>k. k) base ours theirs (union_keys base ours theirs) out conflicts"

definition chunks_of :: "manifest \<Rightarrow> string \<Rightarrow> smap" where
  "chunks_of m rel = (case bm_get (regions m) rel of None \<Rightarrow> [] | Some c \<Rightarrow> c)"

definition chunk_label :: "string \<Rightarrow> string \<Rightarrow> string" where
  "chunk_label rel pos = rel @ '' chunk '' @ pos"

fun merge_regions :: "manifest \<Rightarrow> manifest \<Rightarrow> manifest \<Rightarrow> string list \<Rightarrow> (string, smap) bmap \<Rightarrow> string list
    \<Rightarrow> (string, smap) bmap \<times> string list" where
  "merge_regions mb mo mt [] out conflicts = (out, conflicts)"
| "merge_regions mb mo mt (rel # rels) out conflicts =
     (let b = chunks_of mb rel; u = chunks_of mo rel; t = chunks_of mt rel;
          (merged, conflicts') = merge_keys (chunk_label rel) b u t (union_keys b u t) [] conflicts
      in merge_regions mb mo mt rels (if merged = [] then out else bm_insert rel merged out) conflicts')"

definition three_way_manifest :: "manifest \<Rightarrow> manifest \<Rightarrow> manifest \<Rightarrow> manifest \<times> string list" where
  "three_way_manifest mb mo mt =
     (let (rs, c1) = merge_regions mb mo mt (union_keys (regions mb) (regions mo) (regions mt)) [] [];
          (ns, c2) = merge_map (nbt_files mb) (nbt_files mo) (nbt_files mt) [] c1;
          (bs, c3) = merge_map (blobs mb) (blobs mo) (blobs mt) [] c2
      in (\<lparr>regions = rs, nbt_files = ns, blobs = bs,
           empty_dirs = remdups_adj (sort (empty_dirs mo @ empty_dirs mt))\<rparr>, c3))"

section \<open>Merge\<close>

datatype merge_outcome = UpToDate | FastForward string | Merged string | Conflicts "string list"

definition lift :: "repo_error + 'a \<Rightarrow> 'a run" where
  "lift x = Some x"

definition manifest_of :: "ext \<Rightarrow> repo \<Rightarrow> string \<Rightarrow> repo_error + manifest" where
  "manifest_of E r c = rbind (read_commit E r c) (\<lambda>co. read_manifest E r (tree co))"

definition merge_manifests :: "ext \<Rightarrow> string \<Rightarrow> string \<Rightarrow> string option \<Rightarrow> string \<Rightarrow> string \<Rightarrow> string \<Rightarrow> repo
    \<Rightarrow> repo_error + merge_outcome \<times> repo" where
  "merge_manifests E ours theirs base msg auth tm r =
     rbind (case base of Some b \<Rightarrow> manifest_of E r b | None \<Rightarrow> Inr empty_manifest) (\<lambda>mb.
     rbind (manifest_of E r ours) (\<lambda>mo.
     rbind (manifest_of E r theirs) (\<lambda>mt.
       let (merged, conflicts) = three_way_manifest mb mo mt
       in if conflicts \<noteq> [] then Inr (Conflicts conflicts, r)
          else rbind (write_manifest E merged r) (\<lambda>(t, r).
               rbind (create_commit E t [ours, theirs] msg auth tm r) (\<lambda>(c, r).
                 Inr (Merged c, r))))))"

definition merge :: "ext \<Rightarrow> string \<Rightarrow> string \<Rightarrow> string \<Rightarrow> string \<Rightarrow> string \<Rightarrow> repo \<Rightarrow> (merge_outcome \<times> repo) run" where
  "merge E ours theirs msg auth tm r =
     (if ours = theirs then ret (UpToDate, r)
      else run_bind (merge_base E r ours theirs) (\<lambda>base.
        if base = Some theirs then ret (UpToDate, r)
        else if base = Some ours then ret (FastForward theirs, r)
        else lift (merge_manifests E ours theirs base msg auth tm r)))"

section \<open>Replay\<close>

datatype replay_outcome = ReplayDone string | ReplayConflicts "string list"

definition parent_manifest :: "ext \<Rightarrow> repo \<Rightarrow> string \<Rightarrow> repo_error + manifest" where
  "parent_manifest E r c = rbind (parents_of E r c) (\<lambda>ps.
     case ps of p # _ \<Rightarrow> manifest_of E r p | [] \<Rightarrow> Inr empty_manifest)"

definition cherry_pick :: "ext \<Rightarrow> string \<Rightarrow> string \<Rightarrow> string \<Rightarrow> repo \<Rightarrow> repo_error + replay_outcome \<times> repo" where
  "cherry_pick E onto picked tm r =
     rbind (parent_manifest E r picked) (\<lambda>base.
     rbind (manifest_of E r onto) (\<lambda>ours.
     rbind (manifest_of E r picked) (\<lambda>theirs.
       let (merged, conflicts) = three_way_manifest base ours theirs
       in if conflicts \<noteq> [] then Inr (ReplayConflicts conflicts, r)
          else rbind (read_commit E r picked) (\<lambda>pc.
               rbind (write_manifest E merged r) (\<lambda>(t, r).
               rbind (create_commit E t [onto] (message pc) (author pc) tm r) (\<lambda>(c, r).
                 Inr (ReplayDone c, r)))))))"

definition revert :: "ext \<Rightarrow> string \<Rightarrow> string \<Rightarrow> string \<Rightarrow> string \<Rightarrow> repo \<Rightarrow> repo_error + replay_outcome \<times> repo" where
  "revert E onto target auth tm r =
     rbind (manifest_of E r target) (\<lambda>base.
     rbind (manifest_of E r onto) (\<lambda>ours.
     rbind (parent_manifest E r target) (\<lambda>theirs.
       let (merged, conflicts) = three_way_manifest base ours theirs
       in if conflicts \<noteq> [] then Inr (ReplayConflicts conflicts, r)
          else rbind (write_manifest E merged r) (\<lambda>(t, r).
               rbind (create_commit E t [onto] (''Revert commit '' @ take 10 target) auth tm r) (\<lambda>(c, r).
                 Inr (ReplayDone c, r))))))"

text \<open>The first-parent line from \<open>head\<close> down to the base, newest first.\<close>

partial_function (option) first_parent_line :: "ext \<Rightarrow> repo \<Rightarrow> string option \<Rightarrow> string option \<Rightarrow> string list \<Rightarrow> string list run" where
  "first_parent_line E r base cur acc = (case cur of
     None \<Rightarrow> Some (Inr acc)
   | Some c \<Rightarrow> if Some c = base then Some (Inr acc)
       else (case parents_of E r c of
               Inl e \<Rightarrow> Some (Inl e)
             | Inr ps \<Rightarrow> first_parent_line E r base (case ps of [] \<Rightarrow> None | p # _ \<Rightarrow> Some p) (acc @ [c])))"

declare first_parent_line.simps [code]

fun replay_all :: "ext \<Rightarrow> string \<Rightarrow> string \<Rightarrow> string list \<Rightarrow> repo \<Rightarrow> repo_error + replay_outcome \<times> repo" where
  "replay_all E tm onto [] r = Inr (ReplayDone onto, r)"
| "replay_all E tm onto (c # cs) r = rbind (cherry_pick E onto c tm r) (\<lambda>(out, r).
     case out of ReplayDone h \<Rightarrow> replay_all E tm h cs r | ReplayConflicts x \<Rightarrow> Inr (ReplayConflicts x, r))"

definition rebase :: "ext \<Rightarrow> string \<Rightarrow> string \<Rightarrow> string \<Rightarrow> repo \<Rightarrow> (replay_outcome \<times> repo) run" where
  "rebase E upstream head tm r = run_bind (merge_base E r head upstream) (\<lambda>base.
     run_bind (first_parent_line E r base (Some head) []) (\<lambda>cs.
       lift (replay_all E tm upstream (rev cs) r)))"

section \<open>What a combination holds\<close>

text \<open>The entry a combination keeps under a key; a conflict keeps none.\<close>

definition kept :: "unit + string option \<Rightarrow> string option" where
  "kept x = (case x of Inr v \<Rightarrow> v | Inl _ \<Rightarrow> None)"

definition clash :: "unit + string option \<Rightarrow> bool" where
  "clash x = (x = Inl ())"

lemma three_way_None [simp]: "three_way None None None = Inr None"
  by (simp add: three_way_def)

lemma three_way_commute: "three_way b x y = three_way b y x"
  by (auto simp: three_way_def)

lemma merge_keys_spec:
  assumes "merge_keys label b u t ks out conflicts = (out', conflicts')" "bm_wf out" "distinct ks"
  shows "bm_wf out' \<and> (\<forall>k. bm_get out' k = (if k \<in> set ks \<and> kept (three_way (bm_get b k) (bm_get u k) (bm_get t k)) \<noteq> None
      then kept (three_way (bm_get b k) (bm_get u k) (bm_get t k)) else bm_get out k)) \<and>
    conflicts' = conflicts @ map label (filter (\<lambda>k. clash (three_way (bm_get b k) (bm_get u k) (bm_get t k))) ks)"
  using assms
proof (induction ks arbitrary: out conflicts)
  case (Cons k ks)
  let ?w = "\<lambda>k. three_way (bm_get b k) (bm_get u k) (bm_get t k)"
  show ?case
  proof (cases "?w k")
    case (Inl x)
    then have "merge_keys label b u t ks out (conflicts @ [label k]) = (out', conflicts')"
      using Cons.prems(1) by simp
    from Cons.IH [OF this] Cons.prems(2,3) Inl show ?thesis by (auto simp: kept_def clash_def)
  next
    case (Inr v)
    show ?thesis
    proof (cases v)
      case None
      then have "merge_keys label b u t ks out conflicts = (out', conflicts')"
        using Cons.prems(1) Inr by simp
      from Cons.IH [OF this] Cons.prems(2,3) Inr None show ?thesis by (auto simp: kept_def clash_def)
    next
      case (Some h)
      then have "merge_keys label b u t ks (bm_insert k h out) conflicts = (out', conflicts')"
        using Cons.prems(1) Inr by simp
      from Cons.IH [OF this] Cons.prems(2,3) Inr Some show ?thesis
        by (auto simp: kept_def clash_def omap_simps)
    qed
  qed
qed simp

lemma sorted_remdups_adj_distinct: "sorted xs \<Longrightarrow> distinct (remdups_adj xs)"
  by (induction xs rule: remdups_adj.induct) (auto simp: less_le dest: antisym)

lemma dedup_sort:
  "sorted (remdups_adj (sort xs))" "distinct (remdups_adj (sort xs))" "set (remdups_adj (sort xs)) = set xs"
  by (simp_all add: sorted_remdups_adj_distinct)

lemma dedup_sort_eq: "set xs = set ys \<Longrightarrow> remdups_adj (sort xs) = remdups_adj (sort ys)"
  by (rule sorted_distinct_set_unique) (simp_all add: sorted_remdups_adj_distinct)

lemma union_keys_spec:
  "distinct (union_keys a b c)" "k \<in> set (union_keys a b c) \<longleftrightarrow> bm_get a k \<noteq> None \<or> bm_get b k \<noteq> None \<or> bm_get c k \<noteq> None"
  by (auto simp: union_keys_def dedup_sort bm_keys_def bm_get_None_iff)

lemma union_keys_commute: "union_keys a b c = union_keys a c b"
  unfolding union_keys_def by (rule dedup_sort_eq) auto

text \<open>Over the keys of the three maps the outcome has one description, for every key.\<close>

lemma merge_union_spec:
  assumes "merge_keys label b u t (union_keys b u t) [] conflicts = (out, conflicts')"
  shows "bm_wf out" "bm_get out k = kept (three_way (bm_get b k) (bm_get u k) (bm_get t k))"
    "conflicts' = conflicts @ map label (filter (\<lambda>k. clash (three_way (bm_get b k) (bm_get u k) (bm_get t k))) (union_keys b u t))"
proof -
  note spec = merge_keys_spec [OF assms bm_wf_Nil union_keys_spec(1)]
  then show "bm_wf out"
    "conflicts' = conflicts @ map label (filter (\<lambda>k. clash (three_way (bm_get b k) (bm_get u k) (bm_get t k))) (union_keys b u t))"
    by blast+
  show "bm_get out k = kept (three_way (bm_get b k) (bm_get u k) (bm_get t k))"
  proof (cases "k \<in> set (union_keys b u t)")
    case True
    with spec show ?thesis by (auto simp: bm_get_Nil)
  next
    case False
    then have "bm_get b k = None" "bm_get u k = None" "bm_get t k = None" by (auto simp: union_keys_spec(2))
    with spec False show ?thesis by (simp add: bm_get_Nil kept_def)
  qed
qed

lemma clash_listed:
  "set (filter (\<lambda>k. clash (three_way (bm_get b k) (bm_get u k) (bm_get t k))) (union_keys b u t)) =
     {k. clash (three_way (bm_get b k) (bm_get u k) (bm_get t k))}"
proof -
  have "k \<in> set (union_keys b u t)" if "clash (three_way (bm_get b k) (bm_get u k) (bm_get t k))" for k
    by (rule ccontr) (use that in \<open>auto simp: union_keys_spec(2) clash_def\<close>)
  then show ?thesis by auto
qed

section \<open>Regions\<close>

definition chunk :: "manifest \<Rightarrow> string \<Rightarrow> string \<Rightarrow> string option" where
  "chunk m rel pos = bm_get (chunks_of m rel) pos"

definition chunk_way :: "manifest \<Rightarrow> manifest \<Rightarrow> manifest \<Rightarrow> string \<Rightarrow> string \<Rightarrow> unit + string option" where
  "chunk_way mb mo mt rel pos = three_way (chunk mb rel pos) (chunk mo rel pos) (chunk mt rel pos)"

lemma merge_regions_spec:
  assumes "merge_regions mb mo mt rels out conflicts = (out', conflicts')" "bm_wf out" "distinct rels"
    "\<forall>(rel, cs) \<in> set out. bm_wf cs \<and> cs \<noteq> []" "\<forall>rel \<in> set rels. bm_get out rel = None"
  shows "bm_wf out' \<and> (\<forall>(rel, cs) \<in> set out'. bm_wf cs \<and> cs \<noteq> []) \<and>
    (\<forall>rel pos. (case bm_get out' rel of None \<Rightarrow> None | Some cs \<Rightarrow> bm_get cs pos) =
       (if rel \<in> set rels then kept (chunk_way mb mo mt rel pos)
        else case bm_get out rel of None \<Rightarrow> None | Some cs \<Rightarrow> bm_get cs pos)) \<and>
    set conflicts' = set conflicts \<union> {chunk_label rel pos | rel pos. rel \<in> set rels \<and> clash (chunk_way mb mo mt rel pos)}"
  using assms
proof (induction rels arbitrary: out conflicts)
  case (Cons rel rels)
  let ?b = "chunks_of mb rel" and ?u = "chunks_of mo rel" and ?t = "chunks_of mt rel"
  obtain merged conf where 1: "merge_keys (chunk_label rel) ?b ?u ?t (union_keys ?b ?u ?t) [] conflicts = (merged, conf)"
    by (metis surj_pair)
  define out1 where "out1 = (if merged = [] then out else bm_insert rel merged out)"
  have 2: "merge_regions mb mo mt rels out1 conf = (out', conflicts')"
    using Cons.prems(1) 1 by (simp add: out1_def Let_def)
  note m = merge_union_spec [OF 1]
  have conf: "set conf = set conflicts \<union> {chunk_label rel pos | pos. clash (chunk_way mb mo mt rel pos)}"
    using m(3) clash_listed [of ?b ?u ?t] by (auto simp: chunk_way_def chunk_def)
  have wf1: "bm_wf out1" using Cons.prems(2) by (simp add: out1_def)
  have get1: "bm_get out1 rel' = (if rel' = rel \<and> merged \<noteq> [] then Some merged else bm_get out rel')" for rel'
    using Cons.prems(2) by (auto simp: out1_def omap_simps)
  have "\<forall>(rel', cs) \<in> set out1. bm_wf cs \<and> cs \<noteq> []"
  proof (intro ballI, clarify)
    fix rel' cs assume "(rel', cs) \<in> set out1"
    then have "bm_get out1 rel' = Some cs" using wf1 by (simp add: bm_get_Some_iff)
    then have "cs = merged \<and> merged \<noteq> [] \<or> (rel', cs) \<in> set out"
      by (auto simp: get1 dest: bm_get_SomeD split: if_splits)
    then show "bm_wf cs \<and> cs \<noteq> []" using Cons.prems(4) m(1) by auto
  qed
  moreover have "\<forall>rel' \<in> set rels. bm_get out1 rel' = None" using Cons.prems(3,5) by (auto simp: get1)
  ultimately have IH: "bm_wf out'" "\<forall>(rel, cs) \<in> set out'. bm_wf cs \<and> cs \<noteq> []"
      "\<And>rel' pos. (case bm_get out' rel' of None \<Rightarrow> None | Some cs \<Rightarrow> bm_get cs pos) =
         (if rel' \<in> set rels then kept (chunk_way mb mo mt rel' pos)
          else case bm_get out1 rel' of None \<Rightarrow> None | Some cs \<Rightarrow> bm_get cs pos)"
      "set conflicts' = set conf \<union> {chunk_label rel pos | rel pos. rel \<in> set rels \<and> clash (chunk_way mb mo mt rel pos)}"
    using Cons.IH [OF 2 wf1] Cons.prems(3) by auto
  have here: "(case bm_get out1 rel of None \<Rightarrow> None | Some cs \<Rightarrow> bm_get cs pos) = kept (chunk_way mb mo mt rel pos)" for pos
    using m(2) [of pos] Cons.prems(5) by (auto simp: get1 chunk_way_def chunk_def bm_get_Nil)
  have "(case bm_get out' rel' of None \<Rightarrow> None | Some cs \<Rightarrow> bm_get cs pos) =
       (if rel' \<in> set (rel # rels) then kept (chunk_way mb mo mt rel' pos)
        else case bm_get out rel' of None \<Rightarrow> None | Some cs \<Rightarrow> bm_get cs pos)" for rel' pos
    unfolding IH(3) using here [of pos] Cons.prems(3) by (cases "rel' = rel") (simp_all add: get1)
  with IH(1,2,4) conf show ?case by auto
qed simp

section \<open>Whole manifests\<close>

definition file_way :: "(manifest \<Rightarrow> smap) \<Rightarrow> manifest \<Rightarrow> manifest \<Rightarrow> manifest \<Rightarrow> string \<Rightarrow> unit + string option" where
  "file_way f mb mo mt k = three_way (bm_get (f mb) k) (bm_get (f mo) k) (bm_get (f mt) k)"

lemma three_way_manifest_parts:
  assumes "three_way_manifest mb mo mt = (m, conflicts)"
  obtains c1 c2 where
    "merge_regions mb mo mt (union_keys (regions mb) (regions mo) (regions mt)) [] [] = (regions m, c1)"
    "merge_map (nbt_files mb) (nbt_files mo) (nbt_files mt) [] c1 = (nbt_files m, c2)"
    "merge_map (blobs mb) (blobs mo) (blobs mt) [] c2 = (blobs m, conflicts)"
    "empty_dirs m = remdups_adj (sort (empty_dirs mo @ empty_dirs mt))"
  using assms by (auto simp: three_way_manifest_def split: prod.splits)

lemma chunk_of_regions: "chunk m rel pos = (case bm_get (regions m) rel of None \<Rightarrow> None | Some cs \<Rightarrow> bm_get cs pos)"
  by (simp add: chunk_def chunks_of_def bm_get_Nil split: option.splits)

lemma chunk_absent: "bm_get (regions m) rel = None \<Longrightarrow> chunk m rel pos = None"
  by (simp add: chunk_of_regions)

lemma merged_regions:
  assumes "merge_regions mb mo mt (union_keys (regions mb) (regions mo) (regions mt)) [] [] = (rs, c1)"
  shows "bm_wf rs" "\<forall>(rel, cs) \<in> set rs. bm_wf cs \<and> cs \<noteq> []"
    "(case bm_get rs rel of None \<Rightarrow> None | Some cs \<Rightarrow> bm_get cs pos) = kept (chunk_way mb mo mt rel pos)"
    "set c1 = {chunk_label rel pos | rel pos. clash (chunk_way mb mo mt rel pos)}"
proof -
  let ?rels = "union_keys (regions mb) (regions mo) (regions mt)"
  note spec = merge_regions_spec [OF assms bm_wf_Nil union_keys_spec(1)]
  have out: "chunk_way mb mo mt rel pos = Inr None" if "rel \<notin> set ?rels" for rel pos
    using that by (simp add: union_keys_spec(2) chunk_way_def chunk_absent)
  then have in_rels: "rel \<in> set ?rels" if "clash (chunk_way mb mo mt rel pos)" for rel pos
    using that out [of rel pos] by (cases "rel \<in> set ?rels") (simp_all add: clash_def)
  from spec show "bm_wf rs" "\<forall>(rel, cs) \<in> set rs. bm_wf cs \<and> cs \<noteq> []" by (simp_all add: bm_get_Nil)
  show "(case bm_get rs rel of None \<Rightarrow> None | Some cs \<Rightarrow> bm_get cs pos) = kept (chunk_way mb mo mt rel pos)"
    using spec out [of rel pos] by (cases "rel \<in> set ?rels") (simp_all add: bm_get_Nil kept_def)
  show "set c1 = {chunk_label rel pos | rel pos. clash (chunk_way mb mo mt rel pos)}"
    using spec in_rels by (auto simp: bm_get_Nil)
qed

lemma merged_map:
  assumes "merge_map b u t [] conflicts = (out, conflicts')"
  shows "bm_wf out" "bm_get out k = kept (three_way (bm_get b k) (bm_get u k) (bm_get t k))"
    "set conflicts' = set conflicts \<union> {k. clash (three_way (bm_get b k) (bm_get u k) (bm_get t k))}"
  using merge_union_spec [OF assms [unfolded merge_map_def]] clash_listed [of b u t] by simp_all

lemma merge_keys_commute: "merge_keys label b u t ks out conflicts = merge_keys label b t u ks out conflicts"
  by (induction label b u t ks out conflicts rule: merge_keys.induct)
    (simp_all add: three_way_commute split: sum.splits option.splits)

lemma merge_regions_commute: "merge_regions mb mo mt rels out conflicts = merge_regions mb mt mo rels out conflicts"
proof (induction rels arbitrary: out conflicts)
  case (Cons rel rels)
  let ?b = "chunks_of mb rel" and ?u = "chunks_of mo rel" and ?t = "chunks_of mt rel"
  have "merge_keys (chunk_label rel) ?b ?u ?t (union_keys ?b ?u ?t) [] conflicts =
    merge_keys (chunk_label rel) ?b ?t ?u (union_keys ?b ?t ?u) [] conflicts"
    by (metis merge_keys_commute union_keys_commute)
  then show ?case by (simp add: Let_def Cons split: prod.splits)
qed simp

lemma three_way_manifest_commute: "three_way_manifest mb mo mt = three_way_manifest mb mt mo"
proof -
  have maps: "merge_map b u t out c = merge_map b t u out c" for b u t out c
    unfolding merge_map_def union_keys_commute [of b u t] by (rule merge_keys_commute)
  have dirs: "remdups_adj (sort (empty_dirs mo @ empty_dirs mt)) = remdups_adj (sort (empty_dirs mt @ empty_dirs mo))"
    by (rule dedup_sort_eq) auto
  show ?thesis
    unfolding three_way_manifest_def dirs union_keys_commute [of "regions mb" "regions mo" "regions mt"]
      merge_regions_commute [of mb mo mt] maps [of "nbt_files mb" "nbt_files mo" "nbt_files mt"]
      maps [of "blobs mb" "blobs mo" "blobs mt"] ..
qed

section \<open>Which way a merge goes\<close>

lemma descends_best:
  assumes "acyclic (parent_of E r)" "(a, b) \<in> (parent_of E r)\<^sup>*"
  shows "best_base E r a b c \<longleftrightarrow> c = b" "best_base E r b a c \<longleftrightarrow> c = b"
proof -
  have cyc: "x = b" if "(x, b) \<in> (parent_of E r)\<^sup>*" "(b, x) \<in> (parent_of E r)\<^sup>*" for x
    using that assms(1) by (metis acyclic_def rtranclD rtrancl_trancl_trancl)
  have common: "common_ancestors E r a b = {c. (b, c) \<in> (parent_of E r)\<^sup>*}"
    using assms(2) by (auto simp: common_ancestors_def intro: rtrancl_trans)
  then show "best_base E r a b c \<longleftrightarrow> c = b" using cyc by (auto simp: best_base_def)
  have "common_ancestors E r b a = common_ancestors E r a b" by (auto simp: common_ancestors_def)
  with common show "best_base E r b a c \<longleftrightarrow> c = b" using cyc by (auto simp: best_base_def)
qed

lemma merge_base_descends:
  assumes "acyclic (parent_of E r)"
  shows "merge_base E r a b = Some (Inr (Some b)) \<longleftrightarrow> (a, b) \<in> (parent_of E r)\<^sup>*"
    "merge_base E r a b = Some (Inr (Some a)) \<longleftrightarrow> (b, a) \<in> (parent_of E r)\<^sup>*"
proof -
  obtain m where m: "merge_base E r a b = Some (Inr m)"
    "case m of None \<Rightarrow> \<not> (\<exists>c. best_base E r a b c)
     | Some c \<Rightarrow> best_base E r a b c \<and> (\<forall>c'. best_base E r a b c' \<longrightarrow> c \<le> c')"
    by (rule merge_base_best)
  have A: "m = Some b" if "(a, b) \<in> (parent_of E r)\<^sup>*"
    using m(2) descends_best(1) [OF assms that] by (auto split: option.splits)
  have B: "m = Some a" if "(b, a) \<in> (parent_of E r)\<^sup>*"
    using m(2) descends_best(2) [OF assms that] by (auto split: option.splits)
  have C: "(a, c) \<in> (parent_of E r)\<^sup>* \<and> (b, c) \<in> (parent_of E r)\<^sup>*" if "m = Some c" for c
    using m(2) that by (simp add: best_base_def common_ancestors_def)
  show "merge_base E r a b = Some (Inr (Some b)) \<longleftrightarrow> (a, b) \<in> (parent_of E r)\<^sup>*"
    "merge_base E r a b = Some (Inr (Some a)) \<longleftrightarrow> (b, a) \<in> (parent_of E r)\<^sup>*"
    unfolding m(1) option.inject sum.inject using A B C by blast+
qed

lemma merge_manifests_store:
  assumes "merge_manifests E a b base msg auth tm r = Inr (out, r')" "store_ok E r"
  shows "store_ok E r' \<and> (\<forall>j d. store_read E r j = Inr d \<longrightarrow> store_read E r' j = Inr d) \<and>
    ((\<exists>cs. out = Conflicts cs \<and> cs \<noteq> [] \<and> r' = r) \<or> (\<exists>c. out = Merged c \<and> store_exists r' c))"
proof -
  from assms(1) obtain mb mo mt where "(case three_way_manifest mb mo mt of (m, cs) \<Rightarrow>
      if cs \<noteq> [] then Inr (Conflicts cs, r)
      else rbind (write_manifest E m r) (\<lambda>(t, r). rbind (create_commit E t [a, b] msg auth tm r) (\<lambda>(c, r).
          Inr (Merged c, r)))) = Inr (out, r')"
    unfolding merge_manifests_def rbind_Inr_iff Let_def by blast
  moreover obtain m cs where "three_way_manifest mb mo mt = (m, cs)" by (metis surj_pair)
  ultimately have rest: "(if cs \<noteq> [] then Inr (Conflicts cs, r)
        else rbind (write_manifest E m r) (\<lambda>(t, r). rbind (create_commit E t [a, b] msg auth tm r) (\<lambda>(c, r).
          Inr (Merged c, r)))) = Inr (out, r')"
    by simp
  show ?thesis
  proof (cases "cs = []")
    case True
    with rest obtain t r1 c content where 1: "write_manifest E m r = Inr (t, r1)"
        "store_write E content r1 = Inr (c, r')" "out = Merged c"
      by (auto simp: res_simps create_commit_def create_commit_signed_def Let_def write_commit_def)
    then have ok: "store_ok E r1" using store_write_ok(1) assms(2) by (auto simp: write_manifest_def)
    then show ?thesis
      using 1 store_write_ok [OF 1(2) ok] store_write_keeps [OF 1(2)] store_write_keeps [of E "manifest_json E m" r t r1]
      by (simp add: write_manifest_def)
  qed (use rest assms(2) in auto)
qed

lemma kept_same: "kept (three_way b b t) = t" "\<not> clash (three_way b b t)"
  by (auto simp: three_way_def kept_def clash_def)

lemma bm_all_None: "(\<And>k. bm_get m k = None) \<Longrightarrow> m = []"
  by (cases m) (auto simp: bm_get_None_iff)

lemma bm_get_filter:
  "bm_wf m \<Longrightarrow> bm_get (filter (\<lambda>(_, c). P c) m) k =
     (case bm_get m k of None \<Rightarrow> None | Some c \<Rightarrow> if P c then Some c else None)"
proof (induction m)
  case (Cons e m)
  obtain a c where e: "e = (a, c)" by (cases e)
  show ?case
  proof (cases "k = a")
    case True
    with Cons.prems e have "bm_get m k = None" by (auto simp: bm_wf_Cons bm_get_None_iff)
    with Cons True e show ?thesis by (auto simp: bm_get_def bm_wf_Cons)
  qed (use Cons e in \<open>auto simp: bm_get_def bm_wf_Cons\<close>)
qed (simp add: bm_get_Nil)

section \<open>Properties\<close>


definition one_chunk :: "string \<Rightarrow> manifest" where
  "one_chunk h = empty_manifest\<lparr>regions := [(''region/r.0.0.mca'', [(''0,0'', h)])]\<rparr>"


text \<open>
  When one side has not changed since the base there is no conflict and the other side wins, with two
  exceptions: its regions without chunks are dropped, and the empty directories are the union of
  the two sides, so that one deleted on the other side comes back.
\<close>

theorem merge_unchanged_side:
  assumes "manifest_wf mt"
  shows "three_way_manifest mb mb mt = (mt\<lparr>regions := filter (\<lambda>(_, cs). cs \<noteq> []) (regions mt),
    empty_dirs := remdups_adj (sort (empty_dirs mb @ empty_dirs mt))\<rparr>, [])"
proof -
  obtain m conflicts where w: "three_way_manifest mb mb mt = (m, conflicts)" by (metis surj_pair)
  obtain c1 c2 where 1: "merge_regions mb mb mt (union_keys (regions mb) (regions mb) (regions mt)) [] [] = (regions m, c1)"
      and 2: "merge_map (nbt_files mb) (nbt_files mb) (nbt_files mt) [] c1 = (nbt_files m, c2)"
      and 3: "merge_map (blobs mb) (blobs mb) (blobs mt) [] c2 = (blobs m, conflicts)"
      and 4: "empty_dirs m = remdups_adj (sort (empty_dirs mb @ empty_dirs mt))"
    by (rule three_way_manifest_parts [OF w])
  have wf: "bm_wf (regions mt)" "\<And>rel cs. bm_get (regions mt) rel = Some cs \<Longrightarrow> bm_wf cs" "bm_wf (nbt_files mt)" "bm_wf (blobs mt)"
    using assms by (auto simp: manifest_wf_def dest: bm_get_SomeD)
  note r = merged_regions [OF 1]
  have chunks: "(case bm_get (regions m) rel of None \<Rightarrow> None | Some cs \<Rightarrow> bm_get cs pos) = chunk mt rel pos" for rel pos
    unfolding r(3) by (simp add: chunk_way_def kept_same)
  have "bm_get (regions m) rel = bm_get (filter (\<lambda>(_, cs). cs \<noteq> []) (regions mt)) rel" for rel
  proof (cases "bm_get (regions m) rel")
    case None
    then have "bm_get (chunks_of mt rel) pos = None" for pos using chunks [of pos rel] by (simp add: chunk_def)
    then have "chunks_of mt rel = []" by (rule bm_all_None)
    then show ?thesis using None by (simp add: bm_get_filter [OF wf(1)] chunks_of_def split: option.splits)
  next
    case (Some cs)
    then have cs: "bm_wf cs" "cs \<noteq> []" using r(2) by (auto dest: bm_get_SomeD)
    have eq: "bm_get cs pos = bm_get (chunks_of mt rel) pos" for pos using chunks [of pos rel] Some by (simp add: chunk_def)
    have "bm_wf (chunks_of mt rel)" using wf(2) by (auto simp: chunks_of_def split: option.splits)
    then have "chunks_of mt rel = cs" using bm_ext [OF _ cs(1)] eq by metis
    then show ?thesis using Some cs(2) by (auto simp: bm_get_filter [OF wf(1)] chunks_of_def split: option.splits)
  qed
  then have "regions m = filter (\<lambda>(_, cs). cs \<noteq> []) (regions mt)"
    using r(1) wf(1) by (intro bm_ext bm_wf_filter)
  moreover have "nbt_files m = nbt_files mt" "blobs m = blobs mt"
    using merged_map(1,2) [OF 2] merged_map(1,2) [OF 3] wf(3,4) by (auto intro: bm_ext simp: kept_same)
  moreover have "set conflicts = {}"
    using r(4) merged_map(3) [OF 2] merged_map(3) [OF 3] by (simp add: chunk_way_def kept_same)
  ultimately show ?thesis using w 4 by simp
qed

theorem merge_unchanged_side_witness:
  "empty_dirs (fst (three_way_manifest (empty_manifest\<lparr>empty_dirs := [''datapacks'']\<rparr>)
     (empty_manifest\<lparr>empty_dirs := [''datapacks'']\<rparr>) empty_manifest)) = [''datapacks'']"
  using merge_unchanged_side [OF manifest_wf_empty, of "empty_manifest\<lparr>empty_dirs := [''datapacks'']\<rparr>"]
  by (simp add: empty_manifest_def)

text \<open>
  C23. Which way a merge goes. In a history without cycles, a merge that returns without an error reports
  nothing to do exactly when theirs is an ancestor of ours, and a fast-forward, to theirs, exactly when
  ours is a proper ancestor of theirs; both leave the repository alone, and so do conflicts. A merge
  commit is in the store afterwards, the store is still sound and everything in it reads as before.
\<close>

theorem merge_outcome:
  assumes "acyclic (parent_of E r)" "store_ok E r" "merge E ours theirs msg auth tm r = Some (Inr (out, r'))"
  shows "(out = UpToDate \<longleftrightarrow> (ours, theirs) \<in> (parent_of E r)\<^sup>*) \<and>
    ((\<exists>c. out = FastForward c) \<longleftrightarrow> ours \<noteq> theirs \<and> (theirs, ours) \<in> (parent_of E r)\<^sup>*) \<and>
    (\<forall>c. out = FastForward c \<longrightarrow> c = theirs) \<and> (\<forall>c. out = Merged c \<longrightarrow> store_exists r' c) \<and>
    ((\<forall>c. out \<noteq> Merged c) \<longrightarrow> r' = r) \<and> store_ok E r' \<and>
    (\<forall>j d. store_read E r j = Inr d \<longrightarrow> store_read E r' j = Inr d)"
proof (cases "ours = theirs")
  case True
  then show ?thesis using assms(2,3) by (auto simp: merge_def ret_def)
next
  case False
  then obtain base where base: "merge_base E r ours theirs = Some (Inr base)"
    using assms(3) by (auto simp: merge_def res_simps)
  note desc = merge_base_descends [OF assms(1), of ours theirs, unfolded base option.inject sum.inject]
  consider "base = Some theirs" | "base = Some ours" | "base \<noteq> Some theirs" "base \<noteq> Some ours" by blast
  then show ?thesis
  proof cases
    case 3
    then have mm: "merge_manifests E ours theirs base msg auth tm r = Inr (out, r')"
      using assms(3) False base by (simp add: merge_def lift_def)
    from merge_manifests_store [OF mm assms(2)] 3 desc show ?thesis by auto
  qed (use assms(2,3) False base desc in \<open>auto simp: merge_def ret_def\<close>)
qed

text \<open>The demonstration history with a digest that fits the names of its objects.\<close>

definition demo_text :: "char \<Rightarrow> string" where
  "demo_text c = join '' '' (oid (CHR ''f'') # (if c = CHR ''a'' then [] else if c = CHR ''b'' then [oid (CHR ''a'')]
     else [oid (CHR ''b''), oid (CHR ''a'')]))"

definition demo_ext :: ext where
  "demo_ext = line_ext\<lparr>blake3 := (\<lambda>s. if s = demo_text (CHR ''a'') then oid (CHR ''a'')
     else if s = demo_text (CHR ''b'') then oid (CHR ''b'') else if s = demo_text (CHR ''c'') then oid (CHR ''c'')
     else plain_digest s)\<rparr>"

lemma demo_store_ok: "store_ok demo_ext demo_repo"
proof -
  have "is_object_id (oid (CHR ''a''))" "is_object_id (oid (CHR ''b''))" "is_object_id (oid (CHR ''c''))"
    by code_simp+
  then have "zstd_ok demo_ext"
    by (simp add: zstd_ok_def demo_ext_def line_ext_def plain_ext_def plain_digest_id)
  moreover have "store_read demo_ext demo_repo (oid c) = Inr (demo_text c) \<and> blake3 demo_ext (demo_text c) = oid c"
    if "c \<in> {CHR ''a'', CHR ''b'', CHR ''c''}" for c
    using that by (elim insertE emptyE; hypsubst) code_simp+
  then have "\<exists>t. store_read demo_ext demo_repo i = Inr t \<and> blake3 demo_ext t = i" if "store_exists demo_repo i" for i
    using demo_stored [OF that] by blast
  ultimately show ?thesis by (simp add: store_ok_def)
qed

lemma demo_ext_acyclic: "acyclic (parent_of demo_ext demo_repo)"
proof -
  have "packs demo_repo = []" by (simp add: demo_repo_def)
  moreover have "commit_from_json demo_ext = commit_from_json line_ext" "zdec demo_ext = zdec line_ext"
    by (simp_all add: fun_eq_iff commit_from_json_def demo_ext_def line_ext_def)
  ultimately have "parents_of demo_ext demo_repo c = parents_of line_ext demo_repo c" for c
    by (simp add: parents_of_def read_commit_def store_read_def)
  then show ?thesis using demo_acyclic by (simp add: parent_of_def edges_def)
qed

theorem merge_outcome_witness:
  "merge demo_ext (oid (CHR ''c'')) (oid (CHR ''b'')) ''m'' ''me'' ''0'' demo_repo = Some (Inr (UpToDate, demo_repo)) \<and>
   (oid (CHR ''c''), oid (CHR ''b'')) \<in> (parent_of demo_ext demo_repo)\<^sup>*"
proof -
  have "merge demo_ext (oid (CHR ''c'')) (oid (CHR ''b'')) ''m'' ''me'' ''0'' demo_repo = Some (Inr (UpToDate, demo_repo))"
    by code_simp
  with merge_outcome [OF demo_ext_acyclic demo_store_ok this] show ?thesis by blast
qed

end
