(* ===== verification/RepoPathspec.thy ===== *)
theory RepoPathspec imports
  Text
begin

text \<open>
  \<^verbatim>\<open>crates/repo/src/pathspec.rs\<close>: which paths of the worktree a pathspec selects. The matcher of one
  segment is the two-pointer loop of the code, on indices; a recursive matcher is its specification.
\<close>

section \<open>The code\<close>

function seg_loop :: "string \<Rightarrow> string \<Rightarrow> nat \<Rightarrow> nat \<Rightarrow> nat option \<Rightarrow> nat \<Rightarrow> bool" where
  "seg_loop pat s pi si star mark =
     (if si < length s then
        if pi < length pat \<and> (pat ! pi = CHR ''?'' \<or> pat ! pi = s ! si)
        then seg_loop pat s (pi + 1) (si + 1) star mark
        else if pi < length pat \<and> pat ! pi = CHR ''*''
        then seg_loop pat s (pi + 1) si (Some pi) si
        else (case star of
                Some sp \<Rightarrow> seg_loop pat s (sp + 1) (mark + 1) (Some sp) (mark + 1)
              | None \<Rightarrow> False)
      else dropWhile (\<lambda>c. c = CHR ''*'') (drop pi pat) = [])"
  by pat_completeness auto
termination
  by (relation "measures [\<lambda>(pat, s, pi, si, star, mark). if mark \<le> si then 0 else 1,
     \<lambda>(pat, s, pi, si, star, mark). length s - mark, \<lambda>(pat, s, pi, si, star, mark). length s - si,
     \<lambda>(pat, s, pi, si, star, mark). length pat - pi]") auto

declare seg_loop.simps [simp del]

definition seg_match :: "string \<Rightarrow> string \<Rightarrow> bool" where
  "seg_match pat s = seg_loop pat s 0 0 None 0"

definition glob_match :: "string \<Rightarrow> string \<Rightarrow> bool" where
  "glob_match pat path = (let p = split_on (CHR ''/'') pat; x = split_on (CHR ''/'') path
     in length p = length x \<and> list_all (\<lambda>(ps, xs). seg_match ps xs) (zip p x))"

definition trim_end_slashes :: "string \<Rightarrow> string" where
  "trim_end_slashes s = rev (dropWhile (\<lambda>c. c = CHR ''/'') (rev s))"

definition matches_one :: "string \<Rightarrow> string \<Rightarrow> bool" where
  "matches_one spec0 rel = (let spec = trim_end_slashes spec0
     in spec = [] \<or> spec = ''.'' \<or> rel = spec \<or>
        (take (length spec) rel = spec \<and> length spec < length rel \<and> rel ! length spec = CHR ''/'') \<or>
        glob_match spec rel)"

definition matches_any :: "string list \<Rightarrow> string \<Rightarrow> bool" where
  "matches_any specs rel = list_ex (\<lambda>s. matches_one s rel) specs"

section \<open>What a wildcard means\<close>

text \<open>A star stands for any run of characters, a question mark for one.\<close>

fun glob :: "string \<Rightarrow> string \<Rightarrow> bool" where
  "glob [] s = (s = [])"
| "glob (c # p) [] = (c = CHR ''*'' \<and> glob p [])"
| "glob (c # p) (x # s) =
     (if c = CHR ''*'' then glob p (x # s) \<or> glob (c # p) s
      else (c = CHR ''?'' \<or> c = x) \<and> glob p s)"

lemma ex_le_Suc: "(\<exists>m \<le> Suc n. P m) \<longleftrightarrow> P 0 \<or> (\<exists>m \<le> n. P (Suc m))"
proof
  assume "\<exists>m \<le> Suc n. P m"
  then obtain m where "m \<le> Suc n" "P m" by blast
  then show "P 0 \<or> (\<exists>m \<le> n. P (Suc m))" by (cases m) auto
qed auto

lemma glob_star: "glob (CHR ''*'' # p) s \<longleftrightarrow> (\<exists>m \<le> length s. glob p (drop m s))"
proof (induction s)
  case (Cons x s)
  then show ?case by (simp add: ex_le_Suc del: drop_Suc)
qed simp

lemma glob_star_left: "glob (CHR ''*'' # p) (drop k s) \<Longrightarrow> j \<le> k \<Longrightarrow> glob (CHR ''*'' # p) (drop j s)"
proof (cases "k \<le> length s")
  case True
  assume "glob (CHR ''*'' # p) (drop k s)" and j: "j \<le> k"
  then obtain m where "m \<le> length s - k" "glob p (drop (m + k) s)" by (auto simp: glob_star)
  with j True have "(m + k - j) \<le> length s - j" "glob p (drop (m + k - j) (drop j s))" by simp_all
  then show ?thesis unfolding glob_star by (metis length_drop)
next
  case False
  assume "glob (CHR ''*'' # p) (drop k s)"
  with False have "glob p []" by simp
  then have "glob p (drop (length s - j) (drop j s))" by simp
  then show ?thesis unfolding glob_star by (metis length_drop order_refl)
qed

text \<open>A pattern without a star matches one character after another.\<close>

lemma glob_plain_prefix:
  "\<forall>c \<in> set p. c \<noteq> CHR ''*'' \<Longrightarrow> glob (p @ q) s \<Longrightarrow> length p \<le> length s \<and> glob q (drop (length p) s)"
proof (induction p arbitrary: s)
  case (Cons c p)
  then show ?case by (cases s) auto
qed simp

lemma ex_from: "j \<le> n \<Longrightarrow> (\<exists>m \<ge> j. m \<le> n \<and> P m) \<longleftrightarrow> (\<exists>k \<le> n - j. P (k + j))" for n :: nat
proof
  assume "\<exists>m \<ge> j. m \<le> n \<and> P m"
  then obtain m where m: "j \<le> m" "m \<le> n" "P m" by blast
  then have "P (m - j + j)" "m - j \<le> n - j" by simp_all
  then show "\<exists>k \<le> n - j. P (k + j)" by blast
next
  assume "j \<le> n" "\<exists>k \<le> n - j. P (k + j)"
  then show "\<exists>m \<ge> j. m \<le> n \<and> P m" by (metis le_add2 le_diff_conv2)
qed

lemma ex_gt_Suc: "j < n \<Longrightarrow> (\<exists>m > j. m \<le> n \<and> P m) \<longleftrightarrow> P (Suc j) \<or> (\<exists>m > Suc j. m \<le> n \<and> P m)" for n :: nat
  by (metis Suc_leI Suc_lessD Suc_lessI lessI)

section \<open>The loop implements it\<close>

text \<open>Since the last star, pattern and name have advanced in step.\<close>

fun star_ok :: "string \<Rightarrow> string \<Rightarrow> nat \<Rightarrow> nat \<Rightarrow> nat option \<Rightarrow> nat \<Rightarrow> bool" where
  "star_ok pat s pi si None mark = (mark \<le> si)"
| "star_ok pat s pi si (Some sp) mark = (sp < pi \<and> mark \<le> si \<and> pi - Suc sp = si - mark \<and>
     (\<forall>j. sp < j \<and> j < pi \<longrightarrow> pat ! j \<noteq> CHR ''*''))"

fun star_later :: "string \<Rightarrow> string \<Rightarrow> nat option \<Rightarrow> nat \<Rightarrow> bool" where
  "star_later pat s None mark = False"
| "star_later pat s (Some sp) mark = (\<exists>m. mark < m \<and> m \<le> length s \<and> glob (drop (Suc sp) pat) (drop m s))"

lemma star_later_shift:
  assumes "star_ok pat s pi si (Some sp) mark" "star_later pat s (Some sp) mark" "pi \<le> length pat" "si \<le> length s"
  shows "\<exists>k. si < k \<and> k \<le> length s \<and> glob (drop pi pat) (drop k s)"
proof -
  from assms(2) obtain m where m: "mark < m" "m \<le> length s" "glob (drop (Suc sp) pat) (drop m s)" by auto
  define p where "p = take (pi - Suc sp) (drop (Suc sp) pat)"
  have split: "drop (Suc sp) pat = p @ drop pi pat"
    using assms(1) by (simp add: p_def) (metis add_diff_inverse_nat append_take_drop_id drop_drop add.commute not_less_eq)
  have len: "length p = si - mark" using assms(1,3) by (simp add: p_def min_def) arith
  have "\<forall>c \<in> set p. c \<noteq> CHR ''*''"
    using assms(1,3) by (auto simp: p_def in_set_conv_nth)
  from glob_plain_prefix [OF this m(3) [unfolded split]]
  have "length p + m \<le> length s" "glob (drop pi pat) (drop (length p + m) s)" using m(2) by auto
  then show ?thesis using m(1) len assms(1) by (intro exI [of _ "length p + m"]) auto
qed

lemma seg_loop_glob:
  assumes "CHR ''*'' \<notin> set s" "star_ok pat s pi si star mark" "pi \<le> length pat" "si \<le> length s"
  shows "seg_loop pat s pi si star mark \<longleftrightarrow> glob (drop pi pat) (drop si s) \<or> star_later pat s star mark"
  using assms
proof (induction pat s pi si star mark rule: seg_loop.induct)
  case (1 pat s pi si star mark)
  note IH = "1.IH" and prems = "1.prems"
  have later: "\<exists>k. si < k \<and> k \<le> length s \<and> glob (drop pi pat) (drop k s)" if "star_later pat s star mark"
    using that star_later_shift [OF _ _ prems(3,4)] prems(2) by (cases star) auto
  show ?case
  proof (cases "si < length s")
    case False
    then have si: "drop si s = []" "si = length s" using prems(4) by auto
    then have "\<not> star_later pat s star mark" using later by auto
    moreover have "glob p [] \<longleftrightarrow> dropWhile (\<lambda>c. c = CHR ''*'') p = []" for p by (induction p) auto
    ultimately show ?thesis using False by (subst seg_loop.simps) (simp add: si)
  next
    case True
    then have s: "drop si s = s ! si # drop (Suc si) s" by (simp add: Cons_nth_drop_Suc)
    have star: "s ! si \<noteq> CHR ''*''" using prems(1) nth_mem [OF True] by metis
    consider (step) "pi < length pat" "pat ! pi = CHR ''?'' \<or> pat ! pi = s ! si"
      | (star) "pi < length pat" "pat ! pi = CHR ''*''"
      | (fail) "\<not> (pi < length pat \<and> (pat ! pi = CHR ''?'' \<or> pat ! pi = s ! si))" "\<not> (pi < length pat \<and> pat ! pi = CHR ''*'')"
      by blast
    then show ?thesis
    proof cases
      case step
      have p: "drop pi pat = pat ! pi # drop (Suc pi) pat" using step(1) by (simp add: Cons_nth_drop_Suc)
      have nstar: "pat ! pi \<noteq> CHR ''*''" using step(2) star by auto
      have "star_ok pat s (pi + 1) (si + 1) star mark"
        using prems(2) nstar by (cases star) (auto simp: less_Suc_eq Suc_diff_le)
      then have "seg_loop pat s (pi + 1) (si + 1) star mark \<longleftrightarrow>
          glob (drop (pi + 1) pat) (drop (si + 1) s) \<or> star_later pat s star mark"
        using IH(1) [OF True] step prems(1) True by simp
      then show ?thesis using True step nstar by (subst seg_loop.simps) (auto simp: p s)
    next
      case star
      have p: "drop pi pat = CHR ''*'' # drop (Suc pi) pat" using star by (simp add: Cons_nth_drop_Suc flip: star(2))
      have no: "\<not> (pi < length pat \<and> (pat ! pi = CHR ''?'' \<or> pat ! pi = s ! si))"
        using star(2) \<open>s ! si \<noteq> CHR ''*''\<close> by simp
      have ok: "star_ok pat s (pi + 1) si (Some pi) si" by auto
      have "seg_loop pat s (pi + 1) si (Some pi) si \<longleftrightarrow>
          glob (drop (pi + 1) pat) (drop si s) \<or> star_later pat s (Some pi) si"
        using IH(2) [OF True no star(1) [THEN conjI, OF star(2)] prems(1) ok] prems(4) star(1) by simp
      also have "\<dots> \<longleftrightarrow> (\<exists>m \<ge> si. m \<le> length s \<and> glob (drop (Suc pi) pat) (drop m s))"
        using prems(4) by (auto simp: le_less)
      also have "\<dots> \<longleftrightarrow> glob (drop pi pat) (drop si s)"
        unfolding p glob_star using ex_from [OF prems(4), of "\<lambda>m. glob (drop (Suc pi) pat) (drop m s)"] by simp
      finally have *: "seg_loop pat s (pi + 1) si (Some pi) si \<longleftrightarrow> glob (drop pi pat) (drop si s)" .
      have "glob (drop pi pat) (drop si s)" if "star_later pat s star mark"
        using later [OF that] unfolding p by (metis glob_star_left less_imp_le)
      then show ?thesis using True star no * by (subst seg_loop.simps) auto
    next
      case fail
      have "\<not> glob (drop pi pat) (drop si s)"
      proof (cases "pi < length pat")
        case True
        then have "drop pi pat = pat ! pi # drop (Suc pi) pat" by (simp add: Cons_nth_drop_Suc)
        then show ?thesis using fail True by (auto simp: s)
      qed (simp add: s)
      moreover have "(case star of None \<Rightarrow> False | Some sp \<Rightarrow> seg_loop pat s (sp + 1) (mark + 1) (Some sp) (mark + 1)) \<longleftrightarrow>
          star_later pat s star mark"
      proof (cases star)
        case (Some sp)
        then have ok: "sp < pi" "mark \<le> si" using prems(2) by auto
        have ok': "star_ok pat s (sp + 1) (mark + 1) (Some sp) (mark + 1)" by auto
        have "seg_loop pat s (sp + 1) (mark + 1) (Some sp) (mark + 1) \<longleftrightarrow>
            glob (drop (sp + 1) pat) (drop (mark + 1) s) \<or> star_later pat s (Some sp) (mark + 1)"
          using IH(3) [OF True fail Some prems(1) ok'] prems(3) ok True by simp
        also have "\<dots> \<longleftrightarrow> star_later pat s (Some sp) mark"
          using ok True ex_gt_Suc [of mark "length s" "\<lambda>m. glob (drop (Suc sp) pat) (drop m s)"] by simp
        finally show ?thesis by (simp add: Some)
      qed simp
      ultimately show ?thesis using True fail by (subst seg_loop.simps) (auto split: option.splits)
    qed
  qed
qed

lemma seg_match_glob: "CHR ''*'' \<notin> set s \<Longrightarrow> seg_match pat s \<longleftrightarrow> glob pat s"
  using seg_loop_glob [of s pat 0 0 None 0] by (simp add: seg_match_def)

section \<open>Properties\<close>

lemma split_on_chars: "x \<in> set (split_on c s) \<Longrightarrow> set x \<subseteq> set s"
proof (induction s arbitrary: x)
  case (Cons y s)
  obtain q qs where "split_on c s = q # qs" by (cases "split_on c s") auto
  with Cons show ?case by (fastforce split: if_splits)
qed simp

lemma prefix_slash_iff:
  "take (length p) s = p \<and> length p < length s \<and> s ! length p = CHR ''/'' \<longleftrightarrow> (\<exists>rest. s = p @ CHR ''/'' # rest)"
proof
  assume "take (length p) s = p \<and> length p < length s \<and> s ! length p = CHR ''/''"
  then show "\<exists>rest. s = p @ CHR ''/'' # rest" using id_take_nth_drop [of "length p" s] by metis
qed auto

text \<open>
  A pathspec, with the slashes at its end removed, selects a path when it is empty or a dot, when it
  is the path or one of its parent directories, or when it has as many segments and each matches as
  a wildcard pattern, in which a star never crosses a slash. The two-pointer loop of the code decides
  the patterns, for every path whose name holds no literal star.
\<close>

theorem matches_one_spec:
  assumes "CHR ''*'' \<notin> set rel"
  shows "matches_one spec rel \<longleftrightarrow>
    trim_end_slashes spec \<in> {[], ''.'', rel} \<or> (\<exists>rest. rel = trim_end_slashes spec @ ''/'' @ rest) \<or>
    list_all2 glob (split_on (CHR ''/'') (trim_end_slashes spec)) (split_on (CHR ''/'') rel)"
proof -
  have "seg_match p x \<longleftrightarrow> glob p x" if "x \<in> set (split_on (CHR ''/'') rel)" for p x
    using that assms split_on_chars seg_match_glob by blast
  then have "list_all2 seg_match ps (split_on (CHR ''/'') rel) \<longleftrightarrow> list_all2 glob ps (split_on (CHR ''/'') rel)" for ps
    by (simp add: list_all2_conv_all_nth cong: conj_cong)
  then have "glob_match p rel \<longleftrightarrow> list_all2 glob (split_on (CHR ''/'') p) (split_on (CHR ''/'') rel)" for p
    by (simp add: glob_match_def Let_def list_all2_iff list_all_iff)
  then show ?thesis by (auto simp: matches_one_def Let_def prefix_slash_iff)
qed

theorem matches_one_spec_witness:
  "matches_one ''region/r.*.mca'' ''region/r.0.-1.mca'' \<and> \<not> matches_one ''region/*'' ''region/sub/r.0.0.mca''"
proof -
  have "matches_one ''region/r.*.mca'' ''region/r.0.-1.mca''"
    by (subst matches_one_spec) (simp_all add: trim_end_slashes_def)
  moreover have "\<not> matches_one ''region/*'' ''region/sub/r.0.0.mca''"
    by (subst matches_one_spec) (simp_all add: trim_end_slashes_def)
  ultimately show ?thesis ..
qed

text \<open>
  With a star in the name the loop takes the star of the pattern for that character, and never comes
  back to it: \<^verbatim>\<open>*\<close> does not select \<^verbatim>\<open>*x\<close>.
\<close>

lemma star_in_name_missed: "\<not> seg_match ''*'' ''*x'' \<and> glob ''*'' ''*x''"
  by (simp add: seg_match_def seg_loop.simps)

end
