(* ===== verification/RepoIndex.thy ===== *)
theory RepoIndex imports
  RepoMerge
  RepoPathspec
begin

text \<open>
  \<^verbatim>\<open>crates/repo/src/index.rs\<close> and \<^verbatim>\<open>status.rs\<close>: the staging index and the comparison of snapshots by
  object ids. The two functions of \<^verbatim>\<open>snapshot.rs\<close> they call are arguments: \<open>snap\<close> stores the
  accepted part of the worktree and returns its manifest, \<open>hash_only\<close> only computes the manifest.
\<close>

section \<open>Status\<close>

datatype change_kind = Added | Modified | Removed

record change =
  path_of :: string
  kind :: change_kind

definition region_text :: "smap \<Rightarrow> string" where
  "region_text chunks = concat (map (\<lambda>(k, v). k @ ''='' @ v @ '';'') chunks)"

definition flatten_entries :: "ext \<Rightarrow> manifest \<Rightarrow> (string \<times> string) list" where
  "flatten_entries E m =
     map (\<lambda>(rel, chunks). (rel, ''r:'' @ blake3 E (region_text chunks))) (regions m) @
     map (\<lambda>(rel, h). (rel, ''n:'' @ h)) (nbt_files m) @
     map (\<lambda>(rel, h). (rel, ''b:'' @ h)) (blobs m) @
     map (\<lambda>rel. (rel, ''d:'')) (empty_dirs m)"

definition flatten :: "ext \<Rightarrow> manifest \<Rightarrow> smap" where
  "flatten E m = bm_of_list (flatten_entries E m)"

definition status_diff :: "ext \<Rightarrow> manifest \<Rightarrow> manifest \<Rightarrow> change list" where
  "status_diff E head cur = (let h = flatten E head; c = flatten E cur in
     sort_key path_of (
       List.map_filter (\<lambda>(p, sig). case bm_get h p of
           None \<Rightarrow> Some \<lparr>path_of = p, kind = Added\<rparr>
         | Some hsig \<Rightarrow> if hsig \<noteq> sig then Some \<lparr>path_of = p, kind = Modified\<rparr> else None) c @
       List.map_filter (\<lambda>(p, _). if bm_get c p = None then Some \<lparr>path_of = p, kind = Removed\<rparr> else None) h))"

record status_report =
  staged :: "change list"
  unstaged :: "change list"
  untracked :: "string list"

section \<open>The index\<close>

definition index_path :: path where "index_path = [''index'']"

definition index_read :: "ext \<Rightarrow> repo \<Rightarrow> repo_error + manifest option" where
  "index_read E r = (if \<not> is_file (disk r) index_path then Inr None
     else rbind (fs_read (disk r) index_path) (\<lambda>s. rbind (manifest_from_json E s) (\<lambda>m. Inr (Some m))))"

text \<open>Written beside the index under a name with the process id, then renamed over it.\<close>

definition index_write :: "ext \<Rightarrow> nat \<Rightarrow> manifest \<Rightarrow> repo \<Rightarrow> repo_error + repo" where
  "index_write E pid m r = (let tmp = [''index.tmp.'' @ show_nat pid] in
     rbind (fs_write tmp (manifest_json E m) (disk r)) (\<lambda>d.
     rbind (fs_rename tmp index_path d) (\<lambda>d. Inr (r\<lparr>disk := d\<rparr>))))"

definition index_clear :: "repo \<Rightarrow> repo" where
  "index_clear r = r\<lparr>disk := remove_file index_path (disk r)\<rparr>"

definition head_tree :: "ext \<Rightarrow> repo \<Rightarrow> repo_error + manifest" where
  "head_tree E r = (case head_commit (disk r) of
     Some h \<Rightarrow> rbind (read_commit E r h) (\<lambda>c. read_manifest E r (tree c))
   | None \<Rightarrow> Inr empty_manifest)"

definition effective :: "ext \<Rightarrow> repo \<Rightarrow> repo_error + manifest" where
  "effective E r = rbind (index_read E r) (\<lambda>i. case i of Some m \<Rightarrow> Inr m | None \<Rightarrow> head_tree E r)"

definition manifest_paths :: "manifest \<Rightarrow> string list" where
  "manifest_paths m = bm_keys (regions m) @ bm_keys (nbt_files m) @ bm_keys (blobs m)"

definition insert_all :: "(string, 'v) bmap \<Rightarrow> (string, 'v) bmap \<Rightarrow> (string, 'v) bmap" where
  "insert_all new old = foldl (\<lambda>m p. bm_insert (fst p) (snd p) m) old new"

definition retain :: "(string \<Rightarrow> bool) \<Rightarrow> (string, 'v) bmap \<Rightarrow> (string, 'v) bmap" where
  "retain P m = filter (\<lambda>(k, _). P k) m"

text \<open>The staged tree: the accepted part of the worktree laid over the tree before.\<close>

definition stage :: "(string \<Rightarrow> bool) \<Rightarrow> manifest \<Rightarrow> manifest \<Rightarrow> manifest" where
  "stage accept partial before =
     (let keep = (\<lambda>k. \<not> accept k \<or> k \<in> set (manifest_paths partial))
      in \<lparr>regions = retain keep (insert_all (regions partial) (regions before)),
          nbt_files = retain keep (insert_all (nbt_files partial) (nbt_files before)),
          blobs = retain keep (insert_all (blobs partial) (blobs before)),
          empty_dirs = remdups_adj (sort (filter (\<lambda>d. \<not> accept d) (empty_dirs before) @ empty_dirs partial))\<rparr>)"

type_synonym snapshotter = "(string \<Rightarrow> bool) \<Rightarrow> repo \<Rightarrow> repo_error + manifest \<times> repo"

definition add_paths :: "ext \<Rightarrow> snapshotter \<Rightarrow> nat \<Rightarrow> string list \<Rightarrow> repo \<Rightarrow> repo_error + change list \<times> repo" where
  "add_paths E snap pid specs r =
     (let accept = matches_any specs in
      rbind (snap accept r) (\<lambda>(partial, r).
      rbind (effective E r) (\<lambda>before.
        let idx = stage accept partial before in
        if manifest_paths partial = [] \<and> \<not> list_ex accept (manifest_paths before @ empty_dirs before)
        then Inl (Other (''pathspec '' @ CHR 0x27 # join '' '' specs @ CHR 0x27 # '' did not match any files''))
        else let changes = status_diff E before idx in
          rbind (head_tree E r) (\<lambda>head.
            if idx = head then Inr (changes, index_clear r)
            else if changes \<noteq> [] then rbind (index_write E pid idx r) (\<lambda>r. Inr (changes, r))
            else Inr (changes, r)))))"

definition status_full :: "ext \<Rightarrow> (repo \<Rightarrow> repo_error + manifest) \<Rightarrow> repo \<Rightarrow> repo_error + status_report" where
  "status_full E hash_only r =
     rbind (head_tree E r) (\<lambda>head.
     rbind (index_read E r) (\<lambda>i. let idx = (case i of Some m \<Rightarrow> m | None \<Rightarrow> head) in
     rbind (hash_only r) (\<lambda>cur. let work = status_diff E idx cur in
       Inr \<lparr>staged = status_diff E head idx,
            unstaged = filter (\<lambda>ch. kind ch \<noteq> Added) work,
            untracked = sort (map path_of (filter (\<lambda>ch. kind ch = Added) work))\<rparr>)))"

definition status_of_commit :: "ext \<Rightarrow> (repo \<Rightarrow> repo_error + manifest) \<Rightarrow> string \<Rightarrow> repo \<Rightarrow> repo_error + change list" where
  "status_of_commit E hash_only commit r =
     rbind (read_commit E r commit) (\<lambda>c. rbind (read_manifest E r (tree c)) (\<lambda>head.
     rbind (hash_only r) (\<lambda>cur. Inr (status_diff E head cur))))"

section \<open>Signatures of paths\<close>

text \<open>What a snapshot says of a path; a later kind hides an earlier one.\<close>

definition path_sig :: "ext \<Rightarrow> manifest \<Rightarrow> string \<Rightarrow> string option" where
  "path_sig E m p =
     (if p \<in> set (empty_dirs m) then Some ''d:''
      else case bm_get (blobs m) p of Some h \<Rightarrow> Some (''b:'' @ h) | None \<Rightarrow>
      (case bm_get (nbt_files m) p of Some h \<Rightarrow> Some (''n:'' @ h) | None \<Rightarrow>
       map_option (\<lambda>cs. ''r:'' @ blake3 E (region_text cs)) (bm_get (regions m) p)))"

lemma map_of_rev_map:
  assumes "bm_wf m"
  shows "map_of (rev (map (\<lambda>(k, v). (k, f v)) m)) k = map_option f (bm_get m k)"
proof -
  have "map_of (rev (map (\<lambda>(k, v). (k, f v)) m)) = map_of (map (\<lambda>(k, v). (k, f v)) m)"
    using bm_wf_distinct [OF assms] by (simp add: map_of_inject_set rev_map [symmetric] distinct_map o_def split_def)
  then show ?thesis by (simp add: map_of_map bm_get_def o_def)
qed

lemma flatten_get: "manifest_wf m \<Longrightarrow> bm_get (flatten E m) p = path_sig E m p"
proof -
  assume wf: "manifest_wf m"
  have dirs: "map_of (rev (map (\<lambda>rel. (rel, ''d:'')) ds)) p = (if p \<in> set ds then Some ''d:'' else None)" for ds
    by (induction ds) (auto simp: map_add_def)
  show ?thesis using wf
    by (auto simp: flatten_def bm_get_of_list flatten_entries_def map_of_rev_map manifest_wf_def dirs map_add_def
        path_sig_def split: option.splits)
qed

lemma flatten_wf: "bm_wf (flatten E m)"
  by (simp add: flatten_def)

section \<open>Differences\<close>

lemma set_map_filter: "y \<in> set (List.map_filter f xs) \<longleftrightarrow> (\<exists>x \<in> set xs. f x = Some y)"
  by (force simp: List.map_filter_def)

lemma map_filter_bmap:
  "bm_wf m \<Longrightarrow> y \<in> set (List.map_filter f m) \<longleftrightarrow> (\<exists>p v. bm_get m p = Some v \<and> f (p, v) = Some y)"
  by (simp add: set_map_filter bm_get_Some_iff Bex_def split_paired_Ex)

lemma map_filter_key:
  assumes "bm_wf m" "\<And>p v. f (p, v) = Some y \<Longrightarrow> key y = p"
  shows "y \<in> set (List.map_filter f m) \<longleftrightarrow> (\<exists>v. bm_get m (key y) = Some v \<and> f (key y, v) = Some y)"
  unfolding map_filter_bmap [OF assms(1)] using assms(2) by blast

lemma map_filter_distinct:
  assumes "distinct (map fst xs)" "\<And>x y. f x = Some y \<Longrightarrow> g y = fst x"
  shows "distinct (map g (List.map_filter f xs))"
proof -
  have "map g (List.map_filter f xs) = map fst (filter (\<lambda>x. f x \<noteq> None) xs)"
    by (auto simp: List.map_filter_def assms(2))
  then show ?thesis using assms(1) by (simp add: distinct_map inj_on_def)
qed

text \<open>How a path changed between two signatures of it.\<close>

fun sig_change :: "string option \<Rightarrow> string option \<Rightarrow> change_kind option" where
  "sig_change None None = None"
| "sig_change None (Some _) = Some Added"
| "sig_change (Some _) None = Some Removed"
| "sig_change (Some a) (Some b) = (if a \<noteq> b then Some Modified else None)"

lemma distinct_map_sort_key: "distinct (map f (sort_key f xs)) = distinct (map f xs)"
  by (simp only: distinct_map distinct_sort set_sort)

lemma status_diff_flat:
  "ch \<in> set (status_diff E head cur) \<longleftrightarrow>
     sig_change (bm_get (flatten E head) (path_of ch)) (bm_get (flatten E cur) (path_of ch)) = Some (kind ch)"
  "sorted (map path_of (status_diff E head cur))" "distinct (map path_of (status_diff E head cur))"
proof -
  let ?h = "flatten E head" and ?c = "flatten E cur"
  let ?f = "\<lambda>(p, sig). case bm_get ?h p of None \<Rightarrow> Some \<lparr>path_of = p, kind = Added\<rparr>
    | Some hsig \<Rightarrow> if hsig \<noteq> sig then Some \<lparr>path_of = p, kind = Modified\<rparr> else None"
  let ?g = "\<lambda>(p, _ :: string). if bm_get ?c p = None then Some \<lparr>path_of = p, kind = Removed\<rparr> else None"
  have f: "y \<in> set (List.map_filter ?f ?c) \<longleftrightarrow>
      (\<exists>sig. bm_get ?c (path_of y) = Some sig \<and> ?f (path_of y, sig) = Some y)" for y
    by (rule map_filter_key [OF flatten_wf]) (auto split: option.splits if_splits)
  have g: "y \<in> set (List.map_filter ?g ?h) \<longleftrightarrow>
      (\<exists>sig. bm_get ?h (path_of y) = Some sig \<and> ?g (path_of y, sig) = Some y)" for y
    by (rule map_filter_key [OF flatten_wf]) (auto split: if_splits)
  have eq: "\<lparr>path_of = path_of ch, kind = k\<rparr> = ch \<longleftrightarrow> kind ch = k" for k by (cases ch) auto
  show "ch \<in> set (status_diff E head cur) \<longleftrightarrow>
      sig_change (bm_get ?h (path_of ch)) (bm_get ?c (path_of ch)) = Some (kind ch)"
    unfolding status_diff_def Let_def set_sort set_append Un_iff f g
    by (cases "bm_get ?h (path_of ch)"; cases "bm_get ?c (path_of ch)") (simp_all add: eq eq_commute [of _ "kind ch"])
  show "sorted (map path_of (status_diff E head cur))" by (simp add: status_diff_def Let_def)
  have "distinct (map path_of (List.map_filter ?f ?c))" "distinct (map path_of (List.map_filter ?g ?h))"
    by (rule map_filter_distinct; auto simp: bm_wf_distinct flatten_wf split: option.splits if_splits)+
  moreover have "path_of ` set (List.map_filter ?f ?c) \<inter> path_of ` set (List.map_filter ?g ?h) = {}"
    by (auto simp: f g split: if_splits)
  ultimately have d: "distinct (map path_of (List.map_filter ?f ?c @ List.map_filter ?g ?h))" by simp
  show "distinct (map path_of (status_diff E head cur))"
    using d unfolding status_diff_def Let_def distinct_map_sort_key .
qed

section \<open>Staging\<close>

lemma bm_get_insert_all:
  assumes "bm_wf old" "bm_wf new"
  shows "bm_get (insert_all new old) k = (case bm_get new k of Some v \<Rightarrow> Some v | None \<Rightarrow> bm_get old k)"
proof -
  have "map_of (rev new) = map_of new" using bm_wf_distinct [OF assms(2)] by (simp add: map_of_inject_set rev_map [symmetric])
  then show ?thesis by (simp add: insert_all_def bm_get_fold [OF assms(1)] bm_get_def [of new] split: option.splits)
qed

lemma bm_wf_insert_all: "bm_wf old \<Longrightarrow> bm_wf (insert_all new old)"
  by (simp add: insert_all_def bm_wf_fold)

lemma bm_get_retain: "bm_get (retain P m) k = (if P k then bm_get m k else None)"
  by (induction m) (auto simp: retain_def bm_get_def)

lemma bm_wf_retain: "bm_wf m \<Longrightarrow> bm_wf (retain P m)"
  by (simp add: retain_def bm_wf_filter)

text \<open>What a staged map holds, for each of the three kinds of path.\<close>

definition staged_entry :: "(string \<Rightarrow> bool) \<Rightarrow> manifest \<Rightarrow> 'v option \<Rightarrow> 'v option \<Rightarrow> string \<Rightarrow> 'v option" where
  "staged_entry accept partial new old k =
     (if accept k \<and> k \<notin> set (manifest_paths partial) then None else case new of Some v \<Rightarrow> Some v | None \<Rightarrow> old)"

lemma stage_get:
  assumes "manifest_wf partial" "manifest_wf before"
  shows "bm_get (regions (stage accept partial before)) k =
      staged_entry accept partial (bm_get (regions partial) k) (bm_get (regions before) k) k"
    "bm_get (nbt_files (stage accept partial before)) k =
      staged_entry accept partial (bm_get (nbt_files partial) k) (bm_get (nbt_files before) k) k"
    "bm_get (blobs (stage accept partial before)) k =
      staged_entry accept partial (bm_get (blobs partial) k) (bm_get (blobs before) k) k"
  using assms by (auto simp: stage_def Let_def bm_get_retain bm_get_insert_all manifest_wf_def staged_entry_def)

lemma stage_wf:
  assumes "manifest_wf partial" "manifest_wf before"
  shows "manifest_wf (stage accept partial before)"
proof -
  have r: "bm_wf (regions (stage accept partial before))"
    using assms by (simp add: manifest_wf_def stage_def Let_def bm_wf_retain bm_wf_insert_all)
  moreover have "bm_wf cs" if "(rel, cs) \<in> set (regions (stage accept partial before))" for rel cs
  proof -
    have "bm_get (regions (stage accept partial before)) rel = Some cs" using that r by (simp add: bm_get_Some_iff)
    then have "(rel, cs) \<in> set (regions partial) \<union> set (regions before)"
      by (auto simp: stage_get [OF assms] staged_entry_def dest: bm_get_SomeD split: if_splits option.splits)
    then show ?thesis using assms by (auto simp: manifest_wf_def)
  qed
  ultimately show ?thesis
    using assms by (auto simp: manifest_wf_def stage_def Let_def bm_wf_retain bm_wf_insert_all)
qed

section \<open>The index file does not touch history\<close>

lemma store_read_frame:
  assumes "\<And>i. fs_lookup d (object_path i) = fs_lookup (disk r) (object_path i)"
  shows "store_read E (r\<lparr>disk := d\<rparr>) i = store_read E r i"
proof -
  have "fs_read d (object_path i) = fs_read (disk r) (object_path i)" "is_file d (object_path i) = is_file (disk r) (object_path i)"
    using assms by (simp_all add: fs_read_def is_file_def)
  then show ?thesis by (simp add: store_read_def)
qed

lemma head_tree_frame:
  assumes "\<And>p. length p \<noteq> 1 \<or> p = head_path \<Longrightarrow> fs_lookup d p = fs_lookup (disk r) p"
  shows "head_tree E (r\<lparr>disk := d\<rparr>) = head_tree E r"
proof -
  have rd: "fs_read d p = fs_read (disk r) p" if "length p \<noteq> 1 \<or> p = head_path" for p
    using assms [OF that] by (simp add: fs_read_def)
  have obj: "store_read E (r\<lparr>disk := d\<rparr>) i = store_read E r i" for i
    by (rule store_read_frame) (simp add: assms object_path_def)
  have branch: "read_branch d b = read_branch (disk r) b" for b
  proof (cases "safe_ref_name b")
    case True
    then have "length (branch_path b) \<noteq> 1" by (simp add: branch_path_eq)
    then show ?thesis using True by (simp add: read_branch_def read_ref_def rd)
  qed (simp add: read_branch_def)
  have "read_branch d = read_branch (disk r)" by (rule ext) (rule branch)
  then have "head_commit d = head_commit (disk r)" by (simp only: head_commit_def rd simp_thms)
  moreover have "read_commit E (r\<lparr>disk := d\<rparr>) = read_commit E r" "read_manifest E (r\<lparr>disk := d\<rparr>) = read_manifest E r"
    by (simp_all add: fun_eq_iff read_commit_def read_manifest_def obj)
  moreover have "disk (r\<lparr>disk := d\<rparr>) = d" by simp
  ultimately show ?thesis by (simp only: head_tree_def)
qed

lemma index_read_written:
  assumes "index_write E pid m r = Inr r'" "manifest_parse E (manifest_json E m) = Some m"
  shows "index_read E r' = Inr (Some m)"
proof -
  from assms(1) obtain d d' where 1: "fs_write [''index.tmp.'' @ show_nat pid] (manifest_json E m) (disk r) = Inr d"
      "fs_rename [''index.tmp.'' @ show_nat pid] index_path d = Inr d'" "r' = r\<lparr>disk := d'\<rparr>"
    by (auto simp: index_write_def Let_def res_simps)
  have "contents d [''index.tmp.'' @ show_nat pid] = Some (manifest_json E m)"
    using contents_write [OF 1(1)] by simp
  from contents_rename_file [OF 1(2) this] have "contents d' index_path = Some (manifest_json E m)"
    by (simp add: index_path_def)
  then have "is_file d' index_path" "fs_read d' index_path = Inr (manifest_json E m)"
    by (simp_all add: is_file_iff fs_read_iff)
  then show ?thesis using assms(2) by (simp add: index_read_def 1(3) manifest_from_json_def)
qed

lemma index_clear_head: "head_tree E (index_clear r) = head_tree E r"
proof -
  have "fs_lookup (remove_file index_path (disk r)) p = fs_lookup (disk r) p" if "length p \<noteq> 1 \<or> p = head_path" for p
    using that by (auto simp: remove_file_def fs_lookup_def omap_simps index_path_def head_path_def)
  then show ?thesis unfolding index_clear_def by (rule head_tree_frame)
qed

lemma index_clear_effective: "effective E (index_clear r) = head_tree E r"
proof -
  have "contents (remove_file index_path (disk r)) index_path = None" by (simp add: contents_remove_file)
  then have "index_read E (index_clear r) = Inr None" by (simp add: index_read_def index_clear_def is_file_iff)
  then show ?thesis by (simp add: effective_def index_clear_head)
qed

lemma guarded_bind: "(if c then Inl e else rbind x f) = Inr y \<Longrightarrow> \<exists>a. x = Inr a \<and> f a = Inr y"
  by (cases x) (auto split: if_splits)

lemma index_write_frame:
  assumes "index_write E pid m r = Inr r'"
  shows "head_tree E r' = head_tree E r"
proof -
  let ?t = "[''index.tmp.'' @ show_nat pid]"
  from assms obtain d d' where w: "fs_write ?t (manifest_json E m) (disk r) = Inr d"
      "fs_rename ?t index_path d = Inr d'" "r' = r\<lparr>disk := d'\<rparr>"
    by (auto simp: index_write_def Let_def res_simps)
  have d: "d = im_insert ?t (File (manifest_json E m)) (disk r)" using w(1) by (simp add: fs_write_iff)
  then have "fs_lookup d ?t = Some (File (manifest_json E m))" by (simp add: lookup_insert)
  then have d': "d' = im_remove ?t (im_insert index_path (File (manifest_json E m)) d)"
    using w(2) by (auto simp: fs_rename_def res_simps fs_write_iff index_path_def split: if_splits)
  have "fs_lookup d' p = fs_lookup (disk r) p" if "length p \<noteq> 1 \<or> p = head_path" for p
    using that by (auto simp: d' d fs_lookup_def omap_simps index_path_def head_path_def)
  then show ?thesis unfolding w(3) by (rule head_tree_frame)
qed

section \<open>Properties\<close>

text \<open>
  The comparison of two snapshots reports a path exactly when its signature differs: added, removed or
  modified by whether each side has one. Every path is reported once, and the report is sorted by path.
\<close>

theorem status_diff_spec:
  assumes "manifest_wf head" "manifest_wf cur"
  shows "(ch \<in> set (status_diff E head cur) \<longleftrightarrow>
      sig_change (path_sig E head (path_of ch)) (path_sig E cur (path_of ch)) = Some (kind ch)) \<and>
    sorted (map path_of (status_diff E head cur)) \<and> distinct (map path_of (status_diff E head cur))"
  using status_diff_flat(1) [of ch E head cur] status_diff_flat(2,3) [of E head cur] by (simp add: flatten_get assms)

definition blob_manifest :: "string \<Rightarrow> string \<Rightarrow> manifest" where
  "blob_manifest p h = empty_manifest\<lparr>blobs := [(p, h)]\<rparr>"

lemma blob_manifest_wf: "manifest_wf (blob_manifest p h)"
  by (simp add: manifest_wf_def blob_manifest_def empty_manifest_def bm_wf_def)

theorem status_diff_spec_witness:
  "\<lparr>path_of = ''a'', kind = Modified\<rparr> \<in> set (status_diff plain_ext (blob_manifest ''a'' ''1'') (blob_manifest ''a'' ''2''))"
  using status_diff_spec [OF blob_manifest_wf blob_manifest_wf, of "\<lparr>path_of = ''a'', kind = Modified\<rparr>"]
  by (simp add: path_sig_def blob_manifest_def empty_manifest_def bm_get_def)


definition staging_ext :: ext where
  "staging_ext = plain_ext\<lparr>manifest_json := (\<lambda>_. ''M''), manifest_parse := (\<lambda>_. Some (blob_manifest ''a'' ''1''))\<rparr>"


text \<open>
  When a staged blob becomes an NBT file in the worktree, staging keeps the stale blob beside the new
  entry, the blob hides it in the comparison, and no change of the path is reported.
\<close>

theorem stale_kind_hides_add:
  assumes "manifest_wf partial" "manifest_wf before" "bm_get (blobs before) p = Some h"
    and "bm_get (nbt_files partial) p = Some n" "bm_get (blobs partial) p = None"
    and "p \<notin> set (empty_dirs before)" "p \<notin> set (empty_dirs partial)"
  shows "bm_get (nbt_files (stage accept partial before)) p = Some n \<and>
    bm_get (blobs (stage accept partial before)) p = Some h \<and>
    p \<notin> path_of ` set (status_diff E before (stage accept partial before))"
proof -
  have here: "p \<in> set (manifest_paths partial)"
    using bm_get_SomeD [OF assms(4)] by (force simp: manifest_paths_def bm_keys_def)
  have "p \<notin> set (empty_dirs (stage accept partial before))" using assms(6,7) by (simp add: stage_def Let_def)
  moreover have blob: "bm_get (blobs (stage accept partial before)) p = Some h"
    using here assms(3,5) by (simp add: stage_get [OF assms(1,2)] staged_entry_def)
  ultimately have "path_sig E (stage accept partial before) p = path_sig E before p"
    using assms(3,6) by (simp add: path_sig_def)
  then have "sig_change (path_sig E before p) (path_sig E (stage accept partial before) p) = None"
    by (cases "path_sig E before p") auto
  then have "p \<notin> path_of ` set (status_diff E before (stage accept partial before))"
    by (auto simp: status_diff_flat(1) flatten_get assms(1,2) stage_wf)
  then show ?thesis using blob here assms(4) by (simp add: stage_get [OF assms(1,2)] staged_entry_def)
qed

theorem stale_kind_hides_add_witness:
  "''a'' \<notin> path_of ` set (status_diff plain_ext (blob_manifest ''a'' ''1'')
     (stage (\<lambda>_. True) (empty_manifest\<lparr>nbt_files := [(''a'', ''2'')]\<rparr>) (blob_manifest ''a'' ''1'')))"
  using stale_kind_hides_add [of "empty_manifest\<lparr>nbt_files := [(''a'', ''2'')]\<rparr>" "blob_manifest ''a'' ''1''" "''a''" "''1''" "''2''"
      "\<lambda>_. True" plain_ext] blob_manifest_wf
  by (simp add: manifest_wf_def blob_manifest_def empty_manifest_def bm_wf_def bm_get_def)

end
