(* ===== verification/RepoReach.thy ===== *)
theory RepoReach imports
  RepoIndex
begin

text \<open>
  \<^verbatim>\<open>crates/repo/src/fsck.rs\<close> and the walk of \<^verbatim>\<open>transfer.rs\<close>: what a tip reaches (commits, tags, trees
  and the objects of trees) and the integrity check. The loops are specified against a graph of nodes.
\<close>

section \<open>Roots and objects of a snapshot\<close>

definition tips :: "fs \<Rightarrow> string list" where
  "tips d = (case head_commit d of Some h \<Rightarrow> [h] | None \<Rightarrow> []) @
     List.map_filter (read_branch d) (branches d) @ List.map_filter (read_tag d) (tags d)"

definition manifest_ids :: "manifest \<Rightarrow> string list" where
  "manifest_ids m = concat (map (\<lambda>(_, chunks). map snd chunks) (regions m)) @
     map snd (nbt_files m) @ map snd (blobs m)"

section \<open>Collecting what a tip reaches\<close>

text \<open>An id not seen before is marked and put out.\<close>

definition mark :: "string \<Rightarrow> string list \<times> string list \<Rightarrow> string list \<times> string list" where
  "mark x p = (case p of (seen, out) \<Rightarrow> if x \<in> set seen then (seen, out) else (x # seen, out @ [x]))"

text \<open>A tree and, where it can be read, the objects it names.\<close>

definition tree_objects :: "ext \<Rightarrow> repo \<Rightarrow> string \<Rightarrow> string list" where
  "tree_objects E r t = t # (case read_manifest E r t of Inl _ \<Rightarrow> [] | Inr m \<Rightarrow> manifest_ids m)"

definition collect_visit :: "ext \<Rightarrow> repo \<Rightarrow> string \<Rightarrow> string list \<Rightarrow> string list
    \<Rightarrow> repo_error + string list \<times> string list \<times> string list" where
  "collect_visit E r c seen out =
     (if \<not> store_exists r c then Inr ([], seen, out)
      else let out = out @ [c] in
        case read_tag_object E r c of
          Some t \<Rightarrow> Inr ([tag_target t], seen, out)
        | None \<Rightarrow> (case read_commit E r c of
            Inl _ \<Rightarrow> Inr ([], seen, out)
          | Inr co \<Rightarrow> (let (seen, out) = fold mark (tree_objects E r (tree co)) (seen, out)
              in rbind (parents_of E r c) (\<lambda>ps. Inr (ps, seen, out)))))"

definition reachable :: "ext \<Rightarrow> repo \<Rightarrow> string \<Rightarrow> string list run" where
  "reachable E r tip = run_bind (walk (collect_visit E r) [tip] [] []) (\<lambda>(_, out). ret out)"

section \<open>Integrity\<close>

record fsck_report =
  checked :: nat
  corrupt :: "string list"
  missing :: "string list"
  unreachable :: nat
  promised :: nat

definition is_clean :: "fsck_report \<Rightarrow> bool" where
  "is_clean rep = (corrupt rep = [] \<and> missing rep = [])"

definition check_id :: "ext \<Rightarrow> repo \<Rightarrow> string \<Rightarrow> fsck_report \<Rightarrow> fsck_report" where
  "check_id E r i rep = (let rep = rep\<lparr>checked := checked rep + 1\<rparr> in
     case store_read E r i of
       Inr b \<Rightarrow> if blake3 E b \<noteq> i then rep\<lparr>corrupt := corrupt rep @ [i]\<rparr> else rep
     | Inl _ \<Rightarrow> rep\<lparr>corrupt := corrupt rep @ [i]\<rparr>)"

text \<open>A leaf that is not there is promised in a partial clone and missing in any other.\<close>

definition check_leaf :: "repo \<Rightarrow> string \<Rightarrow> string list \<times> fsck_report \<Rightarrow> string list \<times> fsck_report" where
  "check_leaf r i p = (case p of (seen, rep) \<Rightarrow>
     (i # seen,
      if store_exists r i then rep
      else if is_partial (disk r) then rep\<lparr>promised := promised rep + 1\<rparr>
      else rep\<lparr>missing := missing rep @ [i]\<rparr>))"

definition fsck_visit :: "ext \<Rightarrow> repo \<Rightarrow> string \<Rightarrow> string list \<Rightarrow> fsck_report
    \<Rightarrow> repo_error + string list \<times> string list \<times> fsck_report" where
  "fsck_visit E r c seen rep = (case read_tag_object E r c of
     Some t \<Rightarrow> Inr ([tag_target t], seen, rep)
   | None \<Rightarrow> (case read_commit E r c of
       Inl _ \<Rightarrow> Inr ([], seen, rep\<lparr>missing := missing rep @ [c]\<rparr>)
     | Inr co \<Rightarrow>
         (let seen = tree co # seen;
              (seen, rep) = (case read_manifest E r (tree co) of
                Inr m \<Rightarrow> fold (check_leaf r) (manifest_ids m) (seen, rep)
              | Inl _ \<Rightarrow> (seen, rep\<lparr>missing := missing rep @ [tree co]\<rparr>))
          in rbind (parents_of E r c) (\<lambda>ps. Inr (ps, seen, rep)))))"

definition fsck :: "ext \<Rightarrow> repo \<Rightarrow> fsck_report run" where
  "fsck E r =
     (let all = all_ids r;
          rep = fold (check_id E r) all \<lparr>checked = 0, corrupt = [], missing = [], unreachable = 0, promised = 0\<rparr>
      in run_bind (walk (fsck_visit E r) (rev (tips (disk r))) [] rep) (\<lambda>(seen, rep).
         Some (rbind (index_read E r) (\<lambda>i.
           let (seen, rep) = (case i of None \<Rightarrow> (seen, rep)
                 | Some m \<Rightarrow> fold (check_leaf r) (manifest_ids m) (seen, rep))
           in Inr (rep\<lparr>unreachable := length (filter (\<lambda>x. x \<notin> set seen) all)\<rparr>)))))"

section \<open>The graph of objects\<close>

text \<open>
  The nodes of the graph are commits and tags: a tag points to its target, a commit to its parents
  (none at the boundary of a shallow clone) and has the objects of its tree. What is not there is a
  node without either.
\<close>

definition node_succ :: "ext \<Rightarrow> repo \<Rightarrow> string \<Rightarrow> string list" where
  "node_succ E r c = (case read_tag_object E r c of
     Some t \<Rightarrow> [tag_target t]
   | None \<Rightarrow> (case read_commit E r c of Inl _ \<Rightarrow> []
     | Inr _ \<Rightarrow> (case parents_of E r c of Inl _ \<Rightarrow> [] | Inr ps \<Rightarrow> ps)))"

definition node_objects :: "ext \<Rightarrow> repo \<Rightarrow> string \<Rightarrow> string list" where
  "node_objects E r c = (case read_tag_object E r c of
     Some t \<Rightarrow> [] | None \<Rightarrow> (case read_commit E r c of Inl _ \<Rightarrow> [] | Inr co \<Rightarrow> tree_objects E r (tree co)))"

definition node_rel :: "ext \<Rightarrow> repo \<Rightarrow> (string \<times> string) set" where
  "node_rel E r = {(c, d). d \<in> set (node_succ E r c)}"

definition nodes :: "ext \<Rightarrow> repo \<Rightarrow> string list \<Rightarrow> string set" where
  "nodes E r roots = (node_rel E r)\<^sup>* `` set roots"

definition objects_of :: "ext \<Rightarrow> repo \<Rightarrow> string list \<Rightarrow> string set" where
  "objects_of E r roots = (\<Union>c \<in> nodes E r roots. set (node_objects E r c))"

definition live :: "ext \<Rightarrow> repo \<Rightarrow> string list \<Rightarrow> string set" where
  "live E r roots = {c \<in> nodes E r roots. store_exists r c} \<union> objects_of E r roots"

text \<open>No commit or tag in reach is at the same time a file of a world in reach.\<close>

definition apart :: "ext \<Rightarrow> repo \<Rightarrow> string list \<Rightarrow> bool" where
  "apart E r roots = (nodes E r roots \<inter> objects_of E r roots = {})"

lemma parents_of_read: "read_commit E r c = Inr co \<Longrightarrow> \<exists>ps. parents_of E r c = Inr ps"
  by (simp add: parents_of_def)

lemma absent_reads:
  assumes "\<not> store_exists r c"
  shows "read_tag_object E r c = None" "\<exists>e. read_commit E r c = Inl e"
proof -
  obtain e where e: "store_read E r c = Inl e" using assms store_read_exists by (cases "store_read E r c") auto
  then show "read_tag_object E r c = None" "\<exists>e. read_commit E r c = Inl e"
    by (simp_all add: read_tag_object_def read_commit_def)
qed

lemma node_absent: "\<not> store_exists r c \<Longrightarrow> node_succ E r c = [] \<and> node_objects E r c = []"
  using absent_reads [of r c E] by (auto simp: node_succ_def node_objects_def)

lemma roots_nodes: "set roots \<subseteq> nodes E r roots"
  by (auto simp: nodes_def)

lemma nodes_step: "c \<in> nodes E r roots \<Longrightarrow> set (node_succ E r c) \<subseteq> nodes E r roots"
  by (auto simp: nodes_def node_rel_def intro: rtrancl_into_rtrancl)

lemma nodes_least:
  assumes "set roots \<subseteq> S" "\<And>c. c \<in> S \<Longrightarrow> c \<in> nodes E r roots \<Longrightarrow> set (node_succ E r c) \<subseteq> S"
  shows "nodes E r roots \<subseteq> S"
proof
  fix y assume "y \<in> nodes E r roots"
  then obtain x where x: "x \<in> set roots" "(x, y) \<in> (node_rel E r)\<^sup>*" by (auto simp: nodes_def)
  from x(2) have "y \<in> S \<and> y \<in> nodes E r roots"
  proof (induction rule: rtrancl_induct)
    case base
    then show ?case using x(1) assms(1) roots_nodes by blast
  next
    case (step y z)
    then have "z \<in> set (node_succ E r y)" by (simp add: node_rel_def)
    then show ?case using step.IH assms(2) nodes_step by blast
  qed
  then show "y \<in> S" ..
qed

definition node_universe :: "ext \<Rightarrow> repo \<Rightarrow> string list \<Rightarrow> string set" where
  "node_universe E r roots = set roots \<union> (\<Union>c \<in> stored r. set (node_succ E r c))"

lemma node_universe_finite: "finite (node_universe E r roots)"
  by (simp add: node_universe_def finite_stored)

lemma node_universe_step: "set (node_succ E r c) \<subseteq> node_universe E r roots"
  using node_absent [of r c E] by (cases "store_exists r c") (auto simp: node_universe_def stored_def)

section \<open>What the walk collects\<close>

lemma mark_all:
  "\<exists>s p. fold mark xs (seen, out) = (s, p) \<and> set s = set xs \<union> set seen \<and> set p = set out \<union> (set xs - set seen) \<and>
     (set out \<subseteq> set seen \<longrightarrow> distinct out \<longrightarrow> distinct p)"
proof (induction xs arbitrary: seen out)
  case (Cons x xs)
  show ?case
  proof (cases "x \<in> set seen")
    case True
    then show ?thesis using Cons [of seen out] by (auto simp: mark_def)
  next
    case False
    then show ?thesis using Cons [of "x # seen" "out @ [x]"] by (auto simp: mark_def)
  qed
qed simp

lemma collect_visit_eq:
  "collect_visit E r c seen out = (case fold mark (node_objects E r c) (seen, if store_exists r c then out @ [c] else out) of
     (seen', out') \<Rightarrow> Inr (node_succ E r c, seen', out'))"
proof (cases "store_exists r c")
  case False
  then show ?thesis using node_absent [OF False] by (simp add: collect_visit_def)
next
  case True
  show ?thesis
  proof (cases "read_tag_object E r c")
    case None
    show ?thesis
    proof (cases "read_commit E r c")
      case (Inr co)
      then obtain ps where "parents_of E r c = Inr ps" using parents_of_read by blast
      then show ?thesis using True None Inr
        by (simp add: collect_visit_def node_succ_def node_objects_def split: prod.splits)
    qed (use True None in \<open>simp add: collect_visit_def node_succ_def node_objects_def\<close>)
  qed (use True in \<open>simp add: collect_visit_def node_succ_def node_objects_def\<close>)
qed

lemma collect_visitE:
  assumes "collect_visit E r c seen out = Inr (push, seen', out')"
  shows "push = node_succ E r c" "set seen' = set (node_objects E r c) \<union> set seen"
    "set out' = set out \<union> (if store_exists r c then {c} else {}) \<union> (set (node_objects E r c) - set seen)"
    "c \<in> set seen \<Longrightarrow> c \<notin> set out \<Longrightarrow> set out \<subseteq> set seen \<Longrightarrow> distinct out \<Longrightarrow> distinct out'"
proof -
  let ?out = "if store_exists r c then out @ [c] else out"
  obtain s p where sp: "fold mark (node_objects E r c) (seen, ?out) = (s, p)"
      "set s = set (node_objects E r c) \<union> set seen" "set p = set ?out \<union> (set (node_objects E r c) - set seen)"
      "set ?out \<subseteq> set seen \<longrightarrow> distinct ?out \<longrightarrow> distinct p"
    using mark_all [of "node_objects E r c" seen ?out] by blast
  have eq: "push = node_succ E r c" "seen' = s" "out' = p" using assms by (auto simp: collect_visit_eq sp(1))
  show "push = node_succ E r c" "set seen' = set (node_objects E r c) \<union> set seen"
    "set out' = set out \<union> (if store_exists r c then {c} else {}) \<union> (set (node_objects E r c) - set seen)"
    using sp(2,3) by (auto simp: eq)
  show "distinct out'" if "c \<in> set seen" "c \<notin> set out" "set out \<subseteq> set seen" "distinct out"
    using sp(4) that by (simp add: eq)
qed

interpretation collecting: graph_walk "collect_visit E r" "node_universe E r roots" for E r roots
proof unfold_locales
  show "finite (node_universe E r roots)" by (rule node_universe_finite)
next
  fix x seen out push seen' out'
  assume "collect_visit E r x seen out = Inr (push, seen', out')"
  from collect_visitE(1,2) [OF this] show "set push \<subseteq> node_universe E r roots" "set seen \<subseteq> set seen'"
    using node_universe_step by simp_all
qed

text \<open>Between two iterations.\<close>

definition settled :: "ext \<Rightarrow> repo \<Rightarrow> string list \<Rightarrow> string set \<Rightarrow> string set \<Rightarrow> string \<Rightarrow> bool" where
  "settled E r roots marks out x = (if x \<in> nodes E r roots
     then set (node_succ E r x) \<subseteq> marks \<and> set (node_objects E r x) \<subseteq> out \<and> (store_exists r x \<longrightarrow> x \<in> out)
     else x \<in> out)"

definition collect_inv :: "ext \<Rightarrow> repo \<Rightarrow> string list \<Rightarrow> string list \<Rightarrow> string list \<Rightarrow> string list \<Rightarrow> bool" where
  "collect_inv E r roots stack seen out =
     (set stack \<subseteq> nodes E r roots \<and> set roots \<subseteq> set stack \<union> set seen \<and>
      set out \<subseteq> set seen \<and> distinct out \<and> set out \<subseteq> live E r roots \<and>
      (apart E r roots \<longrightarrow> (\<forall>x \<in> set seen. settled E r roots (set stack \<union> set seen) (set out) x)))"

lemma settled_mono: "settled E r roots marks out x \<Longrightarrow> marks \<subseteq> marks' \<Longrightarrow> out \<subseteq> out' \<Longrightarrow> settled E r roots marks' out' x"
  unfolding settled_def by (simp split: if_splits) blast+

lemma collect_inv_seen: "collect_inv E r roots (x # rest) seen out \<Longrightarrow> x \<in> set seen \<Longrightarrow> collect_inv E r roots rest seen out"
  by (simp add: collect_inv_def insert_absorb)

lemma collect_inv_visit:
  assumes inv: "collect_inv E r roots (x # rest) seen out" and new: "x \<notin> set seen"
    and v: "collect_visit E r x (x # seen) out = Inr (push, seen', out')"
  shows "collect_inv E r roots (rev push @ rest) seen' out'"
proof -
  note eff = collect_visitE [OF v]
  have x: "x \<in> nodes E r roots" using inv by (simp add: collect_inv_def)
  then have objs: "set (node_objects E r x) \<subseteq> objects_of E r roots" by (auto simp: objects_of_def)
  have live: "set out' \<subseteq> live E r roots"
    using inv x objs by (auto simp: collect_inv_def eff(3) live_def split: if_splits)
  have dist: "distinct out'" using inv new by (intro eff(4)) (auto simp: collect_inv_def)
  have push: "set push \<subseteq> nodes E r roots" using nodes_step [OF x] by (simp add: eff(1))
  have "settled E r roots (set (rev push @ rest) \<union> set seen') (set out') y" if ap: "apart E r roots" and y: "y \<in> set seen'" for y
  proof -
    have old: "settled E r roots (set (rev push @ rest) \<union> set seen') (set out') z" if "z \<in> set seen" for z
    proof (rule settled_mono)
      show "settled E r roots (set (x # rest) \<union> set seen) (set out) z" using inv that ap by (simp add: collect_inv_def)
    qed (auto simp: eff(2,3))
    have leaf: "z \<notin> nodes E r roots" if "z \<in> set (node_objects E r x)" for z
      using ap objs that by (auto simp: apart_def)
    have out: "z \<in> set out'" if "z \<in> set (node_objects E r x)" for z
      using old [of z] leaf [OF that] that x by (cases "z \<in> set seen") (auto simp: eff(3) settled_def)
    consider "y = x" | "y \<in> set seen" | "y \<in> set (node_objects E r x)" using y by (auto simp: eff(2))
    then show ?thesis
    proof cases
      case 1
      have "set (node_objects E r x) \<subseteq> set out'" using out by blast
      moreover have "store_exists r x \<longrightarrow> x \<in> set out'" by (simp add: eff(3))
      ultimately show ?thesis using x 1 by (simp add: settled_def eff(1) le_supI1)
    next
      case 3
      then show ?thesis using leaf out by (simp add: settled_def)
    qed (rule old)
  qed
  then show ?thesis using inv live dist push by (auto simp: collect_inv_def eff(2,3))
qed

lemma collect_spec:
  assumes "set stack = set roots"
  shows "\<exists>seen out. walk (collect_visit E r) stack [] [] = Some (Inr (seen, out)) \<and> set out \<subseteq> set seen \<and> distinct out \<and>
    set out \<subseteq> live E r roots \<and> (apart E r roots \<longrightarrow> set out = live E r roots) \<and>
    (apart E r roots \<longrightarrow> (\<forall>x \<in> set seen. store_exists r x \<longrightarrow> x \<in> set out))"
proof -
  have sub: "set stack \<subseteq> node_universe E r roots" using assms by (auto simp: node_universe_def)
  moreover have "\<exists>a. collect_visit E r x seen out = Inr a" for x seen out
    by (auto simp: collect_visit_eq split: prod.splits)
  ultimately obtain seen out where w: "walk (collect_visit E r) stack [] [] = Some (Inr (seen, out))"
    using collecting.walk_total by blast
  have "collect_inv E r roots stack [] []" using assms roots_nodes by (auto simp: collect_inv_def)
  from walk_keeps [where Inv = "collect_inv E r roots", OF w this]
  have inv: "collect_inv E r roots [] seen out" using collect_inv_seen collect_inv_visit by blast
  have "live E r roots \<subseteq> set out \<and> (\<forall>x \<in> set seen. store_exists r x \<longrightarrow> x \<in> set out)" if ap: "apart E r roots"
  proof -
    have closed: "settled E r roots (set seen) (set out) x" if "x \<in> set seen" for x
      using inv that ap by (simp add: collect_inv_def)
    have "nodes E r roots \<subseteq> set seen"
    proof (rule nodes_least)
      show "set roots \<subseteq> set seen" using inv by (simp add: collect_inv_def)
    qed (use closed in \<open>auto simp: settled_def\<close>)
    then have "settled E r roots (set seen) (set out) x" if "x \<in> nodes E r roots" for x using closed that by blast
    then have "live E r roots \<subseteq> set out" by (auto simp: live_def objects_of_def settled_def)
    moreover have "\<forall>x \<in> set seen. store_exists r x \<longrightarrow> x \<in> set out"
      using closed unfolding settled_def by meson
    ultimately show ?thesis ..
  qed
  then show ?thesis using w inv by (auto simp: collect_inv_def)
qed

section \<open>What the integrity check finds\<close>

definition ids_here :: "repo \<Rightarrow> string list \<Rightarrow> bool" where
  "ids_here r ids = (is_partial (disk r) \<or> (\<forall>i \<in> set ids. store_exists r i))"

text \<open>A sound node: a tag, or a commit whose tree is there with its objects (in a partial clone, without).\<close>

definition node_ok :: "ext \<Rightarrow> repo \<Rightarrow> string \<Rightarrow> bool" where
  "node_ok E r c = (read_tag_object E r c \<noteq> None \<or> (\<exists>co m. read_commit E r c = Inr co \<and>
     read_manifest E r (tree co) = Inr m \<and> ids_here r (manifest_ids m)))"

definition id_ok :: "ext \<Rightarrow> repo \<Rightarrow> string \<Rightarrow> bool" where
  "id_ok E r i = (\<exists>b. store_read E r i = Inr b \<and> blake3 E b = i)"

lemma check_ids:
  "missing (fold (check_id E r) ids rep) = missing rep"
  "corrupt (fold (check_id E r) ids rep) = [] \<longleftrightarrow> corrupt rep = [] \<and> (\<forall>i \<in> set ids. id_ok E r i)"
  by (induction ids arbitrary: rep) (auto simp: check_id_def Let_def id_ok_def split: sum.splits)

lemma check_leafs:
  "\<exists>s rep'. fold (check_leaf r) ids (seen, rep) = (s, rep') \<and> set s = set ids \<union> set seen \<and>
     corrupt rep' = corrupt rep \<and> (missing rep' = [] \<longleftrightarrow> missing rep = [] \<and> ids_here r ids)"
proof (induction ids arbitrary: seen rep)
  case (Cons i ids)
  define rep1 where "rep1 = snd (check_leaf r i (seen, rep))"
  have step: "check_leaf r i (seen, rep) = (i # seen, rep1)" by (simp add: check_leaf_def rep1_def)
  have "corrupt rep1 = corrupt rep" "missing rep1 = [] \<longleftrightarrow> missing rep = [] \<and> (is_partial (disk r) \<or> store_exists r i)"
    by (auto simp: rep1_def check_leaf_def)
  then show ?case using Cons [of "i # seen" rep1] by (auto simp: step ids_here_def)
qed (simp add: ids_here_def)

lemma fsck_visit_eq:
  "\<exists>s rep'. fsck_visit E r c seen rep = Inr (node_succ E r c, s, rep') \<and> set seen \<subseteq> set s \<and>
     set s \<subseteq> set (node_objects E r c) \<union> set seen \<and> corrupt rep' = corrupt rep \<and>
     (missing rep' = [] \<longleftrightarrow> missing rep = [] \<and> node_ok E r c)"
proof (cases "read_tag_object E r c")
  case None
  show ?thesis
  proof (cases "read_commit E r c")
    case (Inr co)
    then obtain ps where ps: "parents_of E r c = Inr ps" using parents_of_read by blast
    show ?thesis
    proof (cases "read_manifest E r (tree co)")
      case (Inr m)
      then show ?thesis using None \<open>read_commit E r c = Inr co\<close> ps check_leafs [of r "manifest_ids m" "tree co # seen" rep]
        by (auto simp: fsck_visit_def node_succ_def node_objects_def tree_objects_def node_ok_def)
    qed (use None \<open>read_commit E r c = Inr co\<close> ps in
        \<open>auto simp: fsck_visit_def node_succ_def node_objects_def tree_objects_def node_ok_def\<close>)
  qed (use None in \<open>auto simp: fsck_visit_def node_succ_def node_ok_def\<close>)
qed (auto simp: fsck_visit_def node_succ_def node_ok_def)

lemma fsck_visitE:
  assumes "fsck_visit E r c seen rep = Inr (push, seen', rep')"
  shows "push = node_succ E r c" "set seen \<subseteq> set seen'" "set seen' \<subseteq> set (node_objects E r c) \<union> set seen"
    "corrupt rep' = corrupt rep" "missing rep' = [] \<longleftrightarrow> missing rep = [] \<and> node_ok E r c"
  using fsck_visit_eq [of E r c seen rep] assms by auto

interpretation fscking: graph_walk "fsck_visit E r" "node_universe E r roots" for E r roots
proof unfold_locales
  show "finite (node_universe E r roots)" by (rule node_universe_finite)
next
  fix x seen rep push seen' rep'
  assume "fsck_visit E r x seen rep = Inr (push, seen', rep')"
  from fsck_visitE(1,2) [OF this] show "set push \<subseteq> node_universe E r roots" "set seen \<subseteq> set seen'"
    using node_universe_step by simp_all
qed

definition fsck_inv :: "ext \<Rightarrow> repo \<Rightarrow> string list \<Rightarrow> string list \<Rightarrow> string list \<Rightarrow> fsck_report \<Rightarrow> bool" where
  "fsck_inv E r roots stack seen rep =
     (set stack \<subseteq> nodes E r roots \<and> set roots \<subseteq> set stack \<union> set seen \<and>
      (missing rep \<noteq> [] \<longrightarrow> (\<exists>x \<in> nodes E r roots. \<not> node_ok E r x)) \<and>
      (apart E r roots \<longrightarrow> missing rep = [] \<longrightarrow> (\<forall>x \<in> set seen \<inter> nodes E r roots.
         node_ok E r x \<and> set (node_succ E r x) \<subseteq> set stack \<union> set seen)))"

lemma fsck_inv_visit:
  assumes inv: "fsck_inv E r roots (x # rest) seen rep" and v: "fsck_visit E r x (x # seen) rep = Inr (push, seen', rep')"
  shows "fsck_inv E r roots (rev push @ rest) seen' rep'"
proof -
  note eff = fsck_visitE [OF v]
  have x: "x \<in> nodes E r roots" using inv by (simp add: fsck_inv_def)
  then have objs: "set (node_objects E r x) \<subseteq> objects_of E r roots" by (auto simp: objects_of_def)
  have "node_ok E r y \<and> set (node_succ E r y) \<subseteq> set (rev push @ rest) \<union> set seen'"
    if "apart E r roots" "missing rep' = []" "y \<in> set seen'" "y \<in> nodes E r roots" for y
  proof (cases "y = x")
    case True
    then show ?thesis using that(2) eff(1,5) by auto
  next
    case False
    then have "y \<in> set seen" using that(1,3,4) eff(3) objs by (auto simp: apart_def)
    then have "node_ok E r y \<and> set (node_succ E r y) \<subseteq> set (x # rest) \<union> set seen"
      using inv that(1,2,4) eff(5) by (simp add: fsck_inv_def)
    then show ?thesis using eff(2) by auto
  qed
  moreover have "set roots \<subseteq> set (rev push @ rest) \<union> set seen'" using inv eff(2) by (auto simp: fsck_inv_def)
  moreover have "\<exists>y \<in> nodes E r roots. \<not> node_ok E r y" if "missing rep' \<noteq> []"
    using that inv x eff(5) by (auto simp: fsck_inv_def)
  ultimately show ?thesis using inv nodes_step [OF x] by (simp add: fsck_inv_def eff(1))
qed

lemma fsck_walk:
  assumes "set stack = set roots" "missing rep = []"
  shows "\<exists>seen rep'. walk (fsck_visit E r) stack [] rep = Some (Inr (seen, rep')) \<and> corrupt rep' = corrupt rep \<and>
    (apart E r roots \<longrightarrow> (missing rep' = [] \<longleftrightarrow> (\<forall>x \<in> nodes E r roots. node_ok E r x)))"
proof -
  have sub: "set stack \<subseteq> node_universe E r roots" using assms by (auto simp: node_universe_def)
  moreover have "\<exists>a. fsck_visit E r x seen out = Inr a" for x seen out using fsck_visit_eq by blast
  ultimately obtain seen rep' where w: "walk (fsck_visit E r) stack [] rep = Some (Inr (seen, rep'))"
    using fscking.walk_total by blast
  have corrupt: "corrupt rep' = corrupt rep"
    by (rule walk_keeps [where Inv = "\<lambda>_ _ x. corrupt x = corrupt rep", OF w])
      (simp_all add: fsck_visitE(4))
  have seen: "fsck_inv E r roots (x # rest) seen rep \<Longrightarrow> x \<in> set seen \<Longrightarrow> fsck_inv E r roots rest seen rep" for x rest seen rep
    by (simp add: fsck_inv_def insert_absorb)
  have "fsck_inv E r roots stack [] rep" using assms roots_nodes by (auto simp: fsck_inv_def)
  from walk_keeps [where Inv = "fsck_inv E r roots", OF w this]
  have inv: "fsck_inv E r roots [] seen rep'" using seen fsck_inv_visit by blast
  have "missing rep' = [] \<longleftrightarrow> (\<forall>x \<in> nodes E r roots. node_ok E r x)" if ap: "apart E r roots"
  proof (cases "missing rep' = []")
    case True
    then have closed: "node_ok E r x \<and> set (node_succ E r x) \<subseteq> set seen" if "x \<in> set seen" "x \<in> nodes E r roots" for x
      using inv that ap by (simp add: fsck_inv_def)
    have "nodes E r roots \<subseteq> set seen"
    proof (rule nodes_least)
      show "set roots \<subseteq> set seen" using inv by (simp add: fsck_inv_def)
    qed (use closed in blast)
    then show ?thesis using closed True by blast
  qed (use inv in \<open>simp add: fsck_inv_def\<close>)
  then show ?thesis using w corrupt by blast
qed

text \<open>The packs in memory are those on disk.\<close>

definition opened :: "ext \<Rightarrow> repo \<Rightarrow> bool" where
  "opened E r = (packs r = load_packs E (disk r))"

section \<open>A repository to evaluate\<close>

text \<open>A text form of pack indexes, standing in for their JSON: numbers in unary, keys with their length.\<close>

definition put_nat :: "nat \<Rightarrow> string \<Rightarrow> string" where
  "put_nat n s = replicate n (CHR ''x'') @ CHR ''.'' # s"

definition take_nat :: "string \<Rightarrow> nat \<times> string" where
  "take_nat s = (length (takeWhile (\<lambda>c. c = CHR ''x'') s), tl (dropWhile (\<lambda>c. c = CHR ''x'') s))"

fun idx_text :: "(string, nat \<times> nat) bmap \<Rightarrow> string" where
  "idx_text [] = []"
| "idx_text ((k, a, b) # m) = put_nat (length k) (k @ put_nat a (put_nat b (idx_text m)))"

fun idx_scan :: "nat \<Rightarrow> string \<Rightarrow> (string, nat \<times> nat) bmap option" where
  "idx_scan n [] = Some []"
| "idx_scan 0 (c # s) = None"
| "idx_scan (Suc n) (c # s) = (case take_nat (c # s) of (len, s1) \<Rightarrow> case take_nat (drop len s1) of (a, s2) \<Rightarrow>
     case take_nat s2 of (b, s3) \<Rightarrow> map_option ((#) (take len s1, a, b)) (idx_scan n s3))"

definition idx_of_text :: "string \<Rightarrow> (string, nat \<times> nat) bmap option" where
  "idx_of_text s = idx_scan (length s) s"

lemma take_put_nat: "take_nat (put_nat n s) = (n, s)"
  by (simp add: take_nat_def put_nat_def takeWhile_append dropWhile_append)

lemma idx_scan_text: "length m \<le> n \<Longrightarrow> idx_scan n (idx_text m) = Some m"
proof (induction m arbitrary: n)
  case (Cons e m)
  obtain k a b where e: "e = (k, a, b)" by (cases e)
  obtain n' where n: "n = Suc n'" "length m \<le> n'" using Cons.prems by (cases n) auto
  have step: "idx_scan (Suc n') t = (case take_nat t of (len, s1) \<Rightarrow> case take_nat (drop len s1) of (a, s2) \<Rightarrow>
     case take_nat s2 of (b, s3) \<Rightarrow> map_option ((#) (take len s1, a, b)) (idx_scan n' s3))" if "t \<noteq> []" for t
    using that by (cases t) auto
  have "put_nat i t \<noteq> []" for i t by (simp add: put_nat_def)
  then show ?case by (simp add: e n step take_put_nat Cons.IH [OF n(2)])
qed simp

lemma idx_text_length: "length m \<le> length (idx_text m)"
  by (induction m rule: idx_text.induct) (auto simp: put_nat_def)

lemma idx_of_text: "idx_of_text (idx_text m) = Some m"
  by (simp add: idx_of_text_def idx_scan_text idx_text_length)

text \<open>
  Three commits \<open>a\<close>, \<open>b\<close>, \<open>c\<close> with the tree \<open>f\<close>, whose only file is \<open>d\<close>, on the branch main; the object
  \<open>e\<close> belongs to nothing.
\<close>

definition world_ext :: ext where
  "world_ext = demo_ext\<lparr>
     blake3 := (\<lambda>s. if s = ''T'' then oid (CHR ''f'') else if s = ''D'' then oid (CHR ''d'')
       else if s = ''J'' then oid (CHR ''e'')
       else if s = demo_text (CHR ''a'') then oid (CHR ''a'') else if s = demo_text (CHR ''b'') then oid (CHR ''b'')
       else if s = demo_text (CHR ''c'') then oid (CHR ''c'') else oid (CHR ''0'')),
     manifest_parse := (\<lambda>s. if s = ''T'' then Some (blob_manifest ''icon.png'' (oid (CHR ''d''))) else None),
     idx_json := idx_text, idx_parse := idx_of_text\<rparr>"

definition world_repo :: repo where
  "world_repo = \<lparr>disk = ([''objects''], Dir) # map (\<lambda>c. ([''objects'', [c, c]], Dir)) ''abcdef'' @
     [([''refs''], Dir), ([''refs'', ''heads''], Dir), ([''refs'', ''heads'', ''main''], File (oid (CHR ''c'') @ [CHR 0x0A])),
      ([''HEAD''], File (branch_prefix @ ''main'' @ [CHR 0x0A])),
      (object_path (oid (CHR ''d'')), File ''D''), (object_path (oid (CHR ''f'')), File ''T''),
      (object_path (oid (CHR ''e'')), File ''J'')] @
     commit_files [(CHR ''a'', []), (CHR ''b'', [CHR ''a'']), (CHR ''c'', [CHR ''b'', CHR ''a''])], packs = []\<rparr>"

lemma world_stored: "store_exists world_repo i \<longleftrightarrow> i \<in> oid ` set ''abcdef''"
proof
  have "length (object_path i) = 3" "hd (object_path i) = ''objects''" for i by (simp_all add: object_path_def)
  then have p: "object_path i \<noteq> [x]" "object_path i \<noteq> [x, y]" "object_path i \<noteq> []" "y \<noteq> ''objects'' \<Longrightarrow> object_path i \<noteq> y # z"
    for i x y z by (metis length_Cons list.size(3) num.distinct(1) numeral_3_eq_3 nat.inject list.sel(1) length_0_conv)+
  assume "store_exists world_repo i"
  then show "i \<in> oid ` set ''abcdef''"
    by (auto simp: store_exists_def world_repo_def commit_files_def fs_exists_def fs_lookup_def im_get_def
        object_path_inject p split: if_splits)
next
  assume "i \<in> oid ` set ''abcdef''"
  moreover have "list_all (\<lambda>c. store_exists world_repo (oid c)) ''abcdef''" by code_simp
  ultimately show "store_exists world_repo i" unfolding list_all_iff by blast
qed

lemma world_store_ok: "store_ok world_ext world_repo"
proof -
  have "list_all (\<lambda>c. is_object_id (oid c)) ''0abcdef''" by code_simp
  moreover have "zdec demo_ext = Some" "zenc demo_ext = (\<lambda>c. c)"
    by (simp_all add: demo_ext_def line_ext_def plain_ext_def)
  ultimately have "zstd_ok world_ext" by (simp add: zstd_ok_def world_ext_def)
  moreover have "list_all (\<lambda>c. case store_read world_ext world_repo (oid c) of Inl _ \<Rightarrow> False
      | Inr t \<Rightarrow> blake3 world_ext t = oid c) ''abcdef''" by code_simp
  then have "\<exists>t. store_read world_ext world_repo (oid c) = Inr t \<and> blake3 world_ext t = oid c" if "c \<in> set ''abcdef''" for c
    using that unfolding list_all_iff by (auto split: sum.splits)
  ultimately show ?thesis by (auto simp: store_ok_def world_stored)
qed

lemma world_opened: "opened world_ext world_repo"
  by code_simp

lemma world_nodes: "nodes world_ext world_repo [oid (CHR ''c'')] \<subseteq> oid ` set ''abc''"
proof (rule nodes_least)
  fix c assume "c \<in> oid ` set ''abc''"
  moreover have "node_succ world_ext world_repo (oid (CHR ''a'')) = []"
    "node_succ world_ext world_repo (oid (CHR ''b'')) = [oid (CHR ''a'')]"
    "node_succ world_ext world_repo (oid (CHR ''c'')) = [oid (CHR ''b''), oid (CHR ''a'')]" by code_simp+
  ultimately show "set (node_succ world_ext world_repo c) \<subseteq> oid ` set ''abc''" by auto
qed simp

lemma world_objects: "objects_of world_ext world_repo [oid (CHR ''c'')] = {oid (CHR ''f''), oid (CHR ''d'')}"
proof -
  have "list_all (\<lambda>c. node_objects world_ext world_repo (oid c) = [oid (CHR ''f''), oid (CHR ''d'')]) ''abc''" by code_simp
  then have "set (node_objects world_ext world_repo x) = {oid (CHR ''f''), oid (CHR ''d'')}"
    if "x \<in> nodes world_ext world_repo [oid (CHR ''c'')]" for x
    using that world_nodes unfolding list_all_iff by fastforce
  moreover have "oid (CHR ''c'') \<in> nodes world_ext world_repo [oid (CHR ''c'')]" using roots_nodes by fastforce
  ultimately show ?thesis by (auto simp: objects_of_def)
qed

lemma world_apart: "apart world_ext world_repo [oid (CHR ''c'')]"
proof -
  have "oid c \<noteq> oid d" if "c \<noteq> d" for c d using that by (simp add: oid_def)
  then show ?thesis using world_nodes by (auto simp: apart_def world_objects)
qed

section \<open>Properties\<close>





text \<open>A branch in a namespace is not listed, so neither a root of the walks nor cloned.\<close>

lemma namespaced_branch_no_root:
  "\<exists>d. write_branch ''feature/foo'' (oid (CHR ''a'')) fresh_repo = Inr d \<and>
     read_branch d ''feature/foo'' = Some (oid (CHR ''a'')) \<and> branches d = [''feature''] \<and> tips d = []"
proof -
  have "(case write_branch ''feature/foo'' (oid (CHR ''a'')) fresh_repo of Inl _ \<Rightarrow> False | Inr d \<Rightarrow>
     read_branch d ''feature/foo'' = Some (oid (CHR ''a'')) \<and> branches d = [''feature''] \<and> tips d = [])" by code_simp
  then show ?thesis by (auto split: sum.splits)
qed

end
