(* ===== verification/RepoTransfer.thy ===== *)
theory RepoTransfer imports
  RepoReach
begin

text \<open>
  \<^verbatim>\<open>crates/repo/src/transfer.rs\<close>: clone, push and fetch between two repositories on one file system.
  Each repository is a state of its own; that the two directories do not overlap is assumed.
\<close>

section \<open>Transfer\<close>

fun copy_each :: "ext \<Rightarrow> repo \<Rightarrow> string list \<Rightarrow> repo \<Rightarrow> nat \<Rightarrow> repo_error + nat \<times> repo" where
  "copy_each E src [] dst n = Inr (n, dst)"
| "copy_each E src (i # is) dst n =
     (if store_exists dst i then copy_each E src is dst n
      else rbind (store_read E src i) (\<lambda>b. rbind (store_write E b dst) (\<lambda>(_, dst).
        copy_each E src is dst (n + 1))))"

definition copy_objects :: "ext \<Rightarrow> repo \<Rightarrow> repo \<Rightarrow> string list \<Rightarrow> repo_error + nat \<times> repo" where
  "copy_objects E src dst ids = rbind (copy_each E src ids dst 0) (\<lambda>(n, dst).
     Inr (n, if n > 0 then reload_packs E dst else dst))"

text \<open>The ref of one repository, with all it reaches, to the other.\<close>

definition send_tip :: "ext \<Rightarrow> repo \<Rightarrow> string \<Rightarrow> (fs \<Rightarrow> repo_error + fs) \<Rightarrow> repo \<Rightarrow> (nat \<times> repo) run" where
  "send_tip E src tip write_ref dst = run_bind (reachable E src tip) (\<lambda>ids.
     Some (rbind (copy_objects E src dst ids) (\<lambda>(n, dst).
       rbind (write_ref (disk dst)) (\<lambda>d. Inr (n, dst\<lparr>disk := d\<rparr>)))))"

definition push_local :: "ext \<Rightarrow> repo \<Rightarrow> repo \<Rightarrow> string \<Rightarrow> (nat \<times> repo) run" where
  "push_local E local_repo remote branch = (case read_branch (disk local_repo) branch of
     None \<Rightarrow> Some (Inl (BadRef branch))
   | Some tip \<Rightarrow> send_tip E local_repo tip (write_branch branch tip) remote)"

definition fetch_local :: "ext \<Rightarrow> repo \<Rightarrow> repo \<Rightarrow> string \<Rightarrow> (nat \<times> repo) run" where
  "fetch_local E local_repo remote branch = (case read_branch (disk remote) branch of
     None \<Rightarrow> Some (Inl (BadRef branch))
   | Some tip \<Rightarrow> send_tip E remote tip (write_branch branch tip) local_repo)"

fun send_refs :: "ext \<Rightarrow> repo \<Rightarrow> (string \<Rightarrow> string option) \<Rightarrow> (string \<Rightarrow> string \<Rightarrow> fs \<Rightarrow> repo_error + fs)
    \<Rightarrow> string list \<Rightarrow> repo \<Rightarrow> repo run" where
  "send_refs E src get put [] dst = ret dst"
| "send_refs E src get put (n # ns) dst = (case get n of
     None \<Rightarrow> send_refs E src get put ns dst
   | Some tip \<Rightarrow> run_bind (send_tip E src tip (put n tip) dst) (\<lambda>(_, dst). send_refs E src get put ns dst))"

definition clone_into :: "ext \<Rightarrow> repo \<Rightarrow> repo \<Rightarrow> repo run" where
  "clone_into E src dst =
     run_bind (send_refs E src (read_branch (disk src)) write_branch (branches (disk src)) dst) (\<lambda>dst.
     run_bind (send_refs E src (read_tag (disk src)) write_tag (tags (disk src)) dst) (\<lambda>dst.
     case current_branch (disk src) of
       None \<Rightarrow> ret dst
     | Some cur \<Rightarrow> Some (rbind (set_head_to_branch cur (disk dst)) (\<lambda>d. Inr (dst\<lparr>disk := d\<rparr>)))))"

section \<open>Directories and packs are left alone\<close>

lemma im_insert_key_list: "map fst (im_insert k v m) = (if k \<in> fst ` set m then map fst m else map fst m @ [k])"
  by (induction k v m rule: im_insert.induct) auto

lemma read_dir_insert:
  assumes "p \<noteq> []" "p \<noteq> q" "butlast p \<noteq> q"
  shows "read_dir (im_insert p n d) q = read_dir d q"
proof -
  have "is_dir (im_insert p n d) q = is_dir d q" using assms by (auto simp: is_dir_def lookup_insert)
  then show ?thesis using assms by (simp add: read_dir_def im_insert_key_list)
qed

text \<open>A change of the tree that the object store does not notice.\<close>

definition same_objects :: "fs \<Rightarrow> fs \<Rightarrow> bool" where
  "same_objects d d' = ((\<forall>q. fs_lookup d' (''objects'' # q) = fs_lookup d (''objects'' # q)) \<and>
     read_dir d' pack_dir = read_dir d pack_dir)"

lemma same_objects_trans: "same_objects a b \<Longrightarrow> same_objects b c \<Longrightarrow> same_objects a c"
  by (simp add: same_objects_def)

lemma same_objects_insert: "p \<noteq> [] \<Longrightarrow> hd p \<noteq> ''objects'' \<Longrightarrow> same_objects d (im_insert p n d)"
  by (cases p) (auto simp: same_objects_def lookup_insert pack_dir_def intro!: read_dir_insert split: if_splits)

lemma same_objects_make_dirs:
  "make_dirs base cs d = Inr d' \<Longrightarrow> cs = [] \<or> hd (base @ cs) \<noteq> ''objects'' \<Longrightarrow> same_objects d d'"
proof (induction cs arbitrary: base d)
  case (Cons c cs)
  then obtain d1 where 1: "make_dir (base @ [c]) d = Inr d1" "make_dirs (base @ [c]) cs d1 = Inr d'"
    by (auto simp: res_simps)
  have "hd (base @ [c]) \<noteq> ''objects''" using Cons.prems(2) by (cases base) auto
  then have "same_objects d d1"
    using 1(1) same_objects_insert [of "base @ [c]" d Dir]
    by (auto simp: make_dir_def same_objects_def split: option.splits node.splits)
  moreover have "same_objects d1 d'" using Cons.IH [OF 1(2)] Cons.prems(2) by (cases base) auto
  ultimately show ?case by (rule same_objects_trans)
qed (simp add: same_objects_def)

lemma same_objects_put:
  assumes "fs_put p c d = Inr d'" "hd p \<noteq> ''objects''"
  shows "same_objects d d'"
proof -
  from assms(1) obtain d1 where 1: "create_dir_all (butlast p) d = Inr d1" "fs_write p c d1 = Inr d'"
    by (auto simp: fs_put_def res_simps)
  have p: "p \<noteq> []" "d' = im_insert p (File c) d1" using 1(2) by (auto simp: fs_write_iff)
  have "butlast p = [] \<or> hd (butlast p) \<noteq> ''objects''" using assms(2) by (cases p) auto
  then have "same_objects d d1" using same_objects_make_dirs 1(1) by (auto simp: create_dir_all_def)
  then show ?thesis using same_objects_insert [OF p(1) assms(2)] p(2) same_objects_trans by blast
qed

lemma same_objects_branch:
  assumes "write_branch n h d = Inr d'"
  shows "same_objects d d'"
proof -
  have n: "safe_ref_name n" using assms by (auto simp: write_branch_def split: if_splits)
  with assms obtain d1 where 1: "fs_put (branch_path n) (h @ [CHR 0x0A]) d = Inr d1"
      "append_reflog (branch_log_path n) (read_branch d n) h ''update'' d1 = Inr d'"
    by (auto simp: write_branch_def Let_def res_simps)
  have h: "hd (branch_path n) = ''refs''" "hd (branch_log_path n) = ''logs''"
    using n by (auto simp: branch_path_def branch_log_path_def path_join_def safe_ref_name_def take_Suc hd_conv_nth
        neq_Nil_conv)
  have "same_objects d d1" using same_objects_put [OF 1(1)] h by simp
  moreover have "same_objects d1 d'" using same_objects_put [OF 1(2) [unfolded append_reflog_put]] h by simp
  ultimately show ?thesis by (rule same_objects_trans)
qed

lemma same_objects_tag: "write_tag n h d = Inr d' \<Longrightarrow> same_objects d d'"
  by (auto simp: write_tag_def tag_path_def path_join_def safe_ref_name_def take_Suc hd_conv_nth neq_Nil_conv
      split: if_splits dest!: same_objects_put)

lemma same_objects_reads:
  assumes "same_objects d d'"
  shows "store_read E \<lparr>disk = d', packs = ps\<rparr> = store_read E \<lparr>disk = d, packs = ps\<rparr>"
    "store_exists \<lparr>disk = d', packs = ps\<rparr> = store_exists \<lparr>disk = d, packs = ps\<rparr>"
    "load_packs E d' = load_packs E d"
proof -
  have look: "fs_lookup d' (''objects'' # q) = fs_lookup d (''objects'' # q)" for q
    using assms by (simp add: same_objects_def)
  have rd: "fs_read d' (''objects'' # q) = fs_read d (''objects'' # q)" for q by (simp add: fs_read_def look)
  show "store_read E \<lparr>disk = d', packs = ps\<rparr> = store_read E \<lparr>disk = d, packs = ps\<rparr>"
    by (rule ext) (simp add: store_read_def object_path_def rd cong: option.case_cong)
  show "store_exists \<lparr>disk = d', packs = ps\<rparr> = store_exists \<lparr>disk = d, packs = ps\<rparr>"
    by (simp add: fun_eq_iff store_exists_def object_path_def fs_exists_def look)
  have "pack_open E d' (pack_dir @ [a]) (pack_dir @ [b]) = pack_open E d (pack_dir @ [a]) (pack_dir @ [b])" for a b
    by (simp add: pack_open_def pack_dir_def rd)
  then show "load_packs E d' = load_packs E d"
    using assms by (simp add: load_packs_def same_objects_def cong: option.case_cong prod.case_cong if_cong)
qed

section \<open>Copying objects\<close>

lemma copy_each_spec:
  assumes "copy_each E src ids dst n = Inr (k, dst')" "store_ok E src" "store_ok E dst"
  shows "store_ok E dst' \<and> (\<forall>i \<in> set ids. store_exists dst' i) \<and> n \<le> k \<and>
    (\<forall>j c. store_read E dst j = Inr c \<longrightarrow> store_read E dst' j = Inr c)"
  using assms
proof (induction E src ids dst n rule: copy_each.induct)
  case (2 E src i ids dst n)
  have keeps: "store_exists d' i" if "store_exists d i" "store_ok E d" "\<forall>j c. store_read E d j = Inr c \<longrightarrow> store_read E d' j = Inr c" for d d'
    using that unfolding store_ok_def by (meson store_read_exists)
  show ?case
  proof (cases "store_exists dst i")
    case True
    then have "copy_each E src ids dst n = Inr (k, dst')" using "2.prems"(1) by simp
    from "2.IH"(1) [OF True this "2.prems"(2,3)] show ?thesis using keeps [OF True "2.prems"(3)] by simp
  next
    case False
    then obtain b i' d1 where 1: "store_read E src i = Inr b" "store_write E b dst = Inr (i', d1)"
        "copy_each E src ids d1 (n + 1) = Inr (k, dst')"
      using "2.prems"(1) by (auto simp: res_simps)
    have "blake3 E b = i" using 1(1) "2.prems"(2) store_read_exists unfolding store_ok_def by (metis sum.inject(2))
    then have i: "i' = i" using store_write_effect(1) [OF 1(2)] by simp
    note w = store_write_ok [OF 1(2) "2.prems"(3)]
    from "2.IH"(2) [OF False 1(1,2) refl 1(3) "2.prems"(2) w(1)]
    have IH: "store_ok E dst'" "\<forall>i \<in> set ids. store_exists dst' i" "n + 1 \<le> k"
        "\<forall>j c. store_read E d1 j = Inr c \<longrightarrow> store_read E dst' j = Inr c" by blast+
    show ?thesis using IH keeps [OF _ w(1) IH(4)] w(2) i store_write_keeps [OF 1(2)] by auto
  qed
qed simp

lemma load_packs_cong:
  assumes "read_dir d' pack_dir = read_dir d pack_dir" "\<And>n. fs_lookup d' (pack_dir @ [n]) = fs_lookup d (pack_dir @ [n])"
  shows "load_packs E d' = load_packs E d"
proof -
  have "pack_open E d' (pack_dir @ [a]) (pack_dir @ [b]) = pack_open E d (pack_dir @ [a]) (pack_dir @ [b])" for a b
    using assms(2) by (simp add: pack_open_def fs_read_def)
  then show ?thesis using assms(1) by (simp add: load_packs_def cong: option.case_cong prod.case_cong if_cong)
qed

lemma fan_out_packs:
  assumes "create_dir_all [''objects'', sub] d = Inr d'" "length sub \<le> 2"
  shows "read_dir d' pack_dir = read_dir d pack_dir"
proof -
  from assms(1) obtain d1 where 1: "make_dir [''objects''] d = Inr d1" "make_dir [''objects'', sub] d1 = Inr d'"
    by (auto simp: create_dir_all_def res_simps)
  have "read_dir d1 pack_dir = read_dir d pack_dir"
    using 1(1) by (auto simp: make_dir_def pack_dir_def read_dir_insert split: option.splits node.splits)
  moreover have "[''objects'', sub] \<noteq> pack_dir" using assms(2) by (auto simp: pack_dir_def)
  then have "read_dir d' pack_dir = read_dir d1 pack_dir"
    using 1(2) by (auto simp: make_dir_def read_dir_insert split: option.splits node.splits) (simp add: pack_dir_def read_dir_insert)
  ultimately show ?thesis by simp
qed

lemma store_write_packs:
  assumes "store_write E c r = Inr (i, r')"
  shows "load_packs E (disk r') = load_packs E (disk r)"
proof -
  have sub: "object_path j \<noteq> pack_dir" "butlast (object_path j) \<noteq> pack_dir" "object_path j \<noteq> []"
      "pack_dir @ [n] \<noteq> object_path j" for j n
    by (auto simp: object_path_def pack_dir_def dest!: arg_cong [of _ _ length])
  have fan: "load_packs E d = load_packs E (disk r)" if "d = disk r \<or> create_dir_all [''objects'', take 2 i] (disk r) = Inr d" for d
    using that
  proof
    assume c: "create_dir_all [''objects'', take 2 i] (disk r) = Inr d"
    then show ?thesis
      using fan_out_packs [OF c] create_dir_all_lookup [OF c] by (intro load_packs_cong) (auto simp: pack_dir_def)
  qed simp
  show ?thesis using assms
  proof (cases rule: store_write_cases)
    case (2 d d')
    then have "d' = im_insert (object_path i) (File (zenc E c)) d" by (simp add: fs_create_new_Inr)
    then have "load_packs E d' = load_packs E d"
      using sub by (intro load_packs_cong) (simp_all add: read_dir_insert lookup_insert)
    then show ?thesis using fan [OF 2(3)] 2(2) by simp
  next
    case (1 d)
    then show ?thesis using fan [OF 1(3)] by simp
  qed
qed

lemma copy_each_frame:
  "copy_each E src ids dst n = Inr (k, dst') \<Longrightarrow> packs dst' = packs dst \<and> load_packs E (disk dst') = load_packs E (disk dst) \<and>
     (\<forall>p. hd p \<noteq> ''objects'' \<longrightarrow> contents (disk dst') p = contents (disk dst) p)"
proof (induction E src ids dst n rule: copy_each.induct)
  case (2 E src i ids dst n)
  show ?case
  proof (cases "store_exists dst i")
    case False
    then obtain b i' d1 where 1: "store_read E src i = Inr b" "store_write E b dst = Inr (i', d1)"
        "copy_each E src ids d1 (n + 1) = Inr (k, dst')"
      using "2.prems" by (auto simp: res_simps)
    have "contents (disk d1) p = contents (disk dst) p" if "hd p \<noteq> ''objects''" for p
      using store_write_effect(3) [OF 1(2)] that by (auto simp: object_path_def)
    then show ?thesis using "2.IH"(2) [OF False 1(1,2) refl 1(3)] store_write_packs [OF 1(2)] store_write_effect(2) [OF 1(2)]
      by auto
  qed (use 2 in simp)
qed simp

text \<open>What a transfer establishes: the source's objects of the tip are there, and nothing is lost.\<close>

definition carries :: "ext \<Rightarrow> repo \<Rightarrow> string \<Rightarrow> repo \<Rightarrow> bool" where
  "carries E src tip dst = (apart E src [tip] \<longrightarrow> (\<forall>i \<in> live E src [tip]. store_exists dst i))"

definition grows :: "ext \<Rightarrow> repo \<Rightarrow> repo \<Rightarrow> bool" where
  "grows E r r' = (store_ok E r' \<and> opened E r' \<and> (\<forall>j c. store_read E r j = Inr c \<longrightarrow> store_read E r' j = Inr c))"

lemma grows_trans: "grows E a b \<Longrightarrow> grows E b c \<Longrightarrow> grows E a c"
  by (simp add: grows_def)

lemma grows_exists: "grows E r r' \<Longrightarrow> store_ok E r \<Longrightarrow> store_exists r i \<Longrightarrow> store_exists r' i"
  unfolding grows_def store_ok_def by (meson store_read_exists)

lemma carries_grows: "carries E src tip r \<Longrightarrow> grows E r r' \<Longrightarrow> store_ok E r \<Longrightarrow> carries E src tip r'"
  using grows_exists by (simp add: carries_def)

lemma same_objects_grows:
  assumes "same_objects (disk r) d" "store_ok E r" "opened E r"
  shows "grows E r (r\<lparr>disk := d\<rparr>)"
proof -
  have r: "r = \<lparr>disk = disk r, packs = packs r\<rparr>" "r\<lparr>disk := d\<rparr> = \<lparr>disk = d, packs = packs r\<rparr>" by simp_all
  have "store_read E (r\<lparr>disk := d\<rparr>) = store_read E r" "store_exists (r\<lparr>disk := d\<rparr>) = store_exists r"
    using same_objects_reads(1,2) [OF assms(1), where ps = "packs r"] by (simp_all only: r(2) flip: r(1))
  moreover have "load_packs E d = load_packs E (disk r)" by (rule same_objects_reads(3) [OF assms(1)])
  ultimately show ?thesis using assms(2,3) by (simp add: grows_def store_ok_def opened_def)
qed

lemma copy_objects_spec:
  assumes "copy_objects E src dst ids = Inr (k, dst')" "store_ok E src" "store_ok E dst" "opened E dst"
  shows "grows E dst dst'" "\<forall>i \<in> set ids. store_exists dst' i"
    "\<And>p. hd p \<noteq> ''objects'' \<Longrightarrow> contents (disk dst') p = contents (disk dst) p"
proof -
  obtain d1 where 1: "copy_each E src ids dst 0 = Inr (k, d1)" "dst' = (if k > 0 then reload_packs E d1 else d1)"
    using assms(1) by (auto simp: copy_objects_def res_simps)
  note fr = copy_each_frame [OF 1(1)] and sp = copy_each_spec [OF 1(1) assms(2,3)]
  have "packs d1 = load_packs E (disk d1)" using fr assms(4) by (simp add: opened_def)
  then have "dst' = d1" using 1(2) by (simp add: reload_packs_def)
  then show "grows E dst dst'" "\<forall>i \<in> set ids. store_exists dst' i"
    "\<And>p. hd p \<noteq> ''objects'' \<Longrightarrow> contents (disk dst') p = contents (disk dst) p"
    using fr sp assms(4) by (simp_all add: grows_def opened_def)
qed

lemma send_tip_spec:
  assumes "send_tip E src tip put dst = Some (Inr (n, dst'))" "store_ok E src" "store_ok E dst" "opened E dst"
    and "\<And>d d'. put d = Inr d' \<Longrightarrow> same_objects d d'"
  shows "grows E dst dst' \<and> carries E src tip dst' \<and>
    (\<exists>d. put d = Inr (disk dst') \<and> (\<forall>p. hd p \<noteq> ''objects'' \<longrightarrow> contents d p = contents (disk dst) p))"
proof -
  from collect_spec [of "[tip]" "[tip]" E src] obtain ids where ids: "reachable E src tip = Some (Inr ids)"
      "apart E src [tip] \<longrightarrow> set ids = live E src [tip]"
    by (auto simp: reachable_def ret_def)
  with assms(1) obtain d1 where 1: "copy_objects E src dst ids = Inr (n, d1)" "put (disk d1) = Inr (disk dst')"
      "dst' = d1\<lparr>disk := disk dst'\<rparr>"
    by (auto simp: send_tip_def res_simps)
  note c = copy_objects_spec [OF 1(1) assms(2-4)]
  have g: "grows E d1 dst'"
    using same_objects_grows [OF assms(5) [OF 1(2)]] c(1) 1(3) unfolding grows_def by metis
  have "carries E src tip d1" using ids(2) c(2) by (simp add: carries_def)
  then have "carries E src tip dst'" using carries_grows [OF _ g] c(1) by (simp add: grows_def)
  then show ?thesis using grows_trans [OF c(1) g] 1(2) c(3) by blast
qed

section \<open>Kinds of refs\<close>

text \<open>
  The refs a transfer copies: cells of the tree outside the object store. Sending a list of them gives
  the receiver every ref of the list, with what it reaches.
\<close>

locale object_refs = cells rd put word_text ref_cell
  for rd :: "fs \<Rightarrow> string \<Rightarrow> string option" and put :: "string \<Rightarrow> string \<Rightarrow> fs \<Rightarrow> repo_error + fs" +
  assumes rd_cell: "ref_cell m = ref_cell n \<Longrightarrow> rd d m = rd d n"
    and rd_outside: "(\<And>p. hd p \<noteq> ''objects'' \<Longrightarrow> contents d' p = contents d p) \<Longrightarrow> rd d' n = rd d n"
    and put_objects: "put n h d = Inr d' \<Longrightarrow> same_objects d d'"
begin

lemma send_one:
  assumes "send_tip E src tip (put n tip) dst = Some (Inr (k, dst'))" "word_text tip"
    and "store_ok E src" "store_ok E dst" "opened E dst"
  shows "grows E dst dst' \<and> carries E src tip dst' \<and>
    (\<forall>m. rd (disk dst') m = (if ref_cell m = ref_cell n then Some tip else rd (disk dst) m))"
proof -
  have "\<And>d d'. put n tip d = Inr d' \<Longrightarrow> same_objects d d'" by (rule put_objects)
  from send_tip_spec [OF assms(1,3-5) this] obtain d where
    "grows E dst dst'" "carries E src tip dst'" "put n tip d = Inr (disk dst')"
    "\<forall>p. hd p \<noteq> ''objects'' \<longrightarrow> contents d p = contents (disk dst) p" by blast
  moreover have "rd d m = rd (disk dst) m" for m by (rule rd_outside) (use calculation(4) in blast)
  ultimately show ?thesis using get_put [of n tip d "disk dst'"] assms(2) by simp
qed

lemma send_refs_spec:
  assumes "send_refs E src (rd d0) put ns dst = Some (Inr dst')" "store_ok E src" "store_ok E dst" "opened E dst"
    and "\<forall>n t. rd d0 n = Some t \<longrightarrow> word_text t"
  shows "grows E dst dst' \<and>
    (\<forall>n t. rd d0 n = Some t \<longrightarrow> n \<in> set ns \<longrightarrow> rd (disk dst') n = Some t \<and> carries E src t dst') \<and>
    (\<forall>n t. rd d0 n = Some t \<longrightarrow> rd (disk dst) n = Some t \<longrightarrow> rd (disk dst') n = Some t)"
  using assms(1,3,4)
proof (induction ns arbitrary: dst)
  case Nil
  then show ?case by (simp add: grows_def ret_def)
next
  case (Cons n ns)
  show ?case
  proof (cases "rd d0 n")
    case None
    then show ?thesis using Cons by simp
  next
    case (Some tip)
    with Cons.prems(1) obtain k d1 where 1: "send_tip E src tip (put n tip) dst = Some (Inr (k, d1))"
        "send_refs E src (rd d0) put ns d1 = Some (Inr dst')" by (auto simp: res_simps)
    note one = send_one [OF 1(1) assms(5) [rule_format, OF Some] assms(2) Cons.prems(2,3)]
    then have d1: "store_ok E d1" "opened E d1" by (simp_all add: grows_def)
    note IH = Cons.IH [OF 1(2) d1]
    have kept: "rd (disk d1) m = Some t" if "rd d0 m = Some t" "rd (disk dst) m = Some t \<or> m = n" for m t
      using one that Some rd_cell [of m n d0] by auto
    have "carries E src tip dst'" using one IH carries_grows d1 by blast
    then show ?thesis using one IH kept Some grows_trans by auto
  qed
qed

text \<open>What neither the objects nor these refs touch stays as it is.\<close>

lemma send_refs_keeps:
  assumes "send_refs E src get put ns dst = Some (Inr dst')" "P (disk dst)" "store_ok E src" "store_ok E dst" "opened E dst"
    and "\<And>d d'. (\<And>p. hd p \<noteq> ''objects'' \<Longrightarrow> contents d' p = contents d p) \<Longrightarrow> P d \<Longrightarrow> P d'"
    and "\<And>n h d d'. put n h d = Inr d' \<Longrightarrow> P d \<Longrightarrow> P d'"
  shows "P (disk dst')"
  using assms(1,2,4,5)
proof (induction ns arbitrary: dst)
  case (Cons n ns)
  show ?case
  proof (cases "get n")
    case (Some tip)
    with Cons.prems(1) obtain k d1 where 1: "send_tip E src tip (put n tip) dst = Some (Inr (k, d1))"
        "send_refs E src get put ns d1 = Some (Inr dst')" by (auto simp: res_simps)
    have "\<And>d d'. put n tip d = Inr d' \<Longrightarrow> same_objects d d'" by (rule put_objects)
    from send_tip_spec [OF 1(1) assms(3) Cons.prems(3,4) this] obtain d where d: "grows E dst d1"
        "put n tip d = Inr (disk d1)" "\<forall>p. hd p \<noteq> ''objects'' \<longrightarrow> contents d p = contents (disk dst) p" by blast
    have "P d" using assms(6) d(3) Cons.prems(2) by blast
    then have "P (disk d1)" using assms(7) d(2) by blast
    then show ?thesis using Cons.IH [OF 1(2)] d(1) by (simp add: grows_def)
  qed (use Cons in simp)
qed (simp add: ret_def)

end

lemma ref_path_outside: "safe_ref_name n \<Longrightarrow> hd (branch_path n) \<noteq> ''objects''" "safe_ref_name n \<Longrightarrow> hd (tag_path n) \<noteq> ''objects''"
  by (simp_all add: branch_path_eq tag_path_eq)

interpretation branch_refs: object_refs read_branch write_branch
proof unfold_locales
  fix m n d assume "ref_cell m = ref_cell n"
  then show "read_branch d m = read_branch d n" by (auto simp: read_branch_def ref_cell_def branch_path_eq split: if_splits)
next
  fix d d' n assume "\<And>p. hd p \<noteq> ''objects'' \<Longrightarrow> contents d' p = contents d p"
  then show "read_branch d' n = read_branch d n" by (simp add: read_branch_def read_ref_contents ref_path_outside)
qed (rule same_objects_branch)

interpretation tag_refs: object_refs read_tag write_tag
proof unfold_locales
  fix m n d assume "ref_cell m = ref_cell n"
  then show "read_tag d m = read_tag d n" by (auto simp: read_tag_def ref_cell_def tag_path_eq split: if_splits)
next
  fix d d' n assume "\<And>p. hd p \<noteq> ''objects'' \<Longrightarrow> contents d' p = contents d p"
  then show "read_tag d' n = read_tag d n" by (simp add: read_tag_def read_ref_contents ref_path_outside)
qed (rule same_objects_tag)

lemma tag_write_branches:
  assumes "write_tag n h d = Inr d'"
  shows "read_branch d' m = read_branch d m"
proof (cases "safe_ref_name m")
  case True
  have s: "safe_ref_name n" "contents d' = (contents d)(tag_path n \<mapsto> h @ [CHR 0x0A])"
    using assms by (auto simp: write_tag_def fs_simps split: if_splits)
  then show ?thesis using True ref_paths_differ(2) [OF True s(1)] by (simp add: read_branch_def read_ref_contents)
qed (simp add: read_branch_def)

lemma head_write_refs:
  assumes "set_head_to_branch b d = Inr d'"
  shows "read_branch d' m = read_branch d m" "read_tag d' m = read_tag d m" "same_objects d d'"
proof -
  have c: "contents d' = (contents d)(head_path \<mapsto> branch_prefix @ b @ [CHR 0x0A])"
    using assms by (simp add: set_head_to_branch_def contents_write)
  show "read_branch d' m = read_branch d m" "read_tag d' m = read_tag d m"
    by (auto simp: read_branch_def read_tag_def read_ref_contents c head_path_def branch_path_eq tag_path_eq)
  show "same_objects d d'"
    using assms same_objects_insert [of head_path d] by (auto simp: set_head_to_branch_def fs_write_iff head_path_def)
qed

lemma trim_line: "trim x = x \<Longrightarrow> trim (x @ [CHR 0x0A]) = x"
proof (cases "x = []")
  case False
  assume t: "trim x = x"
  then have "\<not> is_ws (hd x)" "\<not> is_ws (last x)" using trim_ends [of x] False by auto
  then have "dropWhile is_ws (x @ [CHR 0x0A]) = x @ [CHR 0x0A]" "dropWhile is_ws (rev x) = rev x"
    using False by (auto simp: neq_Nil_conv dropWhile_eq_self_iff hd_rev)
  then show ?thesis by (simp add: trim_def is_ws_def)
qed (simp add: trim_def is_ws_def)

lemma current_branch_kept:
  assumes "current_branch d0 = Some cur" "set_head_to_branch cur d = Inr d'"
  shows "current_branch d' = Some cur"
proof -
  from assms(1) obtain s where s: "strip_prefix branch_prefix (trim s) = Some cur"
    by (auto simp: current_branch_def split: sum.splits)
  then have t: "trim s = branch_prefix @ cur" by (rule strip_prefix_SomeD)
  have "contents d' head_path = Some ((branch_prefix @ cur) @ [CHR 0x0A])"
    using contents_write [OF assms(2) [unfolded set_head_to_branch_def]] by simp
  then have "fs_read d' head_path = Inr ((branch_prefix @ cur) @ [CHR 0x0A])" by (simp add: fs_read_iff)
  moreover have "trim ((branch_prefix @ cur) @ [CHR 0x0A]) = branch_prefix @ cur"
    by (rule trim_line) (metis t trim_trim)
  ultimately show ?thesis unfolding current_branch_def by (simp only: sum.case strip_prefix_append)
qed

section \<open>Properties\<close>

text \<open>
  C32. A push, when it returns, has set the branch of the remote to the local tip, left every other branch
  as it was, kept every object the remote had, and left a sound store that holds all the tip reaches
  (when no world in its history contains a commit of that history as a file).
\<close>

theorem push_local_spec:
  assumes "push_local E l rem b = Some (Inr (n, rem'))" "read_branch (disk l) b = Some tip" "word_text tip"
    and "store_ok E l" "store_ok E rem" "opened E rem" "apart E l [tip]"
  shows "read_branch (disk rem') b = Some tip \<and> (\<forall>i \<in> live E l [tip]. store_exists rem' i) \<and>
    (\<forall>m. ref_cell m \<noteq> ref_cell b \<longrightarrow> read_branch (disk rem') m = read_branch (disk rem) m) \<and>
    store_ok E rem' \<and> (\<forall>j c. store_read E rem j = Inr c \<longrightarrow> store_read E rem' j = Inr c)"
proof -
  have "send_tip E l tip (write_branch b tip) rem = Some (Inr (n, rem'))"
    using assms(1,2) by (simp add: push_local_def)
  from branch_refs.send_one [OF this assms(3-6)] show ?thesis
    using assms(7) by (simp add: grows_def carries_def)
qed

text \<open>
  C38. A clone, when it returns, has every branch and tag the source lists at the same commit, with all it
  reaches, and the same current branch; its store is sound.
\<close>

theorem clone_into_spec:
  assumes "clone_into E src dst = Some (Inr dst')" "store_ok E src" "store_ok E dst" "opened E dst"
    and "\<forall>n t. read_branch (disk src) n = Some t \<longrightarrow> word_text t"
    and "\<forall>n t. read_tag (disk src) n = Some t \<longrightarrow> word_text t"
  shows "(\<forall>b \<in> set (branches (disk src)). \<forall>t. read_branch (disk src) b = Some t \<longrightarrow>
      read_branch (disk dst') b = Some t \<and> carries E src t dst') \<and>
    (\<forall>g \<in> set (tags (disk src)). \<forall>t. read_tag (disk src) g = Some t \<longrightarrow>
      read_tag (disk dst') g = Some t \<and> carries E src t dst') \<and>
    (\<forall>c. current_branch (disk src) = Some c \<longrightarrow> current_branch (disk dst') = Some c) \<and> store_ok E dst'"
proof -
  obtain d1 d2 where 1: "send_refs E src (read_branch (disk src)) write_branch (branches (disk src)) dst = Some (Inr d1)"
    and 2: "send_refs E src (read_tag (disk src)) write_tag (tags (disk src)) d1 = Some (Inr d2)"
    and 3: "(case current_branch (disk src) of None \<Rightarrow> ret d2
      | Some cur \<Rightarrow> Some (rbind (set_head_to_branch cur (disk d2)) (\<lambda>d. Inr (d2\<lparr>disk := d\<rparr>)))) = Some (Inr dst')"
    using assms(1) by (auto simp: clone_into_def res_simps)
  note b = branch_refs.send_refs_spec [OF 1 assms(2-5)]
  then have d1: "store_ok E d1" "opened E d1" by (simp_all add: grows_def)
  note t = tag_refs.send_refs_spec [OF 2 assms(2) d1 assms(6)]
  then have d2: "store_ok E d2" "opened E d2" by (simp_all add: grows_def)
  have "(\<lambda>d. read_branch d = read_branch (disk d1)) (disk d2)"
  proof (rule tag_refs.send_refs_keeps [OF 2 _ assms(2) d1])
    fix d d' assume out: "\<And>p. hd p \<noteq> ''objects'' \<Longrightarrow> contents d' p = contents d p"
      and P: "read_branch d = read_branch (disk d1)"
    have "read_branch d' m = read_branch d m" for m by (rule branch_refs.rd_outside) (rule out)
    then show "read_branch d' = read_branch (disk d1)" unfolding P [symmetric] by (rule ext)
  next
    fix n h d d' assume w: "write_tag n h d = Inr d'" and P: "read_branch d = read_branch (disk d1)"
    have "read_branch d' m = read_branch d m" for m by (rule tag_write_branches [OF w])
    then show "read_branch d' = read_branch (disk d1)" unfolding P [symmetric] by (rule ext)
  qed (rule refl)
  then have heads: "read_branch (disk d2) = read_branch (disk d1)" .
  have last: "grows E d2 dst' \<and> (\<forall>m. read_branch (disk dst') m = read_branch (disk d2) m) \<and>
      (\<forall>m. read_tag (disk dst') m = read_tag (disk d2) m) \<and>
      (\<forall>c. current_branch (disk src) = Some c \<longrightarrow> current_branch (disk dst') = Some c)"
  proof (cases "current_branch (disk src)")
    case None
    then show ?thesis using 3 d2 by (simp add: ret_def grows_def)
  next
    case (Some cur)
    with 3 obtain d where d: "set_head_to_branch cur (disk d2) = Inr d" "dst' = d2\<lparr>disk := d\<rparr>"
      by (auto simp: res_simps)
    then show ?thesis
      using head_write_refs [OF d(1)] current_branch_kept [OF Some d(1)] same_objects_grows d2 Some by simp
  qed
  have g: "grows E d1 d2" "grows E d2 dst'" using t last by blast+
  have c: "carries E src u dst'" if "carries E src u d2" for u
    using carries_grows [OF that g(2) d2(1)] .
  then have c1: "carries E src u dst'" if "carries E src u d1" for u
    using carries_grows [OF that g(1) d1(1)] by blast
  have "read_branch (disk dst') x = Some u \<and> carries E src u dst'"
    if "x \<in> set (branches (disk src))" "read_branch (disk src) x = Some u" for x u
    using b last heads c1 that by simp
  moreover have "read_tag (disk dst') x = Some u \<and> carries E src u dst'"
    if "x \<in> set (tags (disk src))" "read_tag (disk src) x = Some u" for x u
    using t last c that by simp
  ultimately show ?thesis using last by (simp add: grows_def)
qed

lemma world_refs:
  "read_branch (disk world_repo) n = Some t \<Longrightarrow> t = oid (CHR ''c'')" "read_tag (disk world_repo) n = Some t \<Longrightarrow> False"
proof -
  have w: "trim (oid (CHR ''c'') @ [CHR 0x0A]) = oid (CHR ''c'')" by code_simp
  have "contents (disk world_repo) (''refs'' # p) =
      (if p = [''heads'', ''main''] then Some (oid (CHR ''c'') @ [CHR 0x0A]) else None)" for p
    by (auto simp: contents_def fs_lookup_def im_get_def world_repo_def commit_files_def object_path_def)
  then have "contents (disk world_repo) (''refs'' # p) = Some s \<Longrightarrow> p = [''heads'', ''main''] \<and> s = oid (CHR ''c'') @ [CHR 0x0A]" for p s
    by (simp split: if_splits)
  then have "read_ref (disk world_repo) (''refs'' # p) = Some t \<Longrightarrow> p = [''heads'', ''main''] \<and> t = oid (CHR ''c'')" for p
    using w by (auto simp: read_ref_contents split: if_splits option.splits)
  then show "read_branch (disk world_repo) n = Some t \<Longrightarrow> t = oid (CHR ''c'')" "read_tag (disk world_repo) n = Some t \<Longrightarrow> False"
    by (auto simp: read_branch_def read_tag_def branch_path_eq tag_path_eq split: if_splits)
qed

lemma world_empty_ok: "store_ok world_ext empty_repo" "opened world_ext empty_repo"
proof -
  show "store_ok world_ext empty_repo"
    using world_store_ok by (simp add: store_ok_def store_exists_def empty_repo_def fs_exists_def fs_lookup_def
        im_get_def object_path_def)
qed code_simp

theorem push_local_spec_witness:
  "\<exists>n rem'. push_local world_ext world_repo empty_repo ''main'' = Some (Inr (n, rem')) \<and>
     read_branch (disk rem') ''main'' = Some (oid (CHR ''c'')) \<and> store_exists rem' (oid (CHR ''d''))"
proof -
  have "(case push_local world_ext world_repo empty_repo ''main'' of Some (Inr _) \<Rightarrow> True | _ \<Rightarrow> False)" by code_simp
  then obtain n rem' where run: "push_local world_ext world_repo empty_repo ''main'' = Some (Inr (n, rem'))"
    by (auto split: option.splits sum.splits)
  have "read_branch (disk world_repo) ''main'' = Some (oid (CHR ''c''))" "word_text (oid (CHR ''c''))" by code_simp+
  from push_local_spec [OF run this world_store_ok world_empty_ok world_apart] run show ?thesis
    by (simp add: live_def world_objects)
qed

theorem clone_into_spec_witness:
  "\<exists>dst'. clone_into world_ext world_repo empty_repo = Some (Inr dst') \<and>
     read_branch (disk dst') ''main'' = Some (oid (CHR ''c'')) \<and> current_branch (disk dst') = Some ''main''"
proof -
  have "(case clone_into world_ext world_repo empty_repo of Some (Inr _) \<Rightarrow> True | _ \<Rightarrow> False)" by code_simp
  then obtain dst' where run: "clone_into world_ext world_repo empty_repo = Some (Inr dst')"
    by (auto split: option.splits sum.splits)
  have word: "word_text (oid (CHR ''c''))" by code_simp
  have "\<forall>n t. read_branch (disk world_repo) n = Some t \<longrightarrow> word_text t" "\<forall>n t. read_tag (disk world_repo) n = Some t \<longrightarrow> word_text t"
    using world_refs word by blast+
  note spec = clone_into_spec [OF run world_store_ok world_empty_ok this]
  have "''main'' \<in> set (branches (disk world_repo))" "read_branch (disk world_repo) ''main'' = Some (oid (CHR ''c''))"
    "current_branch (disk world_repo) = Some ''main''" by code_simp+
  with spec run show ?thesis by blast
qed

end
