(* ===== verification/RepoGc.thy ===== *)
theory RepoGc imports
  RepoTransfer
begin

text \<open>
  \<^verbatim>\<open>crates/repo/src/gc.rs\<close>: every object in reach goes into one new pack, and the old packs and all
  loose objects are removed. The specification says which objects can be read afterwards.
\<close>

section \<open>The code\<close>

record gc_report =
  kept :: nat
  pruned :: nat

definition list_pack_ids :: "fs \<Rightarrow> string list" where
  "list_pack_ids d = (case read_dir d pack_dir of None \<Rightarrow> [] | Some ns \<Rightarrow>
     List.map_filter (\<lambda>n. case strip_prefix ''pack-'' n of None \<Rightarrow> None | Some rest \<Rightarrow> strip_suffix ''.pack'' rest) ns)"

definition delete_loose :: "fs \<Rightarrow> fs" where
  "delete_loose d = (case read_dir d [''objects''] of None \<Rightarrow> d | Some subs \<Rightarrow>
     fold (\<lambda>n d. if length n = 2 \<and> is_dir d [''objects'', n] then remove_dir_all [''objects'', n] d else d) subs d)"

definition drop_pack :: "string option \<Rightarrow> string \<Rightarrow> fs \<Rightarrow> fs" where
  "drop_pack new i d = (if Some i = new then d else remove_file (idx_path i) (remove_file (pack_path i) d))"

text \<open>What the staged snapshot adds to the ids kept.\<close>

definition keep_staged :: "repo \<Rightarrow> manifest option \<Rightarrow> string list \<times> string list \<Rightarrow> string list \<times> string list" where
  "keep_staged r i p = (case i of None \<Rightarrow> p | Some m \<Rightarrow>
     fold (\<lambda>x p. if store_exists r x then mark x p else p) (manifest_ids m) p)"

text \<open>What can be read is packed; the rest is passed over.\<close>

fun pack_kept :: "ext \<Rightarrow> packfile list \<Rightarrow> string list \<Rightarrow> pack_writer \<Rightarrow> fs \<Rightarrow> repo_error + pack_writer \<times> fs" where
  "pack_kept E pks [] w d = Inr (w, d)"
| "pack_kept E pks (i # is) w d = (case store_read E \<lparr>disk = d, packs = pks\<rparr> i of
     Inl _ \<Rightarrow> pack_kept E pks is w d
   | Inr c \<Rightarrow> rbind (pw_add E i c w d) (\<lambda>(w, d). pack_kept E pks is w d))"

definition finish_pack :: "ext \<Rightarrow> pack_writer \<Rightarrow> fs \<Rightarrow> repo_error + string option \<times> fs" where
  "finish_pack E w d = (if pw_is_empty w then Inr (None, d)
     else rbind (pw_finish E w d) (\<lambda>(i, d). Inr (Some i, d)))"

definition repack :: "ext \<Rightarrow> repo \<Rightarrow> string list \<Rightarrow> repo_error + repo" where
  "repack E r keep =
     (let old = list_pack_ids (disk r) in
      rbind (pw_new (disk r)) (\<lambda>(w, d).
      rbind (pack_kept E (packs r) keep w d) (\<lambda>(w, d).
      rbind (finish_pack E w d) (\<lambda>(new, d).
        Inr (reload_packs E (r\<lparr>disk := delete_loose (fold (drop_pack new) old d)\<rparr>))))))"

definition gc :: "ext \<Rightarrow> repo \<Rightarrow> (gc_report \<times> repo) run" where
  "gc E r =
     (let total = length (all_ids r) in
      run_bind (walk (collect_visit E r) (rev (tips (disk r))) [] []) (\<lambda>(seen, keep).
      Some (rbind (index_read E r) (\<lambda>i.
        let keep = snd (keep_staged r i (seen, keep)) in
        rbind (repack E r keep) (\<lambda>r'. Inr (\<lparr>kept = length keep, pruned = total - length keep\<rparr>, r'))))))"

section \<open>Packing\<close>

lemma read_frame:
  assumes "\<And>q. q \<noteq> pw_tmp \<Longrightarrow> contents d q = contents (disk r) q"
  shows "store_read E \<lparr>disk = d, packs = packs r\<rparr> i = Inr c \<longleftrightarrow> store_read E r i = Inr c"
proof -
  have "object_path i \<noteq> pw_tmp" by (auto simp: object_path_def pw_tmp_def pack_dir_def dest!: arg_cong [of _ _ length])
  then have "contents d (object_path i) = contents (disk r) (object_path i)" by (rule assms)
  then show ?thesis
    using store_read_cong [of "\<lparr>disk = d, packs = packs r\<rparr>" r i E c] store_read_cong [of r "\<lparr>disk = d, packs = packs r\<rparr>" i E c]
    by auto
qed

lemma pack_kept_inv:
  assumes "pack_kept E (packs r) is w d = Inr (w', d')" "pw_inv E objs w d"
    and "\<And>q. q \<noteq> pw_tmp \<Longrightarrow> contents d q = contents (disk r) q" "\<And>i c. objs i = Some c \<Longrightarrow> store_get E r i = Some c"
  shows "pw_inv E (\<lambda>i. if i \<in> set is then store_get E r i else objs i) w' d' \<and>
    (\<forall>q. q \<noteq> pw_tmp \<longrightarrow> contents d' q = contents (disk r) q)"
  using assms
proof (induction "is" arbitrary: w d objs)
  case (Cons i "is")
  note fr = read_frame [OF Cons.prems(3)]
  show ?case
  proof (cases "store_get E r i")
    case None
    then obtain e where e: "store_read E r i = Inl e" by (auto simp: store_get_def split: sum.splits)
    then obtain e' where "store_read E \<lparr>disk = d, packs = packs r\<rparr> i = Inl e'"
      using fr [of E i] by (cases "store_read E \<lparr>disk = d, packs = packs r\<rparr> i") auto
    then have run: "pack_kept E (packs r) is w d = Inr (w', d')" using Cons.prems(1) by simp
    have "objs i = None" using None Cons.prems(4) [of i] by (cases "objs i") auto
    then have eq: "(\<lambda>j. if j \<in> set (i # is) then store_get E r j else objs j) = (\<lambda>j. if j \<in> set is then store_get E r j else objs j)"
      using None by auto
    show ?thesis unfolding eq by (rule Cons.IH [OF run Cons.prems(2-4)])
  next
    case (Some c)
    then have "store_read E \<lparr>disk = d, packs = packs r\<rparr> i = Inr c" using fr by (simp add: store_get_iff)
    then obtain w1 d1 where 1: "pw_add E i c w d = Inr (w1, d1)" "pack_kept E (packs r) is w1 d1 = Inr (w', d')"
      using Cons.prems(1) by (auto simp: res_simps)
    note add = pw_add_inv [OF Cons.prems(2) 1(1)]
    let ?objs = "if objs i = None then objs(i \<mapsto> c) else objs"
    have sub: "?objs j = Some c' \<Longrightarrow> store_get E r j = Some c'" for j c'
      using Some Cons.prems(4) by (auto split: if_splits)
    have "?objs i = Some c" using Some Cons.prems(4) [of i] by (cases "objs i") auto
    then have eq: "(\<lambda>j. if j \<in> set (i # is) then store_get E r j else objs j) = (\<lambda>j. if j \<in> set is then store_get E r j else ?objs j)"
      using Some by (auto simp: fun_eq_iff)
    show ?thesis unfolding eq by (rule Cons.IH [OF 1(2) add(1)]) (use add(2) Cons.prems(3) sub in auto)
  qed
qed simp

section \<open>Removing\<close>

lemma contents_drop_packs:
  "contents (fold (drop_pack new) old d) q =
     (if \<exists>i \<in> set old. Some i \<noteq> new \<and> (q = pack_path i \<or> q = idx_path i) then None else contents d q)"
  by (induction old arbitrary: d) (auto simp: drop_pack_def fs_simps)

lemma drop_packs_dirs: "is_dir (fold (drop_pack new) old d) q = is_dir d q"
proof -
  have "is_dir (remove_file p d) q = is_dir d q" for p d
    by (auto simp: remove_file_def is_dir_def is_file_def fs_lookup_def omap_simps split: option.splits node.splits)
  then show ?thesis by (induction old arbitrary: d) (auto simp: drop_pack_def)
qed

lemma remove_dir_all_other: "\<not> under p q \<Longrightarrow> fs_lookup (remove_dir_all p d) q = fs_lookup d q"
proof -
  assume q: "\<not> under p q"
  have "im_get (filter (\<lambda>(q, _). \<not> under p q) d) q = im_get d q"
    by (induction d) (use q in \<open>auto simp: im_get_def\<close>)
  then show ?thesis using q by (auto simp: remove_dir_all_def fs_lookup_def)
qed

text \<open>Every directory of two characters goes, with the loose objects in it; nothing else does.\<close>

lemma fold_loose:
  "contents (fold (\<lambda>n d. if length n = 2 \<and> is_dir d [''objects'', n] then remove_dir_all [''objects'', n] d else d) subs d) q =
     (if \<exists>n \<in> set subs. length n = 2 \<and> is_dir d [''objects'', n] \<and> under [''objects'', n] q then None else contents d q)"
proof (induction subs arbitrary: d)
  case (Cons n subs)
  show ?case
  proof (cases "length n = 2 \<and> is_dir d [''objects'', n]")
    case True
    have same: "is_dir (remove_dir_all [''objects'', n] d) [''objects'', m] = is_dir d [''objects'', m]" if "m \<noteq> n" for m
      using that by (simp add: is_dir_def remove_dir_all_other under_def)
    let ?d = "remove_dir_all [''objects'', n] d"
    show ?thesis
    proof (cases "under [''objects'', n] q")
      case False
      then have "is_dir ?d [''objects'', m] \<and> under [''objects'', m] q \<longleftrightarrow> is_dir d [''objects'', m] \<and> under [''objects'', m] q" for m
        using same by (cases "m = n") auto
      then show ?thesis using True False Cons [of ?d] by (simp add: contents_remove_dir_all conj_assoc) blast
    qed (use True Cons [of ?d] in \<open>simp add: contents_remove_dir_all\<close>)
  next
    case False
    then show ?thesis using Cons [of d] by auto
  qed
qed simp

lemma read_dir_mem: "is_dir d p \<Longrightarrow> n \<in> set (the (read_dir d p)) \<longleftrightarrow> fs_exists d (p @ [n])"
  by (force simp: read_dir_def fs_exists_def fs_lookup_def im_get_None_iff [symmetric] im_get_def map_of_eq_None_iff image_iff
      dest: append_butlast_last_id)

lemma contents_delete_loose:
  assumes "is_dir d [''objects'']"
  shows "contents (delete_loose d) q =
    (if \<exists>n. length n = 2 \<and> is_dir d [''objects'', n] \<and> under [''objects'', n] q then None else contents d q)"
proof -
  obtain subs where subs: "read_dir d [''objects''] = Some subs" using assms by (simp add: read_dir_def)
  have "n \<in> set subs" if "is_dir d [''objects'', n]" for n
    using read_dir_mem [OF assms, of n] that subs by (simp add: is_dir_def fs_exists_def)
  then show ?thesis by (auto simp: delete_loose_def subs fold_loose)
qed

lemma lookup_delete_loose:
  assumes "\<And>n. length n = 2 \<Longrightarrow> \<not> under [''objects'', n] q"
  shows "fs_lookup (delete_loose d) q = fs_lookup d q"
proof -
  have "fs_lookup (fold (\<lambda>n d. if length n = 2 \<and> is_dir d [''objects'', n] then remove_dir_all [''objects'', n] d else d) subs d) q =
      fs_lookup d q" for subs
    by (induction subs arbitrary: d) (auto simp: remove_dir_all_other assms)
  then show ?thesis by (simp add: delete_loose_def split: option.splits)
qed

section \<open>Directories stay\<close>

definition dirs_kept :: "fs \<Rightarrow> fs \<Rightarrow> bool" where
  "dirs_kept d d' = (\<forall>q. is_dir d q \<longrightarrow> is_dir d' q)"

lemma dirs_kept_trans: "dirs_kept a b \<Longrightarrow> dirs_kept b c \<Longrightarrow> dirs_kept a c"
  by (simp add: dirs_kept_def)

lemma dirs_kept_write: "fs_write p c d = Inr d' \<Longrightarrow> dirs_kept d d'"
proof -
  assume w: "fs_write p c d = Inr d'"
  then have "p \<noteq> []" by (auto simp: fs_write_iff)
  then show ?thesis using w by (auto simp: fs_write_iff dirs_kept_def is_dir_def lookup_insert)
qed

lemma make_dirs_dirs: "make_dirs base cs d = Inr d' \<Longrightarrow> dirs_kept d d'"
proof (induction cs arbitrary: base d)
  case (Cons c cs)
  then obtain d1 where 1: "make_dir (base @ [c]) d = Inr d1" "make_dirs (base @ [c]) cs d1 = Inr d'"
    by (auto simp: res_simps)
  have "dirs_kept d d1"
    using 1(1) by (auto simp: make_dir_def dirs_kept_def is_dir_insert split: option.splits node.splits)
  then show ?case using Cons.IH [OF 1(2)] dirs_kept_trans by blast
qed (simp add: dirs_kept_def)

lemma dirs_kept_append: "fs_append p c d = Inr d' \<Longrightarrow> dirs_kept d d'"
  by (auto simp: fs_append_def dirs_kept_write split: sum.splits)

lemma dirs_kept_rename: "fs_rename p q d = Inr d' \<Longrightarrow> contents d p = Some c \<Longrightarrow> dirs_kept d d'"
proof -
  assume r: "fs_rename p q d = Inr d'" and c: "contents d p = Some c"
  then have p: "fs_lookup d p = Some (File c)" "p \<noteq> []" by (auto simp: contents_def fs_lookup_def split: option.splits node.splits)
  with r obtain d1 where 1: "fs_write q c d = Inr d1" "d' = (if p = q then d1 else im_remove p d1)"
    by (auto simp: fs_rename_def res_simps)
  have "q \<noteq> []" using 1(1) by (auto simp: fs_write_iff)
  then have "\<not> is_dir d1 p" using 1(1) p by (auto simp: fs_write_iff is_dir_def lookup_insert)
  then have "dirs_kept d1 d'" using 1(2) p(2) by (auto simp: dirs_kept_def is_dir_def fs_lookup_def omap_simps)
  then show ?thesis using dirs_kept_write [OF 1(1)] dirs_kept_trans by blast
qed

lemma dirs_kept_pack:
  "pack_kept E pks is w d = Inr (w', d') \<Longrightarrow> dirs_kept d d'"
proof (induction E pks "is" w d rule: pack_kept.induct)
  case (2 E pks i "is" w d)
  show ?case
  proof (cases "store_read E \<lparr>disk = d, packs = pks\<rparr> i")
    case (Inr c)
    then obtain w1 d1 where 1: "pw_add E i c w d = Inr (w1, d1)" "pack_kept E pks is w1 d1 = Inr (w', d')"
      using "2.prems" by (auto simp: res_simps)
    have "dirs_kept d d1"
      using 1(1) dirs_kept_append [of pw_tmp "zenc E c" d]
      by (auto simp: pw_add_def push_packed_def res_simps dirs_kept_def split: if_splits)
    then show ?thesis using "2.IH"(2) [OF Inr 1(1) refl 1(2)] dirs_kept_trans by blast
  qed (use 2 in simp)
qed (simp add: dirs_kept_def)

lemma contents_exists: "contents d p \<noteq> None \<Longrightarrow> fs_exists d p"
  by (auto simp: contents_def fs_exists_def split: option.splits)

lemma wf_parent: "fs_wf d \<Longrightarrow> fs_exists d p \<Longrightarrow> p \<noteq> [] \<Longrightarrow> is_dir d (butlast p)"
  by (auto simp: fs_wf_def fs_exists_def fs_lookup_def im_get_None_iff)

section \<open>Which packs are loaded\<close>

lemma file_ext_name:
  assumes "file_ext n = Some (stem, e)"
  shows "n = stem @ ''.'' @ e"
proof -
  let ?ps = "split_on (CHR ''.'') n"
  have s: "stem = join ''.'' (butlast ?ps)" "e = last ?ps" "stem \<noteq> []"
    using assms by (auto simp: file_ext_def Let_def split: if_splits)
  then have "butlast ?ps \<noteq> []" by (metis join.simps(1))
  then have "?ps = butlast ?ps @ [e]" by (metis s(2) append_butlast_last_id butlast.simps(1))
  then have "n = join ''.'' (butlast ?ps @ [e])" by (metis join_split_on)
  then show ?thesis using join_snoc [OF \<open>butlast ?ps \<noteq> []\<close>] s(1) by simp
qed

lemma file_ext_idx: "a \<noteq> [] \<Longrightarrow> file_ext (a @ ''.idx'') = Some (a, ''idx'')"
proof -
  assume a: "a \<noteq> []"
  have "split_on (CHR ''.'') (a @ CHR ''.'' # ''idx'') = split_on (CHR ''.'') a @ [''idx'']"
    by (simp add: split_on_split)
  then show ?thesis using a by (simp add: file_ext_def join_split_on)
qed

lemma load_packs_mem:
  assumes "is_dir d pack_dir"
  shows "pf \<in> set (load_packs E d) \<longleftrightarrow> (\<exists>n stem. fs_exists d (pack_dir @ [n]) \<and> file_ext n = Some (stem, ''idx'') \<and>
    pack_open E d (pack_dir @ [stem @ ''.pack'']) (pack_dir @ [n]) = Inr pf)"
proof -
  obtain ns where ns: "read_dir d pack_dir = Some ns" using assms by (simp add: read_dir_def)
  have "n \<in> set ns \<longleftrightarrow> fs_exists d (pack_dir @ [n])" for n using read_dir_mem [OF assms, of n] ns by simp
  moreover have "(case file_ext n of None \<Rightarrow> None | Some (stem, e) \<Rightarrow> if e = ''idx''
      then (case pack_open E d (pack_dir @ [stem @ ''.pack'']) (pack_dir @ [n]) of Inr pf \<Rightarrow> Some pf | Inl _ \<Rightarrow> None)
      else None) = Some pf \<longleftrightarrow>
    (\<exists>stem. file_ext n = Some (stem, ''idx'') \<and> pack_open E d (pack_dir @ [stem @ ''.pack'']) (pack_dir @ [n]) = Inr pf)" for n
    by (simp split: option.splits prod.splits sum.splits)
  ultimately show ?thesis unfolding load_packs_def ns option.case set_map_filter by blast
qed

lemma packs_read_one: "set ps = {pf} \<Longrightarrow> pack_read E i pf = Inr v \<Longrightarrow> packs_read E i ps = Inr v"
proof (induction ps)
  case (Cons p ps)
  then have p: "p = pf" "ps = [] \<or> set ps = {pf}" by (auto simp: subset_singleton_iff)
  then show ?case using Cons by (cases v) auto
qed simp

text \<open>Pack files are named as the writer of packs names them.\<close>

definition pack_names_ok :: "fs \<Rightarrow> bool" where
  "pack_names_ok d = (\<forall>n stem. contents d (pack_dir @ [n]) \<noteq> None \<longrightarrow> file_ext n = Some (stem, ''idx'') \<longrightarrow>
     (\<exists>j. stem = ''pack-'' @ j))"

lemma list_pack_ids_mem:
  assumes "fs_wf d" "contents d (pack_path j) \<noteq> None"
  shows "j \<in> set (list_pack_ids d)"
proof -
  have ex: "fs_exists d (pack_path j)" by (rule contents_exists) (rule assms(2))
  then have dir: "is_dir d pack_dir" using wf_parent [OF assms(1) ex] by (simp add: pack_path_def)
  then obtain ns where ns: "read_dir d pack_dir = Some ns" by (simp add: read_dir_def)
  have "''pack-'' @ j @ ''.pack'' \<in> set ns"
    using read_dir_mem [OF dir] ex ns by (simp add: pack_path_def)
  moreover have "strip_prefix ''pack-'' (''pack-'' @ j @ ''.pack'') = Some (j @ ''.pack'')" "strip_suffix ''.pack'' (j @ ''.pack'') = Some j"
    by (rule strip_prefix_append, rule strip_suffix_append)
  ultimately show ?thesis
    unfolding list_pack_ids_def ns option.case set_map_filter by (intro bexI [of _ "''pack-'' @ j @ ''.pack''"]) simp_all
qed

section \<open>What repacking keeps\<close>

definition idx_ok :: "ext \<Rightarrow> bool" where
  "idx_ok E = (\<forall>idx. idx_parse E (idx_json E idx) = Some idx)"

text \<open>The tree after the new pack is written.\<close>

lemma finish_pack_spec:
  assumes "finish_pack E w d = Inr (new, d')" "pw_inv E objs w d" "zstd_ok E" "idx_ok E"
  shows "dirs_kept d d'"
    "\<And>q. q \<noteq> pw_tmp \<Longrightarrow> (\<And>i. new = Some i \<Longrightarrow> q \<noteq> pack_path i \<and> q \<noteq> idx_path i) \<Longrightarrow> contents d' q = contents d q"
    "new = None \<Longrightarrow> objs i = None"
    "new = Some k \<Longrightarrow> contents d' (idx_path k) \<noteq> None \<and>
       (\<exists>pf. pack_open E d' (pack_path k) (idx_path k) = Inr pf \<and> (\<forall>j. pack_read E j pf = Inr (objs j)))"
proof -
  from assms(2) obtain bytes where b: "contents d pw_tmp = Some bytes" "indexed_bytes E objs (pw_index w) bytes"
    by (auto simp: pw_inv_def)
  have "dirs_kept d d' \<and> (\<forall>q. q \<noteq> pw_tmp \<longrightarrow> (\<forall>i. new = Some i \<longrightarrow> q \<noteq> pack_path i \<and> q \<noteq> idx_path i) \<longrightarrow> contents d' q = contents d q) \<and>
     (new = None \<longrightarrow> objs i = None) \<and> (new = Some k \<longrightarrow> contents d' (idx_path k) \<noteq> None \<and>
       (\<exists>pf. pack_open E d' (pack_path k) (idx_path k) = Inr pf \<and> (\<forall>j. pack_read E j pf = Inr (objs j))))"
  proof (cases "pw_is_empty w")
    case True
    then have "objs i = None" using b(2) [unfolded indexed_bytes_def, rule_format, of i] by (simp add: pw_is_empty_def bm_get_Nil)
    then show ?thesis using True assms(1) by (auto simp: finish_pack_def dirs_kept_def)
  next
    case False
    with assms(1) obtain n where n: "new = Some n" "pw_finish E w d = Inr (n, d')"
      by (auto simp: finish_pack_def res_simps)
    from n(2) obtain d1 where 1: "fs_rename pw_tmp (pack_path n) d = Inr d1"
        "fs_write (idx_path n) (idx_json E (pw_index w)) d1 = Inr d'"
      by (auto simp: pw_finish_def res_simps Let_def)
    have "dirs_kept d d'" using dirs_kept_rename [OF 1(1) b(1)] dirs_kept_write [OF 1(2)] dirs_kept_trans by blast
    moreover have "\<exists>pf. pack_open E d' (pack_path n) (idx_path n) = Inr pf \<and> (\<forall>j. pack_read E j pf = Inr (objs j))"
      using pack_finish_open [OF assms(2) n(2) _ assms(3)] assms(4) by (simp add: idx_ok_def)
    ultimately show ?thesis using n(1) by (auto simp: pw_finish_contents(2) [OF n(2) b(1)])
  qed
  then show "dirs_kept d d'" "new = None \<Longrightarrow> objs i = None"
    "\<And>q. q \<noteq> pw_tmp \<Longrightarrow> (\<And>i. new = Some i \<Longrightarrow> q \<noteq> pack_path i \<and> q \<noteq> idx_path i) \<Longrightarrow> contents d' q = contents d q"
    "new = Some k \<Longrightarrow> contents d' (idx_path k) \<noteq> None \<and>
       (\<exists>pf. pack_open E d' (pack_path k) (idx_path k) = Inr pf \<and> (\<forall>j. pack_read E j pf = Inr (objs j)))"
    by blast+
qed

lemma pack_dir_files:
  "pack_path i = pack_dir @ [''pack-'' @ i @ ''.pack'']" "idx_path i = pack_dir @ [''pack-'' @ i @ ''.idx'']"
  "\<not> under [''objects'', n] (pack_dir @ [f])" if "length n = 2"
  using that by (auto simp: pack_path_def idx_path_def under_def pack_dir_def)

text \<open>Of the packs, only the new one is left.\<close>

lemma only_new_pack:
  assumes wf: "fs_wf d0" and names: "pack_names_ok d0" and dir: "is_dir d pack_dir"
    and upto: "\<And>q. q \<noteq> pw_tmp \<Longrightarrow> (\<And>i. new = Some i \<Longrightarrow> q \<noteq> pack_path i \<and> q \<noteq> idx_path i) \<Longrightarrow> contents d3 q = contents d0 q"
    and after: "\<And>f. contents d (pack_dir @ [f]) = contents (fold (drop_pack new) (list_pack_ids d0) d3) (pack_dir @ [f])"
    and open_new: "\<And>k. new = Some k \<Longrightarrow> contents d3 (idx_path k) \<noteq> None \<and> pack_open E d3 (pack_path k) (idx_path k) = Inr (pf k)"
  shows "set (load_packs E d) = (case new of None \<Rightarrow> {} | Some k \<Rightarrow> {pf k})"
proof -
  have kept: "contents d (pack_path k) = contents d3 (pack_path k)" "contents d (idx_path k) = contents d3 (idx_path k)"
    if "new = Some k" for k
    using that after [of "''pack-'' @ k @ ''.pack''"] after [of "''pack-'' @ k @ ''.idx''"] pack_names_differ(3)
    by (auto simp: contents_drop_packs pack_path_def idx_path_def pack_dir_def)
  have new: "pack_open E d (pack_path k) (idx_path k) = Inr (pf k)" if "new = Some k" for k
    using open_new [OF that] kept [OF that]
    by (auto simp: pack_open_def res_simps fs_read_iff)
  have is_new: "\<exists>k. new = Some k \<and> stem = ''pack-'' @ k"
    if ext: "file_ext n = Some (stem, ''idx'')" and o: "pack_open E d (pack_dir @ [stem @ ''.pack'']) (pack_dir @ [n]) = Inr p"
    for n stem p
  proof (rule ccontr)
    assume no: "\<not> ?thesis"
    note n = file_ext_name [OF ext]
    have both: "contents d (pack_dir @ [n]) \<noteq> None" "contents d (pack_dir @ [stem @ ''.pack'']) \<noteq> None"
      using o by (auto simp: pack_open_def res_simps fs_read_iff)
    have other: "pack_dir @ [n] \<noteq> pw_tmp" "pack_dir @ [stem @ ''.pack''] \<noteq> pw_tmp"
        "pack_dir @ [n] \<noteq> pack_path i" "pack_dir @ [stem @ ''.pack''] \<noteq> idx_path i" for i
      using n by (auto simp: pw_tmp_def pack_path_def idx_path_def dest!: arg_cong [of _ _ last])
    have "pack_dir @ [n] \<noteq> idx_path i" "pack_dir @ [stem @ ''.pack''] \<noteq> pack_path i" if "new = Some i" for i
      using n no that by (auto simp: idx_path_def pack_path_def)
    then have d3: "contents d3 (pack_dir @ [n]) = contents d0 (pack_dir @ [n])"
        "contents d3 (pack_dir @ [stem @ ''.pack'']) = contents d0 (pack_dir @ [stem @ ''.pack''])"
      using other by (auto intro!: upto)
    have "contents d3 (pack_dir @ [n]) \<noteq> None" "contents d3 (pack_dir @ [stem @ ''.pack'']) \<noteq> None"
      using both unfolding after contents_drop_packs by (auto split: if_splits)
    note in_d0 = this [unfolded d3]
    then obtain j where j: "stem = ''pack-'' @ j" using names ext unfolding pack_names_ok_def by blast
    then have j: "stem = ''pack-'' @ j" "contents d0 (pack_path j) \<noteq> None"
      using in_d0(2) by (simp_all add: pack_path_def)
    from list_pack_ids_mem [OF wf j(2)] have "contents d (pack_dir @ [stem @ ''.pack'']) = None"
      unfolding after contents_drop_packs using j(1) no by (auto simp: pack_path_def)
    then show False using both by simp
  qed
  have mem: "p \<in> set (load_packs E d) \<longleftrightarrow> (\<exists>k. new = Some k \<and> p = pf k)" for p
  proof
    assume "p \<in> set (load_packs E d)"
    then obtain n stem where n: "file_ext n = Some (stem, ''idx'')"
        "pack_open E d (pack_dir @ [stem @ ''.pack'']) (pack_dir @ [n]) = Inr p"
      unfolding load_packs_mem [OF dir] by blast
    from is_new [OF n] obtain k where k: "new = Some k" "stem = ''pack-'' @ k" by blast
    have "p = pf k" using n(2) new [OF k(1)] file_ext_name [OF n(1)] k(2) by (simp add: pack_path_def idx_path_def)
    then show "\<exists>k. new = Some k \<and> p = pf k" using k(1) by blast
  next
    assume "\<exists>k. new = Some k \<and> p = pf k"
    then obtain k where k: "new = Some k" "p = pf k" by blast
    have "file_ext (''pack-'' @ k @ ''.idx'') = Some (''pack-'' @ k, ''idx'')"
      using file_ext_idx [of "''pack-'' @ k"] by simp
    moreover have "fs_exists d (idx_path k)"
      using open_new [OF k(1)] kept(2) [OF k(1)] by (intro contents_exists) simp
    ultimately show "p \<in> set (load_packs E d)"
      unfolding load_packs_mem [OF dir] using new [OF k(1)] k(2)
      by (intro exI [of _ "''pack-'' @ k @ ''.idx''"] exI [of _ "''pack-'' @ k"])
        (simp add: pack_path_def idx_path_def)
  qed
  then show ?thesis unfolding set_eq_iff by (cases new) simp_all
qed

lemma repack_spec:
  assumes "repack E r keep = Inr r'" "zstd_ok E" "idx_ok E" "fs_wf (disk r)" "pack_names_ok (disk r)"
  shows "store_get E r' i = (if i \<in> set keep then store_get E r i else None)"
    "hd p \<noteq> ''objects'' \<Longrightarrow> contents (disk r') p = contents (disk r) p"
proof -
  let ?objs = "\<lambda>i. if i \<in> set keep then store_get E r i else None"
  obtain w1 d1 w2 d2 new d3 where 1: "pw_new (disk r) = Inr (w1, d1)" "pack_kept E (packs r) keep w1 d1 = Inr (w2, d2)"
      "finish_pack E w2 d2 = Inr (new, d3)"
    and r': "r' = reload_packs E (r\<lparr>disk := delete_loose (fold (drop_pack new) (list_pack_ids (disk r)) d3)\<rparr>)"
    using assms(1) by (auto simp: repack_def Let_def res_simps)
  note n1 = pw_new_inv [OF 1(1)]
  have "pw_inv E (\<lambda>i. if i \<in> set keep then store_get E r i else Map.empty i) w2 d2 \<and>
      (\<forall>q. q \<noteq> pw_tmp \<longrightarrow> contents d2 q = contents (disk r) q)"
    by (rule pack_kept_inv [OF 1(2)]) (use n1 in auto)
  then have inv: "pw_inv E ?objs w2 d2" and d2: "contents d2 q = contents (disk r) q" if "q \<noteq> pw_tmp" for q
    using that by auto
  note inv = inv [of "[]", simplified pw_tmp_def pack_dir_def, simplified]
  note fin = finish_pack_spec [OF 1(3) inv assms(2,3)]
  have upto: "contents d3 q = contents (disk r) q"
    if "q \<noteq> pw_tmp" "\<And>i. new = Some i \<Longrightarrow> q \<noteq> pack_path i \<and> q \<noteq> idx_path i" for q
    using fin(2) [OF that] d2 [OF that(1)] by simp
  let ?d4 = "fold (drop_pack new) (list_pack_ids (disk r)) d3" and ?d5 = "disk r'"
  have d5: "?d5 = delete_loose ?d4" "packs r' = load_packs E ?d5" by (simp_all add: r' reload_packs_def)
  have wf1: "fs_wf d1" and dirs1: "dirs_kept (disk r) d1"
  proof -
    from 1(1) obtain d where d: "create_dir_all pack_dir (disk r) = Inr d" "fs_write pw_tmp [] d = Inr d1"
      by (auto simp: pw_new_def res_simps)
    show "fs_wf d1" using fs_wf_write [OF fs_wf_create_dir_all [OF assms(4) d(1)] d(2)] .
    have "dirs_kept (disk r) d" using make_dirs_dirs [OF d(1) [unfolded create_dir_all_def]] .
    then show "dirs_kept (disk r) d1" using dirs_kept_write [OF d(2)] dirs_kept_trans by blast
  qed
  have dirs3: "dirs_kept d1 d3" using dirs_kept_pack [OF 1(2)] fin(1) dirs_kept_trans by blast
  have "fs_exists d1 pw_tmp" by (rule contents_exists) (use n1 in simp)
  then have dir1: "is_dir d1 pack_dir" using wf_parent [OF wf1] by (fastforce simp: pw_tmp_def)
  then have "is_dir d1 [''objects'']"
    using wf_parent [OF wf1, of pack_dir] by (auto simp: pack_dir_def is_dir_def fs_exists_def)
  then have dir4: "is_dir ?d4 pack_dir" "is_dir ?d4 [''objects'']" using dirs3 dir1 by (simp_all add: drop_packs_dirs dirs_kept_def)
  have dir5: "is_dir ?d5 pack_dir"
    using dir4(1) unfolding d5(1) is_dir_def by (subst lookup_delete_loose) (auto simp: under_def pack_dir_def)
  note gone = contents_delete_loose [OF dir4(2), folded d5(1)]
  show "contents (disk r') p = contents (disk r) p" if p: "hd p \<noteq> ''objects''"
  proof (cases p)
    case (Cons x q)
    then have "p \<noteq> pw_tmp" "p \<noteq> pack_path i" "p \<noteq> idx_path i" "\<not> under [''objects'', n] p" for i n
      using p by (auto simp: pw_tmp_def pack_path_def idx_path_def pack_dir_def under_def)
    then show ?thesis using upto [of p] by (simp add: gone contents_drop_packs)
  qed simp
  have loose: "contents ?d5 (object_path i) = None" if i: "is_object_id i" for i
  proof (rule ccontr)
    have p: "object_path i \<noteq> pw_tmp" "object_path i \<noteq> pack_path j" "object_path i \<noteq> idx_path j" for j
      by (auto simp: object_path_def pw_tmp_def pack_path_def idx_path_def pack_dir_def dest!: arg_cong [of _ _ length])
    assume c: "contents ?d5 (object_path i) \<noteq> None"
    then have "contents (disk r) (object_path i) \<noteq> None" using upto [of "object_path i"] p
      by (auto simp: gone contents_drop_packs split: if_splits)
    then have "fs_exists (disk r) (object_path i)" by (rule contents_exists)
    from wf_parent [OF assms(4) this] have "is_dir (disk r) [''objects'', take 2 i]" by (simp add: object_path_def)
    then have "is_dir ?d4 [''objects'', take 2 i]" using dirs1 dirs3 by (simp add: drop_packs_dirs dirs_kept_def)
    moreover have "length (take 2 i) = 2" using i by (simp add: is_object_id_def)
    ultimately show False using c by (auto simp: gone under_def object_path_def split: if_splits)
  qed
  obtain pf where pf: "\<And>k. new = Some k \<Longrightarrow> pack_open E d3 (pack_path k) (idx_path k) = Inr (pf k) \<and>
      (\<forall>j. pack_read E j (pf k) = Inr (?objs j))"
    using fin(4) by metis
  have packs: "set (packs r') = (case new of None \<Rightarrow> {} | Some k \<Rightarrow> {pf k})"
    unfolding d5(2)
  proof (rule only_new_pack [OF assms(4,5) dir5 upto])
    show "contents ?d5 (pack_dir @ [f]) = contents ?d4 (pack_dir @ [f])" for f
      by (simp add: gone) (auto simp: under_def pack_dir_def)
  qed (use fin(4) pf in auto)
  show "store_get E r' i = ?objs i"
  proof (cases "is_object_id i")
    case True
    have read: "packs_read E i (packs r') = Inr (?objs i)"
    proof (cases new)
      case None
      then show ?thesis using packs fin(3) by simp
    next
      case (Some k)
      then show ?thesis using packs pf packs_read_one by simp
    qed
    have "\<exists>e. fs_read (disk r') (object_path i) = Inl e"
      using loose [OF True] by (cases "fs_read (disk r') (object_path i)") (auto simp: fs_read_iff)
    then have "store_read E r' i = (case ?objs i of Some c \<Rightarrow> Inr c | None \<Rightarrow> rbind (fs_read (disk r') (object_path i)) (\<lambda>z. ok_or (zdec E z) (Io InvalidData)))"
      using True read by (simp add: store_read_def del: packs_read.simps)
    then show ?thesis using \<open>\<exists>e. _\<close> by (auto simp: store_get_def split: option.splits)
  next
    case False
    then have "store_get E x i = None" for x by (simp add: store_get_def store_read_def)
    then show ?thesis by simp
  qed
qed

section \<open>Properties\<close>

definition staged_ids :: "ext \<Rightarrow> repo \<Rightarrow> string list" where
  "staged_ids E r = (case index_read E r of Inr (Some m) \<Rightarrow> filter (store_exists r) (manifest_ids m) | _ \<Rightarrow> [])"

lemma keep_staged_set:
  assumes "index_read E r = Inr i" "\<forall>x \<in> set seen. store_exists r x \<longrightarrow> x \<in> set out"
  shows "set (snd (keep_staged r i (seen, out))) = set out \<union> set (staged_ids E r)"
proof (cases i)
  case (Some m)
  have "fold (\<lambda>x p. if store_exists r x then mark x p else p) xs p = fold mark (filter (store_exists r) xs) p" for xs p
    by (induction xs arbitrary: p) auto
  then have fold: "keep_staged r i (seen, out) = fold mark (staged_ids E r) (seen, out)"
    using assms(1) by (simp add: Some keep_staged_def staged_ids_def)
  have "\<forall>x \<in> set (staged_ids E r). store_exists r x" using assms(1) by (simp add: Some staged_ids_def)
  moreover obtain s p where "fold mark (staged_ids E r) (seen, out) = (s, p)" "set p = set out \<union> (set (staged_ids E r) - set seen)"
    using mark_all [of "staged_ids E r" seen out] by blast
  ultimately show ?thesis using assms(2) unfolding fold by auto
qed (use assms in \<open>simp add: keep_staged_def staged_ids_def\<close>)

lemma gc_keeps:
  assumes "zstd_ok E" "idx_ok E" "fs_wf (disk r)" "pack_names_ok (disk r)" "apart E r (tips (disk r))"
  shows "(\<exists>res. gc E r = Some res) \<and> (\<forall>rep r'. gc E r = Some (Inr (rep, r')) \<longrightarrow>
    (\<forall>i. store_get E r' i = (if i \<in> live E r (tips (disk r)) \<union> set (staged_ids E r) then store_get E r i else None)) \<and>
    (\<forall>p. hd p \<noteq> ''objects'' \<longrightarrow> contents (disk r') p = contents (disk r) p))"
proof -
  from collect_spec [of "rev (tips (disk r))" "tips (disk r)" E r] assms(5) obtain seen out where
    w: "walk (collect_visit E r) (rev (tips (disk r))) [] [] = Some (Inr (seen, out))"
    and out: "set out = live E r (tips (disk r))" "\<forall>x \<in> set seen. store_exists r x \<longrightarrow> x \<in> set out" by auto
  have "\<exists>res. gc E r = Some res" by (simp add: gc_def w)
  moreover have "(\<forall>i. store_get E r' i = (if i \<in> live E r (tips (disk r)) \<union> set (staged_ids E r) then store_get E r i else None)) \<and>
    (\<forall>p. hd p \<noteq> ''objects'' \<longrightarrow> contents (disk r') p = contents (disk r) p)" if run: "gc E r = Some (Inr (rep, r'))" for rep r'
  proof -
    obtain i where i: "index_read E r = Inr i" "repack E r (snd (keep_staged r i (seen, out))) = Inr r'"
      using run by (auto simp: gc_def w Let_def res_simps)
    from repack_spec [OF i(2) assms(1-4)] show ?thesis
      by (simp add: keep_staged_set [OF i(1) out(2)] out(1))
  qed
  ultimately show ?thesis by blast
qed

text \<open>
  C12. Garbage collection returns for every store. When it succeeds, an object can be read afterwards
  exactly when a branch, a tag, HEAD or the staged snapshot reaches it and it could be read before, and
  it reads the same; every file outside the object store is untouched.
\<close>

theorem gc_spec:
  assumes "zstd_ok E" "idx_ok E" "fs_wf (disk r)" "pack_names_ok (disk r)" "apart E r (tips (disk r))"
  shows "(\<exists>res. gc E r = Some res) \<and> (\<forall>rep r'. gc E r = Some (Inr (rep, r')) \<longrightarrow>
    (\<forall>i. store_get E r' i = (if i \<in> live E r (tips (disk r)) \<union> set (staged_ids E r) then store_get E r i else None)) \<and>
    (\<forall>p. hd p \<noteq> ''objects'' \<longrightarrow> contents (disk r') p = contents (disk r) p))"
  using gc_keeps [OF assms] .

text \<open>One commit, whose tree is absent, and an object that belongs to nothing.\<close>

definition small_world :: repo where
  "small_world = \<lparr>disk = ([''objects''], Dir) # map (\<lambda>c. ([''objects'', [c, c]], Dir)) ''ae'' @
     [([''HEAD''], File (oid (CHR ''a'') @ [CHR 0x0A])), (object_path (oid (CHR ''e'')), File ''J'')] @
     commit_files [(CHR ''a'', [])], packs = []\<rparr>"

theorem gc_spec_witness:
  "\<exists>rep r'. gc world_ext small_world = Some (Inr (rep, r')) \<and>
     store_get world_ext r' (oid (CHR ''a'')) \<noteq> None \<and> store_get world_ext r' (oid (CHR ''e'')) = None"
proof -
  let ?a = "oid (CHR ''a'')"
  have "(case gc world_ext small_world of Some (Inr _) \<Rightarrow> True | _ \<Rightarrow> False)" by code_simp
  then obtain rep r' where run: "gc world_ext small_world = Some (Inr (rep, r'))"
    by (auto split: option.splits sum.splits)
  have 1: "tips (disk small_world) = [?a]" "node_succ world_ext small_world ?a = []"
    "node_objects world_ext small_world ?a = [oid (CHR ''f'')]" "fs_wf (disk small_world)"
    "oid (CHR ''e'') \<notin> oid ` set ''af''" "staged_ids world_ext small_world = []"
    "store_get world_ext small_world ?a \<noteq> None" "?a \<noteq> oid (CHR ''f'')" "store_exists small_world ?a" by code_simp+
  have "nodes world_ext small_world [?a] \<subseteq> {?a}" by (rule nodes_least) (auto simp: 1(2))
  then have nodes: "nodes world_ext small_world (tips (disk small_world)) = {?a}" using roots_nodes by (fastforce simp: 1(1))
  have apart: "apart world_ext small_world (tips (disk small_world))"
    using 1(8) by (simp add: apart_def objects_of_def nodes 1(3))
  have "take 2 (oid c) = [c, c]" for c by (simp add: oid_def numeral_2_eq_2)
  then have "contents (disk small_world) (pack_dir @ [n]) = None" for n
    by (simp add: contents_def fs_lookup_def im_get_def small_world_def commit_files_def object_path_def pack_dir_def)
  then have names: "pack_names_ok (disk small_world)" by (simp add: pack_names_ok_def)
  have "idx_ok world_ext" by (simp add: idx_ok_def world_ext_def idx_of_text)
  moreover have "zstd_ok world_ext" using world_store_ok by (simp add: store_ok_def)
  ultimately have spec: "store_get world_ext r' i = (if i \<in> live world_ext small_world (tips (disk small_world)) \<union>
      set (staged_ids world_ext small_world) then store_get world_ext small_world i else None)" for i
    using gc_spec [OF _ _ 1(4) names apart] run by blast
  have live: "live world_ext small_world (tips (disk small_world)) \<subseteq> oid ` set ''af''"
      "?a \<in> live world_ext small_world (tips (disk small_world))"
    by (auto simp: live_def nodes objects_of_def 1(3,9))
  have "store_get world_ext r' (oid (CHR ''e'')) = None"
    using spec [of "oid (CHR ''e'')"] live(1) 1(5,6) by (simp add: subset_iff) blast
  moreover have "store_get world_ext r' ?a \<noteq> None"
    using spec [of ?a] live(2) 1(7) by simp
  ultimately show ?thesis using run by blast
qed

end
