(* ===== verification/RepoWire.thy ===== *)
theory RepoWire imports
  RepoGc
begin

text \<open>
  \<^verbatim>\<open>crates/repo/src/wirepack.rs\<close>: the framed pack of objects that a push sends in one request. A
  received pack is untrusted. Lengths and offsets are naturals; the length of the index is the
  32-bit word of the frame, and the sums the code checks against overflow are checked at 64 bits.
  The streaming decoder stops one byte above its cap; it is \<open>zdec\<close> followed by the cap, which agrees
  except in the text of the error when a body both exceeds the cap and is damaged after it.
\<close>

section \<open>The code\<close>

definition max_object_size :: nat where "max_object_size = 512 * 1024 * 1024"

definition max_pack_total :: nat where "max_pack_total = 512 * 1024 * 1024"

definition put_u32 :: "u32 \<Rightarrow> string" where
  "put_u32 w = map (\<lambda>k. char_of (unat (take_bit 8 (drop_bit k w)))) [24, 16, 8, 0]"

definition get_u32 :: "string \<Rightarrow> u32" where
  "get_u32 s = foldl (\<lambda>w c. push_bit 8 w OR of_nat (of_char c)) 0 s"

fun wire_pack :: "ext \<Rightarrow> (string \<times> string) list \<Rightarrow> string \<Rightarrow> (string, nat \<times> nat) bmap \<Rightarrow> string \<times> (string, nat \<times> nat) bmap" where
  "wire_pack E [] pack idx = (pack, idx)"
| "wire_pack E ((i, c) # objs) pack idx =
     (if bm_get idx i \<noteq> None then wire_pack E objs pack idx
      else let packed = zenc E c in
        wire_pack E objs (pack @ packed) (bm_insert i (length pack, length packed) idx))"

definition wire_build :: "ext \<Rightarrow> (string \<times> string) list \<Rightarrow> string" where
  "wire_build E objs = (let (pack, idx) = wire_pack E objs [] []; js = idx_json E idx
     in put_u32 (of_nat (length js)) @ js @ pack)"

definition bounded_decode :: "ext \<Rightarrow> string \<Rightarrow> repo_error + string" where
  "bounded_decode E packed = rbind (ok_or (zdec E packed) (Other ''bad zstd body'')) (\<lambda>out.
     if length out > max_object_size then Inl (Other ''pack object too large'') else Inr out)"

text \<open>The entries of the index in order, each checked and handed to the sink.\<close>

fun wire_entries :: "ext \<Rightarrow> string \<Rightarrow> (string \<Rightarrow> string \<Rightarrow> 's \<Rightarrow> repo_error + 's) \<Rightarrow> (string, nat \<times> nat) bmap
    \<Rightarrow> nat \<Rightarrow> nat \<Rightarrow> 's \<Rightarrow> repo_error + nat \<times> 's" where
  "wire_entries E pack sink [] tot n s = Inr (n, s)"
| "wire_entries E pack sink ((i, off, len) # idx) tot n s =
     (if off + len \<ge> 2 ^ 64 then Inl (Other ''pack entry overflows'')
      else if off + len > length pack then Inl (Other (''pack entry out of range: '' @ i @ '' ('' @ show_nat off @ ''+'' @
        show_nat len @ '' > '' @ show_nat (length pack) @ '')''))
      else rbind (bounded_decode E (slice off len pack)) (\<lambda>content.
        let tot = min (2 ^ 64 - 1) (tot + length content) in
        if tot > max_pack_total then Inl (Other ''pack total size exceeds cap'')
        else if blake3 E content \<noteq> i then Inl (Other (''pack object hash mismatch: '' @ i))
        else rbind (sink i content s) (\<lambda>s. wire_entries E pack sink idx tot (n + 1) s)))"

definition wire_for_each :: "ext \<Rightarrow> string \<Rightarrow> (string \<Rightarrow> string \<Rightarrow> 's \<Rightarrow> repo_error + 's) \<Rightarrow> 's \<Rightarrow> repo_error + nat \<times> 's" where
  "wire_for_each E body sink s =
     (if length body < 4 then Inl (Other ''truncated pack body'')
      else let idx_len = unat (get_u32 (take 4 body)) in
        if 4 + idx_len > length body then Inl (Other ''bad pack-body framing'')
        else rbind (ok_or (idx_parse E (slice 4 idx_len body)) (Other ''bad pack index'')) (\<lambda>idx.
          wire_entries E (drop (4 + idx_len) body) sink idx 0 0 s))"

definition wire_parse :: "ext \<Rightarrow> string \<Rightarrow> repo_error + (string \<times> string) list" where
  "wire_parse E body = rbind (wire_for_each E body (\<lambda>i c out. Inr (out @ [(i, c)])) []) (\<lambda>(_, out). Inr out)"

section \<open>The frame\<close>

lemma length_put_u32 [simp]: "length (put_u32 w) = 4"
  by (simp add: put_u32_def)

lemma get_put_u32: "get_u32 (put_u32 w) = w"
proof -
  have b: "of_nat (unat (take_bit 8 x) mod 256) = take_bit 8 x" for x :: u32
  proof -
    have "unat (take_bit 8 x) = take_bit 8 (unat x)" by (simp add: unsigned_take_bit_eq)
    then have "unat (take_bit 8 x) < 256" using take_bit_nat_less_exp [of 8 "unat x"] by simp
    then show ?thesis by simp
  qed
  have "get_u32 (put_u32 w) = push_bit 8 (push_bit 8 (push_bit 8 (take_bit 8 (drop_bit 24 w)) OR take_bit 8 (drop_bit 16 w))
      OR take_bit 8 (drop_bit 8 w)) OR take_bit 8 w"
    by (simp add: put_u32_def get_u32_def b)
  also have "\<dots> = w"
  proof (rule bit_word_eqI)
    fix n assume "n < LENGTH(32)"
    then consider "n < 8" | "8 \<le> n" "n < 16" | "16 \<le> n" "n < 24" | "24 \<le> n" "n < 32" by fastforce
    then show "bit (push_bit 8 (push_bit 8 (push_bit 8 (take_bit 8 (drop_bit 24 w)) OR take_bit 8 (drop_bit 16 w))
      OR take_bit 8 (drop_bit 8 w)) OR take_bit 8 w) n \<longleftrightarrow> bit w n"
      by cases (auto simp: bit_simps)
  qed
  finally show ?thesis .
qed

section \<open>An honest pack\<close>

lemma wire_pack_indexed:
  assumes "wire_pack E new pack idx = (pack', idx')" "bm_wf idx" "indexed_bytes E objs idx pack"
  shows "bm_wf idx' \<and> indexed_bytes E (map_of new ++ objs) idx' pack'"
  using assms
proof (induction E new pack idx arbitrary: objs rule: wire_pack.induct)
  case (2 E i c new pack idx)
  have objs: "objs i = None \<longleftrightarrow> bm_get idx i = None"
    using "2.prems"(3) [unfolded indexed_bytes_def, rule_format, of i] by (auto split: option.splits)
  show ?case
  proof (cases "bm_get idx i")
    case None
    have eq: "map_of new ++ objs(i \<mapsto> c) = map_of ((i, c) # new) ++ objs"
      using None objs by (auto simp: fun_eq_iff map_add_def split: option.splits)
    have run: "wire_pack E new (pack @ zenc E c) (bm_insert i (length pack, length (zenc E c)) idx) = (pack', idx')"
      using "2.prems"(1) None by (simp add: Let_def)
    have "\<not> bm_get idx i \<noteq> None" using None by simp
    moreover have "bm_wf (bm_insert i (length pack, length (zenc E c)) idx)" using "2.prems"(2) by simp
    ultimately have "bm_wf idx' \<and> indexed_bytes E (map_of new ++ objs(i \<mapsto> c)) idx' pack'"
      using "2.IH"(2) [OF _ refl run _ indexed_bytes_append [OF "2.prems"(3) None "2.prems"(2)]] by blast
    then show ?thesis unfolding eq .
  next
    case (Some e)
    have eq: "map_of new ++ objs = map_of ((i, c) # new) ++ objs"
      using Some objs by (auto simp: fun_eq_iff map_add_def split: option.splits)
    have "bm_wf idx' \<and> indexed_bytes E (map_of new ++ objs) idx' pack'"
      by (rule "2.IH"(1)) (use Some 2 in simp_all)
    then show ?thesis unfolding eq .
  qed
qed simp

lemma sum_first_contents:
  "(\<Sum>i \<in> fst ` set objs. length (the (map_of objs i))) \<le> sum_list (map (\<lambda>(_, c). length c) objs)"
proof (induction objs)
  case (Cons x objs)
  obtain i c where x: "x = (i, c)" by (cases x)
  let ?f = "\<lambda>j. length (the (map_of objs j))"
  have "(\<Sum>j \<in> fst ` set (x # objs). length (the (map_of (x # objs) j))) =
      length c + (\<Sum>j \<in> fst ` set objs - {i}. length (the (map_of (x # objs) j)))"
    by (simp add: x sum.insert_remove)
  also have "(\<Sum>j \<in> fst ` set objs - {i}. length (the (map_of (x # objs) j))) = sum ?f (fst ` set objs - {i})"
    by (intro sum.cong) (auto simp: x)
  also have "\<dots> \<le> sum ?f (fst ` set objs)" by (rule sum_mono2) auto
  finally show ?case using Cons by (simp add: x)
qed simp

lemma wire_entries_honest:
  assumes "\<forall>(i, off, len) \<in> set idx. off + len \<le> length pack \<and> zdec E (slice off len pack) = Some (f i) \<and> blake3 E (f i) = i"
    and "tot + sum_list (map (\<lambda>(i, _). length (f i)) idx) \<le> max_pack_total" "length pack < 2 ^ 64"
  shows "wire_entries E pack (\<lambda>i c out. Inr (out @ [(i, c)])) idx tot n out =
    Inr (n + length idx, out @ map (\<lambda>(i, _). (i, f i)) idx)"
  using assms(1,2)
proof (induction idx arbitrary: tot n out)
  case (Cons e idx)
  obtain i off len where e: "e = (i, off, len)" by (cases e)
  have h: "off + len \<le> length pack" "zdec E (slice off len pack) = Some (f i)" "blake3 E (f i) = i"
    using Cons.prems(1) by (simp_all add: e)
  have small: "tot + length (f i) \<le> max_pack_total" using Cons.prems(2) by (simp add: e)
  then have "length (f i) \<le> max_object_size" "min (2 ^ 64 - 1) (tot + length (f i)) = tot + length (f i)"
    by (simp_all add: max_object_size_def max_pack_total_def)
  then show ?case using Cons h small assms(3) by (simp add: e bounded_decode_def)
qed simp

lemma wire_roundtrip_parse:
  assumes "\<forall>c. zdec E (zenc E c) = Some c" "idx_ok E" "\<forall>(i, c) \<in> set objs. blake3 E c = i"
    and "sum_list (map (\<lambda>(_, c). length c) objs) \<le> max_pack_total"
    and "length (idx_json E (snd (wire_pack E objs [] []))) < 2 ^ 32" "length (wire_build E objs) < 2 ^ 64"
  shows "\<exists>out. wire_parse E (wire_build E objs) = Inr out \<and> sorted_wrt (<) (map fst out) \<and> map_of out = map_of objs"
proof -
  obtain pack idx where p: "wire_pack E objs [] [] = (pack, idx)" by (cases "wire_pack E objs [] []")
  let ?js = "idx_json E idx" and ?f = "\<lambda>i. the (map_of objs i)"
  let ?out = "map (\<lambda>(i, _). (i, ?f i)) idx"
  have body: "wire_build E objs = put_u32 (of_nat (length ?js)) @ ?js @ pack" by (simp add: wire_build_def p Let_def)
  have "indexed_bytes E Map.empty [] []" by (simp add: indexed_bytes_def bm_get_Nil)
  from wire_pack_indexed [OF p _ this] have wf: "bm_wf idx" and ix: "indexed_bytes E (map_of objs) idx pack" by simp_all
  have keys: "bm_get idx i = None \<longleftrightarrow> map_of objs i = None" for i
    using ix [unfolded indexed_bytes_def, rule_format, of i] by (auto split: option.splits)
  have set: "fst ` set idx = fst ` set objs"
    using keys by (auto simp: set_eq_iff bm_get_None_iff map_of_eq_None_iff)
  have entry: "off + len \<le> length pack \<and> zdec E (slice off len pack) = Some (?f i) \<and> blake3 E (?f i) = i"
    if "(i, off, len) \<in> set idx" for i off len
  proof -
    have "bm_get idx i = Some (off, len)" using that wf by (simp add: bm_get_Some_iff)
    with ix [unfolded indexed_bytes_def, rule_format, of i] obtain c where
      c: "map_of objs i = Some c" "off + len \<le> length pack" "slice off len pack = zenc E c" by auto
    then show ?thesis using assms(1,3) map_of_SomeD [OF c(1)] by auto
  qed
  have "sum_list (map (\<lambda>(i, _). length (?f i)) idx) = (\<Sum>i \<in> fst ` set idx. length (?f i))"
    using bm_wf_distinct [OF wf] sum_list_distinct_conv_sum_set [of "map fst idx" "\<lambda>i. length (?f i)"]
    by (simp add: o_def split_def)
  then have "sum_list (map (\<lambda>(i, _). length (?f i)) idx) \<le> max_pack_total"
    using assms(4) sum_first_contents [of objs] by (simp add: set)
  then have "wire_entries E pack (\<lambda>i c out. Inr (out @ [(i, c)])) idx 0 0 [] = Inr (length idx, ?out)"
    using wire_entries_honest [of idx pack E ?f 0 0 "[]"] entry assms(6) by (fastforce simp: body)
  moreover have "unat (of_nat (length ?js) :: u32) = length ?js"
    using assms(5) by (simp add: p unsigned_of_nat take_bit_nat_eq_self)
  ultimately have "wire_parse E (wire_build E objs) = Inr ?out"
    using assms(2) by (simp add: wire_parse_def wire_for_each_def body get_put_u32 slice_def idx_ok_def)
  moreover have "map fst ?out = map fst idx" by (simp add: o_def split_def)
  then have "sorted_wrt (<) (map fst ?out)" using wf unfolding bm_wf_def by (simp only:)
  moreover have "map_of ?out i = map_of objs i" for i
  proof (cases "map_of objs i")
    case None
    then have "i \<notin> fst ` set idx" using set by (simp add: map_of_eq_None_iff)
    then have "map_of ?out i = None" by (force simp: map_of_eq_None_iff)
    then show ?thesis using None by simp
  next
    case (Some c)
    then have "i \<in> fst ` set idx" using set map_of_SomeD by force
    then have "(i, ?f i) \<in> set ?out" by force
    moreover have "distinct (map fst ?out)" using bm_wf_distinct [OF wf] by (simp add: o_def split_def)
    ultimately show ?thesis using Some by (simp add: map_of_eq_Some_iff)
  qed
  ultimately show ?thesis by blast
qed

section \<open>A hostile pack\<close>

lemma wire_entries_checked:
  assumes "wire_entries E pack (\<lambda>i c out. Inr (out @ [(i, c)])) idx tot n out = Inr (k, out')" "tot \<le> max_pack_total"
  shows "\<exists>new. out' = out @ new \<and> map fst new = map fst idx \<and> (\<forall>(i, c) \<in> set new. blake3 E c = i \<and> length c \<le> max_object_size) \<and>
    tot + sum_list (map (\<lambda>(_, c). length c) new) \<le> max_pack_total \<and> k = n + length new"
  using assms
proof (induction idx arbitrary: tot n out)
  case (Cons e idx)
  obtain i off len where e: "e = (i, off, len)" by (cases e)
  from Cons.prems(1) obtain c where c: "bounded_decode E (slice off len pack) = Inr c" "blake3 E c = i"
    and t: "min (2 ^ 64 - 1) (tot + length c) \<le> max_pack_total"
    and rest: "wire_entries E pack (\<lambda>i c out. Inr (out @ [(i, c)])) idx (min (2 ^ 64 - 1) (tot + length c)) (n + 1) (out @ [(i, c)]) = Inr (k, out')"
    by (auto simp: e res_simps Let_def not_less split: if_splits)
  have len: "length c \<le> max_object_size" using c(1) by (auto simp: bounded_decode_def res_simps split: if_splits)
  have "min (2 ^ 64 - 1) (tot + length c) = tot + length c" using t by (simp add: max_pack_total_def min_def split: if_splits)
  with rest Cons.IH [OF rest t] obtain new where
    "out' = (out @ [(i, c)]) @ new" "map fst new = map fst idx" "\<forall>(i, c) \<in> set new. blake3 E c = i \<and> length c \<le> max_object_size"
    "tot + length c + sum_list (map (\<lambda>(_, c). length c) new) \<le> max_pack_total" "k = n + 1 + length new" by auto
  then show ?case using c len by (intro exI [of _ "(i, c) # new"]) (simp add: e)
qed simp

lemma wire_parse_sound:
  assumes "wire_parse E body = Inr out"
  shows "(\<forall>(i, c) \<in> set out. blake3 E c = i \<and> length c \<le> max_object_size) \<and>
    sum_list (map (\<lambda>(_, c). length c) out) \<le> max_pack_total"
proof -
  obtain n idx where "wire_entries E (drop (4 + n) body) (\<lambda>i c out. Inr (out @ [(i, c)])) idx 0 0 [] = Inr (length out, out)"
  proof -
    obtain k where "wire_for_each E body (\<lambda>i c out. Inr (out @ [(i, c)])) [] = Inr (k, out)"
      using assms by (auto simp: wire_parse_def res_simps)
    then obtain idx where w: "wire_entries E (drop (4 + unat (get_u32 (take 4 body))) body)
        (\<lambda>i c out. Inr (out @ [(i, c)])) idx 0 0 [] = Inr (k, out)"
      by (auto simp: wire_for_each_def Let_def res_simps split: if_splits)
    then have "k = length out" using wire_entries_checked [OF w] by auto
    then show thesis using w that by blast
  qed
  from wire_entries_checked [OF this] show ?thesis by auto
qed

text \<open>What a sender may build, and no receiver takes: a pack with an object above the cap.\<close>

lemma oversized_pack:
  assumes "zdec E (zenc E c) = Some c" "idx_ok E" "max_object_size < length c" "length (zenc E c) < 2 ^ 64"
    and "length (idx_json E [(i, 0, length (zenc E c))]) < 2 ^ 32"
  shows "wire_parse E (wire_build E [(i, c)]) = Inl (Other ''pack object too large'')"
proof -
  let ?js = "idx_json E [(i, 0, length (zenc E c))]"
  have "wire_build E [(i, c)] = put_u32 (of_nat (length ?js)) @ ?js @ zenc E c"
    by (simp add: wire_build_def bm_get_Nil Let_def)
  moreover have "unat (of_nat (length ?js) :: u32) = length ?js"
    using assms(5) by (simp add: unsigned_of_nat take_bit_nat_eq_self)
  ultimately show ?thesis
    using assms(1-4) by (simp add: wire_parse_def wire_for_each_def get_put_u32 slice_def idx_ok_def bounded_decode_def)
qed

section \<open>Properties\<close>

text \<open>
  A wire pack parses back to its objects: each id once, in order, with the first content given for it.
  The objects must carry their digests as ids and stay below the cap the receiver puts on a pack, and the
  frame must hold its lengths.
\<close>

theorem wire_roundtrip:
  assumes "\<forall>c. zdec E (zenc E c) = Some c" "idx_ok E" "\<forall>(i, c) \<in> set objs. blake3 E c = i"
    and "sum_list (map (\<lambda>(_, c). length c) objs) \<le> max_pack_total"
    and "length (idx_json E (snd (wire_pack E objs [] []))) < 2 ^ 32" "length (wire_build E objs) < 2 ^ 64"
  shows "\<exists>out. wire_parse E (wire_build E objs) = Inr out \<and> sorted_wrt (<) (map fst out) \<and> map_of out = map_of objs"
  using assms by (rule wire_roundtrip_parse)

definition wire_objs :: "(string \<times> string) list" where
  "wire_objs = [(oid (CHR ''f''), ''T''), (oid (CHR ''d''), ''D''), (oid (CHR ''f''), ''T'')]"

theorem wire_roundtrip_witness:
  "\<exists>out. wire_parse world_ext (wire_build world_ext wire_objs) = Inr out \<and> map_of out (oid (CHR ''d'')) = Some ''D''"
proof -
  have zstd: "\<forall>c. zdec world_ext (zenc world_ext c) = Some c" using world_store_ok by (simp add: store_ok_def zstd_ok_def)
  have idx: "idx_ok world_ext" by (simp add: idx_ok_def world_ext_def idx_of_text)
  have "length (idx_json world_ext (snd (wire_pack world_ext wire_objs [] []))) = 265" "length (wire_build world_ext wire_objs) = 271"
    by code_simp+
  moreover have "\<forall>(i, c) \<in> set wire_objs. blake3 world_ext c = i" by code_simp
  moreover have "map_of wire_objs (oid (CHR ''d'')) = Some ''D''" by code_simp
  moreover have "sum_list (map (\<lambda>(_, c). length c) wire_objs) = 3" by code_simp
  ultimately show ?thesis
    using wire_roundtrip [OF zstd idx, of wire_objs] by (auto simp: max_pack_total_def)
qed

text \<open>
  C22. Whatever bytes a peer sends, the objects taken from them hash to their ids, no one is above the cap
  on an object, and together they stay below the cap on a pack.
\<close>

theorem wire_parse_checked:
  assumes "wire_parse E body = Inr out"
  shows "(\<forall>(i, c) \<in> set out. blake3 E c = i \<and> length c \<le> max_object_size) \<and>
    sum_list (map (\<lambda>(_, c). length c) out) \<le> max_pack_total"
  using assms by (rule wire_parse_sound)

theorem wire_parse_checked_witness:
  "wire_parse world_ext (wire_build world_ext [(oid (CHR ''d''), ''D'')]) = Inr [(oid (CHR ''d''), ''D'')] \<and>
   blake3 world_ext ''D'' = oid (CHR ''d'')"
proof -
  have "wire_build world_ext [(oid (CHR ''d''), ''D'')] = put_u32 132 @ idx_text [(oid (CHR ''d''), 0, 1)] @ ''D''" by code_simp
  moreover have "unat (132 :: u32) = 132" by simp
  moreover have "length (idx_text [(oid (CHR ''d''), 0, 1)]) = 132" "blake3 world_ext ''D'' = oid (CHR ''d'')" by code_simp+
  moreover have "idx_parse world_ext = idx_of_text" "zdec world_ext = Some"
    by (simp_all add: world_ext_def demo_ext_def line_ext_def plain_ext_def)
  moreover have "idx_of_text (idx_text [(oid (CHR ''d''), 0, 1)]) = Some [(oid (CHR ''d''), 0, 1)]" by (rule idx_of_text)
  ultimately have run: "wire_parse world_ext (wire_build world_ext [(oid (CHR ''d''), ''D'')]) = Inr [(oid (CHR ''d''), ''D'')]"
    by (simp add: wire_parse_def wire_for_each_def get_put_u32 slice_def bounded_decode_def max_object_size_def max_pack_total_def
        del: idx_text.simps)
  then show ?thesis using wire_parse_checked [OF run] by simp
qed

end
