(* ===== verification/RepoConfig.thy ===== *)
theory RepoConfig imports
  RepoRefs
begin

text \<open>
  The configuration file of \<^verbatim>\<open>crates/repo/src/repository.rs\<close>, lines of the form \<^verbatim>\<open>key = value\<close>, the
  remotes kept in it, and the creation and opening of a repository directory.
\<close>

section \<open>The configuration file\<close>

definition config_path :: path where "config_path = [''config'']"

definition config_text :: "fs \<Rightarrow> string" where
  "config_text d = (case fs_read d config_path of Inl _ \<Rightarrow> [] | Inr s \<Rightarrow> s)"

definition line_key :: "string \<Rightarrow> string option" where
  "line_key l = map_option (\<lambda>(k, _). trim k) (split_once (CHR ''='') l)"

fun find_value :: "string \<Rightarrow> string list \<Rightarrow> string option" where
  "find_value key [] = None"
| "find_value key (l # ls) = (case split_once (CHR ''='') l of
     Some (k, v) \<Rightarrow> if trim k = key then Some (trim v) else find_value key ls
   | None \<Rightarrow> find_value key ls)"

definition config_get :: "fs \<Rightarrow> string \<Rightarrow> string option" where
  "config_get d key = (case fs_read d config_path of Inl _ \<Rightarrow> None | Inr s \<Rightarrow> find_value key (lines s))"

definition other_lines :: "string \<Rightarrow> string list \<Rightarrow> string list" where
  "other_lines key ls = filter (\<lambda>l. line_key l \<noteq> Some key) ls"

definition config_set :: "string \<Rightarrow> string \<Rightarrow> fs \<Rightarrow> repo_error + fs" where
  "config_set key v d = fs_write config_path
     (unlines (other_lines key (lines (config_text d)) @ [key @ '' = '' @ v])) d"

definition config_unset :: "string \<Rightarrow> fs \<Rightarrow> repo_error + fs" where
  "config_unset key d = fs_write config_path (unlines (other_lines key (lines (config_text d)))) d"

definition worktree :: "fs \<Rightarrow> string option" where
  "worktree d = config_get d ''worktree''"

definition set_worktree :: "string \<Rightarrow> fs \<Rightarrow> repo_error + fs" where
  "set_worktree w d = config_set ''worktree'' w d"

section \<open>Remotes\<close>

definition url_key :: "string \<Rightarrow> string" where
  "url_key n = ''remote.'' @ n @ ''.url''"

definition remote_url :: "fs \<Rightarrow> string \<Rightarrow> string option" where
  "remote_url d n = config_get d (url_key n)"

definition set_remote_url :: "string \<Rightarrow> string \<Rightarrow> fs \<Rightarrow> repo_error + fs" where
  "set_remote_url n url d = config_set (url_key n) url d"

definition remote_dir :: "string \<Rightarrow> path" where
  "remote_dir n = path_join [''refs'', ''remotes''] n"

definition remove_remote :: "string \<Rightarrow> fs \<Rightarrow> repo_error + fs" where
  "remove_remote n d = rbind (config_unset (url_key n) d) (\<lambda>d. Inr (remove_dir_all (remote_dir n) d))"

definition rename_remote :: "string \<Rightarrow> string \<Rightarrow> fs \<Rightarrow> repo_error + fs" where
  "rename_remote old new d =
     rbind (ok_or (remote_url d old) (Other (''no such remote: '' @ old))) (\<lambda>url.
     rbind (set_remote_url new url d) (\<lambda>d.
     rbind (config_unset (url_key old) d) (\<lambda>d.
       if fs_exists d (remote_dir old)
       then rbind (create_dir_all (butlast (remote_dir new)) d) (\<lambda>d.
              Inr (or_unchanged (fs_rename (remote_dir old) (remote_dir new)) d))
       else Inr d)))"

definition remotes :: "fs \<Rightarrow> string list" where
  "remotes d = remdups_adj (sort (List.map_filter (\<lambda>l. case line_key l of None \<Rightarrow> None
     | Some k \<Rightarrow> (case strip_prefix ''remote.'' k of None \<Rightarrow> None | Some r \<Rightarrow> strip_suffix ''.url'' r))
     (lines (config_text d))))"

section \<open>Creating and opening\<close>

definition is_flat_repo :: "fs \<Rightarrow> path \<Rightarrow> bool" where
  "is_flat_repo d p = (is_file d (p @ [''HEAD'']) \<and> is_dir d (p @ [''objects'']))"

definition is_repository :: "fs \<Rightarrow> path \<Rightarrow> bool" where
  "is_repository d p = (is_flat_repo d p \<or> is_flat_repo d (p @ [''.mcagit'']))"

text \<open>The directory that holds the metadata of the repository at \<open>p\<close>: an embedded one wins.\<close>

definition repo_open :: "fs \<Rightarrow> path \<Rightarrow> repo_error + path" where
  "repo_open d p = (if is_flat_repo d (p @ [''.mcagit'']) then Inr (p @ [''.mcagit''])
     else if is_flat_repo d p then Inr p else Inl (NotARepository (join ''/'' p)))"

definition repo_init :: "path \<Rightarrow> fs \<Rightarrow> repo_error + path \<times> fs" where
  "repo_init p d =
     rbind (create_dir_all (p @ [''objects'']) d) (\<lambda>d.
     rbind (create_dir_all (p @ [''refs'', ''heads'']) d) (\<lambda>d.
     rbind (if fs_exists d (p @ [''HEAD'']) then Inr d
            else fs_write (p @ [''HEAD'']) (''ref: refs/heads/main'' @ [CHR 0x0A]) d) (\<lambda>d.
     rbind (repo_open d p) (\<lambda>q. Inr (q, d)))))"

text \<open>Walking up from a directory; the root has no parent.\<close>

fun discover_from :: "fs \<Rightarrow> string \<Rightarrow> string list \<Rightarrow> repo_error + path" where
  "discover_from d start up = (if is_repository d (rev up) then repo_open d (rev up)
     else case up of [] \<Rightarrow> Inl (NotARepository start) | _ # up' \<Rightarrow> discover_from d start up')"

declare discover_from.simps [simp del]

definition discover :: "fs \<Rightarrow> path \<Rightarrow> repo_error + path" where
  "discover d p = discover_from d (join ''/'' p) (rev p)"

section \<open>Lemmas\<close>

lemma config_get_text: "config_get d key = find_value key (lines (config_text d))"
proof -
  have "lines [] = []" by (simp add: lines_def)
  then show ?thesis by (simp add: config_get_def config_text_def split: sum.splits)
qed

lemma find_value_append:
  "find_value key (xs @ ys) = (case find_value key xs of None \<Rightarrow> find_value key ys | Some v \<Rightarrow> Some v)"
  by (induction xs) (auto split: option.splits)

lemma find_value_others:
  "find_value key (other_lines key' ls) = (if key = key' then None else find_value key ls)"
  by (induction ls) (auto simp: other_lines_def line_key_def split: option.splits)

text \<open>Lines as the file can hold them.\<close>

definition plain_line :: "string \<Rightarrow> bool" where
  "plain_line l = (CHR 0x0A \<notin> set l \<and> (l = [] \<or> last l \<noteq> CHR 0x0D))"

lemma split_on_parts: "x \<in> set (split_on c s) \<Longrightarrow> c \<notin> set x"
proof (induction s arbitrary: x)
  case (Cons y s)
  obtain q qs where "split_on c s = q # qs" by (cases "split_on c s") auto
  with Cons show ?case by (auto split: if_splits)
qed simp

lemma config_write_lines:
  assumes "fs_write config_path (unlines ls) d = Inr d'" "\<forall>l \<in> set ls. plain_line l" "ls \<noteq> []"
  shows "config_text d' = unlines ls" "lines (config_text d') = ls"
proof -
  show t: "config_text d' = unlines ls"
    using contents_write [OF assms(1)] by (simp add: config_text_def fs_read_iff [THEN iffD2])
  show "lines (config_text d') = ls" unfolding t
    using assms(2,3) by (intro lines_unlines) (auto simp: plain_line_def)
qed

lemma trim_before: "is_ws c \<Longrightarrow> trim (c # s) = trim s"
  by (simp add: trim_def)

lemma trim_after: "is_ws c \<Longrightarrow> trim (s @ [c]) = trim s"
proof (cases "\<forall>x \<in> set s. is_ws x")
  case True
  assume "is_ws c"
  with True have "dropWhile is_ws (s @ [c]) = []" by (induction s) auto
  moreover have "dropWhile is_ws s = []" using True by (induction s) auto
  ultimately show ?thesis by (simp only: trim_def)
next
  case False
  assume "is_ws c"
  with False have "dropWhile is_ws (s @ [c]) = dropWhile is_ws s @ [c]" by (auto simp: dropWhile_append1)
  with \<open>is_ws c\<close> show ?thesis by (simp add: trim_def)
qed

lemma setting_line:
  assumes "CHR ''='' \<notin> set key" "trim key = key" "trim v = v"
  shows "find_value key' [key @ '' = '' @ v] = (if key' = key then Some v else None)"
proof -
  have ws: "is_ws (CHR '' '')" by (simp add: is_ws_def)
  have "split_once (CHR ''='') ((key @ '' '') @ CHR ''='' # CHR '' '' # v) = Some (key @ '' '', CHR '' '' # v)"
    by (rule split_once_append) (simp add: assms(1))
  then show ?thesis using assms(2,3) ws by (simp add: trim_before trim_after)
qed

lemma plain_line_value: "plain_line v \<Longrightarrow> CHR 0x0A \<notin> set key \<Longrightarrow> v \<noteq> [] \<Longrightarrow> plain_line (key @ '' = '' @ v)"
  by (simp add: plain_line_def)

section \<open>Properties\<close>

text \<open>
  Setting a configuration key changes that key and no other: afterwards the key reads the value it
  was set to, whatever was set before, and every other key reads as before.
\<close>

theorem config_set_get:
  assumes "config_set key v d = Inr d'" "CHR ''='' \<notin> set key" "trim key = key" "CHR 0x0A \<notin> set key"
    "trim v = v" "v \<noteq> []" "plain_line v" "\<forall>l \<in> set (lines (config_text d)). plain_line l"
  shows "config_get d' = (config_get d)(key \<mapsto> v)"
proof
  fix key'
  let ?ls = "other_lines key (lines (config_text d)) @ [key @ '' = '' @ v]"
  have "\<forall>l \<in> set ?ls. plain_line l"
    using assms(4,6,7,8) plain_line_value by (auto simp: other_lines_def)
  moreover have "fs_write config_path (unlines ?ls) d = Inr d'"
    using assms(1) by (simp add: config_set_def)
  ultimately have "lines (config_text d') = ?ls" by (intro config_write_lines(2)) simp_all
  then show "config_get d' key' = ((config_get d)(key \<mapsto> v)) key'"
    using setting_line [OF assms(2,3,5), of key'] setting_line [OF assms(2,3,5), of key]
    by (auto simp add: config_get_text find_value_append find_value_others split: option.splits del: find_value.simps)
qed

theorem config_set_get_witness:
  "\<exists>d'. config_set ''worktree'' ''/w'' [([''config''], File (unlines [''a = 1'', ''worktree = /v'']))] = Inr d' \<and>
     config_get d' ''worktree'' = Some ''/w'' \<and> config_get d' ''a'' = Some ''1''"
proof -
  let ?d = "[([''config''], File (unlines [''a = 1'', ''worktree = /v'']))]"
  have "is_ok (config_set ''worktree'' ''/w'' ?d)" by code_simp
  then obtain d' where set: "config_set ''worktree'' ''/w'' ?d = Inr d'" by (auto simp: is_ok_iff)
  have "CHR ''='' \<notin> set ''worktree''" "trim ''worktree'' = ''worktree''" "CHR 0x0A \<notin> set ''worktree''"
    "trim ''/w'' = ''/w''" "''/w'' \<noteq> []" "plain_line ''/w''" "\<forall>l \<in> set (lines (config_text ?d)). plain_line l"
    by code_simp+
  from config_set_get [OF set this] have "config_get d' = (config_get ?d)(''worktree'' \<mapsto> ''/w'')" .
  moreover have "config_get ?d ''a'' = Some ''1''" by code_simp
  ultimately show ?thesis using set by simp
qed

end
