(* ===== verification/RepoRemote.thy ===== *)
theory RepoRemote imports
  RepoWire RepoConfig
begin

text \<open>
  \<^verbatim>\<open>crates/repo/src/remote.rs\<close>: push, fetch, backfill and the check of a remote, over the operations
  of \<^verbatim>\<open>Transport\<close>. A transport is a record of functions on a state of its own; where the code goes
  on after a call that failed, the state of the transport is the one before the call.
\<close>

section \<open>Transports\<close>

record 't transport =
  tr_refs :: "'t \<Rightarrow> repo_error + (string \<times> string) list \<times> 't"
  tr_get :: "string \<Rightarrow> 't \<Rightarrow> repo_error + string \<times> 't"
  tr_pack :: "string list \<Rightarrow> 't \<Rightarrow> repo_error + string \<times> 't"
  tr_missing :: "string list \<Rightarrow> 't \<Rightarrow> repo_error + string list \<times> 't"
  tr_put :: "string \<Rightarrow> 't \<Rightarrow> repo_error + 't"
  tr_put_all :: "(string \<times> string) list \<Rightarrow> 't \<Rightarrow> repo_error + 't"
  tr_set_branch :: "string \<Rightarrow> string \<Rightarrow> 't \<Rightarrow> repo_error + 't"
  tr_finish :: "'t \<Rightarrow> repo_error + 't"

text \<open>The default methods of the trait.\<close>

fun gather :: "(string \<Rightarrow> 't \<Rightarrow> repo_error + string \<times> 't) \<Rightarrow> string list \<Rightarrow> 't \<Rightarrow> (string \<times> string) list
    \<Rightarrow> (string \<times> string) list \<times> 't" where
  "gather get [] t objs = (objs, t)"
| "gather get (i # is) t objs = (case get i t of
     Inr (c, t) \<Rightarrow> gather get is t (objs @ [(i, c)])
   | Inl _ \<Rightarrow> gather get is t objs)"

definition get_pack :: "ext \<Rightarrow> (string \<Rightarrow> 't \<Rightarrow> repo_error + string \<times> 't) \<Rightarrow> string list \<Rightarrow> 't \<Rightarrow> repo_error + string \<times> 't" where
  "get_pack E get ids t = (case gather get ids t [] of (objs, t) \<Rightarrow> Inr (wire_build E objs, t))"

fun put_objects :: "(string \<Rightarrow> 't \<Rightarrow> repo_error + 't) \<Rightarrow> (string \<times> string) list \<Rightarrow> 't \<Rightarrow> repo_error + 't" where
  "put_objects put [] t = Inr t"
| "put_objects put ((_, c) # objs) t = rbind (put c t) (put_objects put objs)"

section \<open>A repository as a transport\<close>

definition heads_prefix :: string where "heads_prefix = ''refs/heads/''"

definition tags_prefix :: string where "tags_prefix = ''refs/tags/''"

definition local_refs :: "repo \<Rightarrow> repo_error + (string \<times> string) list \<times> repo" where
  "local_refs r = Inr (
     List.map_filter (\<lambda>b. map_option (\<lambda>h. (heads_prefix @ b, h)) (read_branch (disk r) b)) (branches (disk r)) @
     List.map_filter (\<lambda>g. map_option (\<lambda>h. (tags_prefix @ g, h)) (read_tag (disk r) g)) (tags (disk r)), r)"

definition local_get :: "ext \<Rightarrow> string \<Rightarrow> repo \<Rightarrow> repo_error + string \<times> repo" where
  "local_get E i r = rbind (store_read E r i) (\<lambda>c. Inr (c, r))"

definition local_missing :: "string list \<Rightarrow> repo \<Rightarrow> repo_error + string list \<times> repo" where
  "local_missing ids r = Inr (filter (\<lambda>i. \<not> store_exists r i) ids, r)"

definition local_put :: "ext \<Rightarrow> string \<Rightarrow> repo \<Rightarrow> repo_error + repo" where
  "local_put E c r = rbind (store_write E c r) (\<lambda>(_, r). Inr r)"

definition local_set_branch :: "string \<Rightarrow> string \<Rightarrow> repo \<Rightarrow> repo_error + repo" where
  "local_set_branch b h r = rbind (write_branch b h (disk r)) (\<lambda>d. Inr (r\<lparr>disk := d\<rparr>))"

definition local_finish :: "ext \<Rightarrow> repo \<Rightarrow> repo_error + repo" where
  "local_finish E r = Inr (reload_packs E r)"

definition local_transport :: "ext \<Rightarrow> repo transport" where
  "local_transport E = \<lparr>tr_refs = local_refs, tr_get = local_get E, tr_pack = get_pack E (local_get E),
     tr_missing = local_missing, tr_put = local_put E, tr_put_all = put_objects (local_put E),
     tr_set_branch = local_set_branch, tr_finish = local_finish E\<rparr>"

section \<open>Where a url leads\<close>

datatype endpoint = Http string | Ssh string | S3 string string | Azure string string string | Directory string

definition endpoint_of :: "string \<Rightarrow> repo_error + endpoint" where
  "endpoint_of url = (let lower = map lower_ascii url in
     if starts_with ''http://'' lower \<or> starts_with ''https://'' lower then Inr (Http url)
     else if starts_with ''ssh://'' lower then Inr (Ssh url)
     else case strip_prefix ''s3://'' url of
       Some rest \<Rightarrow>
         (let (bucket, prefix) = (case split_once (CHR ''/'') rest of Some p \<Rightarrow> p | None \<Rightarrow> (rest, []))
          in if bucket = [] then Inl (Other ''s3 url needs a bucket: s3://bucket/prefix'') else Inr (S3 bucket prefix))
     | None \<Rightarrow> (case strip_prefix ''azure://'' url of
         Some rest \<Rightarrow>
           (let (account, rest) = (case split_once (CHR ''/'') rest of Some p \<Rightarrow> p | None \<Rightarrow> (rest, []));
                (container, prefix) = (case split_once (CHR ''/'') rest of Some p \<Rightarrow> p | None \<Rightarrow> (rest, []))
            in if account = [] \<or> container = []
               then Inl (Other ''azure url needs account + container: azure://account/container/prefix'')
               else Inr (Azure account container prefix))
       | None \<Rightarrow> Inr (Directory url)))"

definition resolve_remote :: "fs \<Rightarrow> string \<Rightarrow> string" where
  "resolve_remote d name = (case remote_url d name of Some url \<Rightarrow> url | None \<Rightarrow> name)"

section \<open>Push\<close>

definition push_batch_raw_bytes :: nat where "push_batch_raw_bytes = 128 * 1024 * 1024"

fun push_batches :: "ext \<Rightarrow> repo \<Rightarrow> 't transport \<Rightarrow> string list \<Rightarrow> (string \<times> string) list \<Rightarrow> nat \<Rightarrow> 't \<Rightarrow> repo_error + 't" where
  "push_batches E r T [] batch bytes t = (if batch = [] then Inr t else tr_put_all T batch t)"
| "push_batches E r T (i # is) batch bytes t = rbind (store_read E r i) (\<lambda>c.
     if bytes + length c \<ge> push_batch_raw_bytes
     then rbind (tr_put_all T (batch @ [(i, c)]) t) (push_batches E r T is [] 0)
     else push_batches E r T is (batch @ [(i, c)]) (bytes + length c) t)"

definition push :: "ext \<Rightarrow> repo \<Rightarrow> 't transport \<Rightarrow> string \<Rightarrow> 't \<Rightarrow> (nat \<times> 't) run" where
  "push E r T branch t = (case read_branch (disk r) branch of
     None \<Rightarrow> Some (Inl (BadRef branch))
   | Some tip \<Rightarrow> run_bind (reachable E r tip) (\<lambda>ids. Some (
       rbind (tr_missing T ids t) (\<lambda>(lacks, t).
       rbind (push_batches E r T lacks [] 0 t) (\<lambda>t.
       rbind (tr_set_branch T branch tip t) (\<lambda>t.
       rbind (tr_finish T t) (\<lambda>t. Inr (length lacks, t))))))))"

section \<open>Fetch\<close>

definition fetch_batch :: nat where "fetch_batch = 256"

fun batches :: "nat \<Rightarrow> 'a list \<Rightarrow> 'a list list" where
  "batches n [] = []"
| "batches n (x # xs) = (x # take (n - 1) xs) # batches n (drop (n - 1) xs)"

text \<open>One request for leaves: the pack is taken in object by object, and must hold all that was asked for.\<close>

definition take_pack :: "ext \<Rightarrow> string \<Rightarrow> repo \<times> nat \<Rightarrow> repo_error + repo \<times> nat" where
  "take_pack E body p = rbind (wire_for_each E body
     (\<lambda>_ content (r, n). rbind (store_write E content r) (\<lambda>(_, r). Inr (r, n + 1))) p) (\<lambda>(_, p). Inr p)"

fun fetch_leaves :: "ext \<Rightarrow> 't transport \<Rightarrow> string list list \<Rightarrow> repo \<times> 't \<times> nat \<Rightarrow> repo_error + repo \<times> 't \<times> nat" where
  "fetch_leaves E T [] p = Inr p"
| "fetch_leaves E T (batch # rest) (r, t, n) =
     rbind (tr_pack T batch t) (\<lambda>(body, t).
     rbind (take_pack E body (r, n)) (\<lambda>(r, n).
     case find (\<lambda>i. \<not> store_exists r i) batch of
       Some i \<Rightarrow> Inl (Other (''remote did not return requested object '' @ i))
     | None \<Rightarrow> fetch_leaves E T rest (r, t, n)))"

text \<open>One object, unless it is there already.\<close>

definition pull :: "ext \<Rightarrow> 't transport \<Rightarrow> string \<Rightarrow> repo \<times> 't \<times> nat \<Rightarrow> repo_error + repo \<times> 't \<times> nat" where
  "pull E T i p = (case p of (r, t, n) \<Rightarrow>
     if store_exists r i then Inr (r, t, n)
     else rbind (tr_get T i t) (\<lambda>(c, t). rbind (store_write E c r) (\<lambda>(_, r). Inr (r, t, n + 1))))"

definition queue_leaf :: "repo \<Rightarrow> string \<Rightarrow> string list \<Rightarrow> string list" where
  "queue_leaf r i queue = (if store_exists r i \<or> i \<in> set queue then queue else queue @ [i])"

text \<open>
  A visit of the walk, for a whole fetch (\<open>leaves\<close>) or for the skeleton of a partial clone. The ids
  queued so far are the output list itself.
\<close>

definition fetch_visit :: "ext \<Rightarrow> 't transport \<Rightarrow> bool \<Rightarrow> string \<Rightarrow> string list \<Rightarrow> (repo \<times> 't \<times> nat) \<times> string list
    \<Rightarrow> repo_error + string list \<times> string list \<times> (repo \<times> 't \<times> nat) \<times> string list" where
  "fetch_visit E T leaves c seen st = (case st of (p, queue) \<Rightarrow> rbind (pull E T c p) (\<lambda>p.
     case read_tag_object E (fst p) c of
       Some g \<Rightarrow> Inr ([tag_target g], seen, p, queue)
     | None \<Rightarrow> (case read_commit E (fst p) c of
         Inl _ \<Rightarrow> Inr ([], seen, p, queue)
       | Inr co \<Rightarrow> rbind (pull E T (tree co) p) (\<lambda>p.
           let queue = (if leaves then (case read_manifest E (fst p) (tree co) of
                 Inl _ \<Rightarrow> queue | Inr m \<Rightarrow> fold (queue_leaf (fst p)) (manifest_ids m) queue) else queue)
           in rbind (parents_of E (fst p) c) (\<lambda>ps. Inr (ps, seen, p, queue))))))"

definition fetched :: "ext \<Rightarrow> repo \<times> 't \<times> nat \<Rightarrow> nat \<times> repo \<times> 't" where
  "fetched E p = (case p of (r, t, n) \<Rightarrow> (n, if n > 0 then reload_packs E r else r, t))"

definition fetch_reachable :: "ext \<Rightarrow> repo \<Rightarrow> 't transport \<Rightarrow> string \<Rightarrow> 't \<Rightarrow> (nat \<times> repo \<times> 't) run" where
  "fetch_reachable E r T tip t = run_bind (walk (fetch_visit E T True) [tip] [] ((r, t, 0), [])) (\<lambda>(_, p, queue).
     Some (rbind (fetch_leaves E T (batches fetch_batch queue) p) (\<lambda>p. Inr (fetched E p))))"

definition fetch_skeleton :: "ext \<Rightarrow> repo \<Rightarrow> 't transport \<Rightarrow> string \<Rightarrow> 't \<Rightarrow> (nat \<times> repo \<times> 't) run" where
  "fetch_skeleton E r T tip t =
     run_bind (walk (fetch_visit E T False) [tip] [] ((r, t, 0), [])) (\<lambda>(_, p, _). ret (fetched E p))"

definition fetch :: "ext \<Rightarrow> repo \<Rightarrow> 't transport \<Rightarrow> string \<Rightarrow> 't \<Rightarrow> (string \<times> nat \<times> repo \<times> 't) run" where
  "fetch E r T branch t = (case tr_refs T t of
     Inl e \<Rightarrow> Some (Inl e)
   | Inr (refs, t) \<Rightarrow> (case map_of refs (heads_prefix @ branch) of
       None \<Rightarrow> Some (Inl (BadRef branch))
     | Some tip \<Rightarrow> run_bind (fetch_reachable E r T tip t) (\<lambda>p. ret (tip, p))))"

text \<open>The missing leaves of a partial clone, from the remote its promisor file names.\<close>

definition backfill :: "ext \<Rightarrow> 't transport \<Rightarrow> (string \<Rightarrow> repo_error + 't) \<Rightarrow> string list \<Rightarrow> repo \<Rightarrow> repo_error + nat \<times> repo" where
  "backfill E T connect ids r = (let lacks = filter (\<lambda>i. \<not> store_exists r i) ids in
     if lacks = [] then Inr (0, r)
     else rbind (ok_or (promisor_remote (disk r)) (Other ''missing objects but this is not a partial clone'')) (\<lambda>url.
       rbind (connect url) (\<lambda>t.
       rbind (fetch_leaves E T (batches fetch_batch lacks) (r, t, 0)) (\<lambda>p.
       case fetched E p of (n, r, _) \<Rightarrow> Inr (n, r)))))"

section \<open>Checking a remote\<close>

record verify_report =
  vr_branches :: nat
  vr_commits :: nat
  vr_objects :: nat
  vr_missing :: "string list"
  vr_corrupt :: "string list"

definition report_ok :: "verify_report \<Rightarrow> bool" where
  "report_ok v = (vr_missing v = [] \<and> vr_corrupt v = [])"

definition lacking :: "string \<Rightarrow> verify_report \<Rightarrow> verify_report" where
  "lacking s v = v\<lparr>vr_missing := vr_missing v @ [s]\<rparr>"

definition damaged :: "string \<Rightarrow> verify_report \<Rightarrow> verify_report" where
  "damaged s v = v\<lparr>vr_corrupt := vr_corrupt v @ [s]\<rparr>"

definition fetch_checked :: "ext \<Rightarrow> 't transport \<Rightarrow> string \<Rightarrow> 't \<Rightarrow> string option option \<times> 't" where
  "fetch_checked E T i t = (case tr_get T i t of
     Inl _ \<Rightarrow> (None, t)
   | Inr (c, t) \<Rightarrow> (Some (if blake3 E c \<noteq> i then None else Some c), t))"

definition add_leaf :: "string \<Rightarrow> string list \<Rightarrow> string list" where
  "add_leaf i leaves = (if i \<in> set leaves then leaves else leaves @ [i])"

definition verify_tree :: "ext \<Rightarrow> 't transport \<Rightarrow> string \<Rightarrow> string \<Rightarrow> verify_report \<times> string list \<times> 't
    \<Rightarrow> verify_report \<times> string list \<times> 't" where
  "verify_tree E T h tr st = (case st of (v, leaves, t) \<Rightarrow> (case fetch_checked E T tr t of
     (None, t) \<Rightarrow> (lacking (tr @ '' (tree of '' @ take 10 h @ '')'') v, leaves, t)
   | (Some None, t) \<Rightarrow> (damaged (tr @ '' (tree)'') v, leaves, t)
   | (Some (Some c), t) \<Rightarrow> (case manifest_from_json E c of
       Inr m \<Rightarrow> (v, fold add_leaf (manifest_ids m) leaves, t)
     | Inl _ \<Rightarrow> (damaged (tr @ '' (tree)'') v, leaves, t))))"

definition verify_visit :: "ext \<Rightarrow> 't transport \<Rightarrow> string \<Rightarrow> string list \<Rightarrow> verify_report \<times> string list \<times> 't
    \<Rightarrow> repo_error + string list \<times> string list \<times> verify_report \<times> string list \<times> 't" where
  "verify_visit E T h seen st = (case st of (v, leaves, t) \<Rightarrow> (case fetch_checked E T h t of
     (None, t) \<Rightarrow> Inr ([], seen, lacking (h @ '' (commit)'') v, leaves, t)
   | (Some None, t) \<Rightarrow> Inr ([], seen, damaged (h @ '' (commit)'') v, leaves, t)
   | (Some (Some c), t) \<Rightarrow> (case tag_try_from_json E c of
       Some g \<Rightarrow> Inr ([tag_target g], seen, v, leaves, t)
     | None \<Rightarrow> (case commit_from_json E c of
         Inl _ \<Rightarrow> Inr ([], seen, damaged (h @ '' (commit)'') v, leaves, t)
       | Inr co \<Rightarrow> Inr (parents co, seen,
           verify_tree E T h (tree co) (v\<lparr>vr_commits := vr_commits v + 1\<rparr>, leaves, t))))))"

definition verify_leaf :: "ext \<Rightarrow> 't transport \<Rightarrow> string \<Rightarrow> verify_report \<times> 't \<Rightarrow> verify_report \<times> 't" where
  "verify_leaf E T i st = (case st of (v, t) \<Rightarrow> (case fetch_checked E T i t of
     (None, t) \<Rightarrow> (lacking i v, t) | (Some None, t) \<Rightarrow> (damaged i v, t) | (Some (Some _), t) \<Rightarrow> (v, t)))"

definition verify_remote :: "ext \<Rightarrow> 't transport \<Rightarrow> bool \<Rightarrow> 't \<Rightarrow> (verify_report \<times> 't) run" where
  "verify_remote E T deep t = (case tr_refs T t of Inl e \<Rightarrow> Some (Inl e) | Inr (refs, t) \<Rightarrow>
     (let tips = map snd (filter (\<lambda>(n, _). starts_with heads_prefix n) refs);
          v = \<lparr>vr_branches = length tips, vr_commits = 0, vr_objects = 0, vr_missing = [], vr_corrupt = []\<rparr>
      in run_bind (walk (verify_visit E T) (rev tips) [] (v, [], t)) (\<lambda>(seen, v, leaves, t). Some (
        rbind (if deep then Inr (fold (verify_leaf E T) leaves (v, t))
               else rbind (tr_missing T leaves t) (\<lambda>(lacks, t). Inr (v\<lparr>vr_missing := vr_missing v @ lacks\<rparr>, t))) (\<lambda>(v, t).
          Inr (v\<lparr>vr_objects := length seen + length leaves,
                 vr_missing := sort (vr_missing v), vr_corrupt := sort (vr_corrupt v)\<rparr>, t))))))"

section \<open>A local repository that only gains objects\<close>

definition sound :: "ext \<Rightarrow> repo \<Rightarrow> bool" where
  "sound E r = (store_ok E r \<and> opened E r)"

text \<open>Objects stay, and the boundary of a shallow history is the same: what was read of a commit stays true.\<close>

definition gains :: "ext \<Rightarrow> repo \<Rightarrow> repo \<Rightarrow> bool" where
  "gains E r r' = (grows E r r' \<and> contents (disk r') shallow_path = contents (disk r) shallow_path)"

lemma gains_sound: "gains E r r' \<Longrightarrow> sound E r'"
  by (simp add: gains_def grows_def sound_def)

lemma gains_trans: "gains E a b \<Longrightarrow> gains E b c \<Longrightarrow> gains E a c"
  using grows_trans by (auto simp: gains_def)

lemma gains_exists: "gains E r r' \<Longrightarrow> sound E r \<Longrightarrow> store_exists r i \<Longrightarrow> store_exists r' i"
  by (auto simp: gains_def sound_def intro: grows_exists)

lemma gains_read: "gains E r r' \<Longrightarrow> sound E r \<Longrightarrow> store_exists r i \<Longrightarrow> store_read E r' i = store_read E r i"
  unfolding gains_def grows_def sound_def store_ok_def by metis

definition ahead :: "ext \<Rightarrow> repo \<Rightarrow> repo \<Rightarrow> bool" where
  "ahead E r r' = (grows E r r' \<and> (\<forall>p. hd p \<noteq> ''objects'' \<longrightarrow> contents (disk r') p = contents (disk r) p))"

lemma ahead_gains: "ahead E r r' \<Longrightarrow> gains E r r'"
  by (simp add: ahead_def gains_def shallow_path_def)

lemma ahead_sound: "ahead E r r' \<Longrightarrow> sound E r'"
  by (simp add: ahead_def grows_def sound_def)

lemma ahead_refl: "sound E r \<Longrightarrow> ahead E r r"
  by (simp add: ahead_def grows_def sound_def)

lemma ahead_trans: "ahead E a b \<Longrightarrow> ahead E b c \<Longrightarrow> ahead E a c"
  using grows_trans by (auto simp: ahead_def)

lemma ahead_exists: "ahead E r r' \<Longrightarrow> sound E r \<Longrightarrow> store_exists r i \<Longrightarrow> store_exists r' i"
  by (rule gains_exists [OF ahead_gains])

lemma ahead_read: "ahead E r r' \<Longrightarrow> sound E r \<Longrightarrow> store_exists r i \<Longrightarrow> store_read E r' i = store_read E r i"
  by (rule gains_read [OF ahead_gains])

lemma ahead_write:
  assumes "store_write E c r = Inr (i, r')" "sound E r"
  shows "ahead E r r'" "store_exists r' (blake3 E c)"
proof -
  have ok: "store_ok E r" "packs r = load_packs E (disk r)" using assms(2) by (simp_all add: sound_def opened_def)
  note eff = store_write_effect [OF assms(1)]
  note w = store_write_ok [OF assms(1) ok(1)]
  show "store_exists r' (blake3 E c)" using w(2) eff(1) by simp
  have "opened E r'" using eff(2) store_write_packs [OF assms(1)] ok(2) by (simp add: opened_def)
  moreover have "contents (disk r') p = contents (disk r) p" if "hd p \<noteq> ''objects''" for p
    using eff(3) that by (auto simp: object_path_def)
  ultimately show "ahead E r r'" using w(1) store_write_keeps [OF assms(1)] by (simp add: ahead_def grows_def)
qed

lemma fetched_sound: "sound E r \<Longrightarrow> fetched E (r, t, n) = (n, r, t)"
  by (simp add: fetched_def reload_packs_def sound_def opened_def)

text \<open>A node whose edges and objects can be read: itself, and if it is a commit its tree, is there.\<close>

definition node_here :: "ext \<Rightarrow> repo \<Rightarrow> string \<Rightarrow> bool" where
  "node_here E r c = (store_exists r c \<and> (node_objects E r c \<noteq> [] \<longrightarrow> store_exists r (hd (node_objects E r c))))"

lemma read_same_contents:
  assumes "contents d' p = contents d p"
  shows "(case fs_read d' p of Inl _ \<Rightarrow> a | Inr s \<Rightarrow> f s) = (case fs_read d p of Inl _ \<Rightarrow> a | Inr s \<Rightarrow> f s)"
proof (cases "contents d p")
  case None
  then have "\<forall>s. fs_read d p \<noteq> Inr s" "\<forall>s. fs_read d' p \<noteq> Inr s" using assms by (simp_all add: fs_read_iff)
  then show ?thesis by (simp split: sum.split)
next
  case (Some s)
  then have "fs_read d p = Inr s" "fs_read d' p = Inr s" using assms by (simp_all add: fs_read_iff)
  then show ?thesis by simp
qed

lemma gains_parents:
  assumes "gains E r r'" "sound E r" "store_exists r c"
  shows "parents_of E r' c = parents_of E r c"
proof -
  have c: "contents (disk r') shallow_path = contents (disk r) shallow_path"
    using assms(1) by (simp add: gains_def)
  have "shallow_boundary (disk r') = shallow_boundary (disk r)" "is_shallow (disk r') = is_shallow (disk r)"
    unfolding shallow_boundary_def is_shallow_def is_file_iff c by (rule read_same_contents [OF c]) (rule refl)
  then show ?thesis using gains_read [OF assms] by (simp add: parents_of_def read_commit_def)
qed

lemma gains_node:
  assumes "gains E r r'" "sound E r" "node_here E r c"
  shows "node_succ E r' c = node_succ E r c" "node_objects E r' c = node_objects E r c" "node_here E r' c"
proof -
  have c: "store_exists r c" using assms(3) by (simp add: node_here_def)
  note rd = gains_read [OF assms(1,2) c]
  have reads: "read_tag_object E r' c = read_tag_object E r c" "read_commit E r' c = read_commit E r c"
    by (simp_all add: read_tag_object_def read_commit_def rd)
  then show "node_succ E r' c = node_succ E r c"
    using gains_parents [OF assms(1,2) c] by (simp add: node_succ_def cong: option.case_cong sum.case_cong)
  have "tree_objects E r' (tree co) = tree_objects E r (tree co)"
    if "read_tag_object E r c = None" "read_commit E r c = Inr co" for co
  proof -
    have "store_exists r (tree co)"
      using assms(3) that by (simp add: node_here_def node_objects_def tree_objects_def)
    then show ?thesis using gains_read [OF assms(1,2)] by (simp add: tree_objects_def read_manifest_def)
  qed
  then show objs: "node_objects E r' c = node_objects E r c"
    by (auto simp: node_objects_def reads split: option.splits sum.splits)
  show "node_here E r' c"
    using assms(3) gains_exists [OF assms(1,2)] by (simp add: node_here_def objs)
qed

lemmas ahead_node = gains_node [OF ahead_gains]

section \<open>Taking packs in\<close>

lemma wire_entries_keeps:
  assumes "wire_entries E pack sink idx tot n s = Inr (k, s')" "P s"
    and "\<And>i c s s'. sink i c s = Inr s' \<Longrightarrow> blake3 E c = i \<Longrightarrow> P s \<Longrightarrow> P s'"
  shows "P s'"
  using assms(1,2)
proof (induction idx arbitrary: tot n s)
  case (Cons e idx)
  obtain i off len where e: "e = (i, off, len)" by (cases e)
  from Cons.prems(1) obtain c tot1 s1 where "blake3 E c = i" "sink i c s = Inr s1"
      "wire_entries E pack sink idx tot1 (n + 1) s1 = Inr (k, s')"
    by (auto simp: e res_simps Let_def split: if_splits)
  then show ?case using Cons assms(3) by blast
qed simp

lemma take_pack_ahead:
  assumes "take_pack E body (r, n) = Inr (r', n')" "sound E r"
  shows "ahead E r r'"
proof -
  let ?sink = "\<lambda>_ content (r, n). rbind (store_write E content r) (\<lambda>(_, r). Inr (r, n + 1))"
  obtain k where "wire_for_each E body ?sink (r, n) = Inr (k, r', n')"
    using assms(1) by (auto simp: take_pack_def res_simps)
  then obtain pack idx where w: "wire_entries E pack ?sink idx 0 0 (r, n) = Inr (k, r', n')"
    by (auto simp: wire_for_each_def Let_def res_simps split: if_splits)
  have "(\<lambda>(x, _). ahead E r x) (r', n')"
  proof (rule wire_entries_keeps [OF w])
    show "(\<lambda>(x, _). ahead E r x) (r, n)" using ahead_refl assms(2) by simp
  next
    fix i c and s s' :: "repo \<times> nat"
    assume sink: "?sink i c s = Inr s'" and P: "(\<lambda>(x, _). ahead E r x) s"
    obtain x m where x: "s = (x, m)" "ahead E r x" using P by (cases s) simp
    then obtain j y where y: "store_write E c x = Inr (j, y)" "s' = (y, m + 1)" using sink by (auto simp: res_simps)
    have "ahead E x y" by (rule ahead_write(1) [OF y(1) ahead_sound [OF x(2)]])
    then show "(\<lambda>(x, _). ahead E r x) s'" using y(2) ahead_trans [OF x(2)] by simp
  qed
  then show ?thesis by simp
qed

lemma concat_batches: "n > 0 \<Longrightarrow> concat (batches n xs) = xs"
  by (induction n xs rule: batches.induct) auto

lemma batches_bounded: "n > 0 \<Longrightarrow> b \<in> set (batches n xs) \<Longrightarrow> length b \<le> n"
  by (induction n xs rule: batches.induct) auto

section \<open>Remotes that answer with what was asked for\<close>

text \<open>Everything the tip reaches is there, the tip included.\<close>

definition complete :: "ext \<Rightarrow> repo \<Rightarrow> string \<Rightarrow> bool" where
  "complete E r tip = (\<forall>i \<in> nodes E r [tip] \<union> objects_of E r [tip]. store_exists r i)"

text \<open>Between two iterations of a fetch: what was visited is there, its objects are there or queued.\<close>

definition fetch_inv :: "ext \<Rightarrow> ('t \<Rightarrow> bool) \<Rightarrow> repo \<Rightarrow> string \<Rightarrow> bool \<Rightarrow> string list \<Rightarrow> string list
    \<Rightarrow> (repo \<times> 't \<times> nat) \<times> string list \<Rightarrow> bool" where
  "fetch_inv E okay r0 tip leaves stack seen st = (case st of ((r, t, n), q) \<Rightarrow>
     okay t \<and> ahead E r0 r \<and> tip \<in> set stack \<union> set seen \<and>
     (\<forall>c \<in> set seen. node_here E r c \<and> set (node_succ E r c) \<subseteq> set stack \<union> set seen \<and>
        (leaves \<longrightarrow> (\<forall>i \<in> set (node_objects E r c). store_exists r i \<or> i \<in> set q))))"

text \<open>
  The laws a fetch relies on: what comes back for an id hashes to it. The states of the transport that
  occur are those of \<open>good\<close>.
\<close>

locale checked_remote =
  fixes E :: ext and T :: "'t transport" and good :: "'t \<Rightarrow> bool"
  assumes refs_good: "good t \<Longrightarrow> tr_refs T t = Inr (refs, t') \<Longrightarrow> good t'"
    and get_good: "good t \<Longrightarrow> tr_get T i t = Inr (c, t') \<Longrightarrow> good t'"
    and get_checked: "good t \<Longrightarrow> tr_get T i t = Inr (c, t') \<Longrightarrow> blake3 E c = i"
    and pack_good: "good t \<Longrightarrow> tr_pack T ids t = Inr (body, t') \<Longrightarrow> good t'"
begin

lemma pull_spec:
  assumes "pull E T i (r, t, n) = Inr (r', t', n')" "good t" "sound E r"
  shows "good t' \<and> ahead E r r' \<and> store_exists r' i"
proof (cases "store_exists r i")
  case True
  then show ?thesis using assms by (simp add: pull_def ahead_refl)
next
  case False
  then obtain c t1 j r1 where "tr_get T i t = Inr (c, t1)" "store_write E c r = Inr (j, r1)" "r' = r1" "t' = t1"
    using assms(1) by (auto simp: pull_def res_simps)
  then show ?thesis using get_good get_checked ahead_write assms(2,3) by blast
qed

lemma fetch_leaves_spec:
  assumes "fetch_leaves E T bs (r, t, n) = Inr (r', t', n')" "good t" "sound E r"
  shows "good t' \<and> ahead E r r' \<and> (\<forall>i \<in> set (concat bs). store_exists r' i)"
  using assms
proof (induction bs arbitrary: r t n)
  case (Cons b bs)
  from Cons.prems(1) obtain body t1 r1 n1 where 1: "tr_pack T b t = Inr (body, t1)" "take_pack E body (r, n) = Inr (r1, n1)"
      "find (\<lambda>i. \<not> store_exists r1 i) b = None" "fetch_leaves E T bs (r1, t1, n1) = Inr (r', t', n')"
    by (auto simp: res_simps split: option.splits)
  note a = take_pack_ahead [OF 1(2) Cons.prems(3)]
  note IH = Cons.IH [OF 1(4) pack_good [OF Cons.prems(2) 1(1)] ahead_sound [OF a]]
  have "\<forall>i \<in> set b. store_exists r1 i" using 1(3) by (simp add: find_None_iff)
  then show ?case using IH ahead_trans [OF a] ahead_exists [OF _ ahead_sound [OF a]] by auto
qed (simp add: ahead_refl)

lemma queue_leaves: "set (fold (queue_leaf r) ids q) = set q \<union> {i \<in> set ids. \<not> store_exists r i}"
  by (induction ids arbitrary: q) (auto simp: queue_leaf_def)

lemma fetch_visit_spec:
  assumes "fetch_visit E T leaves c seen ((r, t, n), q) = Inr (nxt, seen', (r', t', n'), q')" "good t" "sound E r"
  shows "good t' \<and> ahead E r r' \<and> seen' = seen \<and> node_here E r' c \<and> nxt = node_succ E r' c \<and> set q \<subseteq> set q' \<and>
    (leaves \<longrightarrow> (\<forall>i \<in> set (node_objects E r' c). store_exists r' i \<or> i \<in> set q'))"
proof -
  obtain r1 t1 n1 where 1: "pull E T c (r, t, n) = Inr (r1, t1, n1)"
    using assms(1) by (auto simp: fetch_visit_def res_simps)
  note p = pull_spec [OF 1 assms(2,3)]
  show ?thesis
  proof (cases "read_tag_object E r1 c")
    case (Some g)
    then show ?thesis using assms(1) 1 p
      by (auto simp: fetch_visit_def node_here_def node_succ_def node_objects_def)
  next
    case None
    show ?thesis
    proof (cases "read_commit E r1 c")
      case (Inl e)
      then show ?thesis using assms(1) 1 p None
        by (auto simp: fetch_visit_def node_here_def node_succ_def node_objects_def)
    next
      case (Inr co)
      then obtain r2 t2 n2 ps where 2: "pull E T (tree co) (r1, t1, n1) = Inr (r2, t2, n2)"
          "parents_of E r2 c = Inr ps" "nxt = ps" "seen' = seen" "r' = r2" "t' = t2"
          "q' = (if leaves then (case read_manifest E r2 (tree co) of
                 Inl _ \<Rightarrow> q | Inr m \<Rightarrow> fold (queue_leaf r2) (manifest_ids m) q) else q)"
        using assms(1) 1 None by (auto simp: fetch_visit_def res_simps Let_def cong: sum.case_cong if_cong)
      have s1: "sound E r1" using p ahead_sound by blast
      note p2 = pull_spec [OF 2(1) _ s1] and c1 = p [THEN conjunct2, THEN conjunct2]
      have g: "good t2" "ahead E r1 r2" "store_exists r2 (tree co)" using p2 p by blast+
      note rd = ahead_read [OF g(2) s1 c1]
      have reads: "read_tag_object E r2 c = None" "read_commit E r2 c = Inr co"
        using None Inr by (simp_all add: read_tag_object_def read_commit_def rd)
      then have objs: "node_objects E r2 c = tree_objects E r2 (tree co)" by (simp add: node_objects_def)
      then have "node_here E r2 c" using g(3) ahead_exists [OF g(2) s1 c1] by (simp add: node_here_def tree_objects_def)
      moreover have "nxt = node_succ E r2 c" using 2(2,3) reads by (simp add: node_succ_def)
      moreover have "set q \<subseteq> set q'" using 2(7) by (auto simp: queue_leaves split: sum.splits if_splits)
      moreover have "leaves \<longrightarrow> (\<forall>i \<in> set (node_objects E r2 c). store_exists r2 i \<or> i \<in> set q')"
        using 2(7) g(3) by (auto simp: objs tree_objects_def queue_leaves split: sum.splits)
      ultimately show ?thesis using g 2(4-6) p ahead_trans by blast
    qed
  qed
qed

lemma fetch_inv_visit:
  assumes inv: "fetch_inv E good r0 tip leaves (c # rest) seen ((r, t, n), q)"
    and v: "fetch_visit E T leaves c (c # seen) ((r, t, n), q) = Inr (nxt, seen', (r', t', n'), q')"
  shows "fetch_inv E good r0 tip leaves (rev nxt @ rest) seen' ((r', t', n'), q')"
proof -
  have r: "good t" "ahead E r0 r" using inv by (simp_all add: fetch_inv_def)
  note s = ahead_sound [OF r(2)]
  note sp = fetch_visit_spec [OF v r(1) s]
  have a: "ahead E r r'" and q: "set q \<subseteq> set q'" using sp by blast+
  have old: "node_here E r' x \<and> set (node_succ E r' x) \<subseteq> set (c # rest) \<union> set seen \<and>
      (leaves \<longrightarrow> (\<forall>i \<in> set (node_objects E r' x). store_exists r' i \<or> i \<in> set q'))" if "x \<in> set seen" for x
  proof -
    have x: "node_here E r x" "set (node_succ E r x) \<subseteq> set (c # rest) \<union> set seen"
      "leaves \<longrightarrow> (\<forall>i \<in> set (node_objects E r x). store_exists r i \<or> i \<in> set q)"
      using inv that by (simp_all add: fetch_inv_def)
    show ?thesis using x ahead_node [OF a s x(1)] ahead_exists [OF a s] q by auto
  qed
  moreover have "tip \<in> set (c # rest) \<union> set seen" using inv by (simp add: fetch_inv_def)
  ultimately show ?thesis using sp ahead_trans [OF r(2) a] unfolding fetch_inv_def by auto
qed

lemma fetch_walk:
  assumes "walk (fetch_visit E T leaves) [tip] [] ((r, t, 0), []) = Some (Inr (seen, (r', t', n'), q))" "good t" "sound E r"
  shows "fetch_inv E good r tip leaves [] seen ((r', t', n'), q)"
proof (rule walk_keeps [OF assms(1)])
  show "fetch_inv E good r tip leaves [tip] [] ((r, t, 0), [])" using assms(2,3) by (simp add: fetch_inv_def ahead_refl)
next
  fix x rest seen st assume "fetch_inv E good r tip leaves (x # rest) seen st" "x \<in> set seen"
  then show "fetch_inv E good r tip leaves rest seen st" by (auto simp: fetch_inv_def insert_absorb split: prod.splits)
next
  fix c rest seen st nxt seen' st'
  assume "fetch_inv E good r tip leaves (c # rest) seen st" "fetch_visit E T leaves c (c # seen) st = Inr (nxt, seen', st')"
  then show "fetch_inv E good r tip leaves (rev nxt @ rest) seen' st'"
    using fetch_inv_visit by (cases st; cases st') (metis prod.collapse)
qed

lemma fetch_inv_nodes:
  assumes "fetch_inv E good r0 tip leaves [] seen ((r, t, n), q)"
  shows "nodes E r [tip] \<subseteq> set seen"
proof (rule nodes_least)
  show "set [tip] \<subseteq> set seen" using assms by (simp add: fetch_inv_def)
qed (use assms in \<open>simp add: fetch_inv_def\<close>)

lemma fetch_reachable_complete:
  assumes "fetch_reachable E r T tip t = Some (Inr (n, r', t'))" "good t" "sound E r"
  shows "good t' \<and> ahead E r r' \<and> complete E r' tip"
proof -
  from assms(1) obtain seen r1 t1 n1 q r2 where
    w: "walk (fetch_visit E T True) [tip] [] ((r, t, 0), []) = Some (Inr (seen, (r1, t1, n1), q))"
    and l: "fetch_leaves E T (batches fetch_batch q) (r1, t1, n1) = Inr (r2, t', n)" "r' = (if n > 0 then reload_packs E r2 else r2)"
    by (auto simp: fetch_reachable_def fetched_def res_simps split: prod.splits)
  have inv: "fetch_inv E good r tip True [] seen ((r1, t1, n1), q)" by (rule fetch_walk [OF w assms(2,3)])
  then have g: "good t1" "ahead E r r1" by (simp_all add: fetch_inv_def)
  note s = ahead_sound [OF g(2)]
  have sp: "good t'" "ahead E r1 r2" "\<forall>i \<in> set q. store_exists r2 i"
    using fetch_leaves_spec [OF l(1) g(1) s] by (simp_all add: concat_batches fetch_batch_def)
  have r': "r' = r2" using l(2) ahead_sound [OF sp(2)] by (simp add: reload_packs_def sound_def opened_def)
  have here: "node_here E r2 c \<and> set (node_succ E r2 c) \<subseteq> set seen \<and> (\<forall>i \<in> set (node_objects E r2 c). store_exists r2 i)"
    if "c \<in> set seen" for c
  proof -
    have c: "node_here E r1 c" "set (node_succ E r1 c) \<subseteq> set seen" "\<forall>i \<in> set (node_objects E r1 c). store_exists r1 i \<or> i \<in> set q"
      using inv that by (simp_all add: fetch_inv_def)
    show ?thesis using c ahead_node [OF sp(2) s c(1)] ahead_exists [OF sp(2) s] sp(3) by auto
  qed
  have "nodes E r2 [tip] \<subseteq> set seen"
  proof (rule nodes_least)
    show "set [tip] \<subseteq> set seen" using inv by (simp add: fetch_inv_def)
  qed (use here in blast)
  then have "complete E r2 tip" using here by (auto simp: complete_def objects_of_def node_here_def)
  then show ?thesis using sp(1) ahead_trans [OF g(2) sp(2)] r' by simp
qed

lemma fetch_skeleton_complete:
  assumes "fetch_skeleton E r T tip t = Some (Inr (n, r', t'))" "good t" "sound E r"
  shows "good t' \<and> ahead E r r' \<and> (\<forall>c \<in> nodes E r' [tip]. node_here E r' c)"
proof -
  from assms(1) obtain seen r1 q where
    w: "walk (fetch_visit E T False) [tip] [] ((r, t, 0), []) = Some (Inr (seen, (r1, t', n), q))"
    and l: "r' = (if n > 0 then reload_packs E r1 else r1)"
    by (auto simp: fetch_skeleton_def fetched_def res_simps ret_def split: prod.splits)
  have inv: "fetch_inv E good r tip False [] seen ((r1, t', n), q)" by (rule fetch_walk [OF w assms(2,3)])
  then have g: "good t'" "ahead E r r1" "\<forall>c \<in> set seen. node_here E r1 c" by (simp_all add: fetch_inv_def)
  have "r' = r1" using l ahead_sound [OF g(2)] by (simp add: reload_packs_def sound_def opened_def)
  then show ?thesis using g fetch_inv_nodes [OF inv] by blast
qed

lemma fetch_complete:
  assumes "fetch E r T b t = Some (Inr (tip, n, r', t'))" "good t" "sound E r"
  shows "ahead E r r' \<and> complete E r' tip"
proof -
  from assms(1) obtain refs t1 where "tr_refs T t = Inr (refs, t1)" "fetch_reachable E r T tip t1 = Some (Inr (n, r', t'))"
    by (auto simp: fetch_def res_simps ret_def split: sum.splits option.splits)
  then show ?thesis using fetch_reachable_complete refs_good assms(2,3) by blast
qed

lemma backfill_complete:
  assumes "backfill E T connect ids r = Inr (n, r')" "sound E r" "\<And>url t. connect url = Inr t \<Longrightarrow> good t"
  shows "ahead E r r' \<and> (\<forall>i \<in> set ids. store_exists r' i)"
proof (cases "filter (\<lambda>i. \<not> store_exists r i) ids = []")
  case True
  then show ?thesis using assms(1,2) by (auto simp: backfill_def ahead_refl filter_empty_conv)
next
  case False
  with assms(1) obtain url t r1 t1 where 1: "connect url = Inr t"
      "fetch_leaves E T (batches fetch_batch (filter (\<lambda>i. \<not> store_exists r i) ids)) (r, t, 0) = Inr (r1, t1, n)"
      "r' = (if n > 0 then reload_packs E r1 else r1)"
    by (auto simp: backfill_def fetched_def res_simps Let_def split: prod.splits)
  have sp: "ahead E r r1" "\<forall>i \<in> set ids. store_exists r i \<or> store_exists r1 i"
    using fetch_leaves_spec [OF 1(2) assms(3) [OF 1(1)] assms(2)] by (auto simp: concat_batches fetch_batch_def)
  moreover have "r' = r1" using 1(3) ahead_sound [OF sp(1)] by (simp add: reload_packs_def sound_def opened_def)
  ultimately show ?thesis using ahead_exists [OF sp(1) assms(2)] by blast
qed

end

section \<open>Remotes with finitely many objects\<close>

lemma run_bind_returns: "\<exists>x. m = Some x \<Longrightarrow> (\<And>a. \<exists>x. f a = Some x) \<Longrightarrow> \<exists>x. run_bind m f = Some x"
  by (auto simp: run_bind_def split: sum.split)

text \<open>
  What a remote holds, as the answers to \<^verbatim>\<open>get_object\<close>: a fetch walks only what it holds and what the
  local repository held before, so it returns.
\<close>

definition targets :: "ext \<Rightarrow> string \<Rightarrow> string set" where
  "targets E c = (case tag_try_from_json E c of Some g \<Rightarrow> {tag_target g}
     | None \<Rightarrow> (case commit_from_json E c of Inl _ \<Rightarrow> {} | Inr co \<Rightarrow> set (parents co)))"

lemma finite_targets: "finite (targets E c)"
  by (simp add: targets_def split: option.split sum.split)

lemma node_succ_targets: "store_read E r c = Inr b \<Longrightarrow> set (node_succ E r c) \<subseteq> targets E b"
  by (auto simp: node_succ_def targets_def read_tag_object_def read_commit_def parents_of_def res_simps
      split: option.splits sum.splits if_splits)

lemma fetch_visit_pulls:
  assumes "fetch_visit E T leaves c seen (p, q) = Inr (nxt, seen', p', q')"
  shows "seen' = seen \<and> (\<exists>p1. pull E T c p = Inr p1 \<and> (p' = p1 \<or> (\<exists>i. pull E T i p1 = Inr p')))"
proof -
  obtain p1 where p1: "pull E T c p = Inr p1" using assms by (auto simp: fetch_visit_def res_simps)
  show ?thesis
  proof (cases "read_tag_object E (fst p1) c")
    case None
    then show ?thesis
    proof (cases "read_commit E (fst p1) c")
      case (Inr co)
      then show ?thesis using assms p1 None by (auto simp: fetch_visit_def res_simps Let_def cong: sum.case_cong if_cong)
    qed (use assms p1 in \<open>auto simp: fetch_visit_def\<close>)
  qed (use assms p1 in \<open>auto simp: fetch_visit_def\<close>)
qed

locale object_remote = checked_remote +
  fixes obj :: "'b \<Rightarrow> string \<Rightarrow> string option"
  assumes finite_objects: "good t \<Longrightarrow> finite (dom (obj t))"
    and get_obj: "good t \<Longrightarrow> tr_get T i t = Inr (c, t') \<Longrightarrow> obj t i = Some c \<and> obj t' = obj t"
begin

definition holds :: "repo \<Rightarrow> 'b \<Rightarrow> string set" where
  "holds r t = {b. \<exists>i. store_read E r i = Inr b} \<union> ran (obj t)"

definition pulling :: "repo \<Rightarrow> 'b \<Rightarrow> repo \<times> 'b \<times> nat \<Rightarrow> bool" where
  "pulling r0 t0 p = (case p of (r, t, n) \<Rightarrow> good t \<and> obj t = obj t0 \<and> sound E r \<and>
     (\<forall>i b. store_read E r i = Inr b \<longrightarrow> b \<in> holds r0 t0))"

lemma pull_pulling:
  assumes "pull E T i p = Inr p'" "pulling r0 t0 p"
  shows "pulling r0 t0 p'"
proof -
  obtain r t n where p: "p = (r, t, n)" by (cases p)
  show ?thesis
  proof (cases "store_exists r i")
    case False
    then obtain c t1 j r1 where 1: "tr_get T i t = Inr (c, t1)" "store_write E c r = Inr (j, r1)" "p' = (r1, t1, n + 1)"
      using assms(1) by (auto simp: pull_def p res_simps)
    have g: "good t" "obj t = obj t0" "sound E r" "\<forall>i b. store_read E r i = Inr b \<longrightarrow> b \<in> holds r0 t0"
      using assms(2) by (simp_all add: pulling_def p)
    note o = get_obj [OF g(1) 1(1)] and a = ahead_write [OF 1(2) g(3)] and k = get_checked [OF g(1) 1(1)]
    have "b \<in> holds r0 t0" if "store_read E r1 m = Inr b" for m b
    proof (cases "store_exists r m")
      case True
      then show ?thesis using ahead_read [OF a(1) g(3) True] that g(4) by simp
    next
      case False
      then have "m = j" using store_read_exists [OF that] store_write_effect(2,4) [OF 1(2)] by (auto simp: store_exists_def)
      moreover have "store_read E r1 j = Inr c"
        using store_write_stored [OF 1(2)] False calculation g(3) by (simp add: sound_def store_ok_def)
      ultimately have "b = c" using that by simp
      then show ?thesis using o g(2) by (auto simp: holds_def ran_def)
    qed
    then show ?thesis using 1(3) get_good [OF g(1) 1(1)] o g(2) ahead_sound [OF a(1)] by (simp add: pulling_def)
  qed (use assms in \<open>simp add: pull_def p\<close>)
qed

lemma fetch_visit_pulling:
  assumes "fetch_visit E T leaves c seen (p, q) = Inr (nxt, seen', p', q')" "pulling r0 t0 p"
  shows "pulling r0 t0 p' \<and> set nxt \<subseteq> (\<Union>b \<in> holds r0 t0. targets E b)"
proof -
  obtain r t n r' t' n' where p: "p = (r, t, n)" "p' = (r', t', n')" by (cases p; cases p')
  have g: "good t" "sound E r" using assms(2) by (simp_all add: pulling_def p)
  have sp: "node_here E r' c" "nxt = node_succ E r' c" "ahead E r r'"
    using fetch_visit_spec [OF assms(1) [unfolded p] g] by blast+
  obtain p1 where "pull E T c p = Inr p1" "p' = p1 \<or> (\<exists>i. pull E T i p1 = Inr p')"
    using fetch_visit_pulls [OF assms(1)] by blast
  then have P: "pulling r0 t0 p'" using pull_pulling assms(2) by blast
  have "store_exists r' c" "store_ok E r'" using sp ahead_sound by (auto simp: node_here_def sound_def)
  then obtain b where b: "store_read E r' c = Inr b" unfolding store_ok_def by blast
  then have "b \<in> holds r0 t0" using P by (auto simp: pulling_def p)
  then show ?thesis using P node_succ_targets [OF b] sp(2) by blast
qed

lemma holds_finite: "good t \<Longrightarrow> finite (holds r t)"
proof -
  assume "good t"
  have "{b. \<exists>i. store_read E r i = Inr b} \<subseteq> (\<lambda>i. projr (store_read E r i)) ` stored r"
    using store_read_exists by (force simp: stored_def)
  then have "finite {b. \<exists>i. store_read E r i = Inr b}" using finite_stored finite_surj by blast
  moreover have "finite (ran (obj t))" using finite_objects [OF \<open>good t\<close>] by (rule finite_ran)
  ultimately show ?thesis by (simp add: holds_def)
qed

lemma fetch_walk_returns:
  assumes "good t" "sound E r"
  shows "\<exists>x. walk (fetch_visit E T leaves) [tip] [] ((r, t, 0), []) = Some x"
proof -
  let ?U = "insert tip (\<Union>b \<in> holds r t. targets E b)"
  have "state_walk (fetch_visit E T leaves) ?U (\<lambda>(p, _). pulling r t p)"
  proof
    show "finite ?U" using holds_finite [OF assms(1)] finite_targets by simp
  next
    fix x seen st nxt seen' st' assume "(\<lambda>(p, _). pulling r t p) st" "fetch_visit E T leaves x seen st = Inr (nxt, seen', st')"
    then show "set nxt \<subseteq> ?U" "(\<lambda>(p, _). pulling r t p) st'"
      using fetch_visit_pulling by (cases st; cases st'; fastforce)+
  next
    fix x seen st nxt seen' st' assume "fetch_visit E T leaves x seen st = Inr (nxt, seen', st')"
    then show "set seen \<subseteq> set seen'"
      using fetch_visit_pulls by (cases st; cases st') fastforce
  qed
  then show ?thesis
    by (rule state_walk.walk_returns) (use assms store_read_exists in \<open>auto simp: pulling_def holds_def\<close>)
qed

lemma fetch_returns:
  assumes "good t" "sound E r"
  shows "\<exists>x. fetch E r T b t = Some x"
proof (cases "tr_refs T t")
  case (Inr a)
  obtain refs t1 where a: "a = (refs, t1)" by (cases a)
  have ret: "\<exists>x. fetch_reachable E r T tip t1 = Some x" for tip
    unfolding fetch_reachable_def
    by (rule run_bind_returns [OF fetch_walk_returns [OF refs_good [OF assms(1) Inr [unfolded a]] assms(2)]]) (auto split: prod.split)
  have "\<exists>x. run_bind (fetch_reachable E r T tip t1) (\<lambda>p. ret (tip, p)) = Some x" for tip
    by (rule run_bind_returns [OF ret]) (simp add: ret_def)
  then show ?thesis using Inr a by (cases "map_of refs (heads_prefix @ b)") (simp_all add: fetch_def)
qed (simp add: fetch_def)

end

section \<open>A repository answers like that\<close>

lemma local_transport_sel [simp]:
  "tr_refs (local_transport E) = local_refs" "tr_get (local_transport E) = local_get E"
  "tr_pack (local_transport E) = get_pack E (local_get E)" "tr_missing (local_transport E) = local_missing"
  "tr_put_all (local_transport E) = put_objects (local_put E)" "tr_set_branch (local_transport E) = local_set_branch"
  "tr_finish (local_transport E) = local_finish E"
  by (simp_all add: local_transport_def)

lemma local_remote_checked: "store_ok E r \<Longrightarrow> store_read E r i = Inr c \<Longrightarrow> blake3 E c = i"
  using store_read_exists unfolding store_ok_def by fastforce

lemma gather_local: "gather (local_get E) ids r objs = (objs', r') \<Longrightarrow> r' = r"
proof (induction ids arbitrary: objs)
  case (Cons i ids)
  then show ?case by (cases "store_read E r i") (auto simp: local_get_def)
qed simp

interpretation local_remote: object_remote E "local_transport E" "store_ok E" "store_get E" for E
proof
  fix r r' :: repo and i c
  assume r: "store_ok E r" and g: "tr_get (local_transport E) i r = Inr (c, r')"
  then have c: "store_read E r i = Inr c" "r' = r" by (auto simp: local_get_def res_simps)
  then show "store_ok E r'" "blake3 E c = i" "store_get E r i = Some c \<and> store_get E r' = store_get E r"
    using r local_remote_checked by (simp_all add: store_get_iff)
next
  fix r r' :: repo and refs
  assume "store_ok E r" "tr_refs (local_transport E) r = Inr (refs, r')"
  then show "store_ok E r'" by (simp add: local_refs_def)
next
  fix r r' :: repo and ids body
  assume "store_ok E r" "tr_pack (local_transport E) ids r = Inr (body, r')"
  then show "store_ok E r'"
    by (auto simp: get_pack_def split: prod.splits dest!: gather_local)
next
  fix r :: repo
  have "dom (store_get E r) \<subseteq> stored r" using store_read_exists by (auto simp: store_get_iff stored_def)
  then show "finite (dom (store_get E r))" by (rule finite_subset) (rule finite_stored)
qed

section \<open>Two ways to push\<close>

text \<open>Writing in one go what a list of objects holds.\<close>

lemma put_objects_append:
  "put_objects put (xs @ ys) t = rbind (put_objects put xs t) (put_objects put ys)"
proof (induction put xs t rule: put_objects.induct)
  case (2 put i c objs t)
  then show ?case by (cases "put c t") simp_all
qed simp

lemma push_batches_local:
  "push_batches E l (local_transport E) ids batch bytes r = Inr r' \<longleftrightarrow>
    (\<exists>cs. collect_res (map (store_read E l) ids) = Inr cs \<and> put_objects (local_put E) (batch @ zip ids cs) r = Inr r')"
proof (induction ids arbitrary: batch bytes r)
  case Nil
  then show ?case by simp
next
  case (Cons i ids)
  show ?case
  proof (cases "store_read E l i")
    case (Inr c)
    have "push_batches E l (local_transport E) (i # ids) batch bytes r = Inr r' \<longleftrightarrow>
      (\<exists>cs. collect_res (map (store_read E l) ids) = Inr cs \<and>
         put_objects (local_put E) ((batch @ [(i, c)]) @ zip ids cs) r = Inr r')"
      using Cons by (auto simp: Inr put_objects_append res_simps)
    then show ?thesis by (auto simp: Inr res_simps)
  qed simp
qed

lemma copy_each_local:
  assumes "store_ok E l" "store_ok E r" "distinct ids"
  shows "copy_each E l ids r n = Inr (k, r') \<longleftrightarrow>
    (let lacks = filter (\<lambda>i. \<not> store_exists r i) ids in
     \<exists>cs. collect_res (map (store_read E l) lacks) = Inr cs \<and> put_objects (local_put E) (zip lacks cs) r = Inr r' \<and>
       k = n + length lacks)"
  using assms(2,3)
proof (induction ids arbitrary: r n)
  case (Cons i ids)
  show ?case
  proof (cases "store_exists r i")
    case False
    show ?thesis
    proof (cases "store_read E l i")
      case (Inr c)
      show ?thesis
      proof (cases "store_write E c r")
        case (Inl e)
        then show ?thesis using False Inr by (auto simp: Let_def local_put_def res_simps)
      next
        case w: (Inr x)
        obtain j r1 where x: "x = (j, r1)" by (cases x)
        note eff = store_write_effect [OF w [unfolded x]] and ok = store_write_ok [OF w [unfolded x] Cons.prems(1)]
        have "j = i" using eff(1) local_remote_checked [OF assms(1) Inr] by simp
        then have "store_exists r1 m \<longleftrightarrow> m = i \<or> store_exists r m" for m
          using eff(2,4) ok(2) by (auto simp: store_exists_def)
        then have same: "filter (\<lambda>m. \<not> store_exists r1 m) ids = filter (\<lambda>m. \<not> store_exists r m) ids"
          using Cons.prems(2) by (intro filter_cong) auto
        have "copy_each E l (i # ids) r n = copy_each E l ids r1 (n + 1)" using False Inr w x by simp
        then show ?thesis using Cons.IH [OF ok(1), of "n + 1"] Cons.prems(2) False Inr w x
          by (auto simp: Let_def same local_put_def res_simps)
      qed
    qed (use False in \<open>simp add: Let_def\<close>)
  qed (use Cons in simp)
qed auto

lemma conj_cong_eq: "(P \<Longrightarrow> W \<Longrightarrow> a = b) \<Longrightarrow> P \<and> N \<and> W \<and> x = a \<longleftrightarrow> P \<and> N \<and> W \<and> x = b"
  by blast

lemma push_is_push_local:
  assumes "store_ok E l" "store_ok E rem" "opened E rem"
  shows "push E l (local_transport E) b rem = Some (Inr (n, rem')) \<longleftrightarrow> push_local E l rem b = Some (Inr (n, rem'))"
proof (cases "read_branch (disk l) b")
  case (Some tip)
  obtain ids where ids: "reachable E l tip = Some (Inr ids)" "distinct ids"
    using collect_spec [of "[tip]" "[tip]" E l] by (auto simp: reachable_def ret_def)
  let ?lacks = "filter (\<lambda>i. \<not> store_exists rem i) ids"
  let ?put = "\<lambda>d. \<exists>cs. collect_res (map (store_read E l) ?lacks) = Inr cs \<and>
    put_objects (local_put E) (zip ?lacks cs) rem = Inr d"
  have copy: "copy_each E l ids rem 0 = Inr (k, d) \<longleftrightarrow> ?put d \<and> k = length ?lacks" for k d
    using copy_each_local [OF assms(1,2) ids(2)] by (auto simp: Let_def)
  have put: "push_batches E l (local_transport E) ?lacks [] 0 rem = Inr d \<longleftrightarrow> ?put d" for d
    by (simp add: push_batches_local)
  have loaded: "reload_packs E d = d" if "?put d" for d
    using copy copy_each_frame [of E l ids rem 0 _ d] that assms(3) by (auto simp: reload_packs_def opened_def)
  have copied: "copy_objects E l rem ids = Inr (k, d) \<longleftrightarrow> ?put d \<and> k = length ?lacks" for k d
  proof -
    have "copy_objects E l rem ids = Inr (k, d) \<longleftrightarrow> (\<exists>d'. copy_each E l ids rem 0 = Inr (k, d') \<and> d = (if k > 0 then reload_packs E d' else d'))"
      by (auto simp: copy_objects_def res_simps)
    also have "\<dots> \<longleftrightarrow> copy_each E l ids rem 0 = Inr (k, d)" using loaded copy by auto
    finally show ?thesis using copy by simp
  qed
  have branch: "reload_packs E (d\<lparr>disk := f\<rparr>) = d\<lparr>disk := f\<rparr>" if "?put d" "write_branch b tip (disk d) = Inr f" for d f
    using same_objects_reads(3) [OF same_objects_branch [OF that(2)]] loaded [OF that(1)]
    by (cases d) (simp add: reload_packs_def)
  have "push_local E l rem b = Some (Inr (n, rem')) \<longleftrightarrow>
      (\<exists>d f. ?put d \<and> n = length ?lacks \<and> write_branch b tip (disk d) = Inr f \<and> rem' = d\<lparr>disk := f\<rparr>)"
    by (auto simp: push_local_def Some send_tip_def ids(1) copied res_simps)
  moreover have "push E l (local_transport E) b rem = Some (Inr (n, rem')) \<longleftrightarrow>
      (\<exists>d f. ?put d \<and> n = length ?lacks \<and> write_branch b tip (disk d) = Inr f \<and> rem' = reload_packs E (d\<lparr>disk := f\<rparr>))"
    by (auto simp: push_def Some ids(1) res_simps put local_missing_def local_set_branch_def local_finish_def)
  moreover have "?put d \<and> n = length ?lacks \<and> write_branch b tip (disk d) = Inr f \<and> rem' = reload_packs E (d\<lparr>disk := f\<rparr>) \<longleftrightarrow>
      ?put d \<and> n = length ?lacks \<and> write_branch b tip (disk d) = Inr f \<and> rem' = d\<lparr>disk := f\<rparr>" for d f
    using branch [of d f] by (rule conj_cong_eq)
  ultimately show ?thesis by (simp only:)
qed (simp add: push_def push_local_def)

section \<open>Properties\<close>

lemma local_refs_heads:
  assumes "local_refs r = Inr (refs, r')" "map_of refs (heads_prefix @ b) = Some tip"
  shows "read_branch (disk r) b = Some tip"
proof -
  have "(heads_prefix @ b, tip) \<in> set refs" by (rule map_of_SomeD [OF assms(2)])
  moreover have "heads_prefix @ b \<noteq> tags_prefix @ g" for g by (simp add: heads_prefix_def tags_prefix_def)
  ultimately show ?thesis using assms(1) by (auto simp: local_refs_def map_filter_def split: option.splits if_splits)
qed

text \<open>
  C24. A fetch from a sound repository returns, and when it succeeds it gives the commit of the branch
  there, loses nothing that was here and leaves here everything the commit reaches, itself included.
\<close>

theorem fetch_from_repository:
  assumes "store_ok E rem" "store_ok E r" "opened E r"
  shows "case fetch E r (local_transport E) b rem of None \<Rightarrow> False | Some (Inl e) \<Rightarrow> True
    | Some (Inr (tip, n, r', rem')) \<Rightarrow> read_branch (disk rem) b = Some tip \<and> ahead E r r' \<and> complete E r' tip"
proof -
  have r: "sound E r" using assms(2,3) by (simp add: sound_def)
  have "read_branch (disk rem) b = Some tip \<and> ahead E r r' \<and> complete E r' tip"
    if run: "fetch E r (local_transport E) b rem = Some (Inr (tip, n, r', rem'))" for tip n r' rem'
  proof -
    have "read_branch (disk rem) b = Some tip"
      using run local_refs_heads by (auto simp: fetch_def res_simps ret_def split: sum.splits option.splits)
    then show ?thesis using local_remote.fetch_complete [OF run assms(1) r] by blast
  qed
  then show ?thesis using local_remote.fetch_returns [OF assms(1) r, of b] by (auto split: sum.split)
qed

text \<open>A local repository that has only the file of the world.\<close>

definition leaf_repo :: repo where
  "leaf_repo = (case store_write world_ext ''D'' empty_repo of Inr (_, r) \<Rightarrow> r | Inl _ \<Rightarrow> empty_repo)"

lemma leaf_repo_sound: "sound world_ext leaf_repo"
proof -
  have s: "sound world_ext empty_repo" using world_empty_ok by (simp add: sound_def)
  then have "store_write world_ext ''D'' empty_repo = Inr (i, r) \<Longrightarrow> sound world_ext r" for i r
    using ahead_write(1) ahead_sound by blast
  then show ?thesis using s by (auto simp: leaf_repo_def split: sum.split)
qed

theorem fetch_from_repository_witness:
  "\<exists>n r' rem'. fetch world_ext leaf_repo (local_transport world_ext) ''main'' world_repo = Some (Inr (oid (CHR ''c''), n, r', rem')) \<and>
     complete world_ext r' (oid (CHR ''c''))"
proof -
  have "(case fetch world_ext leaf_repo (local_transport world_ext) ''main'' world_repo of
      Some (Inr (tip, _)) \<Rightarrow> tip = oid (CHR ''c'') | _ \<Rightarrow> False)" by code_simp
  moreover have "store_ok world_ext leaf_repo" "opened world_ext leaf_repo" using leaf_repo_sound by (simp_all add: sound_def)
  ultimately show ?thesis using fetch_from_repository [OF world_store_ok, of leaf_repo "''main''"]
    by (auto split: option.splits sum.splits)
qed

text \<open>
  Pushing through the transport of a directory and the direct push between two directories do the same
  to the remote, whenever either succeeds.
\<close>

theorem push_agrees:
  assumes "store_ok E l" "store_ok E rem" "opened E rem"
  shows "push E l (local_transport E) b rem = Some (Inr (n, rem')) \<longleftrightarrow> push_local E l rem b = Some (Inr (n, rem'))"
  by (rule push_is_push_local [OF assms])

theorem push_agrees_witness:
  "\<exists>n rem'. push world_ext world_repo (local_transport world_ext) ''main'' empty_repo = Some (Inr (n, rem')) \<and>
     push_local world_ext world_repo empty_repo ''main'' = Some (Inr (n, rem'))"
proof -
  have "(case push_local world_ext world_repo empty_repo ''main'' of Some (Inr _) \<Rightarrow> True | _ \<Rightarrow> False)" by code_simp
  then obtain n rem' where "push_local world_ext world_repo empty_repo ''main'' = Some (Inr (n, rem'))"
    by (auto split: option.splits sum.splits)
  then show ?thesis using push_agrees [OF world_store_ok world_empty_ok] by blast
qed

text \<open>
  A fetch trusts what it gets for a commit: a remote that answers the request for its tip with other
  bytes makes the fetch succeed with one object copied, and the tip is not there.
\<close>

theorem fetch_trusts_the_remote:
  assumes "tr_get T tip t = Inr (c, t')" "blake3 E c \<noteq> tip" "store_write E c r = Inr (i, r1)"
    and "\<not> store_exists r tip" "sound E r"
  shows "fetch_reachable E r T tip t = Some (Inr (1, r1, t')) \<and> \<not> store_exists r1 tip"
proof -
  note eff = store_write_effect [OF assms(3)]
  have s: "sound E r1" using ahead_sound [OF ahead_write(1) [OF assms(3,5)]] .
  have gone: "\<not> store_exists r1 tip" using assms(2,4) eff(1,2,4) by (auto simp: store_exists_def)
  then have v: "fetch_visit E T True tip [tip] ((r, t, 0), []) = Inr ([], [tip], (r1, t', 1), [])"
    using absent_reads [OF gone, of E] assms(1,3,4) by (auto simp: fetch_visit_def pull_def)
  have "walk (fetch_visit E T True) [tip] [] ((r, t, 0), []) = Some (Inr ([tip], (r1, t', 1), []))"
    using walk_visit [of tip "[]" "fetch_visit E T True", OF _ v] by simp
  then show ?thesis using gone fetched_sound [OF s] by (simp add: fetch_reachable_def)
qed

definition lying_transport :: "repo transport" where
  "lying_transport = local_transport world_ext\<lparr>tr_get := (\<lambda>i t. Inr (''X'', t))\<rparr>"

theorem fetch_trusts_the_remote_witness:
  "\<exists>r'. fetch_reachable world_ext empty_repo lying_transport (oid (CHR ''c'')) world_repo = Some (Inr (1, r', world_repo)) \<and>
     \<not> store_exists r' (oid (CHR ''c''))"
proof -
  have get: "tr_get lying_transport (oid (CHR ''c'')) world_repo = Inr (''X'', world_repo)" by (simp add: lying_transport_def)
  have "blake3 world_ext ''X'' \<noteq> oid (CHR ''c'')" "\<not> store_exists empty_repo (oid (CHR ''c''))" by code_simp+
  moreover have "is_ok (store_write world_ext ''X'' empty_repo)" by code_simp
  then obtain i r1 where "store_write world_ext ''X'' empty_repo = Inr (i, r1)" by (auto simp: is_ok_iff)
  moreover have "sound world_ext empty_repo" using world_empty_ok by (simp add: sound_def)
  ultimately show ?thesis using fetch_trusts_the_remote [OF get] by blast
qed

end
