(* ===== verification/RepoBucket.thy ===== *)
theory RepoBucket imports
  RepoRemote "HOL-Library.Code_Target_Nat"
begin

text \<open>
  \<^verbatim>\<open>crates/repo/src/bucket.rs\<close>: the repository protocol on a store of blobs with conditional writes.
  The blobs and names of a bucket are untrusted. Texts in it are taken as their bytes: where a blob is
  not UTF-8 the code replaces the bad bytes, and neither form is an object id.
\<close>

section \<open>Buckets\<close>

record 'b bucket_ops =
  bk_get :: "string \<Rightarrow> 'b \<Rightarrow> repo_error + (string \<times> string) option \<times> 'b"
  bk_put :: "string \<Rightarrow> string \<Rightarrow> 'b \<Rightarrow> repo_error + 'b"
  bk_put_if :: "string \<Rightarrow> string \<Rightarrow> string option \<Rightarrow> 'b \<Rightarrow> repo_error + bool \<times> 'b"
  bk_list :: "string \<Rightarrow> 'b \<Rightarrow> repo_error + string list \<times> 'b"

text \<open>The bucket in memory: a blob has the number of the write that made it as its ETag.\<close>

record mem_store =
  ms_blobs :: "(string \<times> string \<times> string) list"
  ms_seq :: nat

definition mem_get :: "string \<Rightarrow> mem_store \<Rightarrow> repo_error + (string \<times> string) option \<times> mem_store" where
  "mem_get key b = Inr (im_get (ms_blobs b) key, b)"

definition mem_write :: "string \<Rightarrow> string \<Rightarrow> mem_store \<Rightarrow> mem_store" where
  "mem_write key data b = (let n = ms_seq b + 1 in
     \<lparr>ms_blobs = im_insert key (data, show_nat n) (ms_blobs b), ms_seq = n\<rparr>)"

definition mem_put :: "string \<Rightarrow> string \<Rightarrow> mem_store \<Rightarrow> repo_error + mem_store" where
  "mem_put key data b = Inr (mem_write key data b)"

definition mem_put_if :: "string \<Rightarrow> string \<Rightarrow> string option \<Rightarrow> mem_store \<Rightarrow> repo_error + bool \<times> mem_store" where
  "mem_put_if key data expected b =
     (if map_option snd (im_get (ms_blobs b) key) \<noteq> expected then Inr (False, b)
      else Inr (True, mem_write key data b))"

definition mem_list :: "string \<Rightarrow> mem_store \<Rightarrow> repo_error + string list \<times> mem_store" where
  "mem_list prefix b = Inr (filter (starts_with prefix) (map fst (ms_blobs b)), b)"

definition mem_bucket :: "mem_store bucket_ops" where
  "mem_bucket = \<lparr>bk_get = mem_get, bk_put = mem_put, bk_put_if = mem_put_if, bk_list = mem_list\<rparr>"

section \<open>The protocol\<close>

record 'b bucket_view =
  bv_bucket :: 'b
  bv_prefix :: string
  bv_index :: "(string \<times> string) list option"

definition max_manifest_packs :: nat where "max_manifest_packs = 1000000"

definition trim_slashes :: "string \<Rightarrow> string" where
  "trim_slashes s = (let d = dropWhile (\<lambda>c. c = CHR ''/'') in rev (d (rev (d s))))"

definition bucket_new :: "'b \<Rightarrow> string \<Rightarrow> 'b bucket_view" where
  "bucket_new b prefix = \<lparr>bv_bucket = b, bv_prefix = trim_slashes prefix, bv_index = None\<rparr>"

definition bucket_key :: "'b bucket_view \<Rightarrow> string \<Rightarrow> string" where
  "bucket_key v suffix = (if bv_prefix v = [] then suffix else bv_prefix v @ ''/'' @ suffix)"

definition em_dash :: string where "em_dash = [CHR 0xE2, CHR 0x80, CHR 0x94]"

definition manifest_key :: string where "manifest_key = ''packs/manifest''"

definition pack_key :: "string \<Rightarrow> string" where "pack_key i = ''packs/'' @ i"

definition blob_get :: "'b bucket_ops \<Rightarrow> string \<Rightarrow> 'b bucket_view \<Rightarrow> repo_error + (string \<times> string) option \<times> 'b bucket_view" where
  "blob_get B key v = rbind (bk_get B key (bv_bucket v)) (\<lambda>(x, b). Inr (x, v\<lparr>bv_bucket := b\<rparr>))"

text \<open>A listed key that is shorter than what was asked for is out of range, which panics.\<close>

fun read_ref_keys :: "'b bucket_ops \<Rightarrow> string \<Rightarrow> string list \<Rightarrow> 'b bucket_view
    \<Rightarrow> repo_error + (string \<times> string) list \<times> 'b bucket_view" where
  "read_ref_keys B full [] v = Inr ([], v)"
| "read_ref_keys B full (key # keys) v = rbind (blob_get B key v) (\<lambda>(x, v). case x of
     None \<Rightarrow> read_ref_keys B full keys v
   | Some (data, _) \<Rightarrow>
       if length key < length full then Inl Panic
       else (let name = drop (length full) key in rbind (read_ref_keys B full keys v) (\<lambda>(out, v).
         Inr (if safe_ref_name name then (name, trim data) # out else out, v))))"

definition read_refs :: "'b bucket_ops \<Rightarrow> string \<Rightarrow> 'b bucket_view \<Rightarrow> repo_error + (string \<times> string) list \<times> 'b bucket_view" where
  "read_refs B sub v = (let full = bucket_key v sub in
     rbind (bk_list B full (bv_bucket v)) (\<lambda>(keys, b). read_ref_keys B full keys (v\<lparr>bv_bucket := b\<rparr>)))"

definition require_valid_pack_id :: "string \<Rightarrow> repo_error + unit" where
  "require_valid_pack_id i = (if is_object_id i then Inr ()
     else Inl (Other (''bucket advertised a malformed pack id: '' @ [CHR 0x27] @ i @ [CHR 0x27])))"

fun index_packs :: "ext \<Rightarrow> 'b bucket_ops \<Rightarrow> string list \<Rightarrow> (string \<times> string) list \<Rightarrow> 'b bucket_view
    \<Rightarrow> repo_error + (string \<times> string) list \<times> 'b bucket_view" where
  "index_packs E B [] m v = Inr (m, v)"
| "index_packs E B (p # ps) m v = rbind (require_valid_pack_id p) (\<lambda>_.
     rbind (blob_get B (bucket_key v (pack_key p)) v) (\<lambda>(x, v). case x of
       None \<Rightarrow> index_packs E B ps m v
     | Some (pack, _) \<Rightarrow> rbind (wire_parse E pack) (\<lambda>objs.
         index_packs E B ps (fold (\<lambda>(i, _). im_insert i p) objs m) v)))"

definition ensure_index :: "ext \<Rightarrow> 'b bucket_ops \<Rightarrow> 'b bucket_view \<Rightarrow> repo_error + 'b bucket_view" where
  "ensure_index E B v = (case bv_index v of
     Some _ \<Rightarrow> Inr v
   | None \<Rightarrow> rbind (blob_get B (bucket_key v manifest_key) v) (\<lambda>(x, v).
       rbind (case x of None \<Rightarrow> Inr ([], v)
         | Some (data, _) \<Rightarrow> (let pack_ids = entry_lines data in
             if length pack_ids > max_manifest_packs
             then Inl (Other (''packs/manifest lists '' @ show_nat (length pack_ids) @ '' packs (> '' @
               show_nat max_manifest_packs @ '' cap)''))
             else index_packs E B pack_ids [] v)) (\<lambda>(m, v). Inr (v\<lparr>bv_index := Some m\<rparr>))))"

definition index_of :: "'b bucket_view \<Rightarrow> (string \<times> string) list" where
  "index_of v = (case bv_index v of None \<Rightarrow> [] | Some m \<Rightarrow> m)"

definition fetch_object :: "ext \<Rightarrow> 'b bucket_ops \<Rightarrow> string \<Rightarrow> 'b bucket_view \<Rightarrow> repo_error + string \<times> 'b bucket_view" where
  "fetch_object E B i v =
     (if \<not> is_object_id i then Inl (Other (''invalid object id: '' @ i))
      else rbind (ensure_index E B v) (\<lambda>v.
      rbind (ok_or (im_get (index_of v) i) (Other (''object not in bucket: '' @ i))) (\<lambda>p.
      rbind (blob_get B (bucket_key v (pack_key p)) v) (\<lambda>(x, v).
      rbind (ok_or x (Other (''pack '' @ p @ '' vanished''))) (\<lambda>(pack, _).
      rbind (wire_parse E pack) (\<lambda>objs.
      rbind (ok_or (map_of objs i) (Other (''object '' @ i @ '' missing from its pack''))) (\<lambda>c. Inr (c, v))))))))"

text \<open>One round of the loop on the list of packs, in its two halves, and the loop.\<close>

definition manifest_read :: "'b bucket_ops \<Rightarrow> string \<Rightarrow> 'b \<Rightarrow> repo_error + (string list \<times> string option) \<times> 'b" where
  "manifest_read B key b = rbind (bk_get B key b) (\<lambda>(x, b).
     Inr (case x of Some (d, e) \<Rightarrow> (entry_lines d, Some e) | None \<Rightarrow> ([], None), b))"

definition manifest_try :: "'b bucket_ops \<Rightarrow> string \<Rightarrow> string \<Rightarrow> string list \<Rightarrow> string option \<Rightarrow> 'b \<Rightarrow> repo_error + bool \<times> 'b" where
  "manifest_try B key i cur etag b = bk_put_if B key (unlines (cur @ [i])) etag b"

fun append_rounds :: "nat \<Rightarrow> 'b bucket_ops \<Rightarrow> string \<Rightarrow> string \<Rightarrow> 'b \<Rightarrow> repo_error + 'b" where
  "append_rounds 0 B key i b = Inl (Other (''packs/manifest is contended '' @ em_dash @ '' too many concurrent pushes''))"
| "append_rounds (Suc n) B key i b = rbind (manifest_read B key b) (\<lambda>((cur, etag), b).
     if i \<in> set cur then Inr b
     else rbind (manifest_try B key i cur etag b) (\<lambda>(landed, b).
       if landed then Inr b else append_rounds n B key i b))"

definition append_attempts :: nat where "append_attempts = 20"

definition append_to_manifest :: "'b bucket_ops \<Rightarrow> string \<Rightarrow> 'b bucket_view \<Rightarrow> repo_error + 'b bucket_view" where
  "append_to_manifest B i v = rbind (append_rounds append_attempts B (bucket_key v manifest_key) i (bv_bucket v)) (\<lambda>b.
     Inr (v\<lparr>bv_bucket := b\<rparr>))"

section \<open>The operations of the transport\<close>

definition bucket_refs :: "'b bucket_ops \<Rightarrow> 'b bucket_view \<Rightarrow> repo_error + (string \<times> string) list \<times> 'b bucket_view" where
  "bucket_refs B v = rbind (read_refs B heads_prefix v) (\<lambda>(hs, v). rbind (read_refs B tags_prefix v) (\<lambda>(ts, v).
     Inr (map (\<lambda>(n, h). (heads_prefix @ n, h)) hs @ map (\<lambda>(n, h). (tags_prefix @ n, h)) ts, v)))"

definition bucket_missing :: "ext \<Rightarrow> 'b bucket_ops \<Rightarrow> string list \<Rightarrow> 'b bucket_view \<Rightarrow> repo_error + string list \<times> 'b bucket_view" where
  "bucket_missing E B ids v = rbind (ensure_index E B v) (\<lambda>v.
     Inr (filter (\<lambda>i. im_get (index_of v) i = None) ids, v))"

definition bucket_put_objects :: "ext \<Rightarrow> 'b bucket_ops \<Rightarrow> (string \<times> string) list \<Rightarrow> 'b bucket_view \<Rightarrow> repo_error + 'b bucket_view" where
  "bucket_put_objects E B objs v =
     (if objs = [] then Inr v
      else let body = wire_build E objs; p = blake3 E body
        in rbind (bk_put B (bucket_key v (pack_key p)) body (bv_bucket v)) (\<lambda>b.
           rbind (append_to_manifest B p (v\<lparr>bv_bucket := b\<rparr>)) (\<lambda>v. Inr (v\<lparr>bv_index := None\<rparr>))))"

definition bucket_put :: "ext \<Rightarrow> 'b bucket_ops \<Rightarrow> string \<Rightarrow> 'b bucket_view \<Rightarrow> repo_error + 'b bucket_view" where
  "bucket_put E B c v = bucket_put_objects E B [(blake3 E c, c)] v"

definition bucket_set_branch :: "'b bucket_ops \<Rightarrow> string \<Rightarrow> string \<Rightarrow> 'b bucket_view \<Rightarrow> repo_error + 'b bucket_view" where
  "bucket_set_branch B branch h v =
     (if \<not> safe_ref_name branch then Inl (BadRef branch)
      else let key = bucket_key v (heads_prefix @ branch); nl = [CHR 0x0A]
        in rbind (blob_get B key v) (\<lambda>(x, v).
           rbind (bk_put_if B key (h @ nl) (map_option snd x) (bv_bucket v)) (\<lambda>(landed, b).
           let v = v\<lparr>bv_bucket := b\<rparr> in
           if \<not> landed then Inl (Other (''ref '' @ branch @ '' changed concurrently '' @ em_dash @ '' fetch + retry''))
           else rbind (blob_get B (bucket_key v ''HEAD'') v) (\<lambda>(x, v).
             if x \<noteq> None then Inr v
             else rbind (bk_put B (bucket_key v ''HEAD'') (branch @ nl) (bv_bucket v)) (\<lambda>b. Inr (v\<lparr>bv_bucket := b\<rparr>))))))"

definition bucket_transport :: "ext \<Rightarrow> 'b bucket_ops \<Rightarrow> 'b bucket_view transport" where
  "bucket_transport E B = \<lparr>tr_refs = bucket_refs B, tr_get = fetch_object E B, tr_pack = get_pack E (fetch_object E B),
     tr_missing = bucket_missing E B, tr_put = bucket_put E B, tr_put_all = bucket_put_objects E B,
     tr_set_branch = bucket_set_branch B, tr_finish = Inr\<rparr>"

lemma bucket_transport_sel [simp]:
  "tr_refs (bucket_transport E B) = bucket_refs B" "tr_get (bucket_transport E B) = fetch_object E B"
  "tr_pack (bucket_transport E B) = get_pack E (fetch_object E B)" "tr_missing (bucket_transport E B) = bucket_missing E B"
  "tr_put_all (bucket_transport E B) = bucket_put_objects E B" "tr_set_branch (bucket_transport E B) = bucket_set_branch B"
  "tr_finish (bucket_transport E B) = Inr"
  by (simp_all add: bucket_transport_def)

section \<open>Whatever the bucket\<close>

text \<open>An object that comes out of a bucket has its digest as its id.\<close>

lemma wire_parse_hash: "wire_parse E body = Inr objs \<Longrightarrow> (i, c) \<in> set objs \<Longrightarrow> blake3 E c = i"
  using wire_parse_sound [of E body objs] by fastforce

lemma fetch_object_hash:
  assumes "fetch_object E B i v = Inr (c, v')"
  shows "blake3 E c = i"
proof -
  obtain pack objs where "wire_parse E pack = Inr objs" "map_of objs i = Some c"
    using assms by (auto simp: fetch_object_def res_simps split: if_splits)
  then show ?thesis using wire_parse_hash map_of_SomeD by metis
qed

interpretation any_bucket: checked_remote E "bucket_transport E B" "\<lambda>_. True" for E B
  by unfold_locales (auto simp: fetch_object_hash)

section \<open>Concurrent pushes\<close>

text \<open>
  Clients that add their packs to the list of a shared bucket at the same time: each runs the loop of
  \<open>append_to_manifest\<close>, one call on the bucket at a step, and the steps of the clients interleave
  freely. \<open>Reading n\<close> has \<open>n\<close> rounds left; \<open>Holding n\<close> has read the list and not written yet.
\<close>

datatype phase = Reading nat | Holding nat "string list" "string option" | Landed | Contended

record race =
  rc_bucket :: mem_store
  rc_phases :: "phase list"

inductive race_step :: "string \<Rightarrow> string list \<Rightarrow> race \<Rightarrow> race \<Rightarrow> bool" for key ids where
  race_read: "c < length (rc_phases s) \<Longrightarrow> rc_phases s ! c = Reading (Suc n) \<Longrightarrow>
    manifest_read mem_bucket key (rc_bucket s) = Inr ((cur, etag), b) \<Longrightarrow>
    race_step key ids s \<lparr>rc_bucket = b, rc_phases = (rc_phases s)[c := if ids ! c \<in> set cur then Landed else Holding n cur etag]\<rparr>"
| race_try: "c < length (rc_phases s) \<Longrightarrow> rc_phases s ! c = Holding n cur etag \<Longrightarrow>
    manifest_try mem_bucket key (ids ! c) cur etag (rc_bucket s) = Inr (won, b) \<Longrightarrow>
    race_step key ids s \<lparr>rc_bucket = b, rc_phases = (rc_phases s)[c := if won then Landed else Reading n]\<rparr>"
| race_give_up: "c < length (rc_phases s) \<Longrightarrow> rc_phases s ! c = Reading 0 \<Longrightarrow>
    race_step key ids s (s\<lparr>rc_phases := (rc_phases s)[c := Contended]\<rparr>)"

inductive_cases race_stepE: "race_step key ids s s'"

definition race_start :: "mem_store \<Rightarrow> string list \<Rightarrow> race" where
  "race_start b ids = \<lparr>rc_bucket = b, rc_phases = replicate (length ids) (Reading append_attempts)\<rparr>"

text \<open>The loop of one client is a run of these steps.\<close>

lemma append_rounds_steps:
  assumes "append_rounds n mem_bucket key (ids ! c) b = Inr b'" "c < length ps" "ps ! c = Reading n"
  shows "(race_step key ids)\<^sup>*\<^sup>* \<lparr>rc_bucket = b, rc_phases = ps\<rparr> \<lparr>rc_bucket = b', rc_phases = ps[c := Landed]\<rparr>"
  using assms
proof (induction n arbitrary: b ps)
  case (Suc n)
  from Suc.prems(1) obtain cur etag b1 where r: "manifest_read mem_bucket key b = Inr ((cur, etag), b1)"
    by (auto simp: res_simps)
  let ?s = "\<lparr>rc_bucket = b, rc_phases = ps\<rparr>"
  have read: "race_step key ids ?s \<lparr>rc_bucket = b1, rc_phases = ps[c := if ids ! c \<in> set cur then Landed else Holding n cur etag]\<rparr>"
    using race_read [of c ?s n key cur etag b1 ids] Suc.prems(2,3) r by simp
  show ?case
  proof (cases "ids ! c \<in> set cur")
    case True
    then show ?thesis using read Suc.prems(1) r by simp
  next
    case False
    then obtain landed b2 where t: "manifest_try mem_bucket key (ids ! c) cur etag b1 = Inr (landed, b2)"
        "(if landed then Inr b2 else append_rounds n mem_bucket key (ids ! c) b2) = Inr b'"
      using Suc.prems(1) r by (auto simp: res_simps)
    let ?h = "ps[c := Holding n cur etag]"
    have wrote: "race_step key ids \<lparr>rc_bucket = b1, rc_phases = ?h\<rparr> \<lparr>rc_bucket = b2, rc_phases = ps[c := if landed then Landed else Reading n]\<rparr>"
      using race_try [of c "\<lparr>rc_bucket = b1, rc_phases = ?h\<rparr>" n cur etag key ids landed b2] Suc.prems(2) t(1) by simp
    have first: "(race_step key ids)\<^sup>*\<^sup>* ?s \<lparr>rc_bucket = b2, rc_phases = ps[c := if landed then Landed else Reading n]\<rparr>"
      using read wrote False by auto
    show ?thesis
    proof (cases landed)
      case True
      then show ?thesis using first t(2) by simp
    next
      case False
      then have "(race_step key ids)\<^sup>*\<^sup>* \<lparr>rc_bucket = b2, rc_phases = ps[c := Reading n]\<rparr> \<lparr>rc_bucket = b', rc_phases = ps[c := Landed]\<rparr>"
        using Suc.IH [of b2 "ps[c := Reading n]"] t(2) Suc.prems(2) by simp
      then show ?thesis using first False by simp
    qed
  qed
qed simp

text \<open>What is in the list now, and the ETag it has.\<close>

definition packs_listed :: "string \<Rightarrow> mem_store \<Rightarrow> string list" where
  "packs_listed key b = (case im_get (ms_blobs b) key of None \<Rightarrow> [] | Some (d, _) \<Rightarrow> entry_lines d)"

definition etag_now :: "string \<Rightarrow> mem_store \<Rightarrow> string option" where
  "etag_now key b = map_option snd (im_get (ms_blobs b) key)"

text \<open>ETags are numbers of writes so far.\<close>

definition etag_old :: "mem_store \<Rightarrow> string option \<Rightarrow> bool" where
  "etag_old b e = (\<forall>x. e = Some x \<longrightarrow> (\<exists>n \<le> ms_seq b. x = show_nat n))"

definition landed :: "phase list \<Rightarrow> nat set" where
  "landed ps = {c. c < length ps \<and> ps ! c = Landed}"

lemma manifest_read_mem: "manifest_read mem_bucket key b = Inr ((packs_listed key b, etag_now key b), b)"
  by (simp add: manifest_read_def mem_bucket_def mem_get_def packs_listed_def etag_now_def split: option.split)

lemma manifest_try_mem:
  "manifest_try mem_bucket key i cur etag b =
     (if etag_now key b \<noteq> etag then Inr (False, b) else Inr (True, mem_write key (unlines (cur @ [i])) b))"
  by (simp add: manifest_try_def mem_bucket_def mem_put_if_def etag_now_def)

lemma mem_write_manifest:
  assumes "\<forall>l \<in> set ls. entry_text l"
  shows "packs_listed key (mem_write key (unlines ls) b) = ls"
    "etag_now key (mem_write key (unlines ls) b) = Some (show_nat (ms_seq b + 1))"
    "ms_seq (mem_write key (unlines ls) b) = ms_seq b + 1"
  using entry_lines_unlines [OF assms] by (simp_all add: packs_listed_def etag_now_def mem_write_def Let_def im_get_insert)

lemma etag_fresh: "etag_old b e \<Longrightarrow> e \<noteq> Some (show_nat (ms_seq b + 1))"
  using show_nat_inj by (fastforce simp: etag_old_def)

lemma etag_old_write:
  assumes "etag_old b e"
  shows "etag_old (mem_write key data b) e"
  unfolding etag_old_def
proof (intro allI impI)
  fix x assume "e = Some x"
  then obtain n where "n \<le> ms_seq b" "x = show_nat n" using assms by (auto simp: etag_old_def)
  then show "\<exists>n \<le> ms_seq (mem_write key data b). x = show_nat n" by (intro exI [of _ n]) (simp add: mem_write_def Let_def)
qed

lemma packs_listed_entries: "l \<in> set (packs_listed key b) \<Longrightarrow> entry_text l"
  by (auto simp: packs_listed_def split: option.splits dest: entry_lines_entries)

text \<open>
  What a client knows: a landed one is in the list \<open>ls\<close>; one that failed \<open>k\<close> times saw \<open>k\<close> packs
  of others arrive (\<open>g\<close> is their number), and one more if its ETag is out of date.
\<close>

definition phase_ok :: "string \<Rightarrow> mem_store \<Rightarrow> string list \<Rightarrow> nat \<Rightarrow> string \<Rightarrow> phase \<Rightarrow> bool" where
  "phase_ok key b ls g i p = (case p of
     Landed \<Rightarrow> i \<in> set ls
   | Contended \<Rightarrow> append_attempts \<le> g
   | Reading n \<Rightarrow> append_attempts \<le> n + g
   | Holding n cur e \<Rightarrow> etag_old b e \<and> i \<notin> set cur \<and>
       (if e = etag_now key b then cur = ls \<and> append_attempts \<le> n + 1 + g else append_attempts \<le> n + g))"

definition race_inv :: "string \<Rightarrow> string list \<Rightarrow> string list \<Rightarrow> race \<Rightarrow> bool" where
  "race_inv key ids old s = (length (rc_phases s) = length ids \<and> etag_old (rc_bucket s) (etag_now key (rc_bucket s)) \<and>
     (\<exists>new. packs_listed key (rc_bucket s) = old @ new \<and> distinct new \<and> set new \<inter> set old = {} \<and>
        set new \<subseteq> (!) ids ` landed (rc_phases s) \<and> length new \<le> card (landed (rc_phases s)) \<and>
        (\<forall>c < length ids. phase_ok key (rc_bucket s) (old @ new) (length new) (ids ! c) (rc_phases s ! c))))"

lemma landed_update:
  "c < length ps \<Longrightarrow> landed (ps[c := p]) = (if p = Landed then insert c (landed ps) else landed ps - {c})"
  by (auto simp: landed_def nth_list_update)

lemma update_all: "\<forall>d < n. P d (ps ! d) \<Longrightarrow> P c p \<Longrightarrow> \<forall>d < n. P d (ps[c := p] ! d)"
  by (cases "c < length ps") (auto simp: nth_list_update list_update_beyond not_less)

lemma landed_finite: "finite (landed ps)" "landed ps \<subseteq> {..<length ps}"
  by (auto simp: landed_def)

lemma race_inv_read:
  assumes inv: "race_inv key ids old s" and c: "c < length (rc_phases s)" "rc_phases s ! c = Reading (Suc n)"
  shows "race_inv key ids old \<lparr>rc_bucket = rc_bucket s, rc_phases = (rc_phases s)[c :=
    if ids ! c \<in> set (packs_listed key (rc_bucket s)) then Landed else Holding n (packs_listed key (rc_bucket s)) (etag_now key (rc_bucket s))]\<rparr>"
proof -
  let ?b = "rc_bucket s" and ?ps = "rc_phases s"
  let ?p = "if ids ! c \<in> set (packs_listed key ?b) then Landed else Holding n (packs_listed key ?b) (etag_now key ?b)"
  obtain new where new: "packs_listed key ?b = old @ new" "distinct new" "set new \<inter> set old = {}"
      "set new \<subseteq> (!) ids ` landed ?ps" "length new \<le> card (landed ?ps)"
      "\<forall>d < length ids. phase_ok key ?b (old @ new) (length new) (ids ! d) (?ps ! d)"
    and len: "length ?ps = length ids" and e: "etag_old ?b (etag_now key ?b)"
    using inv by (auto simp: race_inv_def)
  have "append_attempts \<le> Suc n + length new" using new(6) c len by (auto simp: phase_ok_def)
  then have "phase_ok key ?b (old @ new) (length new) (ids ! c) ?p" using e by (simp add: phase_ok_def new(1))
  with new(6) have ok: "\<forall>d < length ids. phase_ok key ?b (old @ new) (length new) (ids ! d) (?ps[c := ?p] ! d)"
    by (rule update_all)
  have "landed ?ps \<subseteq> landed (?ps[c := ?p])" using c by (auto simp: landed_update) (simp add: landed_def)
  then have more: "set new \<subseteq> (!) ids ` landed (?ps[c := ?p])" "length new \<le> card (landed (?ps[c := ?p]))"
    using new(4) order_trans [OF new(5) card_mono [OF landed_finite(1)]] by (meson image_mono order_trans)+
  then show ?thesis using new(1-3) ok len e unfolding race_inv_def by auto
qed

lemma race_inv_lost:
  assumes inv: "race_inv key ids old s" and c: "c < length (rc_phases s)" "rc_phases s ! c = Holding n cur etag"
    and lost: "etag_now key (rc_bucket s) \<noteq> etag"
  shows "race_inv key ids old \<lparr>rc_bucket = rc_bucket s, rc_phases = (rc_phases s)[c := Reading n]\<rparr>"
proof -
  let ?b = "rc_bucket s" and ?ps = "rc_phases s"
  obtain new where new: "packs_listed key ?b = old @ new" "distinct new" "set new \<inter> set old = {}"
      "set new \<subseteq> (!) ids ` landed ?ps" "length new \<le> card (landed ?ps)"
      "\<forall>d < length ids. phase_ok key ?b (old @ new) (length new) (ids ! d) (?ps ! d)"
    and len: "length ?ps = length ids" and e: "etag_old ?b (etag_now key ?b)"
    using inv by (auto simp: race_inv_def)
  have "append_attempts \<le> n + length new" using new(6) c len lost by (auto simp: phase_ok_def)
  then have "\<forall>d < length ids. phase_ok key ?b (old @ new) (length new) (ids ! d) (?ps[c := Reading n] ! d)"
    using new(6) c(1) by (auto simp: nth_list_update phase_ok_def)
  moreover have "landed (?ps[c := Reading n]) = landed ?ps" using c by (auto simp: landed_update) (simp add: landed_def)
  ultimately show ?thesis using new(1-5) len e unfolding race_inv_def by auto
qed

lemma race_inv_won:
  assumes inv: "race_inv key ids old s" and c: "c < length (rc_phases s)" "rc_phases s ! c = Holding n cur etag"
    and won: "etag_now key (rc_bucket s) = etag" and i: "entry_text (ids ! c)"
  shows "race_inv key ids old \<lparr>rc_bucket = mem_write key (unlines (cur @ [ids ! c])) (rc_bucket s), rc_phases = (rc_phases s)[c := Landed]\<rparr>"
proof -
  let ?b = "rc_bucket s" and ?ps = "rc_phases s" and ?i = "ids ! c"
  obtain new where new: "packs_listed key ?b = old @ new" "distinct new" "set new \<inter> set old = {}"
      "set new \<subseteq> (!) ids ` landed ?ps" "length new \<le> card (landed ?ps)"
      "\<forall>d < length ids. phase_ok key ?b (old @ new) (length new) (ids ! d) (?ps ! d)"
    and len: "length ?ps = length ids" and e: "etag_old ?b (etag_now key ?b)"
    using inv by (auto simp: race_inv_def)
  have mine: "phase_ok key ?b (old @ new) (length new) ?i (Holding n cur etag)" using new(6) c len by metis
  then have cur: "cur = old @ new" "?i \<notin> set (old @ new)" using won by (auto simp: phase_ok_def)
  let ?b' = "mem_write key (unlines (cur @ [?i])) ?b"
  have "\<forall>l \<in> set (cur @ [?i]). entry_text l" using packs_listed_entries [of _ key ?b] new(1) cur(1) i by auto
  note w = mem_write_manifest [OF this, of key ?b]
  have old': "etag_old ?b x \<Longrightarrow> etag_old ?b' x" for x by (rule etag_old_write)
  have "phase_ok key ?b' (old @ new @ [?i]) (length new + 1) (ids ! d) (?ps ! d)" if "d < length ids" for d
  proof (cases "?ps ! d")
    case (Holding m cur' e')
    have "phase_ok key ?b (old @ new) (length new) (ids ! d) (Holding m cur' e')" using new(6) that Holding by metis
    then have h: "etag_old ?b e'" "ids ! d \<notin> set cur'" "append_attempts \<le> m + 1 + length new"
      by (simp_all add: phase_ok_def split: if_splits)
    then have "e' \<noteq> etag_now key ?b'" using etag_fresh [OF h(1)] w(2) by simp
    then show ?thesis using h old' Holding by (simp add: phase_ok_def)
  qed (use new(6) that in \<open>auto simp: phase_ok_def\<close>)
  then have "\<forall>d < length ids. phase_ok key ?b' (old @ (new @ [?i])) (length (new @ [?i])) (ids ! d) (?ps[c := Landed] ! d)"
    using c(1) by (auto simp: nth_list_update phase_ok_def)
  moreover have "packs_listed key ?b' = old @ (new @ [?i])" using w(1) cur(1) by simp
  moreover have "distinct (new @ [?i])" "set (new @ [?i]) \<inter> set old = {}" using new(2,3) cur(2) by auto
  moreover have l: "landed (?ps[c := Landed]) = insert c (landed ?ps)" "c \<notin> landed ?ps" using c landed_update by (simp, simp add: landed_def)
  then have "set (new @ [?i]) \<subseteq> (!) ids ` landed (?ps[c := Landed])" "length (new @ [?i]) \<le> card (landed (?ps[c := Landed]))"
    using new(4,5) landed_finite(1) by auto
  moreover have "etag_old ?b' (etag_now key ?b')" using w(2,3) by (auto simp: etag_old_def)
  moreover have "length (?ps[c := Landed]) = length ids" using len by simp
  ultimately show ?thesis unfolding race_inv_def by (simp only: race.simps) blast
qed

lemma race_inv_step:
  assumes "race_step key ids s s'" "race_inv key ids old s" "\<forall>i \<in> set ids. entry_text i"
  shows "race_inv key ids old s'"
  using assms(1)
proof (cases rule: race_step.cases)
  case (race_read c n cur etag b)
  then show ?thesis using race_inv_read [OF assms(2) race_read(2,3)] by (auto simp: manifest_read_mem)
next
  case (race_try c n cur etag won b)
  have "length (rc_phases s) = length ids" using assms(2) by (simp add: race_inv_def)
  then have "entry_text (ids ! c)" using assms(3) race_try(2) by simp
  then show ?thesis
    using race_try race_inv_lost [OF assms(2) race_try(2,3)] race_inv_won [OF assms(2) race_try(2,3)]
    by (auto simp: manifest_try_mem split: if_splits)
next
  case (race_give_up c)
  obtain new where new: "packs_listed key (rc_bucket s) = old @ new" "distinct new" "set new \<inter> set old = {}"
      "set new \<subseteq> (!) ids ` landed (rc_phases s)" "length new \<le> card (landed (rc_phases s))"
      "\<forall>d < length ids. phase_ok key (rc_bucket s) (old @ new) (length new) (ids ! d) (rc_phases s ! d)"
    and len: "length (rc_phases s) = length ids" and e: "etag_old (rc_bucket s) (etag_now key (rc_bucket s))"
    using assms(2) by (auto simp: race_inv_def)
  have "phase_ok key (rc_bucket s) (old @ new) (length new) (ids ! c) Contended"
    using new(6) race_give_up(2,3) len by (auto simp: phase_ok_def)
  with new(6) have ok: "\<forall>d < length ids. phase_ok key (rc_bucket s) (old @ new) (length new) (ids ! d) ((rc_phases s)[c := Contended] ! d)"
    by (rule update_all)
  have "landed ((rc_phases s)[c := Contended]) = landed (rc_phases s)"
    using race_give_up(2,3) by (auto simp: landed_update) (simp add: landed_def)
  then show ?thesis using new(1-5) len e ok unfolding race_inv_def race_give_up(1) by auto
qed

lemma race_inv_start:
  assumes "etag_old b (etag_now key b)"
  shows "race_inv key ids (packs_listed key b) (race_start b ids)"
  using assms by (auto simp: race_inv_def race_start_def phase_ok_def)

text \<open>Fewer clients than attempts: one that used all its attempts saw as many others land.\<close>

lemma race_inv_uncontended:
  assumes "race_inv key ids old s" "length ids \<le> append_attempts" "c < length ids"
  shows "rc_phases s ! c \<noteq> Contended" "rc_phases s ! c \<noteq> Reading 0"
proof -
  let ?ps = "rc_phases s"
  obtain new where new: "length new \<le> card (landed ?ps)"
      "phase_ok key (rc_bucket s) (old @ new) (length new) (ids ! c) (?ps ! c)" and len: "length ?ps = length ids"
    using assms(1,3) by (auto simp: race_inv_def)
  have "card (landed ?ps) < length ids" if "?ps ! c \<noteq> Landed"
  proof -
    have "landed ?ps \<subseteq> {..<length ids} - {c}" using that len by (auto simp: landed_def)
    then have "card (landed ?ps) \<le> card ({..<length ids} - {c})" by (rule card_mono [rotated]) simp
    then show ?thesis using assms(3) by simp
  qed
  then show "?ps ! c \<noteq> Contended" "?ps ! c \<noteq> Reading 0" using new assms(2) by (auto simp: phase_ok_def)
qed

text \<open>Every step brings its client nearer to the end.\<close>

definition phase_weight :: "phase \<Rightarrow> nat" where
  "phase_weight p = (case p of Landed \<Rightarrow> 0 | Contended \<Rightarrow> 0 | Reading n \<Rightarrow> 2 * n + 1 | Holding n _ _ \<Rightarrow> 2 * n + 2)"

definition race_weight :: "race \<Rightarrow> nat" where
  "race_weight s = sum_list (map phase_weight (rc_phases s))"

lemma sum_list_update_less:
  assumes "c < length ps" "f p < (f (ps ! c) :: nat)"
  shows "sum_list (map f (ps[c := p])) < sum_list (map f ps)"
  using assms
proof (induction ps arbitrary: c)
  case (Cons q ps)
  then show ?case by (cases c) auto
qed simp

lemma race_step_weight: "race_step key ids s s' \<Longrightarrow> race_weight s' < race_weight s"
  unfolding race_weight_def
  by (erule race_stepE) (auto intro!: sum_list_update_less simp: phase_weight_def)

lemma race_steps_weight: "(race_step key ids ^^ k) s s' \<Longrightarrow> race_weight s' + k \<le> race_weight s"
proof (induction k arbitrary: s')
  case (Suc k)
  then obtain s1 where "(race_step key ids ^^ k) s s1" "race_step key ids s1 s'" by auto
  then show ?case using Suc.IH race_step_weight by fastforce
qed simp

lemma race_reaches:
  assumes "(race_step key ids)\<^sup>*\<^sup>* (race_start b ids) s" "etag_old b (etag_now key b)" "\<forall>i \<in> set ids. entry_text i"
  shows "race_inv key ids (packs_listed key b) s"
  using assms(1)
proof (induction rule: rtranclp_induct)
  case base
  then show ?case using race_inv_start [OF assms(2)] .
next
  case (step s s')
  then show ?case using race_inv_step assms(3) by blast
qed

text \<open>A state without a next step is one where every client is done.\<close>

lemma race_stuck:
  assumes "\<nexists>s'. race_step key ids s s'" "c < length (rc_phases s)"
  shows "rc_phases s ! c = Landed \<or> rc_phases s ! c = Contended"
proof (cases "rc_phases s ! c")
  case (Reading n)
  show ?thesis
  proof (cases n)
    case 0
    then show ?thesis using race_give_up [OF assms(2)] Reading assms(1) by blast
  next
    case (Suc m)
    then show ?thesis using race_read [OF assms(2) _ manifest_read_mem] Reading assms(1) by blast
  qed
next
  case (Holding n cur etag)
  obtain won b where "manifest_try mem_bucket key (ids ! c) cur etag (rc_bucket s) = Inr (won, b)"
    by (metis manifest_try_mem)
  then show ?thesis using race_try [OF assms(2) Holding] assms(1) by blast
qed simp_all

lemma race_finishes: "\<exists>k s'. (race_step key ids ^^ k) s s' \<and> (\<nexists>s''. race_step key ids s' s'')"
proof (induction "race_weight s" arbitrary: s rule: less_induct)
  case less
  show ?case
  proof (cases "\<exists>s1. race_step key ids s s1")
    case True
    then obtain s1 where s1: "race_step key ids s s1" ..
    with less race_step_weight obtain k s' where "(race_step key ids ^^ k) s1 s'" "\<nexists>s''. race_step key ids s' s''" by blast
    then show ?thesis using relpowp_Suc_I2 [of "race_step key ids", OF s1] by blast
  next
    case False
    then show ?thesis by (intro exI [of _ 0] exI [of _ s]) simp
  qed
qed

section \<open>Properties\<close>

text \<open>
  C27. A fetch from a bucket that succeeds leaves everything the tip reaches here, whatever the bucket
  answered: a hostile one can make a fetch fail, not make it incomplete.
\<close>

theorem bucket_fetch_complete:
  assumes "fetch E r (bucket_transport E B) b v = Some (Inr (tip, n, r', v'))" "store_ok E r" "opened E r"
  shows "ahead E r r' \<and> complete E r' tip"
  using any_bucket.fetch_complete [OF assms(1) TrueI] assms(2,3) by (simp add: sound_def)

definition ref_bucket :: "mem_store bucket_view" where
  "ref_bucket = bucket_new \<lparr>ms_blobs = [(''r/refs/heads/main'', oid (CHR ''c'') @ [CHR 0x0A], ''1'')], ms_seq = 1\<rparr> ''/r/''"

theorem bucket_fetch_complete_witness:
  "\<exists>n r' v'. fetch world_ext world_repo (bucket_transport world_ext mem_bucket) ''main'' ref_bucket =
     Some (Inr (oid (CHR ''c''), n, r', v')) \<and> complete world_ext r' (oid (CHR ''c''))"
proof -
  have "(case fetch world_ext world_repo (bucket_transport world_ext mem_bucket) ''main'' ref_bucket of
      Some (Inr (tip, _)) \<Rightarrow> tip = oid (CHR ''c'') | _ \<Rightarrow> False)" by code_simp
  then obtain n r' v' where run: "fetch world_ext world_repo (bucket_transport world_ext mem_bucket) ''main'' ref_bucket =
      Some (Inr (oid (CHR ''c''), n, r', v'))"
    by (auto split: option.splits sum.splits)
  then show ?thesis using bucket_fetch_complete [OF run world_store_ok world_opened] by blast
qed

text \<open>
  C36. However the pushes of several clients interleave, the list of packs only grows at its end, by packs
  of clients that are done, none of them twice; a client that is done finds its pack in it; and with no
  more than 20 clients none gives up.
\<close>

theorem packs_are_kept:
  assumes "(race_step key ids)\<^sup>*\<^sup>* (race_start b ids) s" "etag_old b (etag_now key b)" "\<forall>i \<in> set ids. is_object_id i"
  shows "\<exists>new. packs_listed key (rc_bucket s) = packs_listed key b @ new \<and> distinct new \<and>
    set new \<inter> set (packs_listed key b) = {} \<and> set new \<subseteq> (!) ids ` landed (rc_phases s) \<and>
    (\<forall>c \<in> landed (rc_phases s). ids ! c \<in> set (packs_listed key (rc_bucket s))) \<and>
    (length ids \<le> append_attempts \<longrightarrow> Contended \<notin> set (rc_phases s))"
proof -
  have "\<forall>i \<in> set ids. entry_text i" using assms(3) object_id_word word_entry by blast
  then have inv: "race_inv key ids (packs_listed key b) s" by (rule race_reaches [OF assms(1,2)])
  then obtain new where new: "packs_listed key (rc_bucket s) = packs_listed key b @ new" "distinct new"
      "set new \<inter> set (packs_listed key b) = {}" "set new \<subseteq> (!) ids ` landed (rc_phases s)"
      "\<forall>c < length ids. phase_ok key (rc_bucket s) (packs_listed key b @ new) (length new) (ids ! c) (rc_phases s ! c)"
    and len: "length (rc_phases s) = length ids" by (auto simp: race_inv_def)
  have "\<forall>c \<in> landed (rc_phases s). ids ! c \<in> set (packs_listed key (rc_bucket s))"
    using new(1,5) len by (auto simp: landed_def phase_ok_def)
  moreover have "Contended \<notin> set (rc_phases s)" if "length ids \<le> append_attempts"
    using race_inv_uncontended(1) [OF inv that] len by (auto simp: in_set_conv_nth)
  ultimately show ?thesis using new(1-4) by blast
qed

text \<open>
  C39. Pushes of at most 20 clients to one bucket all get through: they take at most 41 steps each, and
  when no step is left every client has its pack in the list.
\<close>

theorem pushes_get_through:
  assumes "(race_step key ids ^^ k) (race_start b ids) s" "etag_old b (etag_now key b)" "\<forall>i \<in> set ids. is_object_id i"
    and "length ids \<le> append_attempts"
  shows "k \<le> length ids * (2 * append_attempts + 1) \<and> ((\<forall>s'. \<not> race_step key ids s s') \<longrightarrow>
    (\<forall>p \<in> set (rc_phases s). p = Landed) \<and> set (packs_listed key (rc_bucket s)) = set (packs_listed key b) \<union> set ids)"
proof -
  have "race_weight (race_start b ids) = length ids * (2 * append_attempts + 1)"
    by (simp add: race_weight_def race_start_def phase_weight_def sum_list_replicate)
  then have "k \<le> length ids * (2 * append_attempts + 1)" using race_steps_weight [OF assms(1)] by simp
  moreover have "(\<forall>p \<in> set (rc_phases s). p = Landed) \<and> set (packs_listed key (rc_bucket s)) = set (packs_listed key b) \<union> set ids"
    if stuck: "\<forall>s'. \<not> race_step key ids s s'"
  proof -
    have "(race_step key ids)\<^sup>*\<^sup>* (race_start b ids) s" using assms(1) by (rule relpowp_imp_rtranclp)
    moreover have "\<forall>i \<in> set ids. entry_text i" using assms(3) object_id_word word_entry by blast
    ultimately have inv: "race_inv key ids (packs_listed key b) s" by (intro race_reaches [OF _ assms(2)])
    then obtain new where new: "packs_listed key (rc_bucket s) = packs_listed key b @ new" "set new \<subseteq> (!) ids ` landed (rc_phases s)"
        "\<forall>c < length ids. phase_ok key (rc_bucket s) (packs_listed key b @ new) (length new) (ids ! c) (rc_phases s ! c)"
      and len: "length (rc_phases s) = length ids" by (auto simp: race_inv_def)
    have all: "rc_phases s ! c = Landed" if "c < length ids" for c
      using race_stuck [of key ids s c] stuck race_inv_uncontended(1) [OF inv assms(4) that] that len by auto
    then have "ids ! c \<in> set (packs_listed key b @ new)" if "c < length ids" for c
      using new(3) that by (auto simp: phase_ok_def)
    then have "set ids \<subseteq> set (packs_listed key b @ new)" by (metis in_set_conv_nth subsetI)
    moreover have "set new \<subseteq> set ids" using new(2) len by (auto simp: landed_def)
    ultimately show ?thesis using all new(1) len by (auto simp: in_set_conv_nth)
  qed
  ultimately show ?thesis by blast
qed

definition two_packs :: "string list" where
  "two_packs = [oid (CHR ''a''), oid (CHR ''b'')]"

definition fresh_bucket :: mem_store where
  "fresh_bucket = \<lparr>ms_blobs = [], ms_seq = 0\<rparr>"

lemma fresh_bucket_ok: "etag_old fresh_bucket (etag_now manifest_key fresh_bucket)" "packs_listed manifest_key fresh_bucket = []"
    "\<forall>i \<in> set two_packs. is_object_id i" "length two_packs \<le> append_attempts"
proof -
  show "etag_old fresh_bucket (etag_now manifest_key fresh_bucket)" "packs_listed manifest_key fresh_bucket = []"
    by (simp_all add: fresh_bucket_def etag_old_def etag_now_def packs_listed_def im_get_def)
  have "list_all is_object_id two_packs" by code_simp
  then show "\<forall>i \<in> set two_packs. is_object_id i" by (simp add: list_all_iff)
qed (simp add: two_packs_def append_attempts_def)

theorem pushes_get_through_witness:
  "\<exists>k s. (race_step manifest_key two_packs ^^ k) (race_start fresh_bucket two_packs) s \<and>
     set (packs_listed manifest_key (rc_bucket s)) = set two_packs"
proof -
  obtain k s where run: "(race_step manifest_key two_packs ^^ k) (race_start fresh_bucket two_packs) s"
      "\<nexists>s'. race_step manifest_key two_packs s s'" using race_finishes by blast
  then show ?thesis using pushes_get_through [OF run(1) fresh_bucket_ok(1,3,4)] fresh_bucket_ok(2) by auto
qed

theorem packs_are_kept_witness:
  "\<exists>s. (race_step manifest_key two_packs)\<^sup>*\<^sup>* (race_start fresh_bucket two_packs) s \<and> s \<noteq> race_start fresh_bucket two_packs \<and>
     Contended \<notin> set (rc_phases s)"
proof -
  obtain s where s: "race_step manifest_key two_packs (race_start fresh_bucket two_packs) s"
    using race_stuck [of manifest_key two_packs "race_start fresh_bucket two_packs" 0]
    by (auto simp: race_start_def two_packs_def)
  then have "s \<noteq> race_start fresh_bucket two_packs" using race_step_weight by fastforce
  then show ?thesis using packs_are_kept [OF r_into_rtranclp [of "race_step manifest_key two_packs", OF s] fresh_bucket_ok(1,3)]
      fresh_bucket_ok(4) s by blast
qed

text \<open>
  Setting a branch of a bucket does not look at the commit it replaces: the tag it writes against is
  the one it has just read, so a push overwrites whatever another push put there before.
\<close>

theorem set_branch_overwrites:
  assumes "safe_ref_name b"
  shows "\<exists>v'. bucket_set_branch mem_bucket b h v = Inr v' \<and>
    map_option fst (im_get (ms_blobs (bv_bucket v')) (bucket_key v (heads_prefix @ b))) = Some (h @ [CHR 0x0A])"
proof -
  have key: "bucket_key v (heads_prefix @ b) \<noteq> bucket_key v ''HEAD''" by (simp add: bucket_key_def heads_prefix_def)
  let ?b = "mem_write (bucket_key v (heads_prefix @ b)) (h @ [CHR 0x0A]) (bv_bucket v)"
  have "bucket_key (v\<lparr>bv_bucket := x\<rparr>) = bucket_key v" for x by (simp add: bucket_key_def fun_eq_iff)
  then show ?thesis
    using assms key by (auto simp: bucket_set_branch_def Let_def blob_get_def mem_bucket_def mem_get_def mem_put_if_def mem_put_def
        mem_write_def im_get_insert)
qed

theorem set_branch_overwrites_witness:
  "\<exists>v'. bucket_set_branch mem_bucket ''main'' (oid (CHR ''a'')) ref_bucket = Inr v' \<and>
     map_option fst (im_get (ms_blobs (bv_bucket v')) ''r/refs/heads/main'') = Some (oid (CHR ''a'') @ [CHR 0x0A])"
proof -
  have "safe_ref_name ''main''" "bucket_key ref_bucket (heads_prefix @ ''main'') = ''r/refs/heads/main''" by code_simp+
  then show ?thesis using set_branch_overwrites [of "''main''" "oid (CHR ''a'')" ref_bucket] by simp
qed

end
