(* ===== verification/RepoSnapshot.thy ===== *)
theory RepoSnapshot imports
  World RepoRemote
begin

text \<open>
  \<^verbatim>\<open>crates/repo/src/snapshot.rs\<close>, \<^verbatim>\<open>chunk_cache.rs\<close> and \<^verbatim>\<open>verify.rs\<close>: a world
  directory becomes a manifest of objects. The world is a tree of its own beside that of the
  repository; where the repository lies inside the world its directory is the path \<open>home\<close>. The parallel
  loops over files and chunks are sequential here, in the order of the tree.
\<close>

section \<open>Tools and bytes\<close>

text \<open>What comes from other packages: the compressors, the NBT codec, JSON of the cache, the process id.\<close>

record world_tools =
  wt_compress :: compressors
  wt_codec :: nbt_codec
  wt_cache_json :: "(string \<times> string) list \<Rightarrow> string"
  wt_cache_parse :: "string \<Rightarrow> (string \<times> string) list option"
  wt_pid :: string

definition canonical_text :: "world_tools \<Rightarrow> nbt_value \<Rightarrow> string" where
  "canonical_text T v = chars (canonical_bytes (to_binary (wt_codec T)) v)"

definition decode_raw :: "world_tools \<Rightarrow> raw_chunk \<Rightarrow> anvil_error + nbt_value" where
  "decode_raw T ch = decode_chunk (wt_compress T) (wt_codec T) ch"

section \<open>The cache of chunk ids\<close>

record chunk_cache =
  cc_map :: "(string \<times> string) list"
  cc_dirty :: bool

definition cache_path :: path where "cache_path = [''chunkcache.json'']"

definition cache_key :: "ext \<Rightarrow> raw_chunk \<Rightarrow> string" where
  "cache_key E ch = show_nat (unat (comp_to_byte (rc_compression ch))) @ '':'' @ blake3 E (chars (rc_payload ch))"

definition cache_load :: "world_tools \<Rightarrow> fs \<Rightarrow> chunk_cache" where
  "cache_load T d = \<lparr>cc_map = (case fs_read d cache_path of Inl _ \<Rightarrow> []
     | Inr s \<Rightarrow> (case wt_cache_parse T s of None \<Rightarrow> [] | Some m \<Rightarrow> m)), cc_dirty = False\<rparr>"

definition cache_get :: "chunk_cache \<Rightarrow> string \<Rightarrow> string option" where
  "cache_get c k = im_get (cc_map c) k"

definition cache_set :: "string \<Rightarrow> string \<Rightarrow> chunk_cache \<Rightarrow> chunk_cache" where
  "cache_set k i c = \<lparr>cc_map = im_insert k i (cc_map c), cc_dirty = True\<rparr>"

definition cache_save :: "world_tools \<Rightarrow> chunk_cache \<Rightarrow> fs \<Rightarrow> repo_error + fs" where
  "cache_save T c d =
     (if \<not> cc_dirty c then Inr d
      else let tmp = [''chunkcache.json.'' @ wt_pid T @ ''.tmp'']
        in rbind (fs_write tmp (wt_cache_json T (cc_map c)) d) (fs_rename tmp cache_path))"

section \<open>Classifying files\<close>

datatype sink = Pack_sink repo | Hash_only

record snap =
  sn_writer :: pack_writer
  sn_disk :: fs
  sn_cache :: "chunk_cache option"

definition snap_put :: "ext \<Rightarrow> sink \<Rightarrow> string \<Rightarrow> snap \<Rightarrow> repo_error + string \<times> snap" where
  "snap_put E sink content s = (let i = blake3 E content in case sink of
     Hash_only \<Rightarrow> Inr (i, s)
   | Pack_sink r \<Rightarrow>
       if store_exists r i then Inr (i, s)
       else rbind (push_packed i (zenc E content) (sn_writer s) (sn_disk s)) (\<lambda>(w, d).
         Inr (i, s\<lparr>sn_writer := w, sn_disk := d\<rparr>)))"

definition pos_text :: "chunk_pos \<Rightarrow> string" where
  "pos_text p = show_i32 (pos_x p) @ '','' @ show_i32 (pos_z p)"

definition cache_hit :: "ext \<Rightarrow> sink \<Rightarrow> raw_chunk \<Rightarrow> snap \<Rightarrow> string option" where
  "cache_hit E sink ch s = (case sn_cache s of None \<Rightarrow> None | Some c \<Rightarrow>
     (case cache_get c (cache_key E ch) of None \<Rightarrow> None | Some i \<Rightarrow>
        if (case sink of Pack_sink r \<Rightarrow> store_exists r i | Hash_only \<Rightarrow> True) then Some i else None))"

fun chunk_ids :: "ext \<Rightarrow> world_tools \<Rightarrow> sink \<Rightarrow> raw_chunk list \<Rightarrow> smap \<Rightarrow> snap \<Rightarrow> repo_error + smap option \<times> snap" where
  "chunk_ids E T sink [] m s = Inr (Some m, s)"
| "chunk_ids E T sink (ch # chs) m s = (case cache_hit E sink ch s of
     Some i \<Rightarrow> chunk_ids E T sink chs (bm_insert (pos_text (rc_pos ch)) i m) s
   | None \<Rightarrow> (case decode_raw T ch of
       Inl _ \<Rightarrow> Inr (None, s)
     | Inr v \<Rightarrow> rbind (snap_put E sink (canonical_text T v) s) (\<lambda>(i, s).
         chunk_ids E T sink chs (bm_insert (pos_text (rc_pos ch)) i m)
           (s\<lparr>sn_cache := map_option (cache_set (cache_key E ch) i) (sn_cache s)\<rparr>))))"

definition try_chunks :: "ext \<Rightarrow> world_tools \<Rightarrow> sink \<Rightarrow> fs \<Rightarrow> path \<Rightarrow> snap \<Rightarrow> repo_error + smap option \<times> snap" where
  "try_chunks E T sink w p s = (case region_open (directory_of w (butlast p)) (last p) of
     Inl _ \<Rightarrow> Inr (None, s)
   | Inr rf \<Rightarrow> chunk_ids E T sink (region_chunks rf) [] s)"

definition try_nbt :: "ext \<Rightarrow> world_tools \<Rightarrow> sink \<Rightarrow> fs \<Rightarrow> path \<Rightarrow> snap \<Rightarrow> repo_error + string option \<times> snap" where
  "try_nbt E T sink w p s = (case fs_read w p of
     Inl _ \<Rightarrow> Inr (None, s)
   | Inr b \<Rightarrow> (case load_nbt_bytes (wt_compress T) (wt_codec T) (octets b) of
       Inl _ \<Rightarrow> Inr (None, s)
     | Inr v \<Rightarrow> rbind (snap_put E sink (canonical_text T v) s) (\<lambda>(i, s). Inr (Some i, s))))"

datatype kind = Region_kind smap | Nbt_kind string | Blob_kind string

definition classify_blob :: "ext \<Rightarrow> sink \<Rightarrow> fs \<Rightarrow> path \<Rightarrow> snap \<Rightarrow> repo_error + kind \<times> snap" where
  "classify_blob E sink w p s = rbind (fs_read w p) (\<lambda>b. rbind (snap_put E sink b s) (\<lambda>(i, s). Inr (Blob_kind i, s)))"

definition classify_nbt :: "ext \<Rightarrow> world_tools \<Rightarrow> sink \<Rightarrow> fs \<Rightarrow> path \<Rightarrow> snap \<Rightarrow> repo_error + kind \<times> snap" where
  "classify_nbt E T sink w p s =
     (if ends_with ''.dat'' (map lower_ascii (rel_path p))
      then rbind (try_nbt E T sink w p s) (\<lambda>(h, s). case h of
        Some i \<Rightarrow> Inr (Nbt_kind i, s) | None \<Rightarrow> classify_blob E sink w p s)
      else classify_blob E sink w p s)"

definition classify :: "ext \<Rightarrow> world_tools \<Rightarrow> sink \<Rightarrow> fs \<Rightarrow> path \<Rightarrow> snap \<Rightarrow> repo_error + kind \<times> snap" where
  "classify E T sink w p s =
     (if is_region (rel_path p)
      then rbind (try_chunks E T sink w p s) (\<lambda>(m, s). case m of
        Some m \<Rightarrow> Inr (Region_kind m, s) | None \<Rightarrow> classify_nbt E T sink w p s)
      else classify_nbt E T sink w p s)"

section \<open>Snapshots\<close>

definition in_repo :: "path option \<Rightarrow> path \<Rightarrow> bool" where
  "in_repo home p = (case home of None \<Rightarrow> False | Some q \<Rightarrow> under q p)"

definition world_files :: "fs \<Rightarrow> path option \<Rightarrow> path list" where
  "world_files w home = map fst (filter (\<lambda>(p, n). \<not> in_repo home p \<and> n \<noteq> Dir \<and> last p \<noteq> ''session.lock'') w)"

definition world_dirs :: "fs \<Rightarrow> path option \<Rightarrow> path list" where
  "world_dirs w home = filter (\<lambda>p. \<not> in_repo home p) ([] # map fst (filter (\<lambda>(_, n). n = Dir) w))"

definition add_entry :: "string \<Rightarrow> kind \<Rightarrow> manifest \<Rightarrow> manifest" where
  "add_entry rel k m = (case k of
     Region_kind c \<Rightarrow> m\<lparr>regions := bm_insert rel c (regions m)\<rparr>
   | Nbt_kind i \<Rightarrow> m\<lparr>nbt_files := bm_insert rel i (nbt_files m)\<rparr>
   | Blob_kind i \<Rightarrow> m\<lparr>blobs := bm_insert rel i (blobs m)\<rparr>)"

fun add_files :: "ext \<Rightarrow> world_tools \<Rightarrow> sink \<Rightarrow> fs \<Rightarrow> path list \<Rightarrow> manifest \<Rightarrow> snap \<Rightarrow> repo_error + manifest \<times> snap" where
  "add_files E T sink w [] m s = Inr (m, s)"
| "add_files E T sink w (p # ps) m s = rbind (classify E T sink w p s) (\<lambda>(k, s).
     add_files E T sink w ps (add_entry (rel_path p) k m) s)"

definition empty_paths :: "fs \<Rightarrow> path list \<Rightarrow> string list" where
  "empty_paths w ds = filter (\<lambda>r. r \<noteq> []) (map rel_path (filter (\<lambda>d. read_dir w d = Some []) ds))"

definition build :: "ext \<Rightarrow> world_tools \<Rightarrow> sink \<Rightarrow> fs \<Rightarrow> path option \<Rightarrow> (string \<Rightarrow> bool) \<Rightarrow> snap \<Rightarrow> repo_error + manifest \<times> snap" where
  "build E T sink w home accept s =
     rbind (add_files E T sink w (filter (\<lambda>p. accept (rel_path p)) (world_files w home)) empty_manifest s) (\<lambda>(m, s).
       Inr (m\<lparr>empty_dirs := sort (empty_paths w (filter (\<lambda>p. accept (rel_path p)) (world_dirs w home)))\<rparr>, s))"

definition snapshot_scoped :: "ext \<Rightarrow> world_tools \<Rightarrow> fs \<Rightarrow> path option \<Rightarrow> (string \<Rightarrow> bool) \<Rightarrow> repo \<Rightarrow> repo_error + manifest \<times> repo" where
  "snapshot_scoped E T w home accept r =
     rbind (pw_new (disk r)) (\<lambda>(wr, d).
     rbind (build E T (Pack_sink r) w home accept \<lparr>sn_writer = wr, sn_disk = d, sn_cache = Some (cache_load T d)\<rparr>) (\<lambda>(m, s).
     rbind (finish_pack E (sn_writer s) (sn_disk s)) (\<lambda>(new, d).
     let r = (if new = None then r\<lparr>disk := d\<rparr> else reload_packs E (r\<lparr>disk := d\<rparr>))
     in rbind (case sn_cache s of None \<Rightarrow> Inr (disk r) | Some c \<Rightarrow> cache_save T c (disk r)) (\<lambda>d.
       Inr (m, r\<lparr>disk := d\<rparr>)))))"

definition snapshot :: "ext \<Rightarrow> world_tools \<Rightarrow> fs \<Rightarrow> path option \<Rightarrow> repo \<Rightarrow> repo_error + manifest \<times> repo" where
  "snapshot E T w home r = snapshot_scoped E T w home (\<lambda>_. True) r"

definition no_writer :: pack_writer where
  "no_writer = \<lparr>pw_index = [], pw_offset = 0\<rparr>"

definition hash_only :: "ext \<Rightarrow> world_tools \<Rightarrow> fs \<Rightarrow> path option \<Rightarrow> repo \<Rightarrow> repo_error + manifest" where
  "hash_only E T w home r =
     rbind (build E T Hash_only w home (\<lambda>_. True)
       \<lparr>sn_writer = no_writer, sn_disk = [], sn_cache = Some (cache_load T (disk r))\<rparr>) (\<lambda>(m, _). Inr m)"

section \<open>Verifying a world\<close>

definition world_tree :: "ext \<Rightarrow> world_tools \<Rightarrow> fs \<Rightarrow> path option \<Rightarrow> repo \<Rightarrow> repo_error + string" where
  "world_tree E T w home r = rbind (hash_only E T w home r) (\<lambda>m. Inr (blake3 E (manifest_json E m)))"

definition verify_commit :: "ext \<Rightarrow> world_tools \<Rightarrow> fs \<Rightarrow> path option \<Rightarrow> string \<Rightarrow> repo \<Rightarrow> repo_error + bool \<times> string \<times> string" where
  "verify_commit E T w home commit r =
     rbind (read_commit E r commit) (\<lambda>co. rbind (world_tree E T w home r) (\<lambda>candidate.
       Inr (candidate = tree co, candidate, tree co)))"

section \<open>What a snapshot is\<close>

text \<open>
  The snapshot without a cache and without a store: the kind and the ids of every file, as functions
  of its bytes.
\<close>

fun plain_ids :: "ext \<Rightarrow> world_tools \<Rightarrow> raw_chunk list \<Rightarrow> smap \<Rightarrow> smap option" where
  "plain_ids E T [] m = Some m"
| "plain_ids E T (ch # chs) m = (case decode_raw T ch of Inl _ \<Rightarrow> None
     | Inr v \<Rightarrow> plain_ids E T chs (bm_insert (pos_text (rc_pos ch)) (blake3 E (canonical_text T v)) m))"

definition file_chunks :: "fs \<Rightarrow> path \<Rightarrow> raw_chunk list" where
  "file_chunks w p = (case region_open (directory_of w (butlast p)) (last p) of Inl _ \<Rightarrow> [] | Inr rf \<Rightarrow> region_chunks rf)"

definition plain_region :: "ext \<Rightarrow> world_tools \<Rightarrow> fs \<Rightarrow> path \<Rightarrow> smap option" where
  "plain_region E T w p = (case region_open (directory_of w (butlast p)) (last p) of
     Inl _ \<Rightarrow> None | Inr rf \<Rightarrow> plain_ids E T (region_chunks rf) [])"

definition plain_nbt :: "ext \<Rightarrow> world_tools \<Rightarrow> string \<Rightarrow> string option" where
  "plain_nbt E T b = (case load_nbt_bytes (wt_compress T) (wt_codec T) (octets b) of
     Inl _ \<Rightarrow> None | Inr v \<Rightarrow> Some (blake3 E (canonical_text T v)))"

definition plain_file :: "ext \<Rightarrow> world_tools \<Rightarrow> string \<Rightarrow> string \<Rightarrow> kind" where
  "plain_file E T rel b = (case (if ends_with ''.dat'' (map lower_ascii rel) then plain_nbt E T b else None) of
     Some i \<Rightarrow> Nbt_kind i | None \<Rightarrow> Blob_kind (blake3 E b))"

definition plain_kind :: "ext \<Rightarrow> world_tools \<Rightarrow> fs \<Rightarrow> path \<Rightarrow> string \<Rightarrow> kind" where
  "plain_kind E T w p b = (case (if is_region (rel_path p) then plain_region E T w p else None) of
     Some m \<Rightarrow> Region_kind m | None \<Rightarrow> plain_file E T (rel_path p) b)"

definition plain_manifest :: "ext \<Rightarrow> world_tools \<Rightarrow> fs \<Rightarrow> path option \<Rightarrow> (string \<Rightarrow> bool) \<Rightarrow> manifest" where
  "plain_manifest E T w home accept =
     (fold (\<lambda>p m. add_entry (rel_path p) (plain_kind E T w p (the (contents w p))) m)
       (filter (\<lambda>p. accept (rel_path p)) (world_files w home)) empty_manifest)
     \<lparr>empty_dirs := sort (empty_paths w (filter (\<lambda>p. accept (rel_path p)) (world_dirs w home)))\<rparr>"

text \<open>
  A cache tells the truth about chunks when each id it has for one is that of its canonical bytes; and
  chunks with the same key must be the same, that is, the digest must not collide on their payloads.
\<close>

definition keys_tell :: "ext \<Rightarrow> world_tools \<Rightarrow> raw_chunk set \<Rightarrow> bool" where
  "keys_tell E T S = (\<forall>a \<in> S. \<forall>b \<in> S. cache_key E a = cache_key E b \<longrightarrow> decode_raw T a = decode_raw T b)"

definition cache_true :: "ext \<Rightarrow> world_tools \<Rightarrow> raw_chunk set \<Rightarrow> chunk_cache option \<Rightarrow> bool" where
  "cache_true E T S c = (\<forall>c'. c = Some c' \<longrightarrow> (\<forall>a \<in> S. \<forall>i. cache_get c' (cache_key E a) = Some i \<longrightarrow>
     (\<exists>v. decode_raw T a = Inr v \<and> i = blake3 E (canonical_text T v))))"

definition world_chunks :: "fs \<Rightarrow> path option \<Rightarrow> raw_chunk set" where
  "world_chunks w home = (\<Union>p \<in> set (world_files w home). set (file_chunks w p))"

lemma cache_true_set:
  assumes "cache_true E T S c" "keys_tell E T S" "a \<in> S" "decode_raw T a = Inr v"
  shows "cache_true E T S (map_option (cache_set (cache_key E a) (blake3 E (canonical_text T v))) c)"
  unfolding cache_true_def
proof (intro allI impI ballI)
  fix c' b i
  assume c': "map_option (cache_set (cache_key E a) (blake3 E (canonical_text T v))) c = Some c'" and b: "b \<in> S"
    and g: "cache_get c' (cache_key E b) = Some i"
  then obtain c0 where c0: "c = Some c0" "c' = cache_set (cache_key E a) (blake3 E (canonical_text T v)) c0" by auto
  show "\<exists>v. decode_raw T b = Inr v \<and> i = blake3 E (canonical_text T v)"
  proof (cases "cache_key E b = cache_key E a")
    case True
    then have "decode_raw T b = Inr v" using assms(2-4) b unfolding keys_tell_def by metis
    then show ?thesis using g True by (simp add: c0(2) cache_get_def cache_set_def im_get_insert)
  next
    case False
    then have "cache_get c0 (cache_key E b) = Some i" using g by (simp add: c0(2) cache_get_def cache_set_def im_get_insert)
    then show ?thesis using assms(1) c0(1) b unfolding cache_true_def by blast
  qed
qed

lemma snap_put_id:
  assumes "snap_put E sink b s = Inr (i, s')"
  shows "i = blake3 E b" "sn_cache s' = sn_cache s"
  using assms by (auto simp: snap_put_def Let_def res_simps split: sink.splits if_splits)

lemma chunk_ids_plain:
  assumes "chunk_ids E T sink chs m s = Inr (x, s')" "set chs \<subseteq> S" "keys_tell E T S" "cache_true E T S (sn_cache s)"
  shows "x = plain_ids E T chs m \<and> cache_true E T S (sn_cache s')"
  using assms(1,2,4)
proof (induction chs arbitrary: m s)
  case (Cons ch chs)
  show ?case
  proof (cases "cache_hit E sink ch s")
    case (Some i)
    then obtain v where "decode_raw T ch = Inr v" "i = blake3 E (canonical_text T v)"
      using Cons.prems(2,3) unfolding cache_hit_def cache_true_def by (auto split: option.splits if_splits)
    then show ?thesis using Cons Some by simp
  next
    case None
    show ?thesis
    proof (cases "decode_raw T ch")
      case (Inr v)
      with Cons.prems(1) None obtain i s1 where 1: "snap_put E sink (canonical_text T v) s = Inr (i, s1)"
          "chunk_ids E T sink chs (bm_insert (pos_text (rc_pos ch)) i m)
             (s1\<lparr>sn_cache := map_option (cache_set (cache_key E ch) i) (sn_cache s1)\<rparr>) = Inr (x, s')"
        by (auto simp: res_simps)
      note i = snap_put_id [OF 1(1)]
      have "ch \<in> S" using Cons.prems(2) by simp
      from cache_true_set [OF Cons.prems(3) assms(3) this Inr] i
      show ?thesis using Cons.IH [OF 1(2)] Cons.prems(2) Inr by simp
    qed (use Cons.prems None in simp)
  qed
qed simp

lemma try_chunks_plain:
  assumes "try_chunks E T sink w p s = Inr (x, s')" "set (file_chunks w p) \<subseteq> S" "keys_tell E T S" "cache_true E T S (sn_cache s)"
  shows "x = plain_region E T w p \<and> cache_true E T S (sn_cache s')"
  using assms chunk_ids_plain [OF _ _ assms(3,4)]
  by (auto simp: try_chunks_def plain_region_def file_chunks_def split: sum.splits)

lemma try_nbt_plain:
  assumes "try_nbt E T sink w p s = Inr (x, s')" "fs_read w p = Inr b"
  shows "x = plain_nbt E T b \<and> sn_cache s' = sn_cache s"
  using assms by (auto simp: try_nbt_def plain_nbt_def res_simps dest: snap_put_id split: sum.splits)

lemma classify_nbt_plain:
  assumes "classify_nbt E T sink w p s = Inr (k, s')"
  shows "\<exists>b. contents w p = Some b \<and> k = plain_file E T (rel_path p) b \<and> sn_cache s' = sn_cache s"
proof -
  have blob: "\<exists>b. contents w p = Some b \<and> k = Blob_kind (blake3 E b) \<and> sn_cache s' = sn_cache s1"
    if "classify_blob E sink w p s1 = Inr (k, s')" for s1
    using that by (auto simp: classify_blob_def res_simps fs_read_iff dest: snap_put_id)
  show ?thesis
  proof (cases "ends_with ''.dat'' (map lower_ascii (rel_path p))")
    case False
    then show ?thesis using blob [of s] assms by (auto simp: classify_nbt_def plain_file_def)
  next
    case True
    with assms obtain h s1 where 1: "try_nbt E T sink w p s = Inr (h, s1)"
        "(case h of Some i \<Rightarrow> Inr (Nbt_kind i, s1) | None \<Rightarrow> classify_blob E sink w p s1) = Inr (k, s')"
      by (auto simp: classify_nbt_def res_simps)
    show ?thesis
    proof (cases h)
      case None
      then obtain b where b: "contents w p = Some b" "k = Blob_kind (blake3 E b)" "sn_cache s' = sn_cache s1"
        using 1(2) blob by auto
      then have "None = plain_nbt E T b \<and> sn_cache s1 = sn_cache s"
        using try_nbt_plain [OF 1(1)] None by (simp add: fs_read_iff)
      then show ?thesis using b True by (auto simp: plain_file_def)
    next
      case (Some i)
      then obtain b where b: "fs_read w p = Inr b" using 1(1) by (auto simp: try_nbt_def split: sum.splits)
      then have "Some i = plain_nbt E T b \<and> sn_cache s1 = sn_cache s" using try_nbt_plain [OF 1(1)] Some by simp
      then show ?thesis using b True 1(2) Some by (auto simp: plain_file_def fs_read_iff split: option.splits)
    qed
  qed
qed

lemma classify_plain:
  assumes "classify E T sink w p s = Inr (k, s')" "set (file_chunks w p) \<subseteq> S" "keys_tell E T S" "cache_true E T S (sn_cache s)"
  shows "(\<exists>b. contents w p = Some b) \<and> k = plain_kind E T w p (the (contents w p)) \<and> cache_true E T S (sn_cache s')"
proof (cases "is_region (rel_path p)")
  case False
  then show ?thesis using assms(1,4) classify_nbt_plain [of E T sink w p s] by (auto simp: classify_def plain_kind_def)
next
  case True
  with assms(1) obtain x s1 where 1: "try_chunks E T sink w p s = Inr (x, s1)"
      "(case x of Some m \<Rightarrow> Inr (Region_kind m, s1) | None \<Rightarrow> classify_nbt E T sink w p s1) = Inr (k, s')"
    by (auto simp: classify_def res_simps)
  note t = try_chunks_plain [OF 1(1) assms(2-4)]
  show ?thesis
  proof (cases x)
    case None
    then show ?thesis using 1(2) t True classify_nbt_plain [of E T sink w p s1] by (auto simp: plain_kind_def)
  next
    case (Some m)
    have "p \<noteq> []" using True by (auto simp: is_region_def rel_path_def ends_with_def strip_suffix_def strip_prefix_def)
    then have "butlast p @ [last p] = p" by simp
    moreover have "region_open (directory_of w (butlast p)) (last p) \<in> range Inr"
      using 1(1) Some by (auto simp: try_chunks_def split: sum.splits)
    ultimately have "\<exists>b. contents w p = Some b"
      by (auto simp: region_open_def directory_of_def contents_def split: option.splits fnode.splits node.splits)
    then show ?thesis using 1(2) t True Some by (auto simp: plain_kind_def split: option.splits)
  qed
qed

lemma add_files_plain:
  assumes "add_files E T sink w ps m s = Inr (m', s')" "(\<Union>p \<in> set ps. set (file_chunks w p)) \<subseteq> S" "keys_tell E T S"
    "cache_true E T S (sn_cache s)"
  shows "m' = fold (\<lambda>p m. add_entry (rel_path p) (plain_kind E T w p (the (contents w p))) m) ps m \<and>
    cache_true E T S (sn_cache s')"
  using assms(1,2,4)
proof (induction ps arbitrary: m s)
  case (Cons p ps)
  then obtain k s1 where 1: "classify E T sink w p s = Inr (k, s1)" "add_files E T sink w ps (add_entry (rel_path p) k m) s1 = Inr (m', s')"
    by (auto simp: res_simps)
  have p: "set (file_chunks w p) \<subseteq> S" "(\<Union>p \<in> set ps. set (file_chunks w p)) \<subseteq> S" using Cons.prems(2) by auto
  note c = classify_plain [OF 1(1) p(1) assms(3) Cons.prems(3)]
  from Cons.IH [OF 1(2) p(2)] c show ?case by simp
qed simp

lemma build_plain:
  assumes "build E T sink w home accept s = Inr (m, s')" "keys_tell E T (world_chunks w home)"
    "cache_true E T (world_chunks w home) (sn_cache s)"
  shows "m = plain_manifest E T w home accept \<and> cache_true E T (world_chunks w home) (sn_cache s')"
proof -
  obtain m0 where 1: "add_files E T sink w (filter (\<lambda>p. accept (rel_path p)) (world_files w home)) empty_manifest s = Inr (m0, s')"
      "m = m0\<lparr>empty_dirs := sort (empty_paths w (filter (\<lambda>p. accept (rel_path p)) (world_dirs w home)))\<rparr>"
    using assms(1) by (auto simp: build_def res_simps)
  have "(\<Union>p \<in> set (filter (\<lambda>p. accept (rel_path p)) (world_files w home)). set (file_chunks w p)) \<subseteq> world_chunks w home"
    by (auto simp: world_chunks_def)
  from add_files_plain [OF 1(1) this assms(2,3)] show ?thesis using 1(2) by (simp add: plain_manifest_def)
qed

section \<open>Where the objects of a snapshot go\<close>

text \<open>A snapshot under way: the pack being written, and the tree of the repository around it.\<close>

definition packing :: "ext \<Rightarrow> repo \<Rightarrow> snap \<Rightarrow> bool" where
  "packing E r s = (is_dir (sn_disk s) pack_dir \<and> dirs_kept (disk r) (sn_disk s) \<and>
     (\<forall>q. q \<noteq> pw_tmp \<longrightarrow> contents (sn_disk s) q = contents (disk r) q) \<and>
     (\<exists>objs. pw_inv E objs (sn_writer s) (sn_disk s) \<and> (\<forall>i c. objs i = Some c \<longrightarrow> blake3 E c = i)))"

definition held :: "repo \<Rightarrow> snap \<Rightarrow> string \<Rightarrow> bool" where
  "held r s i = (store_exists r i \<or> bm_get (pw_index (sn_writer s)) i \<noteq> None)"

definition keeps_on :: "ext \<Rightarrow> repo \<Rightarrow> snap \<Rightarrow> snap \<Rightarrow> bool" where
  "keeps_on E r s s' = (packing E r s' \<and> (\<forall>i. held r s i \<longrightarrow> held r s' i))"

lemma keeps_on_refl: "packing E r s \<Longrightarrow> keeps_on E r s s"
  by (simp add: keeps_on_def)

lemma keeps_on_trans: "keeps_on E r a b \<Longrightarrow> keeps_on E r b c \<Longrightarrow> keeps_on E r a c"
  by (simp add: keeps_on_def)

lemma keeps_on_cache: "keeps_on E r s s' \<Longrightarrow> keeps_on E r s (s'\<lparr>sn_cache := c\<rparr>)"
  by (simp add: keeps_on_def packing_def held_def)

lemma snap_put_keeps:
  assumes "snap_put E (Pack_sink r) b s = Inr (i, s')" "packing E r s"
  shows "keeps_on E r s s' \<and> held r s' i"
proof (cases "store_exists r (blake3 E b)")
  case True
  then show ?thesis using assms by (auto simp: snap_put_def keeps_on_refl held_def)
next
  case False
  then obtain w d where i: "i = blake3 E b" "pw_add E i b (sn_writer s) (sn_disk s) = Inr (w, d)" "s' = s\<lparr>sn_writer := w, sn_disk := d\<rparr>"
    using assms(1) by (auto simp: snap_put_def Let_def res_simps pw_add_def)
  obtain objs where objs: "pw_inv E objs (sn_writer s) (sn_disk s)" "\<forall>i c. objs i = Some c \<longrightarrow> blake3 E c = i"
    using assms(2) by (auto simp: packing_def)
  note inv = pw_add_inv [OF objs(1) i(2)]
  have dirs: "dirs_kept (sn_disk s) d"
  proof (cases "bm_get (pw_index (sn_writer s)) i = None")
    case True
    then show ?thesis using i(2) dirs_kept_append by (auto simp: pw_add_def push_packed_def res_simps)
  next
    case False
    then show ?thesis using i(2) by (auto simp: pw_add_def push_packed_def res_simps dirs_kept_def split: if_splits)
  qed
  have idx: "bm_get (pw_index w) i \<noteq> None" "bm_get (pw_index (sn_writer s)) j \<noteq> None \<longrightarrow> bm_get (pw_index w) j \<noteq> None" for j
    using i(2) objs(1) by (auto simp: pw_add_def push_packed_def res_simps pw_inv_def bm_get_insert split: if_splits)
  have "packing E r s'"
    unfolding packing_def
  proof (intro conjI)
    show "\<exists>objs. pw_inv E objs (sn_writer s') (sn_disk s') \<and> (\<forall>i c. objs i = Some c \<longrightarrow> blake3 E c = i)"
      using inv(1) objs(2) i by (intro exI [of _ "if objs i = None then objs(i \<mapsto> b) else objs"]) auto
    show "is_dir (sn_disk s') pack_dir" "dirs_kept (disk r) (sn_disk s')"
      using assms(2) dirs i(3) dirs_kept_trans by (auto simp: packing_def dirs_kept_def)
    show "\<forall>q. q \<noteq> pw_tmp \<longrightarrow> contents (sn_disk s') q = contents (disk r) q"
      using assms(2) inv(2) i(3) by (simp add: packing_def)
  qed
  then show ?thesis using idx i(3) by (simp add: keeps_on_def held_def)
qed

lemma bm_insert_set: "set (bm_insert k v m) \<subseteq> insert (k, v) (set m)"
  by (induction m) (auto split: if_splits)

lemma bm_insert_snd: "snd ` set (bm_insert k v m) \<subseteq> insert v (snd ` set m)"
  using image_mono [OF bm_insert_set [of k v m], of snd] by simp

lemma chunk_ids_keeps:
  assumes "chunk_ids E T (Pack_sink r) chs m s = Inr (x, s')" "packing E r s" "\<forall>i \<in> snd ` set m. held r s i"
  shows "keeps_on E r s s' \<and> (\<forall>m'. x = Some m' \<longrightarrow> (\<forall>i \<in> snd ` set m'. held r s' i))"
  using assms
proof (induction chs arbitrary: m s)
  case (Cons ch chs)
  let ?k = "pos_text (rc_pos ch)"
  have grown: "\<forall>j \<in> snd ` set (bm_insert ?k i m). held r s1 j" if "held r s1 i" "keeps_on E r s s1" for i s1
    using that Cons.prems(3) subsetD [OF bm_insert_snd [of ?k i m]] unfolding keeps_on_def by blast
  show ?case
  proof (cases "cache_hit E (Pack_sink r) ch s")
    case (Some i)
    then have "held r s i" by (auto simp: cache_hit_def held_def split: option.splits if_splits)
    then show ?thesis using Cons.IH [OF _ Cons.prems(2) grown] Cons.prems(1,2) Some keeps_on_refl by auto
  next
    case None
    show ?thesis
    proof (cases "decode_raw T ch")
      case (Inl e)
      then show ?thesis using Cons.prems(1,2) None keeps_on_refl by auto
    next
      case (Inr v)
      with Cons.prems(1) None obtain i s1 where 1: "snap_put E (Pack_sink r) (canonical_text T v) s = Inr (i, s1)"
          "chunk_ids E T (Pack_sink r) chs (bm_insert ?k i m)
             (s1\<lparr>sn_cache := map_option (cache_set (cache_key E ch) i) (sn_cache s1)\<rparr>) = Inr (x, s')"
        by (auto simp: res_simps)
      let ?s1 = "s1\<lparr>sn_cache := map_option (cache_set (cache_key E ch) i) (sn_cache s1)\<rparr>"
      have p: "keeps_on E r s ?s1" "held r ?s1 i"
        using snap_put_keeps [OF 1(1) Cons.prems(2)] keeps_on_cache by (auto simp: held_def)
      have "packing E r ?s1" using p(1) by (simp add: keeps_on_def)
      from Cons.IH [OF 1(2) this grown [OF p(2,1)]] show ?thesis using keeps_on_trans [OF p(1)] by blast
    qed
  qed
qed (auto simp: keeps_on_refl)

definition kind_ids :: "kind \<Rightarrow> string list" where
  "kind_ids k = (case k of Region_kind m \<Rightarrow> map snd m | Nbt_kind i \<Rightarrow> [i] | Blob_kind i \<Rightarrow> [i])"

lemma classify_nbt_keeps:
  assumes "classify_nbt E T (Pack_sink r) w p s = Inr (k, s')" "packing E r s"
  shows "keeps_on E r s s' \<and> (\<forall>i \<in> set (kind_ids k). held r s' i)"
proof -
  have blob: "keeps_on E r s1 s' \<and> (\<forall>i \<in> set (kind_ids k). held r s' i)"
    if "classify_blob E (Pack_sink r) w p s1 = Inr (k, s')" "packing E r s1" for s1
    using that snap_put_keeps by (auto simp: classify_blob_def res_simps kind_ids_def)
  show ?thesis
  proof (cases "ends_with ''.dat'' (map lower_ascii (rel_path p))")
    case False
    then show ?thesis using assms blob by (simp add: classify_nbt_def)
  next
    case True
    with assms(1) obtain h s1 where 1: "try_nbt E T (Pack_sink r) w p s = Inr (h, s1)"
        "(case h of Some i \<Rightarrow> Inr (Nbt_kind i, s1) | None \<Rightarrow> classify_blob E (Pack_sink r) w p s1) = Inr (k, s')"
      by (auto simp: classify_nbt_def res_simps)
    have "keeps_on E r s s1 \<and> (\<forall>i. h = Some i \<longrightarrow> held r s1 i)"
      using 1(1) snap_put_keeps assms(2) by (auto simp: try_nbt_def res_simps keeps_on_refl split: sum.splits)
    then show ?thesis using 1(2) blob keeps_on_trans by (cases h) (auto simp: kind_ids_def keeps_on_def)
  qed
qed

lemma classify_keeps:
  assumes "classify E T (Pack_sink r) w p s = Inr (k, s')" "packing E r s"
  shows "keeps_on E r s s' \<and> (\<forall>i \<in> set (kind_ids k). held r s' i)"
proof (cases "is_region (rel_path p)")
  case False
  then show ?thesis using assms classify_nbt_keeps by (simp add: classify_def)
next
  case True
  with assms(1) obtain x s1 where 1: "try_chunks E T (Pack_sink r) w p s = Inr (x, s1)"
      "(case x of Some m \<Rightarrow> Inr (Region_kind m, s1) | None \<Rightarrow> classify_nbt E T (Pack_sink r) w p s1) = Inr (k, s')"
    by (auto simp: classify_def res_simps)
  have t: "keeps_on E r s s1 \<and> (\<forall>m'. x = Some m' \<longrightarrow> (\<forall>i \<in> snd ` set m'. held r s1 i))"
  proof (cases "region_open (directory_of w (butlast p)) (last p)")
    case (Inl e)
    then show ?thesis using 1(1) assms(2) by (auto simp: try_chunks_def keeps_on_refl)
  next
    case (Inr rf)
    then have "chunk_ids E T (Pack_sink r) (region_chunks rf) [] s = Inr (x, s1)" using 1(1) by (simp add: try_chunks_def)
    from chunk_ids_keeps [OF this assms(2)] show ?thesis by simp
  qed
  then show ?thesis
  proof (cases x)
    case None
    then have "classify_nbt E T (Pack_sink r) w p s1 = Inr (k, s')" using 1(2) by simp
    moreover have "packing E r s1" using t by (simp add: keeps_on_def)
    ultimately have n: "keeps_on E r s1 s' \<and> (\<forall>i \<in> set (kind_ids k). held r s' i)" by (rule classify_nbt_keeps)
    then show ?thesis using t keeps_on_trans by blast
  qed (use 1(2) t in \<open>auto simp: kind_ids_def\<close>)
qed

lemma region_ids_insert:
  "(\<Union>x \<in> set (bm_insert k c rs). snd ` set (snd x)) \<subseteq> snd ` set c \<union> (\<Union>x \<in> set rs. snd ` set (snd x))"
proof -
  have "(\<Union>x \<in> set (bm_insert k c rs). snd ` set (snd x)) \<subseteq> (\<Union>x \<in> insert (k, c) (set rs). snd ` set (snd x))"
    by (rule UN_mono [OF bm_insert_set]) simp
  then show ?thesis by simp
qed

lemma manifest_ids_set:
  "set (manifest_ids m) = (\<Union>x \<in> set (regions m). snd ` set (snd x)) \<union> snd ` set (nbt_files m) \<union> snd ` set (blobs m)"
  by (simp add: manifest_ids_def split_def Un_assoc)

lemma add_entry_ids: "set (manifest_ids (add_entry rel k m)) \<subseteq> set (kind_ids k) \<union> set (manifest_ids m)"
proof (cases k)
  case (Region_kind c)
  have more: "A \<subseteq> C \<union> B \<Longrightarrow> A \<union> X \<union> Y \<subseteq> C \<union> (B \<union> X \<union> Y)" for A B C X Y :: "string set" by blast
  have "regions (m\<lparr>regions := x\<rparr>) = x" "nbt_files (m\<lparr>regions := x\<rparr>) = nbt_files m" "blobs (m\<lparr>regions := x\<rparr>) = blobs m" for x
    by simp_all
  then show ?thesis unfolding manifest_ids_set Region_kind
    using more [OF region_ids_insert [of rel c "regions m"]]
    by (simp only: add_entry_def kind_ids_def kind.case set_map)
next
  case (Nbt_kind i)
  then show ?thesis using bm_insert_snd [of rel i "nbt_files m"]
    by (simp add: manifest_ids_set add_entry_def kind_ids_def) blast
next
  case (Blob_kind i)
  then show ?thesis using bm_insert_snd [of rel i "blobs m"]
    by (simp add: manifest_ids_set add_entry_def kind_ids_def) blast
qed

lemma add_files_keeps:
  assumes "add_files E T (Pack_sink r) w ps m s = Inr (m', s')" "packing E r s" "\<forall>i \<in> set (manifest_ids m). held r s i"
  shows "keeps_on E r s s' \<and> (\<forall>i \<in> set (manifest_ids m'). held r s' i)"
  using assms
proof (induction ps arbitrary: m s)
  case (Cons p ps)
  then obtain k s1 where 1: "classify E T (Pack_sink r) w p s = Inr (k, s1)"
      "add_files E T (Pack_sink r) w ps (add_entry (rel_path p) k m) s1 = Inr (m', s')"
    by (auto simp: res_simps)
  note c = classify_keeps [OF 1(1) Cons.prems(2)]
  have "packing E r s1" "\<forall>i \<in> set (manifest_ids (add_entry (rel_path p) k m)). held r s1 i"
    using c Cons.prems(3) subsetD [OF add_entry_ids [of "rel_path p" k m]] unfolding keeps_on_def by blast+
  from Cons.IH [OF 1(2) this] show ?case using c keeps_on_trans by blast
qed (auto simp: keeps_on_refl)

text \<open>Packs whose every object is there and hashes to its name; such packs stay so when one is added.\<close>

definition packs_true :: "ext \<Rightarrow> packfile list \<Rightarrow> bool" where
  "packs_true E ps = (\<forall>pf \<in> set ps. \<forall>i. is_object_id i \<and> pack_contains i pf \<longrightarrow>
     (\<exists>c. pack_read E i pf = Inr (Some c) \<and> blake3 E c = i))"

lemma packs_read_true:
  "packs_true E ps \<Longrightarrow> is_object_id i \<Longrightarrow>
   (case packs_read E i ps of Inl _ \<Rightarrow> False | Inr None \<Rightarrow> \<not> list_ex (pack_contains i) ps | Inr (Some c) \<Rightarrow> blake3 E c = i)"
proof (induction ps)
  case (Cons pf ps)
  then have IH: "case packs_read E i ps of Inl _ \<Rightarrow> False | Inr None \<Rightarrow> \<not> list_ex (pack_contains i) ps | Inr (Some c) \<Rightarrow> blake3 E c = i"
    by (simp add: packs_true_def)
  show ?case
  proof (cases "pack_contains i pf")
    case True
    then obtain c where "pack_read E i pf = Inr (Some c)" "blake3 E c = i" using Cons.prems by (auto simp: packs_true_def)
    then show ?thesis by simp
  next
    case False
    then have "bm_get (pk_index pf) i = None" by (simp add: pack_contains_def del: split_paired_All split_paired_Ex)
    then have "pack_read E i pf = Inr None" by (simp add: pack_read_def)
    then show ?thesis using IH False by (auto split: sum.splits option.splits)
  qed
qed simp

lemma load_packs_iff:
  assumes "fs_wf d \<or> is_dir d pack_dir"
  shows "pf \<in> set (load_packs E d) \<longleftrightarrow> (\<exists>n stem s i b. file_ext n = Some (stem, ''idx'') \<and>
    contents d (pack_dir @ [n]) = Some s \<and> idx_parse E s = Some i \<and>
    contents d (pack_dir @ [stem @ ''.pack'']) = Some b \<and> pf = \<lparr>pk_bytes = b, pk_index = i\<rparr>)"
proof (cases "is_dir d pack_dir")
  case True
  have "pack_open E d p x = Inr pf \<longleftrightarrow> (\<exists>s i b. contents d x = Some s \<and> idx_parse E s = Some i \<and> contents d p = Some b \<and>
      pf = \<lparr>pk_bytes = b, pk_index = i\<rparr>)" for p x
    by (auto simp: pack_open_def res_simps fs_read_iff split: option.splits)
  moreover have "contents d q = Some s \<Longrightarrow> fs_exists d q" for q s by (rule contents_exists) simp
  ultimately show ?thesis unfolding load_packs_mem [OF True] by (intro iff_exI) auto
next
  case False
  then have "read_dir d pack_dir = None" by (simp add: read_dir_def)
  then have "load_packs E d = []" by (simp add: load_packs_def)
  moreover have "contents d (pack_dir @ [n]) = None" for n
    using False assms wf_parent [of d "pack_dir @ [n]"] contents_exists [of d "pack_dir @ [n]"] by (cases "contents d (pack_dir @ [n])") auto
  ultimately show ?thesis by simp
qed

lemma load_packs_grow:
  assumes "fs_wf d \<or> is_dir d pack_dir" "is_dir d' pack_dir"
    "\<And>n. contents d (pack_dir @ [n]) \<noteq> None \<Longrightarrow> pack_dir @ [n] \<noteq> pw_tmp \<Longrightarrow> contents d' (pack_dir @ [n]) = contents d (pack_dir @ [n])"
    "\<And>q. q \<noteq> pw_tmp \<Longrightarrow> q \<noteq> pack_path k \<Longrightarrow> q \<noteq> idx_path k \<Longrightarrow> contents d' q = contents d q"
    "pack_open E d' (pack_path k) (idx_path k) = Inr pf"
  shows "set (load_packs E d) \<subseteq> set (load_packs E d')" "set (load_packs E d') \<subseteq> insert pf (set (load_packs E d))"
    "pf \<in> set (load_packs E d')"
proof -
  have new: "file_ext (''pack-'' @ k @ ''.idx'') = Some (''pack-'' @ k, ''idx'')" using file_ext_idx [of "''pack-'' @ k"] by simp
  have other: "pack_dir @ [n] \<noteq> pw_tmp" "pack_dir @ [stem @ ''.pack''] \<noteq> pw_tmp"
      "pack_dir @ [n] \<noteq> pack_path i" "pack_dir @ [stem @ ''.pack''] \<noteq> idx_path i"
    if "file_ext n = Some (stem, ''idx'')" for n stem i
    using file_ext_name [OF that] by (auto simp: pw_tmp_def pack_path_def idx_path_def dest!: arg_cong [of _ _ last])
  show "set (load_packs E d) \<subseteq> set (load_packs E d')"
  proof
    fix p assume "p \<in> set (load_packs E d)"
    then obtain n stem s i b where p: "file_ext n = Some (stem, ''idx'')" "contents d (pack_dir @ [n]) = Some s"
        "idx_parse E s = Some i" "contents d (pack_dir @ [stem @ ''.pack'']) = Some b" "p = \<lparr>pk_bytes = b, pk_index = i\<rparr>"
      unfolding load_packs_iff [OF assms(1)] by blast
    have "contents d' (pack_dir @ [n]) = Some s" "contents d' (pack_dir @ [stem @ ''.pack'']) = Some b"
      using assms(3) [of n] assms(3) [of "stem @ ''.pack''"] p(2,4) other(1,2) [OF p(1)] by simp_all
    then show "p \<in> set (load_packs E d')" unfolding load_packs_iff [OF disjI2 [OF assms(2)]] using p by blast
  qed
  have pf: "\<exists>s i b. contents d' (idx_path k) = Some s \<and> idx_parse E s = Some i \<and> contents d' (pack_path k) = Some b \<and>
      pf = \<lparr>pk_bytes = b, pk_index = i\<rparr>"
    using assms(5) by (auto simp: pack_open_def res_simps fs_read_iff split: option.splits)
  then show "pf \<in> set (load_packs E d')"
    unfolding load_packs_iff [OF disjI2 [OF assms(2)]] pack_path_def idx_path_def using new append_assoc by metis
  show "set (load_packs E d') \<subseteq> insert pf (set (load_packs E d))"
  proof
    fix p assume "p \<in> set (load_packs E d')"
    then obtain n stem s i b where p: "file_ext n = Some (stem, ''idx'')" "contents d' (pack_dir @ [n]) = Some s"
        "idx_parse E s = Some i" "contents d' (pack_dir @ [stem @ ''.pack'']) = Some b" "p = \<lparr>pk_bytes = b, pk_index = i\<rparr>"
      unfolding load_packs_iff [OF disjI2 [OF assms(2)]] by blast
    show "p \<in> insert pf (set (load_packs E d))"
    proof (cases "pack_dir @ [n] = idx_path k")
      case True
      then have "pack_dir @ [stem @ ''.pack''] = pack_path k" using file_ext_name [OF p(1)] by (simp add: idx_path_def pack_path_def)
      then show ?thesis using True p pf by auto
    next
      case False
      then have "pack_dir @ [stem @ ''.pack''] \<noteq> pack_path k" using file_ext_name [OF p(1)] by (auto simp: idx_path_def pack_path_def)
      then have "contents d (pack_dir @ [n]) = Some s" "contents d (pack_dir @ [stem @ ''.pack'']) = Some b"
        using assms(4) [of "pack_dir @ [n]"] assms(4) [of "pack_dir @ [stem @ ''.pack'']"] False other [OF p(1)] p(2,4) by simp_all
      then have "p \<in> set (load_packs E d)" unfolding load_packs_iff [OF assms(1)] using p(1,3,5) by blast
      then show ?thesis by simp
    qed
  qed
qed

lemma pw_new_packing:
  assumes "pw_new (disk r) = Inr (wr, d)"
  shows "packing E r \<lparr>sn_writer = wr, sn_disk = d, sn_cache = c\<rparr>" "pw_index wr = []"
proof -
  obtain d1 where 1: "create_dir_all pack_dir (disk r) = Inr d1" "fs_write pw_tmp [] d1 = Inr d" "wr = \<lparr>pw_index = [], pw_offset = 0\<rparr>"
    using assms by (auto simp: pw_new_def res_simps)
  have "dirs_kept (disk r) d"
    using make_dirs_dirs [OF 1(1) [unfolded create_dir_all_def]] dirs_kept_write [OF 1(2)] dirs_kept_trans by blast
  moreover have "is_dir d1 pack_dir" using 1(2) by (simp add: fs_write_iff pw_tmp_def)
  then have "is_dir d pack_dir" using dirs_kept_write [OF 1(2)] by (simp add: dirs_kept_def)
  moreover note pw_new_inv [OF assms, of E]
  ultimately show "packing E r \<lparr>sn_writer = wr, sn_disk = d, sn_cache = c\<rparr>"
    by (auto simp: packing_def intro!: exI [of _ Map.empty])
  show "pw_index wr = []" by (simp add: 1(3))
qed

lemma cache_save_contents: "cache_save T c d = Inr d' \<Longrightarrow> 2 \<le> length q \<Longrightarrow> contents d' q = contents d q"
proof -
  assume s: "cache_save T c d = Inr d'" and q: "2 \<le> length q"
  let ?tmp = "[''chunkcache.json.'' @ wt_pid T @ ''.tmp'']"
  have "?tmp \<noteq> cache_path" by (auto simp: cache_path_def dest: arg_cong [of _ _ length])
  then show ?thesis using s q contents_rename_file [of ?tmp cache_path _ d' "wt_cache_json T (cc_map c)"]
    by (auto simp: cache_save_def res_simps contents_write cache_path_def Let_def split: if_splits)
qed

lemma snapshot_cases:
  assumes "snapshot_scoped E T w home accept r = Inr (m, r')"
  obtains wr d0 s new d where "pw_new (disk r) = Inr (wr, d0)"
    "build E T (Pack_sink r) w home accept \<lparr>sn_writer = wr, sn_disk = d0, sn_cache = Some (cache_load T d0)\<rparr> = Inr (m, s)"
    "finish_pack E (sn_writer s) (sn_disk s) = Inr (new, d)"
    "packs r' = (if new = None then packs r else load_packs E d)"
    "(case sn_cache s of None \<Rightarrow> Inr d | Some c \<Rightarrow> cache_save T c d) = Inr (disk r')"
    "\<And>q. 2 \<le> length q \<Longrightarrow> contents (disk r') q = contents d q"
proof -
  obtain wr d0 s new d d' where 1: "pw_new (disk r) = Inr (wr, d0)"
      "build E T (Pack_sink r) w home accept \<lparr>sn_writer = wr, sn_disk = d0, sn_cache = Some (cache_load T d0)\<rparr> = Inr (m, s)"
      "finish_pack E (sn_writer s) (sn_disk s) = Inr (new, d)"
      "(case sn_cache s of None \<Rightarrow> Inr (disk (if new = None then r\<lparr>disk := d\<rparr> else reload_packs E (r\<lparr>disk := d\<rparr>)))
         | Some c \<Rightarrow> cache_save T c (disk (if new = None then r\<lparr>disk := d\<rparr> else reload_packs E (r\<lparr>disk := d\<rparr>)))) = Inr d'"
      "r' = (if new = None then r\<lparr>disk := d\<rparr> else reload_packs E (r\<lparr>disk := d\<rparr>))\<lparr>disk := d'\<rparr>"
    using assms unfolding snapshot_scoped_def Let_def by (auto simp only: rbind_Inr_iff prod.case split_paired_Ex sum.inject prod.inject)
  have "disk (if new = None then r\<lparr>disk := d\<rparr> else reload_packs E (r\<lparr>disk := d\<rparr>)) = d" by (simp add: reload_packs_def)
  note 1 = 1(1-3) 1(4) [unfolded this] 1(5)
  have far: "contents (disk r') q = contents d q" if "2 \<le> length q" for q
    using 1(4,5) cache_save_contents [OF _ that] by (cases "sn_cache s") auto
  have "packs r' = (if new = None then packs r else load_packs E d)" "disk r' = d'" using 1(5) by (simp_all add: reload_packs_def)
  then show ?thesis using that [OF 1(1-3)] 1(4) far by simp
qed

lemma build_keeps:
  assumes "build E T (Pack_sink r) w home accept s = Inr (m, s')" "packing E r s"
  shows "keeps_on E r s s' \<and> (\<forall>i \<in> set (manifest_ids m). held r s' i)"
proof -
  obtain m0 where 1: "add_files E T (Pack_sink r) w (filter (\<lambda>p. accept (rel_path p)) (world_files w home)) empty_manifest s = Inr (m0, s')"
      "m = m0\<lparr>empty_dirs := sort (empty_paths w (filter (\<lambda>p. accept (rel_path p)) (world_dirs w home)))\<rparr>"
    using assms(1) by (auto simp: build_def res_simps)
  have "manifest_ids m = manifest_ids m0" by (simp add: 1(2) manifest_ids_def)
  moreover have "manifest_ids empty_manifest = []" by (simp add: manifest_ids_def empty_manifest_def)
  ultimately show ?thesis using add_files_keeps [OF 1(1) assms(2)] by simp
qed

lemma held_ids: "packing E r s \<Longrightarrow> zstd_ok E \<Longrightarrow> bm_get (pw_index (sn_writer s)) i \<noteq> None \<Longrightarrow> is_object_id i"
proof -
  assume p: "packing E r s" "zstd_ok E" and i: "bm_get (pw_index (sn_writer s)) i \<noteq> None"
  then obtain objs bytes where o: "indexed_bytes E objs (pw_index (sn_writer s)) bytes" "\<forall>i c. objs i = Some c \<longrightarrow> blake3 E c = i"
    by (auto simp: packing_def pw_inv_def)
  then have "\<exists>c. objs i = Some c" using i unfolding indexed_bytes_def by (fastforce split: option.splits)
  then show ?thesis using o(2) p(2) by (auto simp: zstd_ok_def)
qed

lemma snapshot_store:
  assumes "snapshot_scoped E T w home accept r = Inr (m, r')" "store_ok E r" "packs_true E (packs r)" "opened E r"
    "fs_wf (disk r)" "idx_ok E"
    "\<And>n. contents (disk r) (pack_dir @ [n]) \<noteq> None \<Longrightarrow> pack_dir @ [n] \<noteq> pw_tmp \<Longrightarrow>
      contents (disk r') (pack_dir @ [n]) = contents (disk r) (pack_dir @ [n])"
    "i \<in> set (manifest_ids m) \<or> store_exists r i"
  shows "\<exists>c. store_read E r' i = Inr c \<and> blake3 E c = i"
proof -
  obtain wr d0 s new d where 1: "pw_new (disk r) = Inr (wr, d0)"
    "build E T (Pack_sink r) w home accept \<lparr>sn_writer = wr, sn_disk = d0, sn_cache = Some (cache_load T d0)\<rparr> = Inr (m, s)"
    "finish_pack E (sn_writer s) (sn_disk s) = Inr (new, d)"
    "packs r' = (if new = None then packs r else load_packs E d)"
    and far: "\<And>q. 2 \<le> length q \<Longrightarrow> contents (disk r') q = contents d q"
    by (rule snapshot_cases [OF assms(1)]) blast
  have zstd: "zstd_ok E" using assms(2) by (simp add: store_ok_def)
  note b = build_keeps [OF 1(2) pw_new_packing(1) [OF 1(1)]]
  then have pk: "packing E r s" and kept: "i \<in> set (manifest_ids m) \<Longrightarrow> held r s i" by (auto simp: keeps_on_def)
  then obtain objs where objs: "pw_inv E objs (sn_writer s) (sn_disk s)" "\<forall>i c. objs i = Some c \<longrightarrow> blake3 E c = i"
      and dir: "is_dir (sn_disk s) pack_dir" and same: "\<And>q. q \<noteq> pw_tmp \<Longrightarrow> contents (sn_disk s) q = contents (disk r) q"
    by (auto simp: packing_def)
  note fin = finish_pack_spec [OF 1(3) objs(1) zstd assms(6)]
  have held: "held r s i" using assms(8) kept by (auto simp: held_def)
  have loose: "contents (disk r') (object_path i) = contents (disk r) (object_path i)" if "is_object_id i"
  proof -
    have "object_path i \<noteq> pack_dir @ [n]" for n
      using that by (auto simp: object_path_def pack_dir_def is_object_id_def dest: arg_cong [of _ _ length])
    then show ?thesis using far [of "object_path i"] fin(2) [of "object_path i"] same [of "object_path i"]
      by (simp add: pw_tmp_def pack_path_def idx_path_def object_path_def)
  qed
  have grown: "set (packs r) \<subseteq> set (packs r') \<and> packs_true E (packs r') \<and>
      (bm_get (pw_index (sn_writer s)) i \<noteq> None \<longrightarrow> list_ex (pack_contains i) (packs r'))"
  proof (cases new)
    case None
    then have "objs i = None" for i by (rule fin(3))
    then have "bm_get (pw_index (sn_writer s)) i = None"
      using objs(1) unfolding pw_inv_def indexed_bytes_def by (fastforce split: option.splits)
    then show ?thesis using None 1(4) assms(3) by simp
  next
    case (Some k)
    from fin(4) [OF Some] obtain pf where pf: "pack_open E d (pack_path k) (idx_path k) = Inr pf" "\<And>j. pack_read E j pf = Inr (objs j)"
      by blast
    have d: "is_dir d pack_dir" using fin(1) dir by (simp add: dirs_kept_def)
    have "contents d (pack_dir @ [n]) = contents (disk r) (pack_dir @ [n])"
      if "contents (disk r) (pack_dir @ [n]) \<noteq> None" "pack_dir @ [n] \<noteq> pw_tmp" for n
      using assms(7) [OF that] far [of "pack_dir @ [n]"] by (simp add: pack_dir_def)
    moreover have "contents d q = contents (disk r) q" if "q \<noteq> pw_tmp" "q \<noteq> pack_path k" "q \<noteq> idx_path k" for q
      using fin(2) [of q] same [of q] that Some by simp
    ultimately have g: "set (load_packs E (disk r)) \<subseteq> set (load_packs E d)"
        "set (load_packs E d) \<subseteq> insert pf (set (load_packs E (disk r)))" "pf \<in> set (load_packs E d)"
      using load_packs_grow [OF disjI1 [OF assms(5)] d _ _ pf(1)] by blast+
    have in_pf: "pack_contains j pf \<longleftrightarrow> objs j \<noteq> None" for j
      using pf(2) [of j] by (auto simp: pack_contains_def pack_read_def res_simps dest: sym split: option.splits prod.splits if_splits)
    have "\<exists>c. pack_read E j pf = Inr (Some c) \<and> blake3 E c = j" if "pack_contains j pf" for j
      using that in_pf pf(2) objs(2) by auto
    then have "packs_true E (packs r')" using g(2) assms(3,4) 1(4) Some by (auto simp: packs_true_def opened_def)
    moreover have "list_ex (pack_contains i) (packs r')" if "bm_get (pw_index (sn_writer s)) i \<noteq> None"
    proof -
      have "objs i \<noteq> None" using that objs(1) unfolding pw_inv_def indexed_bytes_def by (fastforce split: option.splits)
      then show ?thesis using g(3) in_pf 1(4) Some by (auto simp: list_ex_iff)
    qed
    ultimately show ?thesis using g(1) assms(4) 1(4) Some by (simp add: opened_def)
  qed
  have i: "is_object_id i" using held held_ids [OF pk zstd] by (auto simp: held_def store_exists_def)
  from packs_read_true [OF conjunct1 [OF conjunct2 [OF grown]] i]
  consider (no) "packs_read E i (packs r') = Inr None" "\<not> list_ex (pack_contains i) (packs r')"
    | (yes) c where "packs_read E i (packs r') = Inr (Some c)" "blake3 E c = i"
    by (auto split: sum.splits option.splits)
  then show ?thesis
  proof cases
    case yes
    then show ?thesis using i by (simp add: store_read_def del: packs_read.simps)
  next
    case no
    then have "store_exists r i" using held grown by (auto simp: held_def list_ex_iff)
    then obtain c where c: "store_read E r i = Inr c" "blake3 E c = i" using assms(2) by (auto simp: store_ok_def)
    have "packs_read E i (packs r) = Inr None" unfolding packs_read_None using no(2) grown by (auto simp: list_ex_iff)
    then have "store_read E r' i = Inr c" using c(1) no(1) loose [OF i] i
      by (auto simp: store_read_def res_simps fs_read_iff simp del: packs_read.simps)
    then show ?thesis using c(2) by blast
  qed
qed

section \<open>The cache and the store do not change the result\<close>

lemma cache_load_cong: "contents d cache_path = contents d' cache_path \<Longrightarrow> cache_load T d = cache_load T d'"
proof -
  have "(case fs_read x cache_path of Inl _ \<Rightarrow> [] | Inr s \<Rightarrow> (case wt_cache_parse T s of None \<Rightarrow> [] | Some m \<Rightarrow> m)) =
      (case contents x cache_path of None \<Rightarrow> [] | Some s \<Rightarrow> (case wt_cache_parse T s of None \<Rightarrow> [] | Some m \<Rightarrow> m))" for x
    by (auto simp: fs_read_def contents_def split: option.splits node.splits)
  then show "contents d cache_path = contents d' cache_path \<Longrightarrow> cache_load T d = cache_load T d'" by (simp add: cache_load_def)
qed

lemma cache_load_new: "pw_new d = Inr (wr, d') \<Longrightarrow> cache_load T d' = cache_load T d"
proof -
  assume "pw_new d = Inr (wr, d')"
  then have "contents d' cache_path = contents d cache_path"
    by (auto dest!: pw_new_inv simp: cache_path_def pw_tmp_def pack_dir_def)
  then show ?thesis by (rule cache_load_cong)
qed

lemma snapshot_plain:
  assumes "snapshot_scoped E T w home accept r = Inr (m, r')" "keys_tell E T (world_chunks w home)"
    "cache_true E T (world_chunks w home) (Some (cache_load T (disk r)))"
  shows "m = plain_manifest E T w home accept"
proof -
  obtain wr d0 s where 1: "pw_new (disk r) = Inr (wr, d0)"
    "build E T (Pack_sink r) w home accept \<lparr>sn_writer = wr, sn_disk = d0, sn_cache = Some (cache_load T d0)\<rparr> = Inr (m, s)"
    by (rule snapshot_cases [OF assms(1)])
  show ?thesis using build_plain [OF 1(2) assms(2)] assms(3) cache_load_new [OF 1(1)] by simp
qed

lemma hash_only_plain:
  assumes "hash_only E T w home r = Inr m" "keys_tell E T (world_chunks w home)"
    "cache_true E T (world_chunks w home) (Some (cache_load T (disk r)))"
  shows "m = plain_manifest E T w home (\<lambda>_. True)"
proof -
  obtain s where "build E T Hash_only w home (\<lambda>_. True)
      \<lparr>sn_writer = no_writer, sn_disk = [], sn_cache = Some (cache_load T (disk r))\<rparr> = Inr (m, s)"
    using assms(1) by (auto simp: hash_only_def res_simps)
  from build_plain [OF this assms(2)] assms(3) show ?thesis by simp
qed

text \<open>Hashing a world never fails: only a file that cannot be read is an error.\<close>

lemma chunk_ids_hash: "\<exists>x s'. chunk_ids E T Hash_only chs m s = Inr (x, s')"
proof (induction chs arbitrary: m s)
  case (Cons ch chs)
  then show ?case by (cases "cache_hit E Hash_only ch s"; cases "decode_raw T ch") (auto simp: snap_put_def Let_def)
qed simp

lemma classify_hash:
  assumes "contents w p = Some b"
  shows "\<exists>k s'. classify E T Hash_only w p s = Inr (k, s')"
proof -
  have blob: "\<exists>k s'. classify_blob E Hash_only w p s = Inr (k, s')" for s
    using assms by (auto simp: classify_blob_def fs_read_iff [THEN iffD2] snap_put_def Let_def)
  have nbt: "\<exists>k s'. classify_nbt E T Hash_only w p s = Inr (k, s')" for s
  proof -
    have "\<exists>h s'. try_nbt E T Hash_only w p s = Inr (h, s')"
      by (auto simp: try_nbt_def snap_put_def Let_def split: sum.splits)
    then obtain h s' where "try_nbt E T Hash_only w p s = Inr (h, s')" by blast
    then show ?thesis using blob by (auto simp: classify_nbt_def split: option.splits)
  qed
  have "\<exists>x s'. try_chunks E T Hash_only w p s = Inr (x, s')"
    using chunk_ids_hash by (auto simp: try_chunks_def split: sum.splits)
  then obtain x s' where "try_chunks E T Hash_only w p s = Inr (x, s')" by blast
  then show ?thesis using nbt by (auto simp: classify_def split: option.splits)
qed

lemma add_files_hash:
  "\<forall>p \<in> set ps. contents w p \<noteq> None \<Longrightarrow> \<exists>m' s'. add_files E T Hash_only w ps m s = Inr (m', s')"
proof (induction ps arbitrary: m s)
  case (Cons p ps)
  obtain b where "contents w p = Some b" using Cons.prems by auto
  from classify_hash [OF this] obtain k s' where "classify E T Hash_only w p s = Inr (k, s')" by blast
  then show ?case using Cons by simp
qed simp

lemma world_files_contents: "fs_wf w \<Longrightarrow> p \<in> set (world_files w home) \<Longrightarrow> contents w p \<noteq> None"
  by (auto simp: world_files_def contents_def fs_lookup_def fs_wf_def im_get_memI split: node.splits)

lemma hash_only_succeeds: "fs_wf w \<Longrightarrow> \<exists>m. hash_only E T w home r = Inr m"
proof -
  assume "fs_wf w"
  then have "\<forall>p \<in> set (filter (\<lambda>p. True) (world_files w home)). contents w p \<noteq> None" using world_files_contents by auto
  from add_files_hash [OF this, of E T empty_manifest "\<lparr>sn_writer = no_writer, sn_disk = [], sn_cache = Some (cache_load T (disk r))\<rparr>"]
  show ?thesis by (auto simp: hash_only_def build_def)
qed

text \<open>The cache a snapshot leaves behind is as truthful as the one it found.\<close>

lemma snapshot_cache:
  assumes "snapshot_scoped E T w home accept r = Inr (m, r')" "keys_tell E T (world_chunks w home)"
    "cache_true E T (world_chunks w home) (Some (cache_load T (disk r)))"
    "\<And>c. wt_cache_parse T (wt_cache_json T c) = Some c"
  shows "cache_true E T (world_chunks w home) (Some (cache_load T (disk r')))"
proof -
  obtain wr d0 s new d where 1: "pw_new (disk r) = Inr (wr, d0)"
      "build E T (Pack_sink r) w home accept \<lparr>sn_writer = wr, sn_disk = d0, sn_cache = Some (cache_load T d0)\<rparr> = Inr (m, s)"
      "finish_pack E (sn_writer s) (sn_disk s) = Inr (new, d)"
      "(case sn_cache s of None \<Rightarrow> Inr d | Some c \<Rightarrow> cache_save T c d) = Inr (disk r')"
    by (rule snapshot_cases [OF assms(1)])
  note true = build_plain [OF 1(2) assms(2)]
  have pk: "packing E r s" using build_keeps [OF 1(2) pw_new_packing(1) [OF 1(1)]] by (simp add: keeps_on_def)
  then obtain bytes where b: "contents (sn_disk s) pw_tmp = Some bytes" by (auto simp: packing_def pw_inv_def)
  have c: "contents d cache_path = contents (disk r) cache_path"
  proof -
    have "cache_path \<noteq> pw_tmp" "cache_path \<noteq> pack_path i" "cache_path \<noteq> idx_path i" for i
      by (simp_all add: cache_path_def pw_tmp_def pack_path_def idx_path_def pack_dir_def)
    moreover from this have "contents d cache_path = contents (sn_disk s) cache_path"
      using 1(3) pw_finish_contents(2) [OF _ b] by (auto simp: finish_pack_def res_simps split: if_splits)
    ultimately show ?thesis using pk by (simp add: packing_def)
  qed
  show ?thesis
  proof (cases "\<exists>c. sn_cache s = Some c \<and> cc_dirty c")
    case False
    then have "disk r' = d" using 1(4) by (auto simp: cache_save_def split: option.splits)
    then show ?thesis using cache_load_cong [OF c] assms(3) by simp
  next
    case True
    then obtain c where c: "sn_cache s = Some c" "cc_dirty c" by blast
    let ?tmp = "[''chunkcache.json.'' @ wt_pid T @ ''.tmp'']"
    have "?tmp \<noteq> cache_path" by (auto simp: cache_path_def dest: arg_cong [of _ _ length])
    moreover obtain d1 where "fs_write ?tmp (wt_cache_json T (cc_map c)) d = Inr d1" "fs_rename ?tmp cache_path d1 = Inr (disk r')"
      using 1(4) c by (auto simp: cache_save_def Let_def res_simps)
    ultimately have "contents (disk r') cache_path = Some (wt_cache_json T (cc_map c))"
      using contents_rename_file [of ?tmp cache_path d1 "disk r'" "wt_cache_json T (cc_map c)"] contents_write by simp
    then have "cc_map (cache_load T (disk r')) = cc_map c" using assms(4) by (simp add: cache_load_def fs_read_iff [THEN iffD2])
    then have "cache_get (cache_load T (disk r')) = cache_get c" by (simp add: fun_eq_iff cache_get_def)
    then show ?thesis using true assms(3) cache_load_new [OF 1(1)] c(1) by (simp add: cache_true_def)
  qed
qed

text \<open>A commit of a snapshot, read back.\<close>

lemma stored_elsewhere: "store_write E b r = Inr (i, r') \<Longrightarrow> contents (disk r') cache_path = contents (disk r) cache_path"
proof -
  assume "store_write E b r = Inr (i, r')"
  moreover have "object_path i \<noteq> cache_path" by (simp add: object_path_def cache_path_def)
  ultimately show ?thesis using store_write_effect(3) by fastforce
qed

lemma verify_same:
  assumes "snapshot E T w home r = Inr (m, r1)" "write_manifest E m r1 = Inr (t, r2)"
    "create_commit E t ps msg auth tm r2 = Inr (c, r3)" "\<not> store_exists r2 c" "zstd_ok E"
    "\<And>x. x = \<lparr>tree = t, parents = ps, message = msg, author = auth, time = tm, committer = None, commit_time = None,
      signature = None\<rparr> \<Longrightarrow> commit_parse E (commit_json E x) = Some x"
    "\<And>c. wt_cache_parse T (wt_cache_json T c) = Some c" "fs_wf w" "keys_tell E T (world_chunks w home)" "cache_true E T (world_chunks w home) (Some (cache_load T (disk r)))"
  shows "verify_commit E T w home c r3 = Inr (True, t, t)"
proof -
  note s = assms(1) [unfolded snapshot_def]
  obtain content where c: "store_write E content r2 = Inr (c, r3)"
      "\<exists>co. content = commit_json E co \<and> tree co = t \<and> commit_parse E (commit_json E co) = Some co"
    using assms(3,6) by (fastforce simp: create_commit_def create_commit_signed_def write_commit_def)
  have t: "t = blake3 E (manifest_json E m)" using store_write_effect(1) assms(2) by (auto simp: write_manifest_def)
  have "cache_load T (disk r3) = cache_load T (disk r1)"
    using stored_elsewhere [OF c(1)] stored_elsewhere assms(2) by (intro cache_load_cong) (auto simp: write_manifest_def)
  then have true: "cache_true E T (world_chunks w home) (Some (cache_load T (disk r3)))"
    using snapshot_cache [OF s assms(9,10,7)] by simp
  obtain m' where m': "hash_only E T w home r3 = Inr m'" using hash_only_succeeds [OF assms(8)] by blast
  have "m' = m" using hash_only_plain [OF m' assms(9) true] snapshot_plain [OF s assms(9,10)] by simp
  moreover have "store_read E r3 c = Inr content" using store_write_stored [OF c(1) assms(5,4)] .
  ultimately show ?thesis using c(2) m' t assms(6)
    by (auto simp: verify_commit_def world_tree_def read_commit_def commit_from_json_def ok_or_Inr_iff [THEN iffD2])
qed

section \<open>The shape of a snapshot\<close>

definition manifest_keys :: "manifest \<Rightarrow> string list" where
  "manifest_keys m = map fst (regions m) @ map fst (nbt_files m) @ map fst (blobs m)"

definition kind_wf :: "kind \<Rightarrow> bool" where
  "kind_wf k = (case k of Region_kind c \<Rightarrow> bm_wf c | _ \<Rightarrow> True)"

lemma chunk_ids_wf: "chunk_ids E T sink chs m s = Inr (Some m', s') \<Longrightarrow> bm_wf m \<Longrightarrow> bm_wf m'"
proof (induction chs arbitrary: m s)
  case (Cons ch chs)
  then show ?case
    by (cases "cache_hit E sink ch s"; cases "decode_raw T ch") (auto simp: res_simps)
qed simp

lemma classify_wf: "classify E T sink w p s = Inr (k, s') \<Longrightarrow> kind_wf k"
proof -
  have blob: "classify_blob E sink w p s = Inr (k, s') \<Longrightarrow> kind_wf k" for s
    by (auto simp: classify_blob_def res_simps kind_wf_def)
  have nbt: "classify_nbt E T sink w p s = Inr (k, s') \<Longrightarrow> kind_wf k" for s
    using blob by (auto simp: classify_nbt_def res_simps kind_wf_def split: if_splits option.splits)
  have "try_chunks E T sink w p s = Inr (Some m, s1) \<Longrightarrow> bm_wf m" for m s1
    by (auto simp: try_chunks_def split: sum.splits dest!: chunk_ids_wf)
  then show "classify E T sink w p s = Inr (k, s') \<Longrightarrow> kind_wf k"
    using nbt by (auto simp: classify_def res_simps kind_wf_def split: if_splits option.splits)
qed

lemma add_entry_wf: "manifest_wf m \<Longrightarrow> kind_wf k \<Longrightarrow> manifest_wf (add_entry rel k m)"
proof (cases k)
  case (Region_kind c)
  assume m: "manifest_wf m" "kind_wf k"
  then have "\<forall>x \<in> set (bm_insert rel c (regions m)). bm_wf (snd x)"
    using Region_kind subsetD [OF bm_insert_set [of rel c "regions m"]] by (fastforce simp: manifest_wf_def kind_wf_def)
  then show ?thesis using m Region_kind by (simp add: manifest_wf_def add_entry_def kind_wf_def split_def)
qed (simp_all add: manifest_wf_def add_entry_def)

lemma add_entry_keys: "set (manifest_keys (add_entry rel k m)) = insert rel (set (manifest_keys m))"
  using bm_insert_keys [of rel _ "regions m"] bm_insert_keys [of rel _ "nbt_files m"] bm_insert_keys [of rel _ "blobs m"]
  by (cases k) (simp_all add: manifest_keys_def add_entry_def)

lemma add_entry_distinct:
  assumes "distinct (manifest_keys m)" "manifest_wf m" "rel \<notin> set (manifest_keys m)"
  shows "distinct (manifest_keys (add_entry rel k m))"
proof -
  have "bm_wf b \<Longrightarrow> distinct (map fst (bm_insert rel x b))" for x :: smap and b
    by (rule bm_wf_distinct) simp
  moreover have "bm_wf b \<Longrightarrow> distinct (map fst (bm_insert rel x b))" for x :: string and b
    by (rule bm_wf_distinct) simp
  ultimately show ?thesis using assms
    by (cases k) (simp_all add: manifest_keys_def add_entry_def manifest_wf_def bm_insert_keys)
qed

lemma add_files_shape:
  assumes "add_files E T sink w ps m s = Inr (m', s')" "manifest_wf m"
  shows "manifest_wf m'" "set (manifest_keys m') = set (manifest_keys m) \<union> rel_path ` set ps"
    "distinct (manifest_keys m) \<Longrightarrow> distinct (map rel_path ps) \<Longrightarrow> rel_path ` set ps \<inter> set (manifest_keys m) = {} \<Longrightarrow>
      distinct (manifest_keys m')"
proof -
  have "manifest_wf m' \<and> set (manifest_keys m') = set (manifest_keys m) \<union> rel_path ` set ps \<and>
     (distinct (manifest_keys m) \<and> distinct (map rel_path ps) \<and> rel_path ` set ps \<inter> set (manifest_keys m) = {} \<longrightarrow>
      distinct (manifest_keys m'))"
    using assms
  proof (induction ps arbitrary: m s)
    case (Cons p ps)
    then obtain k s1 where 1: "classify E T sink w p s = Inr (k, s1)" "add_files E T sink w ps (add_entry (rel_path p) k m) s1 = Inr (m', s')"
      by (auto simp: res_simps)
    note wf = add_entry_wf [OF Cons.prems(2) classify_wf [OF 1(1)], of "rel_path p"]
    show ?case using Cons.IH [OF 1(2) wf] add_entry_distinct [OF _ Cons.prems(2), of "rel_path p" k]
      by (auto simp: add_entry_keys)
  qed simp
  then show "manifest_wf m'" "set (manifest_keys m') = set (manifest_keys m) \<union> rel_path ` set ps"
    "distinct (manifest_keys m) \<Longrightarrow> distinct (map rel_path ps) \<Longrightarrow> rel_path ` set ps \<inter> set (manifest_keys m) = {} \<Longrightarrow>
      distinct (manifest_keys m')" by blast+
qed

lemma snapshot_shape:
  assumes "snapshot_scoped E T w home accept r = Inr (m, r')"
  shows "manifest_wf m" "set (manifest_keys m) = rel_path ` {p \<in> set (world_files w home). accept (rel_path p)}"
    "distinct (map rel_path (world_files w home)) \<Longrightarrow> distinct (manifest_keys m)"
proof -
  let ?ps = "filter (\<lambda>p. accept (rel_path p)) (world_files w home)"
  obtain wr d0 s where "build E T (Pack_sink r) w home accept \<lparr>sn_writer = wr, sn_disk = d0, sn_cache = Some (cache_load T d0)\<rparr> = Inr (m, s)"
    by (rule snapshot_cases [OF assms(1)])
  then obtain m0 where 1: "add_files E T (Pack_sink r) w ?ps empty_manifest
      \<lparr>sn_writer = wr, sn_disk = d0, sn_cache = Some (cache_load T d0)\<rparr> = Inr (m0, s)"
      "m = m0\<lparr>empty_dirs := sort (empty_paths w (filter (\<lambda>p. accept (rel_path p)) (world_dirs w home)))\<rparr>"
    by (auto simp: build_def res_simps)
  have e: "manifest_keys empty_manifest = []" by (simp add: manifest_keys_def empty_manifest_def)
  note shape = add_files_shape [OF 1(1) manifest_wf_empty]
  show "manifest_wf m" using shape(1) by (simp add: 1(2) manifest_wf_def)
  have k: "manifest_keys m = manifest_keys m0" by (simp add: 1(2) manifest_keys_def)
  show "set (manifest_keys m) = rel_path ` {p \<in> set (world_files w home). accept (rel_path p)}"
    using shape(2) by (simp add: k e)
  show "distinct (manifest_keys m)" if "distinct (map rel_path (world_files w home))"
    using shape(3) distinct_map_filter [OF that] by (simp add: k e)
qed

section \<open>A world to evaluate\<close>

fun pairs_text :: "(string \<times> string) list \<Rightarrow> string" where
  "pairs_text [] = []"
| "pairs_text ((k, v) # m) = put_nat (length k) (k @ put_nat (length v) (v @ pairs_text m))"

fun pairs_scan :: "nat \<Rightarrow> string \<Rightarrow> (string \<times> string) list option" where
  "pairs_scan n [] = Some []"
| "pairs_scan 0 (c # s) = None"
| "pairs_scan (Suc n) (c # s) = (case take_nat (c # s) of (a, s1) \<Rightarrow> case take_nat (drop a s1) of (b, s2) \<Rightarrow>
     map_option ((#) (take a s1, take b s2)) (pairs_scan n (drop b s2)))"

definition pairs_of_text :: "string \<Rightarrow> (string \<times> string) list option" where
  "pairs_of_text s = pairs_scan (length s) s"

lemma pairs_scan_text: "length m \<le> n \<Longrightarrow> pairs_scan n (pairs_text m) = Some m"
proof (induction m arbitrary: n)
  case (Cons e m)
  obtain k v where e: "e = (k, v)" by (cases e)
  obtain n' where n: "n = Suc n'" "length m \<le> n'" using Cons.prems by (cases n) auto
  have step: "pairs_scan (Suc n') t = (case take_nat t of (a, s1) \<Rightarrow> case take_nat (drop a s1) of (b, s2) \<Rightarrow>
     map_option ((#) (take a s1, take b s2)) (pairs_scan n' (drop b s2)))" if "t \<noteq> []" for t
    using that by (cases t) auto
  have "put_nat i t \<noteq> []" for i t by (simp add: put_nat_def)
  then show ?case by (simp add: e n step take_put_nat Cons.IH [OF n(2)])
qed simp

lemma pairs_of_text: "pairs_of_text (pairs_text m) = Some m"
proof -
  have "length m \<le> length (pairs_text m)" by (induction m rule: pairs_text.induct) (auto simp: put_nat_def)
  then show ?thesis by (simp add: pairs_of_text_def pairs_scan_text)
qed

text \<open>A world of one NBT file, one other file and an empty directory, in an empty repository.\<close>

definition small_commit :: "string \<Rightarrow> commit_object" where
  "small_commit t = \<lparr>tree = t, parents = [], message = ''m'', author = ''a'', time = ''t'',
     committer = None, commit_time = None, signature = None\<rparr>"

definition shot_ext :: ext where
  "shot_ext = world_ext\<lparr>
     blake3 := (\<lambda>s. if s = ''X'' then oid (CHR ''d'') else if s = [CHR 0x0A] then oid (CHR ''e'')
       else if s = ''M'' then oid (CHR ''f'') else if s = ''C'' then oid (CHR ''a'') else oid (CHR ''0'')),
     manifest_json := (\<lambda>m. ''M''), commit_json := (\<lambda>c. ''C''), commit_parse := (\<lambda>s. Some (small_commit (oid (CHR ''f''))))\<rparr>"

definition snap_tools :: world_tools where
  "snap_tools = \<lparr>wt_compress = plain_compressors, wt_codec = tiny_codec, wt_cache_json = pairs_text,
     wt_cache_parse = pairs_of_text, wt_pid = ''7''\<rparr>"

definition snap_repo :: repo where
  "snap_repo = \<lparr>disk = [], packs = []\<rparr>"

definition snap_world :: fs where
  "snap_world = [([''level.dat''], File ''L''), ([''icon.png''], File ''X''), ([''data''], Dir), ([''session.lock''], File ''s'')]"

lemma snap_world_wf: "fs_wf snap_world"
  by code_simp

lemma snap_store_ok: "store_ok shot_ext snap_repo"
proof -
  have "list_all (\<lambda>c. is_object_id (oid c)) ''0adef''" by code_simp
  moreover have "zdec demo_ext = Some" "zenc demo_ext = (\<lambda>c. c)"
    by (simp_all add: demo_ext_def line_ext_def plain_ext_def)
  ultimately have "zstd_ok shot_ext" by (simp add: zstd_ok_def shot_ext_def world_ext_def)
  moreover have "\<not> store_exists snap_repo i" for i
    by (simp add: store_exists_def snap_repo_def fs_exists_def fs_lookup_def object_path_def im_get_Nil)
  ultimately show ?thesis by (simp add: store_ok_def)
qed

lemma snap_no_chunks: "world_chunks snap_world None = {}"
proof -
  have "world_files snap_world None = [[''level.dat''], [''icon.png'']]" by code_simp
  moreover have "file_chunks snap_world [''level.dat''] = []" "file_chunks snap_world [''icon.png''] = []" by code_simp+
  ultimately show ?thesis by (simp add: world_chunks_def)
qed

lemma snap_true: "keys_tell E T (world_chunks snap_world None)" "cache_true E T (world_chunks snap_world None) c"
  by (simp_all add: snap_no_chunks keys_tell_def cache_true_def)

definition snap_manifest :: manifest where
  "snap_manifest = \<lparr>regions = [], nbt_files = [(''level.dat'', oid (CHR ''e''))], blobs = [(''icon.png'', oid (CHR ''d''))],
     empty_dirs = [''data'']\<rparr>"

lemma snap_run:
  obtains r where "snapshot shot_ext snap_tools snap_world None snap_repo = Inr (snap_manifest, r)"
proof -
  have "case snapshot shot_ext snap_tools snap_world None snap_repo of Inl _ \<Rightarrow> False | Inr (m, r) \<Rightarrow> m = snap_manifest" by code_simp
  then show ?thesis using that by (auto split: sum.splits)
qed

section \<open>Properties\<close>

text \<open>
  C5. What a snapshot is depends on the bytes of the world alone: with a cache that tells the truth and
  a digest that does not confuse the chunks of this world, the manifest is the one computed without
  cache and store; hashing the world for a status gives the same one, and never fails.
\<close>

theorem snapshot_is_canonical:
  assumes "snapshot_scoped E T w home accept r = Inr (m, r')" "fs_wf w"
    "keys_tell E T (world_chunks w home)" "cache_true E T (world_chunks w home) (Some (cache_load T (disk r)))"
  shows "m = plain_manifest E T w home accept \<and> hash_only E T w home r = Inr (plain_manifest E T w home (\<lambda>_. True))"
proof -
  obtain m' where "hash_only E T w home r = Inr m'" using hash_only_succeeds [OF assms(2)] by blast
  then show ?thesis using hash_only_plain [OF _ assms(3,4)] snapshot_plain [OF assms(1,3,4)] by blast
qed

theorem snapshot_is_canonical_witness:
  "plain_manifest shot_ext snap_tools snap_world None (\<lambda>_. True) = snap_manifest \<and>
   hash_only shot_ext snap_tools snap_world None snap_repo = Inr snap_manifest"
proof -
  obtain r where "snapshot shot_ext snap_tools snap_world None snap_repo = Inr (snap_manifest, r)" by (rule snap_run)
  from snapshot_is_canonical [OF this [unfolded snapshot_def] snap_world_wf snap_true] show ?thesis by auto
qed





text \<open>
  C29. A world verifies against the commit made of it: after a snapshot, its manifest written and a
  commit of it created, checking the unchanged world against that commit succeeds, with the tree of
  the commit; the cache the snapshot left behind included.
\<close>

theorem verify_after_snapshot:
  assumes "snapshot E T w home r = Inr (m, r1)" "write_manifest E m r1 = Inr (t, r2)"
    "create_commit E t ps msg auth tm r2 = Inr (c, r3)" "\<not> store_exists r2 c" "zstd_ok E"
    "\<And>x. x = \<lparr>tree = t, parents = ps, message = msg, author = auth, time = tm, committer = None, commit_time = None,
      signature = None\<rparr> \<Longrightarrow> commit_parse E (commit_json E x) = Some x"
    "\<And>c. wt_cache_parse T (wt_cache_json T c) = Some c"
    "fs_wf w" "keys_tell E T (world_chunks w home)" "cache_true E T (world_chunks w home) (Some (cache_load T (disk r)))"
  shows "verify_commit E T w home c r3 = Inr (True, t, t)"
  using verify_same [OF assms] .

theorem verify_after_snapshot_witness:
  "\<exists>r. verify_commit shot_ext snap_tools snap_world None (oid (CHR ''a'')) r = Inr (True, oid (CHR ''f''), oid (CHR ''f''))"
proof -
  have "is_ok (rbind (snapshot shot_ext snap_tools snap_world None snap_repo) (\<lambda>(m, r1). rbind (write_manifest shot_ext m r1) (\<lambda>(t, r2).
      rbind (create_commit shot_ext t [] ''m'' ''a'' ''t'' r2) (\<lambda>(c, r3).
        if t = oid (CHR ''f'') \<and> c = oid (CHR ''a'') \<and> \<not> store_exists r2 c then Inr r3 else Inl Json))))"
    by code_simp
  then obtain m r1 r2 r3 where r: "snapshot shot_ext snap_tools snap_world None snap_repo = Inr (m, r1)"
      "write_manifest shot_ext m r1 = Inr (oid (CHR ''f''), r2)"
      "create_commit shot_ext (oid (CHR ''f'')) [] ''m'' ''a'' ''t'' r2 = Inr (oid (CHR ''a''), r3)"
      "\<not> store_exists r2 (oid (CHR ''a''))"
    by (auto simp: is_ok_iff res_simps split: if_splits)
  have z: "zstd_ok shot_ext" using snap_store_ok by (simp add: store_ok_def)
  have "wt_cache_parse snap_tools (wt_cache_json snap_tools c) = Some c" for c
    by (simp add: snap_tools_def pairs_of_text)
  then have "verify_commit shot_ext snap_tools snap_world None (oid (CHR ''a'')) r3 = Inr (True, oid (CHR ''f''), oid (CHR ''f''))"
    by (intro verify_after_snapshot [OF r z _ _ snap_world_wf snap_true]) (simp_all add: shot_ext_def small_commit_def)
  then show ?thesis by blast
qed

end
