(* ===== verification/RepoCheckout.thy ===== *)
theory RepoCheckout imports
  RepoSnapshot
begin

text \<open>
  \<^verbatim>\<open>crates/repo/src/checkout.rs\<close>: a manifest is made a world directory again. The tree of the world is the
  output directory; the repository, when it lies inside, is the part of it below the path \<open>home\<close>. The
  regions written in parallel are written in the order of the manifest.
\<close>

section \<open>Checkout\<close>

definition confine :: "string \<Rightarrow> repo_error + path" where
  "confine rel = (if (rel \<noteq> [] \<and> hd rel = CHR ''/'') \<or> ''..'' \<in> set (components rel)
     then Inl (Other (''unsafe path in manifest: '' @ rel)) else Inr (components rel))"

definition bad_pos :: "string \<Rightarrow> repo_error" where
  "bad_pos s = Other (''bad chunk pos '' @ [CHR 0x22] @ s @ [CHR 0x22])"

definition parse_pos :: "string \<Rightarrow> repo_error + chunk_pos" where
  "parse_pos s = (case split_once (CHR '','') s of
     None \<Rightarrow> Inl (bad_pos s)
   | Some (xs, zs) \<Rightarrow> (case (parse_signed 32 xs, parse_signed 32 zs) of
       (Some x, Some z) \<Rightarrow> Inr (mk_pos (word_of_int x) (word_of_int z))
     | _ \<Rightarrow> Inl (bad_pos s)))"

definition build_chunk :: "ext \<Rightarrow> world_tools \<Rightarrow> repo \<Rightarrow> string \<times> string \<Rightarrow> repo_error + raw_chunk" where
  "build_chunk E T r p = (case p of (pos, i) \<Rightarrow>
     rbind (store_read E r i) (\<lambda>canon.
     case compress (wt_compress T) ZLib (octets canon) of
       Inl _ \<Rightarrow> Inl AnvilErr
     | Inr payload \<Rightarrow> rbind (parse_pos pos) (\<lambda>q. Inr
         \<lparr>rc_pos = q, rc_compression = ZLib, rc_payload = payload, rc_external = False, rc_timestamp = 0\<rparr>)))"

definition build_region :: "ext \<Rightarrow> world_tools \<Rightarrow> repo \<Rightarrow> string \<times> smap \<Rightarrow> repo_error + string \<times> raw_chunk list" where
  "build_region E T r p = (case p of (rel, chunks) \<Rightarrow>
     rbind (collect_res (map (build_chunk E T r) chunks)) (\<lambda>raws. Inr (rel, raws)))"

definition put_region :: "string \<times> raw_chunk list \<Rightarrow> fs \<Rightarrow> repo_error + fs" where
  "put_region p w = (case p of (rel, raws) \<Rightarrow> rbind (confine rel) (\<lambda>q.
     rbind (create_dir_all (butlast q) w) (\<lambda>w.
     if q = [] then Inl (RepoFs.Io IsADirectory)
     else write_region q raws w)))"

definition put_nbt :: "ext \<Rightarrow> world_tools \<Rightarrow> repo \<Rightarrow> string \<times> string \<Rightarrow> fs \<Rightarrow> repo_error + fs" where
  "put_nbt E T r p w = (case p of (rel, i) \<Rightarrow> rbind (confine rel) (\<lambda>q.
     rbind (create_dir_all (butlast q) w) (\<lambda>w.
     rbind (store_read E r i) (\<lambda>b.
     case nbt_read (from_binary (wt_codec T)) (octets b) of
       Inl _ \<Rightarrow> Inl repo_error.Nbt
     | Inr (_, v) \<Rightarrow> (case save_nbt_bytes (wt_compress T) (wt_codec T) v GZip of
         Inl _ \<Rightarrow> Inl AnvilErr | Inr z \<Rightarrow> fs_write q (chars z) w)))))"

definition put_blob :: "ext \<Rightarrow> repo \<Rightarrow> string \<times> string \<Rightarrow> fs \<Rightarrow> repo_error + fs" where
  "put_blob E r p w = (case p of (rel, i) \<Rightarrow> rbind (confine rel) (\<lambda>q.
     rbind (create_dir_all (butlast q) w) (\<lambda>w. rbind (store_read E r i) (\<lambda>b. fs_write q b w))))"

definition put_dir :: "string \<Rightarrow> fs \<Rightarrow> repo_error + fs" where
  "put_dir rel w = rbind (confine rel) (\<lambda>q. create_dir_all q w)"

definition prune_extra :: "manifest \<Rightarrow> path option \<Rightarrow> fs \<Rightarrow> fs" where
  "prune_extra m home w =
     (let keep = map fst (regions m) @ map fst (nbt_files m) @ map fst (blobs m)
      in fold (\<lambda>(p, n) w. if \<not> in_repo home p \<and> n \<noteq> Dir \<and> rel_path p \<notin> set keep then remove_file p w else w) w w)"

definition checkout :: "ext \<Rightarrow> world_tools \<Rightarrow> repo \<Rightarrow> manifest \<Rightarrow> path option \<Rightarrow> bool \<Rightarrow> fs \<Rightarrow> repo_error + fs" where
  "checkout E T r m home prune w =
     rbind (collect_res (map (build_region E T r) (regions m))) (\<lambda>built.
     rbind (each put_region built w) (\<lambda>w.
     rbind (each (put_nbt E T r) (nbt_files m) w) (\<lambda>w.
     rbind (each (put_blob E r) (blobs m) w) (\<lambda>w.
     rbind (each put_dir (empty_dirs m) w) (\<lambda>w.
       Inr (if prune then prune_extra m home w else w))))))"

section \<open>Where a checkout writes\<close>

definition clean_name :: "string \<Rightarrow> bool" where
  "clean_name c = (c \<noteq> [] \<and> c \<noteq> ''.'' \<and> c \<noteq> ''..'' \<and> CHR ''/'' \<notin> set c)"

definition clean :: "fs \<Rightarrow> bool" where
  "clean w = (\<forall>p \<in> fst ` set w. list_all clean_name p)"

lemma parts_no_sep: "p \<in> set (split_on c s) \<Longrightarrow> c \<notin> set p"
  by (induction c s arbitrary: p rule: split_on.induct) (auto split: if_splits list.splits)

lemma components_names: "c \<in> set (components s) \<Longrightarrow> c \<noteq> [] \<and> c \<noteq> ''.'' \<and> CHR ''/'' \<notin> set c"
  by (auto simp: components_def dest: parts_no_sep)

lemma confine_clean: "confine rel = Inr q \<Longrightarrow> list_all clean_name q"
  using components_names by (auto simp: confine_def list_all_iff clean_name_def split: if_splits)

lemma clean_insert: "clean w \<Longrightarrow> list_all clean_name p \<Longrightarrow> clean (im_insert p n w)"
  by (simp add: clean_def im_insert_fst)

lemma clean_write: "fs_write p c w = Inr w' \<Longrightarrow> clean w \<Longrightarrow> list_all clean_name p \<Longrightarrow> clean w'"
  by (auto simp: fs_write_iff clean_insert)

lemma clean_make_dirs: "make_dirs base cs w = Inr w' \<Longrightarrow> clean w \<Longrightarrow> list_all clean_name (base @ cs) \<Longrightarrow> clean w'"
proof (induction cs arbitrary: base w)
  case (Cons c cs)
  then obtain w1 where 1: "make_dir (base @ [c]) w = Inr w1" "make_dirs (base @ [c]) cs w1 = Inr w'" by (auto simp: res_simps)
  have "clean w1" using 1(1) Cons.prems(2,3) by (auto simp: make_dir_def clean_insert split: option.splits node.splits)
  then show ?case using Cons.IH [OF 1(2)] Cons.prems(3) by simp
qed simp

lemma clean_create: "create_dir_all p w = Inr w' \<Longrightarrow> clean w \<Longrightarrow> list_all clean_name p \<Longrightarrow> clean w'"
  using clean_make_dirs [of "[]" p w w'] by (simp add: create_dir_all_def)

lemma clean_butlast: "list_all clean_name q \<Longrightarrow> list_all clean_name (butlast q)"
  by (auto simp: list_all_iff dest: in_set_butlastD)

lemma clean_mcc: "clean_name (mcc_name p)"
proof -
  have "CHR ''/'' \<notin> set (show_i32 x)" for x by (auto simp: show_i32_def not_digit_punct dest!: show_int_chars)
  then show ?thesis by (simp add: clean_name_def mcc_name_def)
qed

lemma clean_put_files:
  "put_files base dir ns w = Inr w' \<Longrightarrow> clean w \<Longrightarrow> list_all clean_name base \<Longrightarrow> list_all clean_name ns \<Longrightarrow> clean w'"
proof (induction ns arbitrary: w)
  case (Cons n ns)
  show ?case
  proof (cases "\<exists>b. dir n = Some (Regular b)")
    case True
    then obtain b w1 where 1: "fs_write (base @ [n]) (chars b) w = Inr w1" "put_files base dir ns w1 = Inr w'"
      using Cons.prems(1) by (auto simp: res_simps)
    have "clean w1" using clean_write [OF 1(1)] Cons.prems by simp
    then show ?thesis using Cons.IH [OF 1(2)] Cons.prems(3,4) by simp
  next
    case False
    then have "put_files base dir ns w = Inr w'"
      using Cons.prems(1) by (auto split: option.splits fnode.splits)
    then show ?thesis using Cons by simp
  qed
qed simp

lemma clean_put_region: "put_region x w = Inr w' \<Longrightarrow> clean w \<Longrightarrow> clean w'"
proof -
  assume p: "put_region x w = Inr w'" and w: "clean w"
  obtain rel raws where x: "x = (rel, raws)" by (cases x)
  let ?ns = "\<lambda>q. map (\<lambda>ch. mcc_name (rc_pos ch)) (filter (\<lambda>ch. sectors_needed ch > MAX_INLINE_SECTORS) raws) @ [last q]"
  from p x obtain q w1 where 1: "confine rel = Inr q" "create_dir_all (butlast q) w = Inr w1" "q \<noteq> []"
      "put_files (butlast q) (region_write (last q) raws (directory_of w1 (butlast q))) (?ns q) w1 = Inr w'"
    by (auto simp: put_region_def write_region_def res_simps Let_def split: if_splits)
  note q = confine_clean [OF 1(1)]
  have "clean w1" using clean_create [OF 1(2) w clean_butlast [OF q]] .
  moreover have "list_all clean_name (?ns q)" using q 1(3) clean_mcc by (auto simp: list_all_iff)
  ultimately show "clean w'" using clean_put_files [OF 1(4)] clean_butlast [OF q] by blast
qed

lemma put_nbt_cases:
  assumes "put_nbt E T r (rel, i) w = Inr w'"
  obtains q w1 b nm v z where "confine rel = Inr q" "create_dir_all (butlast q) w = Inr w1" "store_read E r i = Inr b"
    "nbt_read (from_binary (wt_codec T)) (octets b) = Inr (nm, v)"
    "save_nbt_bytes (wt_compress T) (wt_codec T) v GZip = Inr z" "fs_write q (chars z) w1 = Inr w'"
proof -
  from assms obtain q w1 b where 1: "confine rel = Inr q" "create_dir_all (butlast q) w = Inr w1" "store_read E r i = Inr b"
     "(case nbt_read (from_binary (wt_codec T)) (octets b) of
       Inl _ \<Rightarrow> Inl repo_error.Nbt
     | Inr (_, v) \<Rightarrow> (case save_nbt_bytes (wt_compress T) (wt_codec T) v GZip of
         Inl _ \<Rightarrow> Inl AnvilErr | Inr z \<Rightarrow> fs_write q (chars z) w1)) = Inr w'"
    unfolding put_nbt_def prod.case rbind_Inr_iff by blast
  from 1(4) obtain x where x: "nbt_read (from_binary (wt_codec T)) (octets b) = Inr x" by (auto split: sum.splits)
  obtain nm v where xv: "x = (nm, v)" by (cases x)
  from 1(4) obtain z where z: "save_nbt_bytes (wt_compress T) (wt_codec T) v GZip = Inr z" by (auto simp: x xv split: sum.splits)
  show ?thesis using that [OF 1(1-3) x [unfolded xv] z] 1(4) by (simp add: x xv z)
qed

lemma put_blob_cases:
  assumes "put_blob E r (rel, i) w = Inr w'"
  obtains q w1 b where "confine rel = Inr q" "create_dir_all (butlast q) w = Inr w1" "store_read E r i = Inr b"
    "fs_write q b w1 = Inr w'"
  using assms unfolding put_blob_def prod.case rbind_Inr_iff by blast

lemma clean_put_nbt: "put_nbt E T r x w = Inr w' \<Longrightarrow> clean w \<Longrightarrow> clean w'"
  by (cases x) (metis put_nbt_cases clean_create clean_write confine_clean clean_butlast)

lemma clean_put_blob: "put_blob E r x w = Inr w' \<Longrightarrow> clean w \<Longrightarrow> clean w'"
  by (cases x) (metis put_blob_cases clean_create clean_write confine_clean clean_butlast)

lemma clean_put_dir: "put_dir x w = Inr w' \<Longrightarrow> clean w \<Longrightarrow> clean w'"
  by (auto simp: put_dir_def res_simps) (meson clean_create confine_clean)

lemma clean_prune: "clean w \<Longrightarrow> clean (prune_extra m home w)"
proof -
  assume w: "clean w"
  have "clean v \<Longrightarrow> clean (remove_file p v)" for p v
    by (auto simp: clean_def remove_file_def im_remove_def)
  then have "clean v \<Longrightarrow> clean (fold (\<lambda>(p, n) w. if \<not> in_repo home p \<and> n \<noteq> Dir \<and> rel_path p \<notin> K then remove_file p w else w) xs v)" for xs v K
    by (induction xs arbitrary: v) auto
  then show ?thesis using w unfolding prune_extra_def Let_def by blast
qed

lemma checkout_cases:
  assumes "checkout E T r m home prune w = Inr w'"
  obtains built w1 w2 w3 w4 where "collect_res (map (build_region E T r) (regions m)) = Inr built"
    "each put_region built w = Inr w1" "each (put_nbt E T r) (nbt_files m) w1 = Inr w2"
    "each (put_blob E r) (blobs m) w2 = Inr w3" "each put_dir (empty_dirs m) w3 = Inr w4"
    "w' = (if prune then prune_extra m home w4 else w4)"
  using assms by (auto simp: checkout_def res_simps)

lemma checkout_clean:
  assumes "checkout E T r m home prune w = Inr w'" "clean w"
  shows "clean w'"
proof -
  obtain built w1 w2 w3 w4 where 1: "each put_region built w = Inr w1" "each (put_nbt E T r) (nbt_files m) w1 = Inr w2"
    "each (put_blob E r) (blobs m) w2 = Inr w3" "each put_dir (empty_dirs m) w3 = Inr w4"
    "w' = (if prune then prune_extra m home w4 else w4)"
    by (rule checkout_cases [OF assms(1)])
  have "clean w1" by (rule each_inv [OF 1(1), of clean, OF assms(2) clean_put_region])
  then have "clean w2" by (rule each_inv [OF 1(2), of clean, OF _ clean_put_nbt])
  then have "clean w3" by (rule each_inv [OF 1(3), of clean, OF _ clean_put_blob])
  then have "clean w4" by (rule each_inv [OF 1(4), of clean, OF _ clean_put_dir])
  then show ?thesis using 1(5) clean_prune by simp
qed

lemma built_names: "collect_res (map (build_region E T r) rs) = Inr built \<Longrightarrow> map fst built = map fst rs"
proof (induction rs arbitrary: built)
  case (Cons x rs)
  then show ?case by (cases x) (auto simp: build_region_def res_simps)
qed simp

lemma checkout_confines:
  assumes "checkout E T r m home prune w = Inr w'" "rel \<in> set (manifest_keys m @ empty_dirs m)"
  shows "\<exists>q. confine rel = Inr q"
proof -
  obtain built w1 w2 w3 w4 where 1: "collect_res (map (build_region E T r) (regions m)) = Inr built"
    "each put_region built w = Inr w1" "each (put_nbt E T r) (nbt_files m) w1 = Inr w2"
    "each (put_blob E r) (blobs m) w2 = Inr w3" "each put_dir (empty_dirs m) w3 = Inr w4"
    by (rule checkout_cases [OF assms(1)])
  have "rel \<in> set (map fst built) \<or> rel \<in> set (map fst (nbt_files m)) \<or> rel \<in> set (map fst (blobs m)) \<or> rel \<in> set (empty_dirs m)"
    using assms(2) built_names [OF 1(1)] by (auto simp: manifest_keys_def)
  then consider (region) x where "(rel, x) \<in> set built" | (nbt) i where "(rel, i) \<in> set (nbt_files m)"
    | (blob) i where "(rel, i) \<in> set (blobs m)" | (dir) "rel \<in> set (empty_dirs m)" by auto
  then show ?thesis
  proof cases
    case region
    from each_at [OF 1(2) this] obtain s1 s2 where "put_region (rel, x) s1 = Inr s2" by metis
    then show ?thesis by (auto simp: put_region_def res_simps)
  next
    case nbt
    from each_at [OF 1(3) this] obtain s1 s2 where "put_nbt E T r (rel, i) s1 = Inr s2" by metis
    then show ?thesis by (auto simp: put_nbt_def res_simps)
  next
    case blob
    from each_at [OF 1(4) this] obtain s1 s2 where "put_blob E r (rel, i) s1 = Inr s2" by metis
    then show ?thesis by (auto simp: put_blob_def res_simps)
  next
    case dir
    from each_at [OF 1(5) this] obtain s1 s2 where "put_dir rel s1 = Inr s2" by metis
    then show ?thesis by (auto simp: put_dir_def res_simps)
  qed
qed

section \<open>What a checkout leaves\<close>

definition place :: "string \<Rightarrow> path" where
  "place rel = (case confine rel of Inl _ \<Rightarrow> [] | Inr q \<Rightarrow> q)"

lemma put_blob_writes:
  "put_blob E r (rel, i) w = Inr w' \<Longrightarrow> \<exists>b. store_read E r i = Inr b \<and> writes (place rel) b w w'"
proof (elim put_blob_cases)
  fix q w1 b
  assume 1: "confine rel = Inr q" "create_dir_all (butlast q) w = Inr w1" "store_read E r i = Inr b" "fs_write q b w1 = Inr w'"
  have "place rel = q" by (simp add: place_def 1(1))
  then show ?thesis using put_file_writes [OF 1(2,4)] 1(3) by blast
qed

lemma put_nbt_writes:
  "put_nbt E T r (rel, i) w = Inr w' \<Longrightarrow> \<exists>b nm v z. store_read E r i = Inr b \<and>
     nbt_read (from_binary (wt_codec T)) (octets b) = Inr (nm, v) \<and>
     save_nbt_bytes (wt_compress T) (wt_codec T) v GZip = Inr z \<and> writes (place rel) (chars z) w w'"
proof (elim put_nbt_cases)
  fix q w1 b nm v z
  assume 1: "confine rel = Inr q" "create_dir_all (butlast q) w = Inr w1" "store_read E r i = Inr b"
    "nbt_read (from_binary (wt_codec T)) (octets b) = Inr (nm, v)"
    "save_nbt_bytes (wt_compress T) (wt_codec T) v GZip = Inr z" "fs_write q (chars z) w1 = Inr w'"
  have "place rel = q" by (simp add: place_def 1(1))
  then show ?thesis using put_file_writes [OF 1(2,6)] 1(3-5) by blast
qed

lemma put_region_writes:
  assumes "put_region (rel, raws) w = Inr w'" "\<forall>ch \<in> set raws. \<not> spills ch"
  shows "\<exists>b dir. region_write (last (place rel)) raws dir (last (place rel)) = Some (Regular b) \<and>
    writes (place rel) (chars b) w w' \<and> place rel \<noteq> []"
proof -
  from assms(1) obtain q w1 where 1: "confine rel = Inr q" "create_dir_all (butlast q) w = Inr w1" "q \<noteq> []"
      "write_region q raws w1 = Inr w'"
    by (auto simp: put_region_def res_simps split: if_splits)
  then have "place rel = q" by (simp add: place_def)
  then show ?thesis using write_region_writes [OF 1(2,4) assms(2) 1(3)] 1(3) by blast
qed

lemma each_writes:
  assumes "each f xs w = Inr w'" "distinct (map p xs)"
    "\<And>x a b. x \<in> set xs \<Longrightarrow> f x a = Inr b \<Longrightarrow> \<exists>c. Q x c \<and> writes (p x) c a b"
  shows "\<forall>x \<in> set xs. \<exists>c. Q x c \<and> contents w' (p x) = Some c"
    "\<And>q. q \<notin> p ` set xs \<Longrightarrow> contents w' q = contents w q"
    "\<And>q. is_dir w' q \<longleftrightarrow> is_dir w q \<or> (\<exists>x \<in> set xs. under q (butlast (p x)))"
proof -
  have "(\<forall>x \<in> set xs. \<exists>c. Q x c \<and> contents w' (p x) = Some c) \<and>
    (\<forall>q. q \<notin> p ` set xs \<longrightarrow> contents w' q = contents w q) \<and>
    (\<forall>q. is_dir w' q \<longleftrightarrow> is_dir w q \<or> (\<exists>x \<in> set xs. under q (butlast (p x))))"
    using assms
  proof (induction xs arbitrary: w)
    case (Cons x xs)
    from Cons.prems(1) obtain w1 where 1: "f x w = Inr w1" "each f xs w1 = Inr w'" by (auto simp: res_simps)
    obtain c where c: "Q x c" "writes (p x) c w w1" using Cons.prems(3) [OF _ 1(1)] by auto
    have "distinct (map p xs)" using Cons.prems(2) by simp
    note IH = Cons.IH [OF 1(2) this Cons.prems(3)]
    have "contents w' (p x) = Some c" using IH Cons.prems(2) c(2) by (simp add: writes_def)
    then show ?case using IH c by (auto simp: writes_def)
  qed simp
  then show "\<forall>x \<in> set xs. \<exists>c. Q x c \<and> contents w' (p x) = Some c"
    "\<And>q. q \<notin> p ` set xs \<Longrightarrow> contents w' q = contents w q"
    "\<And>q. is_dir w' q \<longleftrightarrow> is_dir w q \<or> (\<exists>x \<in> set xs. under q (butlast (p x)))" by blast+
qed

lemma each_dirs:
  assumes "each put_dir ds w = Inr w'"
  shows "contents w' = contents w" "is_dir w' q \<longleftrightarrow> is_dir w q \<or> (\<exists>d \<in> set ds. under q (place d))"
proof -
  have "contents w' = contents w \<and> (is_dir w' q \<longleftrightarrow> is_dir w q \<or> (\<exists>d \<in> set ds. under q (place d)))"
    using assms
  proof (induction ds arbitrary: w)
    case (Cons d ds)
    then obtain w1 where w1: "put_dir d w = Inr w1" and 3: "each put_dir ds w1 = Inr w'" by (auto simp: res_simps)
    from w1 obtain p where 1: "confine d = Inr p" "create_dir_all p w = Inr w1" by (auto simp: put_dir_def res_simps)
    have "place d = p" using 1(1) by (simp add: place_def)
    then show ?case using Cons.IH [OF 3] create_is_dir [OF 1(2)] create_dir_all_contents [OF 1(2)] by auto
  qed simp
  then show "contents w' = contents w" "is_dir w' q \<longleftrightarrow> is_dir w q \<or> (\<exists>d \<in> set ds. under q (place d))" by blast+
qed

lemma prune_contents:
  assumes "fs_wf w"
  shows "contents (prune_extra m home w) q =
    (if in_repo home q \<or> rel_path q \<in> set (manifest_keys m) then contents w q else None)"
proof -
  let ?drop = "\<lambda>p n. \<not> in_repo home p \<and> n \<noteq> Dir \<and> rel_path p \<notin> set (manifest_keys m)"
  have "contents (fold (\<lambda>(p, n) w. if ?drop p n then remove_file p w else w) xs v) q =
      (if \<exists>n. (q, n) \<in> set xs \<and> ?drop q n then None else contents v q)" for xs v
    by (induction xs arbitrary: v) (auto simp: contents_remove_file)
  moreover have "contents w q = None" if "\<nexists>n. (q, n) \<in> set w \<and> n \<noteq> Dir"
    using that assms by (auto simp: contents_def fs_lookup_def fs_wf_def im_get_Some_iff split: option.splits node.splits)
  ultimately show ?thesis unfolding prune_extra_def Let_def manifest_keys_def by auto
qed

section \<open>Maps built from their entries\<close>

lemma bm_fold_entries:
  assumes "\<And>a b b'. (a, b) \<in> set xs \<Longrightarrow> (a, b') \<in> set xs \<Longrightarrow> b = b'" "bm_wf m"
  shows "bm_wf (fold (\<lambda>(a, b). bm_insert a b) xs m) \<and>
    (bm_get (fold (\<lambda>(a, b). bm_insert a b) xs m) a = (if a \<in> fst ` set xs then map_of xs a else bm_get m a))"
  using assms
proof (induction xs arbitrary: m)
  case (Cons x xs)
  obtain k v where x: "x = (k, v)" by (cases x)
  have IH: "bm_wf (fold (\<lambda>(a, b). bm_insert a b) xs (bm_insert k v m)) \<and>
    (bm_get (fold (\<lambda>(a, b). bm_insert a b) xs (bm_insert k v m)) a =
      (if a \<in> fst ` set xs then map_of xs a else bm_get (bm_insert k v m) a))"
    using Cons.prems by (intro Cons.IH) (auto simp: x)
  have "map_of xs a = Some v" if "a = k" "a \<in> fst ` set xs"
  proof -
    obtain b where b: "map_of xs a = Some b" using \<open>a \<in> fst ` set xs\<close> by (metis map_of_eq_None_iff option.exhaust)
    then have "(a, b) \<in> set (x # xs)" "(a, v) \<in> set (x # xs)" using map_of_SomeD [OF b] x that(1) by auto
    then show ?thesis using Cons.prems(1) b by blast
  qed
  then show ?case using IH Cons.prems(2) by (auto simp: x bm_get_insert)
qed simp

lemma bm_rebuild:
  assumes "bm_wf m" "set xs = set m"
  shows "fold (\<lambda>(a, b). bm_insert a b) xs [] = m"
proof -
  have fn: "(a, b) \<in> set xs \<Longrightarrow> (a, b') \<in> set xs \<Longrightarrow> b = b'" for a b b'
    unfolding assms(2) by (metis assms(1) bm_get_Some_iff option.inject)
  have f: "bm_wf (fold (\<lambda>(a, b). bm_insert a b) xs []) \<and>
      (bm_get (fold (\<lambda>(a, b). bm_insert a b) xs []) a = (if a \<in> fst ` set xs then map_of xs a else bm_get [] a))" for a
    by (rule bm_fold_entries) (use fn in auto)
  show ?thesis
  proof (rule bm_ext)
    show "bm_wf (fold (\<lambda>(a, b). bm_insert a b) xs [])" using f by blast
    fix a
    have "bm_get (fold (\<lambda>(a, b). bm_insert a b) xs []) a = (if a \<in> fst ` set xs then map_of xs a else None)"
      using f by (simp add: bm_get_Nil)
    also have "\<dots> = bm_get m a"
    proof (cases "bm_get m a")
      case None
      then have "a \<notin> fst ` set xs" by (simp add: bm_get_None_iff assms(2))
      then show ?thesis using None by simp
    next
      case (Some b)
      then have b: "(a, b) \<in> set xs" by (simp add: assms bm_get_Some_iff [symmetric])
      then have in_xs: "a \<in> fst ` set xs" by force
      then obtain b' where b': "map_of xs a = Some b'" by (metis map_of_eq_None_iff option.exhaust)
      then have "b' = b" using fn map_of_SomeD b by metis
      then show ?thesis using in_xs b' Some by simp
    qed
    finally show "bm_get (fold (\<lambda>(a, b). bm_insert a b) xs []) a = bm_get m a" .
  qed (rule assms(1))
qed

definition region_part :: "kind \<Rightarrow> smap option" where
  "region_part k = (case k of Region_kind c \<Rightarrow> Some c | _ \<Rightarrow> None)"

definition nbt_part :: "kind \<Rightarrow> string option" where
  "nbt_part k = (case k of Nbt_kind i \<Rightarrow> Some i | _ \<Rightarrow> None)"

definition blob_part :: "kind \<Rightarrow> string option" where
  "blob_part k = (case k of Blob_kind i \<Rightarrow> Some i | _ \<Rightarrow> None)"

definition entries :: "('a \<Rightarrow> string) \<Rightarrow> ('a \<Rightarrow> 'b option) \<Rightarrow> 'a list \<Rightarrow> (string \<times> 'b) list" where
  "entries k f ps = List.map_filter (\<lambda>p. map_option (Pair (k p)) (f p)) ps"

lemma entries_simps [simp]:
  "entries k f [] = []" "entries k f (p # ps) = (case f p of None \<Rightarrow> entries k f ps | Some c \<Rightarrow> (k p, c) # entries k f ps)"
  by (simp_all add: entries_def List.map_filter_def split: option.splits)

lemma entries_set: "set (entries k f ps) = {(k p, c) |p c. p \<in> set ps \<and> f p = Some c}"
  by (induction ps) (auto split: option.splits)

lemma add_entries:
  "regions (fold (\<lambda>p. add_entry (k p) (K p)) ps m) =
     fold (\<lambda>(a, b). bm_insert a b) (entries k (\<lambda>p. region_part (K p)) ps) (regions m)"
  "nbt_files (fold (\<lambda>p. add_entry (k p) (K p)) ps m) =
     fold (\<lambda>(a, b). bm_insert a b) (entries k (\<lambda>p. nbt_part (K p)) ps) (nbt_files m)"
  "blobs (fold (\<lambda>p. add_entry (k p) (K p)) ps m) =
     fold (\<lambda>(a, b). bm_insert a b) (entries k (\<lambda>p. blob_part (K p)) ps) (blobs m)"
  by (induction ps arbitrary: m)
    (auto simp: add_entry_def region_part_def nbt_part_def blob_part_def split: kind.splits)

lemma plain_ids_entries:
  assumes "\<And>ch. ch \<in> set chs \<Longrightarrow> \<exists>v. decode_raw T ch = Inr v \<and> g ch = (pos_text (rc_pos ch), blake3 E (canonical_text T v))"
  shows "plain_ids E T chs m = Some (fold (\<lambda>(a, b). bm_insert a b) (map g chs) m)"
  using assms
proof (induction chs arbitrary: m)
  case (Cons ch chs)
  obtain v where v: "decode_raw T ch = Inr v" "g ch = (pos_text (rc_pos ch), blake3 E (canonical_text T v))"
    using Cons.prems [of ch] by auto
  have "plain_ids E T chs m' = Some (fold (\<lambda>(a, b). bm_insert a b) (map g chs) m')" for m'
    using Cons.prems by (intro Cons.IH) simp
  then show ?case by (simp add: v)
qed simp

section \<open>Worlds a checkout can bring back\<close>

text \<open>
  An object holding the canonical form of a document: it decodes to a well-formed tree whose canonical
  bytes it is, and the codec agrees on that tree written the other way.
\<close>

definition canonical_id :: "ext \<Rightarrow> world_tools \<Rightarrow> repo \<Rightarrow> string \<Rightarrow> bool" where
  "canonical_id E T r i = (\<exists>b nm m. store_read E r i = Inr b \<and> blake3 E b = i \<and>
     nbt_read (from_binary (wt_codec T)) (octets b) = Inr (nm, Compound m) \<and> nbt_wf (Compound m) \<and> homogeneous (Compound m) \<and>
     canonical_text T (Compound m) = b \<and> length b \<le> MAX_INFLATED \<and>
     length (write_named (to_binary (wt_codec T)) [] (Compound m) False) \<le> MAX_INFLATED \<and>
     from_binary (wt_codec T) (to_binary (wt_codec T) (doc_compound False (Compound m)) []) =
       Inr (doc_compound False (Compound m), []))"

definition named :: "string \<Rightarrow> bool" where
  "named rel = (confine rel \<in> range Inr \<and> place rel \<noteq> [] \<and> rel_path (place rel) = rel)"

text \<open>The chunks of a region: each in the region, canonical, and small enough to stay in the file.\<close>

definition region_entry :: "ext \<Rightarrow> world_tools \<Rightarrow> repo \<Rightarrow> string \<times> smap \<Rightarrow> bool" where
  "region_entry E T r x = (case x of (rel, chunks) \<Rightarrow> is_region rel \<and> bm_wf chunks \<and>
     (\<exists>rx rz. parse_region_coords (last (place rel)) = Inr (rx, rz) \<and>
       (\<forall>(pos, i) \<in> set chunks. \<exists>p. parse_pos pos = Inr p \<and> pos_text p = pos \<and> region_of p = (rx, rz) \<and> canonical_id E T r i \<and>
         (\<forall>b z. store_read E r i = Inr b \<longrightarrow> compress (wt_compress T) ZLib (octets b) = Inr z \<longrightarrow>
           z \<noteq> [] \<and> (5 + length z + (SECTOR - 1)) div SECTOR \<le> MAX_INLINE_SECTORS))))"

definition nbt_entry :: "ext \<Rightarrow> world_tools \<Rightarrow> repo \<Rightarrow> string \<times> string \<Rightarrow> bool" where
  "nbt_entry E T r x = (case x of (rel, i) \<Rightarrow> ends_with ''.dat'' (map lower_ascii rel) \<and> canonical_id E T r i)"

definition blob_entry :: "ext \<Rightarrow> world_tools \<Rightarrow> repo \<Rightarrow> string \<times> string \<Rightarrow> bool" where
  "blob_entry E T r x = (case x of (rel, i) \<Rightarrow> \<not> is_region rel \<and> (\<exists>b. store_read E r i = Inr b \<and> blake3 E b = i \<and>
     (ends_with ''.dat'' (map lower_ascii rel) \<longrightarrow> plain_nbt E T b = None)))"

definition world_manifest :: "ext \<Rightarrow> world_tools \<Rightarrow> repo \<Rightarrow> manifest \<Rightarrow> bool" where
  "world_manifest E T r m = (manifest_wf m \<and> distinct (manifest_keys m) \<and> sorted (empty_dirs m) \<and> distinct (empty_dirs m) \<and>
     (\<forall>rel \<in> set (manifest_keys m) \<union> set (empty_dirs m). named rel) \<and>
     (\<forall>rel \<in> set (manifest_keys m). last (place rel) \<noteq> ''session.lock'') \<and>
     (\<forall>x \<in> set (regions m). region_entry E T r x) \<and> (\<forall>x \<in> set (nbt_files m). nbt_entry E T r x) \<and>
     (\<forall>x \<in> set (blobs m). blob_entry E T r x) \<and>
     (\<forall>d \<in> set (empty_dirs m). (\<forall>rel \<in> set (manifest_keys m). \<not> under (place d) (place rel)) \<and>
       (\<forall>d' \<in> set (empty_dirs m). under (place d) (place d') \<longrightarrow> d = d')))"

lemma canonical_nbt:
  assumes "canonical_id E T r i" "compressors_ok (wt_compress T)" "gzip_magic (wt_compress T)" "store_read E r i = Inr b"
    "nbt_read (from_binary (wt_codec T)) (octets b) = Inr (nm, v)"
    "save_nbt_bytes (wt_compress T) (wt_codec T) v GZip = Inr z"
  shows "plain_nbt E T (chars z) = Some i"
proof -
  obtain m where m: "blake3 E b = i" "v = Compound m" "nbt_wf (Compound m)" "homogeneous (Compound m)"
      "canonical_text T (Compound m) = b"
      "length (write_named (to_binary (wt_codec T)) [] (Compound m) False) \<le> MAX_INFLATED"
      "from_binary (wt_codec T) (to_binary (wt_codec T) (doc_compound False (Compound m)) []) = Inr (doc_compound False (Compound m), [])"
    using assms(1,4,5) by (auto simp: canonical_id_def)
  let ?raw = "write_named (to_binary (wt_codec T)) [] (Compound m) False"
  obtain p where p: "compress_level (wt_compress T) GZip ?raw 6 = Inr p" "decompress (wt_compress T) GZip p = Inr ?raw"
    using compress_decompress [OF assms(2) _ m(6), of GZip 6] by blast
  have z: "z = p" using assms(6) p(1) by (simp add: save_nbt_bytes_def compress_def m(2))
  have "sniff z = GZip" using assms(3) p(1) unfolding z gzip_magic_def by (auto simp: compress_level_def)
  moreover have "nbt_read (from_binary (wt_codec T)) ?raw = Inr ([], Compound m)"
    unfolding write_named_doc nbt_read_def m(7) using from_doc_compound [OF m(3,4), of False] by (simp add: key_norm_False)
  ultimately have "load_nbt_bytes (wt_compress T) (wt_codec T) z = Inr (Compound m)" using p(2) z by (simp add: load_nbt_bytes_def)
  then show ?thesis by (simp add: plain_nbt_def m(1,5))
qed

lemma canonical_chunk:
  assumes "canonical_id E T r i" "compressors_ok (wt_compress T)" "build_chunk E T r (pos, i) = Inr ch"
  shows "\<exists>v b. decode_raw T ch = Inr v \<and> blake3 E (canonical_text T v) = i \<and> parse_pos pos = Inr (rc_pos ch) \<and>
    store_read E r i = Inr b \<and> compress (wt_compress T) ZLib (octets b) = Inr (rc_payload ch)"
proof -
  obtain b nm m where b: "store_read E r i = Inr b" "blake3 E b = i"
      "nbt_read (from_binary (wt_codec T)) (octets b) = Inr (nm, Compound m)" "canonical_text T (Compound m) = b" "length b \<le> MAX_INFLATED"
    using assms(1) by (auto simp: canonical_id_def)
  have "length (octets b) \<le> MAX_INFLATED" using b(5) by (simp add: octets_def)
  then obtain p where p: "compress_level (wt_compress T) ZLib (octets b) 6 = Inr p" "decompress (wt_compress T) ZLib p = Inr (octets b)"
    by (rule compress_decompress [OF assms(2), of ZLib, rotated]) auto
  have ch: "rc_payload ch = p" "rc_compression ch = ZLib" "parse_pos pos = Inr (rc_pos ch)"
    using assms(3) b(1) p(1) by (auto simp: build_chunk_def compress_def res_simps)
  have "decode_raw T ch = Inr (Compound m)"
    unfolding decode_raw_def decode_chunk_def ch(1,2) using p(2) b(3) by simp
  then show ?thesis using b ch p(1) by (simp add: compress_def)
qed

text \<open>The chunks of such a region, built for writing.\<close>

lemma region_chunk:
  assumes "region_entry E T r (rel, chunks)" "compressors_ok (wt_compress T)"
    "parse_region_coords (last (place rel)) = Inr (rx, rz)" "(pos, i) \<in> set chunks" "build_chunk E T r (pos, i) = Inr ch"
  shows "\<exists>v. decode_raw T ch = Inr v \<and> pos = pos_text (rc_pos ch) \<and> i = blake3 E (canonical_text T v) \<and>
      keepable rx rz ch \<and> \<not> spills ch"
proof -
  have each: "\<forall>(pos, i) \<in> set chunks. \<exists>p. parse_pos pos = Inr p \<and> pos_text p = pos \<and> region_of p = (rx, rz) \<and> canonical_id E T r i \<and>
         (\<forall>b z. store_read E r i = Inr b \<longrightarrow> compress (wt_compress T) ZLib (octets b) = Inr z \<longrightarrow>
           z \<noteq> [] \<and> (5 + length z + (SECTOR - 1)) div SECTOR \<le> MAX_INLINE_SECTORS)"
    using assms(1,3) by (simp add: region_entry_def)
  obtain p where p: "parse_pos pos = Inr p" "pos_text p = pos" "region_of p = (rx, rz)" "canonical_id E T r i"
      "\<And>b z. store_read E r i = Inr b \<Longrightarrow> compress (wt_compress T) ZLib (octets b) = Inr z \<Longrightarrow>
         z \<noteq> [] \<and> (5 + length z + (SECTOR - 1)) div SECTOR \<le> MAX_INLINE_SECTORS"
    using each assms(4) by fastforce
  obtain v c where v: "decode_raw T ch = Inr v" "blake3 E (canonical_text T v) = i" "parse_pos pos = Inr (rc_pos ch)"
      "store_read E r i = Inr c" "compress (wt_compress T) ZLib (octets c) = Inr (rc_payload ch)"
    using canonical_chunk [OF p(4) assms(2,5)] by blast
  note size = p(5) [OF v(4,5)]
  have "length (rc_payload ch) \<le> MAX_EXTERNAL_CHUNK"
  proof -
    let ?n = "5 + length (rc_payload ch) + (SECTOR - 1)"
    have "?n = ?n div 4096 * 4096 + ?n mod 4096" "?n mod 4096 < 4096" by simp_all
    moreover have "?n div 4096 * 4096 \<le> 255 * 4096" using size by (intro mult_le_mono1) (simp add: SECTOR_def MAX_INLINE_SECTORS_def)
    ultimately have "?n < 256 * 4096" by linarith
    then show ?thesis by (simp add: MAX_EXTERNAL_CHUNK_def)
  qed
  moreover have "\<not> spills ch" using size by (simp add: spills_def sectors_needed_def)
  ultimately show ?thesis using v(1,2,3) p(1-3) size by (auto simp: keepable_def)
qed

lemma region_small:
  assumes "region_entry E T r (rel, chunks)" "compressors_ok (wt_compress T)" "build_region E T r (rel, chunks) = Inr (rel, raws)"
  shows "\<forall>ch \<in> set raws. \<not> spills ch"
proof
  fix ch assume "ch \<in> set raws"
  moreover have built: "list_all2 (\<lambda>x ch. build_chunk E T r x = Inr ch) chunks raws"
    using assms(3) by (intro collect_all2) (auto simp: build_region_def res_simps)
  ultimately obtain x where x: "x \<in> set chunks" "build_chunk E T r x = Inr ch" using all2_right [OF built] by blast
  obtain rx rz where "parse_region_coords (last (place rel)) = Inr (rx, rz)" using assms(1) by (auto simp: region_entry_def)
  note one = region_chunk [OF assms(1,2) this]
  obtain pos i where "x = (pos, i)" by (cases x)
  then show "\<not> spills ch" using one x by blast
qed

text \<open>A region file written from such chunks is read back as they are.\<close>

lemma region_back:
  assumes "region_entry E T r (rel, chunks)" "compressors_ok (wt_compress T)" "build_region E T r (rel, chunks) = Inr (rel, raws)"
    "region_write (last (place rel)) raws dir (last (place rel)) = Some (Regular b)"
    "contents w (place rel) = Some (chars b)" "place rel \<noteq> []"
  shows "plain_region E T w (place rel) = Some chunks"
proof -
  obtain rx rz where name: "parse_region_coords (last (place rel)) = Inr (rx, rz)" and wf: "bm_wf chunks"
    using assms(1) by (auto simp: region_entry_def)
  note one = region_chunk [OF assms(1,2) name]
  have built: "list_all2 (\<lambda>x ch. build_chunk E T r x = Inr ch) chunks raws"
    using assms(3) by (intro collect_all2) (auto simp: build_region_def res_simps)
  define g where "g ch = (pos_text (rc_pos ch), case decode_raw T ch of Inr v \<Rightarrow> blake3 E (canonical_text T v) | Inl _ \<Rightarrow> [])" for ch
  have "list_all2 (\<lambda>x ch. g ch = x \<and> keepable rx rz ch \<and> \<not> spills ch) chunks raws"
    using built
  proof (rule list.rel_mono_strong)
    fix x ch assume x: "x \<in> set chunks" "build_chunk E T r x = Inr ch"
    obtain pos i where "x = (pos, i)" by (cases x)
    then obtain v where "decode_raw T ch = Inr v" "x = (pos_text (rc_pos ch), blake3 E (canonical_text T v))"
        "keepable rx rz ch \<and> \<not> spills ch" using one x by blast
    then show "g ch = x \<and> keepable rx rz ch \<and> \<not> spills ch" by (simp add: g_def)
  qed
  then have g: "map g raws = chunks" and raws_ok: "\<And>ch. ch \<in> set raws \<Longrightarrow> keepable rx rz ch \<and> \<not> spills ch"
    by (auto simp: list_all2_conv_all_nth in_set_conv_nth intro!: nth_equalityI)
  have "distinct (map fst (map g raws))" using bm_wf_distinct [OF wf] g by simp
  moreover have "map fst (map g raws) = map pos_text (map rc_pos raws)" by (simp add: g_def comp_def)
  ultimately have "distinct (map pos_text (map rc_pos raws))" by metis
  then have dist: "distinct (map rc_pos raws)" unfolding distinct_map by blast
  let ?d = "directory_of w (butlast (place rel))"
  have "?d (last (place rel)) = Some (Regular b)"
    using assms(5,6) by (auto simp: directory_of_def contents_def split: option.splits node.splits)
  then have "?d (last (place rel)) = region_write (last (place rel)) raws dir (last (place rel))" using assms(4) by simp
  with region_write_read [where name = "last (place rel)" and chunks = raws and dir = dir and d = ?d, OF name _ dist] raws_ok
  obtain rf where rf: "region_open ?d (last (place rel)) = Inr rf"
      "\<And>p c. region_get rf p = Some c \<longleftrightarrow> (\<exists>ch \<in> set raws. rc_pos ch = p \<and> c = AnvilRegion.stored ch)" by blast
  have chs: "set (region_chunks rf) = AnvilRegion.stored ` set raws"
  proof -
    have "c \<in> set (region_chunks rf) \<longleftrightarrow> (\<exists>p. region_get rf p = Some c)" for c
      using region_open_wf [OF rf(1)] by (force simp: region_chunks_def region_get_def im_get_Some_iff)
    then show ?thesis by (auto simp: rf(2))
  qed
  have same: "decode_raw T (AnvilRegion.stored ch) = decode_raw T ch" "rc_pos (AnvilRegion.stored ch) = rc_pos ch" "g (AnvilRegion.stored ch) = g ch" for ch
    by (simp_all add: AnvilRegion.stored_def decode_raw_def decode_chunk_def g_def)
  have "\<exists>v. decode_raw T c = Inr v \<and> g c = (pos_text (rc_pos c), blake3 E (canonical_text T v))" if c: "c \<in> set (region_chunks rf)" for c
  proof -
    obtain ch where ch: "ch \<in> set raws" "c = AnvilRegion.stored ch" using c by (auto simp: chs)
    then obtain x where x: "x \<in> set chunks" "build_chunk E T r x = Inr ch"
      using all2_right [OF built] by blast
    obtain pos i where "x = (pos, i)" by (cases x)
    then obtain v where "decode_raw T ch = Inr v" using one x by blast
    then show ?thesis by (simp add: ch(2) same) (simp add: g_def)
  qed
  then have "plain_ids E T (region_chunks rf) [] = Some (fold (\<lambda>(a, b). bm_insert a b) (map g (region_chunks rf)) [])"
    by (rule plain_ids_entries)
  moreover have "set (map g (region_chunks rf)) = set chunks"
    unfolding g [symmetric] by (simp add: chs image_image same(3))
  ultimately show ?thesis using rf(1) bm_rebuild [OF wf] by (simp add: plain_region_def)
qed

text \<open>Every tree a checkout leaves is a tree again.\<close>

lemma put_region_wf: "put_region x w = Inr w' \<Longrightarrow> fs_wf w \<Longrightarrow> fs_wf w'"
  by (auto simp: put_region_def res_simps split: prod.splits if_splits intro: write_region_wf fs_wf_create_dir_all)

lemma put_nbt_wf: "put_nbt E T r x w = Inr w' \<Longrightarrow> fs_wf w \<Longrightarrow> fs_wf w'"
proof (cases x)
  case (Pair rel i)
  assume "put_nbt E T r x w = Inr w'" and wf: "fs_wf w"
  then show ?thesis unfolding Pair by (elim put_nbt_cases) (rule fs_wf_write, rule fs_wf_create_dir_all, assumption+)
qed

lemma put_blob_wf: "put_blob E r x w = Inr w' \<Longrightarrow> fs_wf w \<Longrightarrow> fs_wf w'"
proof (cases x)
  case (Pair rel i)
  assume "put_blob E r x w = Inr w'" and wf: "fs_wf w"
  then show ?thesis unfolding Pair by (elim put_blob_cases) (rule fs_wf_write, rule fs_wf_create_dir_all, assumption+)
qed

lemma put_dir_wf: "put_dir x w = Inr w' \<Longrightarrow> fs_wf w \<Longrightarrow> fs_wf w'"
  by (auto simp: put_dir_def res_simps fs_wf_create_dir_all)

text \<open>Everything in the tree after a checkout into an empty directory.\<close>

lemma checkout_tree:
  assumes "checkout E T r m home False [] = Inr w'" "world_manifest E T r m" "compressors_ok (wt_compress T)" "gzip_magic (wt_compress T)"
  shows "fs_wf w'" "contents w' q \<noteq> None \<longleftrightarrow> q \<in> place ` set (manifest_keys m)"
    "is_dir w' q \<longleftrightarrow> q = [] \<or> (\<exists>rel \<in> set (manifest_keys m). under q (butlast (place rel))) \<or>
      (\<exists>d \<in> set (empty_dirs m). under q (place d))"
    "\<And>rel c. (rel, c) \<in> set (regions m) \<Longrightarrow> plain_region E T w' (place rel) = Some c"
    "\<And>rel i. (rel, i) \<in> set (nbt_files m) \<Longrightarrow> \<exists>b. contents w' (place rel) = Some b \<and> plain_nbt E T b = Some i"
    "\<And>rel i. (rel, i) \<in> set (blobs m) \<Longrightarrow> \<exists>b. contents w' (place rel) = Some b \<and> store_read E r i = Inr b"
proof -
  obtain built w1 w2 w3 where 1: "collect_res (map (build_region E T r) (regions m)) = Inr built"
    "each put_region built [] = Inr w1" "each (put_nbt E T r) (nbt_files m) w1 = Inr w2"
    "each (put_blob E r) (blobs m) w2 = Inr w3" "each put_dir (empty_dirs m) w3 = Inr w'"
    by (rule checkout_cases [OF assms(1)]) simp
  have wf0: "fs_wf []" by (simp add: fs_wf_def)
  have "fs_wf w1" by (rule each_inv [OF 1(2), of fs_wf, OF wf0 put_region_wf])
  then have "fs_wf w2" by (rule each_inv [OF 1(3), of fs_wf, OF _ put_nbt_wf])
  then have "fs_wf w3" by (rule each_inv [OF 1(4), of fs_wf, OF _ put_blob_wf])
  then show "fs_wf w'" by (rule each_inv [OF 1(5), of fs_wf, OF _ put_dir_wf])
  note wm = assms(2) [unfolded world_manifest_def]
  note b2 = collect_all2 [OF 1(1)] and names = built_names [OF 1(1)]
  have inj: "inj_on place (set (manifest_keys m))" using wm by (intro inj_on_inverseI [of _ rel_path]) (auto simp: named_def)
  have keys: "manifest_keys m = map fst built @ map fst (nbt_files m) @ map fst (blobs m)"
    by (simp add: manifest_keys_def names)
  have d: "distinct (map place (manifest_keys m))" using inj wm by (simp add: distinct_map)
  then have d1: "distinct (map (place \<circ> fst) built)" "distinct (map (place \<circ> fst) (nbt_files m))" "distinct (map (place \<circ> fst) (blobs m))"
    and d2: "(place \<circ> fst) ` set built \<inter> (place \<circ> fst) ` set (nbt_files m) = {}"
      "(place \<circ> fst) ` set built \<inter> (place \<circ> fst) ` set (blobs m) = {}"
      "(place \<circ> fst) ` set (nbt_files m) \<inter> (place \<circ> fst) ` set (blobs m) = {}"
    by (auto simp: keys)
  have small: "\<forall>ch \<in> set raws. \<not> spills ch" if y: "(rel, raws) \<in> set built" for rel raws
  proof -
    obtain x where x: "x \<in> set (regions m)" "build_region E T r x = Inr (rel, raws)"
      using all2_right [OF b2 y] by blast
    obtain c where c: "x = (rel, c)" using x(2) by (cases x) (auto simp: build_region_def res_simps)
    show ?thesis using region_small [OF _ assms(3), of E r rel c raws] wm x c by auto
  qed
  define Q where "Q x b = (\<exists>y dir. region_write (last (place (fst x))) (snd x) dir (last (place (fst x))) = Some (Regular y) \<and>
      b = chars y \<and> place (fst x) \<noteq> [])" for x b
  have "\<exists>c. Q x c \<and> writes ((place \<circ> fst) x) c a b" if "x \<in> set built" "put_region x a = Inr b" for x a b
    using put_region_writes [of "fst x" "snd x" a b] small [of "fst x" "snd x"] that by (force simp: Q_def)
  note R = each_writes [OF 1(2) d1(1), of Q, OF this]
  define N where "N x b = (\<exists>c nm v z. store_read E r (snd x) = Inr c \<and> nbt_read (from_binary (wt_codec T)) (octets c) = Inr (nm, v) \<and>
      save_nbt_bytes (wt_compress T) (wt_codec T) v GZip = Inr z \<and> b = chars z)" for x :: "string \<times> string" and b
  have "\<exists>c. N x c \<and> writes ((place \<circ> fst) x) c a b" if "x \<in> set (nbt_files m)" "put_nbt E T r x a = Inr b" for x a b
    using put_nbt_writes [of E T r "fst x" "snd x" a b] that by (force simp: N_def)
  note N = each_writes [OF 1(3) d1(2), of N, OF this]
  have "\<exists>c. store_read E r (snd x) = Inr c \<and> writes ((place \<circ> fst) x) c a b" if "x \<in> set (blobs m)" "put_blob E r x a = Inr b" for x a b
    using put_blob_writes [of E r "fst x" "snd x" a b] that by force
  note B = each_writes [OF 1(4) d1(3), of "\<lambda>x c. store_read E r (snd x) = Inr c", OF this]
  note D = each_dirs [OF 1(5)]
  have cR: "\<exists>b. Q x b \<and> contents w' (place (fst x)) = Some b" if x: "x \<in> set built" for x
  proof -
    obtain b where b: "Q x b" "contents w1 ((place \<circ> fst) x) = Some b" using R(1) x by blast
    have "(place \<circ> fst) x \<notin> (place \<circ> fst) ` set (nbt_files m)" "(place \<circ> fst) x \<notin> (place \<circ> fst) ` set (blobs m)"
      using d2(1,2) x by blast+
    then show ?thesis using b N(2) B(2) D(1) by auto
  qed
  have cN: "\<exists>b. N x b \<and> contents w' (place (fst x)) = Some b" if x: "x \<in> set (nbt_files m)" for x
  proof -
    obtain b where b: "N x b" "contents w2 ((place \<circ> fst) x) = Some b" using N(1) x by blast
    have "(place \<circ> fst) x \<notin> (place \<circ> fst) ` set (blobs m)" using d2(3) x by blast
    then show ?thesis using b B(2) D(1) by auto
  qed
  have cB: "\<exists>b. store_read E r (snd x) = Inr b \<and> contents w' (place (fst x)) = Some b" if x: "x \<in> set (blobs m)" for x
    using B(1) x D(1) by auto
  have places: "place ` set (manifest_keys m) = (place \<circ> fst) ` set built \<union> (place \<circ> fst) ` set (nbt_files m) \<union> (place \<circ> fst) ` set (blobs m)"
    by (auto simp: keys)
  show "contents w' q \<noteq> None \<longleftrightarrow> q \<in> place ` set (manifest_keys m)"
  proof
    assume "q \<in> place ` set (manifest_keys m)"
    then show "contents w' q \<noteq> None" unfolding places using cR cN cB by fastforce
  next
    assume c: "contents w' q \<noteq> None"
    show "q \<in> place ` set (manifest_keys m)"
    proof (rule ccontr)
      assume "q \<notin> place ` set (manifest_keys m)"
      then have "contents w' q = contents [] q" using R(2) N(2) B(2) D(1) unfolding places by simp
      then show False using c by (simp add: contents_def fs_lookup_def im_get_Nil split: if_splits)
    qed
  qed
  have "is_dir [] q \<longleftrightarrow> q = []" by (simp add: is_dir_def fs_lookup_def im_get_Nil)
  moreover have "(\<exists>rel \<in> set (manifest_keys m). under q (butlast (place rel))) \<longleftrightarrow>
      (\<exists>x \<in> set built. under q (butlast ((place \<circ> fst) x))) \<or> (\<exists>x \<in> set (nbt_files m). under q (butlast ((place \<circ> fst) x))) \<or>
      (\<exists>x \<in> set (blobs m). under q (butlast ((place \<circ> fst) x)))"
    unfolding keys by auto
  ultimately show "is_dir w' q \<longleftrightarrow> q = [] \<or> (\<exists>rel \<in> set (manifest_keys m). under q (butlast (place rel))) \<or>
      (\<exists>d \<in> set (empty_dirs m). under q (place d))"
    using D(2) [of q] B(3) [of q] N(3) [of q] R(3) [of q] by blast
  show "plain_region E T w' (place rel) = Some c" if x: "(rel, c) \<in> set (regions m)" for rel c
  proof -
    obtain y where y: "y \<in> set built" "build_region E T r (rel, c) = Inr y" using all2_left [OF b2 x] by blast
    obtain raws where raws: "y = (rel, raws)" using y(2) by (auto simp: build_region_def res_simps)
    obtain b dir where b: "region_write (last (place rel)) raws dir (last (place rel)) = Some (Regular b)" "place rel \<noteq> []"
        "contents w' (place rel) = Some (chars b)"
      using cR [OF y(1)] by (auto simp: Q_def raws)
    show ?thesis by (rule region_back [OF _ assms(3) _ b(1,3,2)]) (use wm x y(2) raws in auto)
  qed
  show "\<exists>b. contents w' (place rel) = Some b \<and> plain_nbt E T b = Some i" if x: "(rel, i) \<in> set (nbt_files m)" for rel i
  proof -
    obtain c nm v z where z: "store_read E r i = Inr c" "nbt_read (from_binary (wt_codec T)) (octets c) = Inr (nm, v)"
      "save_nbt_bytes (wt_compress T) (wt_codec T) v GZip = Inr z" "contents w' (place rel) = Some (chars z)"
      using cN [OF x] by (auto simp: N_def)
    have "canonical_id E T r i" using wm x by (auto simp: nbt_entry_def)
    from canonical_nbt [OF this assms(3,4) z(1-3)] show ?thesis using z(4) by blast
  qed
  show "\<exists>b. contents w' (place rel) = Some b \<and> store_read E r i = Inr b" if x: "(rel, i) \<in> set (blobs m)" for rel i
    using cB [OF x] by auto
qed

text \<open>The directories that end up empty are those the manifest lists.\<close>

lemma checkout_empty:
  assumes "checkout E T r m home False [] = Inr w'" "world_manifest E T r m" "compressors_ok (wt_compress T)" "gzip_magic (wt_compress T)" "p \<noteq> []"
  shows "read_dir w' p = Some [] \<longleftrightarrow> p \<in> place ` set (empty_dirs m)"
proof -
  note t = checkout_tree [OF assms(1-4)] and wm = assms(2) [unfolded world_manifest_def]
  have ne: "place rel \<noteq> []" if "rel \<in> set (manifest_keys m) \<union> set (empty_dirs m)" for rel using wm that by (auto simp: named_def)
  have exists: "fs_exists w' q \<longleftrightarrow> contents w' q \<noteq> None \<or> is_dir w' q" for q
    by (auto simp: fs_exists_def contents_def is_dir_def split: option.splits node.splits)
  have "read_dir w' p = Some [] \<longleftrightarrow> is_dir w' p \<and> (\<forall>n. \<not> fs_exists w' (p @ [n]))"
  proof (cases "is_dir w' p")
    case True
    then obtain ns where ns: "read_dir w' p = Some ns" by (simp add: read_dir_def)
    have "ns = [] \<longleftrightarrow> (\<forall>n. n \<notin> set ns)" by (cases ns) auto
    moreover have "n \<in> set ns \<longleftrightarrow> fs_exists w' (p @ [n])" for n using read_dir_mem [OF True, of n] ns by simp
    ultimately have "ns = [] \<longleftrightarrow> (\<forall>n. \<not> fs_exists w' (p @ [n]))" by simp
    then show ?thesis using ns True by simp
  qed (simp add: read_dir_def)
  also have "\<dots> \<longleftrightarrow> p \<in> place ` set (empty_dirs m)"
  proof
    assume p: "is_dir w' p \<and> (\<forall>n. \<not> fs_exists w' (p @ [n]))"
    have step: "under (p @ [q ! length p]) q" if "under p q" "p \<noteq> q" for q
    proof -
      obtain r where r: "q = p @ r" "r \<noteq> []" using \<open>under p q\<close> \<open>p \<noteq> q\<close> unfolding under_iff by auto
      then have "q = (p @ [q ! length p]) @ tl r" by (cases r) simp_all
      then show ?thesis unfolding under_iff by blast
    qed
    have "\<not> under p (butlast (place rel))" if rel: "rel \<in> set (manifest_keys m)" for rel
    proof
      assume u: "under p (butlast (place rel))"
      show False
      proof (cases "p = butlast (place rel)")
        case True
        then have "p @ [last (place rel)] = place rel" using ne [of rel] rel by simp
        then have "fs_exists w' (p @ [last (place rel)])" using t(2) [of "place rel"] rel unfolding exists by auto
        then show False using p by blast
      next
        case False
        then have "is_dir w' (p @ [butlast (place rel) ! length p])" using step [OF u] t(3) rel by auto
        then show False using p exists by blast
      qed
    qed
    then obtain d where d: "d \<in> set (empty_dirs m)" "under p (place d)" using p t(3) [of p] assms(5) by auto
    have "p = place d"
    proof (rule ccontr)
      assume "p \<noteq> place d"
      then have "is_dir w' (p @ [place d ! length p])" using step [OF d(2)] t(3) d(1) by auto
      then show False using p exists by blast
    qed
    then show "p \<in> place ` set (empty_dirs m)" using d(1) by blast
  next
    assume "p \<in> place ` set (empty_dirs m)"
    then obtain d where d: "d \<in> set (empty_dirs m)" "p = place d" by blast
    have long: "under p q" if "under (p @ [n]) q" for n q
      using that unfolding under_iff by auto
    have "under p p" by (simp add: under_def)
    then have "is_dir w' p" using t(3) d by auto
    moreover have "\<not> fs_exists w' (p @ [n])" for n
    proof
      assume "fs_exists w' (p @ [n])"
      then consider (leaf) rel where "rel \<in> set (manifest_keys m)" "p @ [n] = place rel"
        | (above) rel where "rel \<in> set (manifest_keys m)" "under (p @ [n]) (butlast (place rel))"
        | (dir) d' where "d' \<in> set (empty_dirs m)" "under (p @ [n]) (place d')"
        unfolding exists t(2) t(3) by auto
      then show False
      proof cases
        case leaf
        then have "under (place d) (place rel)" by (simp add: under_def d(2) flip: leaf(2))
        then show False using wm d(1) leaf(1) by blast
      next
        case above
        then have "under p (butlast (place rel))" using long by blast
        moreover have "butlast (place rel) @ [last (place rel)] = place rel" using ne above(1) by simp
        ultimately have "under p (place rel)" unfolding under_iff by (metis append.assoc)
        then show False using wm d above(1) by blast
      next
        case dir
        then have "d = d'" using wm d long by blast
        then show False using dir(2) d(2) by (auto simp: under_def)
      qed
    qed
    ultimately show "is_dir w' p \<and> (\<forall>n. \<not> fs_exists w' (p @ [n]))" by blast
  qed
  finally show ?thesis .
qed

lemma wf_entry: "fs_wf w \<Longrightarrow> (p, n) \<in> set w \<longleftrightarrow> p \<noteq> [] \<and> fs_lookup w p = Some n"
proof -
  assume wf: "fs_wf w"
  then have "(p, n) \<in> set w \<longleftrightarrow> im_get w p = Some n" by (simp add: fs_wf_def im_get_Some_iff)
  moreover have "p \<noteq> []" if "(p, n) \<in> set w" using wf that by (force simp: fs_wf_def)
  ultimately show ?thesis by (auto simp: fs_lookup_def)
qed

lemma world_files_all:
  assumes "fs_wf w"
  shows "set (world_files w None) = {p. contents w p \<noteq> None \<and> last p \<noteq> ''session.lock''}"
proof -
  have "contents w p \<noteq> None \<longleftrightarrow> (\<exists>n. (p, n) \<in> set w \<and> n \<noteq> Dir)" for p
    unfolding wf_entry [OF assms] by (auto simp: contents_def fs_lookup_def split: option.splits node.splits)
  moreover have "p \<in> set (world_files w None) \<longleftrightarrow> (\<exists>n. (p, n) \<in> set w \<and> n \<noteq> Dir) \<and> last p \<noteq> ''session.lock''" for p
    by (force simp: world_files_def in_repo_def)
  ultimately show ?thesis by blast
qed

lemma world_dirs_all: "fs_wf w \<Longrightarrow> set (world_dirs w None) = {p. is_dir w p}"
proof -
  assume wf: "fs_wf w"
  have "p \<in> set (world_dirs w None) \<longleftrightarrow> p = [] \<or> (p, Dir) \<in> set w" for p by (force simp: world_dirs_def in_repo_def)
  moreover have "is_dir w p \<longleftrightarrow> p = [] \<or> (p, Dir) \<in> set w" for p
    unfolding wf_entry [OF wf] by (auto simp: is_dir_def fs_lookup_def)
  ultimately show ?thesis by blast
qed

lemma checkout_kinds:
  assumes "checkout E T r m home False [] = Inr w'" "world_manifest E T r m" "compressors_ok (wt_compress T)" "gzip_magic (wt_compress T)"
  defines "K \<equiv> \<lambda>p. plain_kind E T w' p (the (contents w' p))"
  shows "(rel, c) \<in> set (regions m) \<Longrightarrow> K (place rel) = Region_kind c"
    "(rel, i) \<in> set (nbt_files m) \<Longrightarrow> K (place rel) = Nbt_kind i"
    "(rel, i) \<in> set (blobs m) \<Longrightarrow> K (place rel) = Blob_kind i"
proof -
  note t = checkout_tree [OF assms(1-4)] and wm = assms(2) [unfolded world_manifest_def]
  have path: "rel_path (place rel) = rel" if "rel \<in> set (manifest_keys m)" for rel using wm that by (auto simp: named_def)
  show "K (place rel) = Region_kind c" if x: "(rel, c) \<in> set (regions m)"
  proof -
    have "rel \<in> set (manifest_keys m)" using x by (force simp: manifest_keys_def)
    moreover have "is_region rel" using wm x by (auto simp: region_entry_def)
    ultimately show ?thesis using t(4) [OF x] path by (simp add: K_def plain_kind_def)
  qed
  show "K (place rel) = Nbt_kind i" if x: "(rel, i) \<in> set (nbt_files m)"
  proof -
    have k: "rel \<in> set (manifest_keys m)" using x by (force simp: manifest_keys_def)
    have dat: "ends_with ''.dat'' (map lower_ascii rel)" using wm x by (auto simp: nbt_entry_def)
    then have "\<not> is_region rel" using region_is_no_dat by blast
    then show ?thesis using t(5) [OF x] path [OF k] dat by (auto simp: K_def plain_kind_def plain_file_def)
  qed
  show "K (place rel) = Blob_kind i" if x: "(rel, i) \<in> set (blobs m)"
  proof -
    have k: "rel \<in> set (manifest_keys m)" using x by (force simp: manifest_keys_def)
    obtain b where b: "\<not> is_region rel" "store_read E r i = Inr b" "blake3 E b = i"
        "ends_with ''.dat'' (map lower_ascii rel) \<longrightarrow> plain_nbt E T b = None"
      using wm x by (auto simp: blob_entry_def)
    then show ?thesis using t(6) [OF x] path [OF k] by (auto simp: K_def plain_kind_def plain_file_def)
  qed
qed

lemma checkout_back:
  assumes "checkout E T r m home False [] = Inr w'" "world_manifest E T r m" "compressors_ok (wt_compress T)" "gzip_magic (wt_compress T)"
  shows "plain_manifest E T w' None (\<lambda>_. True) = m"
proof -
  note t = checkout_tree [OF assms] and wm = assms(2) [unfolded world_manifest_def]
  define K where "K p = plain_kind E T w' p (the (contents w' p))" for p
  note kinds = checkout_kinds [OF assms, folded K_def]
  have path: "rel_path (place rel) = rel" if "rel \<in> set (manifest_keys m) \<union> set (empty_dirs m)" for rel
    using wm that by (auto simp: named_def)
  let ?ps = "world_files w' None"
  have ps: "set ?ps = place ` set (manifest_keys m)"
    unfolding world_files_all [OF t(1)] t(2) using wm by auto
  have wf: "bm_wf (regions m)" "bm_wf (nbt_files m)" "bm_wf (blobs m)" using wm by (simp_all add: manifest_wf_def)
  have part: "set (entries rel_path (\<lambda>p. f (K p)) ?ps) = set es"
    if es: "\<And>rel c. (rel, c) \<in> set es \<Longrightarrow> rel \<in> set (manifest_keys m) \<and> f (K (place rel)) = Some c"
      "\<And>rel c. rel \<in> set (manifest_keys m) \<Longrightarrow> f (K (place rel)) = Some c \<Longrightarrow> (rel, c) \<in> set es"
    for f :: "kind \<Rightarrow> 'x option" and es
  proof -
    have "(a, c) \<in> set (entries rel_path (\<lambda>p. f (K p)) ?ps) \<longleftrightarrow> (\<exists>rel \<in> set (manifest_keys m). a = rel_path (place rel) \<and> f (K (place rel)) = Some c)"
      for a c unfolding entries_set ps by blast
    moreover have "(\<exists>rel \<in> set (manifest_keys m). a = rel_path (place rel) \<and> f (K (place rel)) = Some c) \<longleftrightarrow>
        a \<in> set (manifest_keys m) \<and> f (K (place a)) = Some c" for a c using path by auto
    moreover have "a \<in> set (manifest_keys m) \<and> f (K (place a)) = Some c \<longleftrightarrow> (a, c) \<in> set es" for a c using es by blast
    ultimately have "(a, c) \<in> set (entries rel_path (\<lambda>p. f (K p)) ?ps) \<longleftrightarrow> (a, c) \<in> set es" for a c by simp
    then show ?thesis by (simp add: set_eq_iff)
  qed
  have cases: "(\<exists>c. (rel, c) \<in> set (regions m)) \<or> (\<exists>i. (rel, i) \<in> set (nbt_files m)) \<or> (\<exists>i. (rel, i) \<in> set (blobs m))"
    if "rel \<in> set (manifest_keys m)" for rel using that by (auto simp: manifest_keys_def)
  have mem: "(rel, c) \<in> set (regions m) \<Longrightarrow> rel \<in> set (manifest_keys m)" "(rel, i) \<in> set (nbt_files m) \<Longrightarrow> rel \<in> set (manifest_keys m)"
      "(rel, i) \<in> set (blobs m) \<Longrightarrow> rel \<in> set (manifest_keys m)" for rel c i
    by (force simp: manifest_keys_def)+
  have R: "set (entries rel_path (\<lambda>p. region_part (K p)) ?ps) = set (regions m)"
    by (rule part) (use mem(1) kinds(1) in \<open>force simp: region_part_def\<close>,
      use cases kinds in \<open>fastforce simp: region_part_def\<close>)
  have N: "set (entries rel_path (\<lambda>p. nbt_part (K p)) ?ps) = set (nbt_files m)"
    by (rule part) (use mem(2) kinds(2) in \<open>force simp: nbt_part_def\<close>, use cases kinds in \<open>fastforce simp: nbt_part_def\<close>)
  have B: "set (entries rel_path (\<lambda>p. blob_part (K p)) ?ps) = set (blobs m)"
    by (rule part) (use mem(3) kinds(3) in \<open>force simp: blob_part_def\<close>, use cases kinds in \<open>fastforce simp: blob_part_def\<close>)
  let ?M = "fold (\<lambda>p. add_entry (rel_path p) (K p)) ?ps empty_manifest"
  have parts: "regions ?M = regions m" "nbt_files ?M = nbt_files m" "blobs ?M = blobs m"
    unfolding add_entries using bm_rebuild [OF wf(1) R] bm_rebuild [OF wf(2) N] bm_rebuild [OF wf(3) B]
    by (simp_all add: empty_manifest_def)
  have dirs: "sort (empty_paths w' (world_dirs w' None)) = empty_dirs m"
  proof (rule sorted_distinct_set_unique)
    note ds = world_dirs_all [OF t(1)]
    have "distinct (world_dirs w' None)"
    proof -
      have "distinct (map fst w')" "[] \<notin> fst ` set w'" using t(1) by (auto simp: fs_wf_def im_wf_def)
      then show ?thesis by (auto simp: world_dirs_def in_repo_def distinct_map_filter)
    qed
    moreover have "{p \<in> set (world_dirs w' None). read_dir w' p = Some []} - {[]} = place ` set (empty_dirs m)"
      (is "?A = ?B")
    proof -
      have A: "p \<in> ?A \<longleftrightarrow> p \<noteq> [] \<and> read_dir w' p = Some []" for p
        unfolding ds by (auto simp: read_dir_def split: if_splits)
      have "\<forall>d \<in> set (empty_dirs m). named d" using wm by blast
      then have B: "[] \<notin> ?B" by (auto simp: named_def)
      have "p \<in> ?A \<longleftrightarrow> p \<in> ?B" for p
      proof (cases "p = []")
        case True
        then show ?thesis unfolding A using B by simp
      next
        case False
        then show ?thesis unfolding A checkout_empty [OF assms False] by simp
      qed
      then show ?thesis by (rule set_eqI)
    qed
    ultimately have e: "set (filter (\<lambda>d. read_dir w' d = Some []) (world_dirs w' None)) - {[]} = place ` set (empty_dirs m)"
        "distinct (filter (\<lambda>d. read_dir w' d = Some []) (world_dirs w' None))" by auto
    let ?xs = "filter (\<lambda>d. read_dir w' d = Some []) (world_dirs w' None)"
    have pe: "rel_path p \<in> set (empty_dirs m) \<and> place (rel_path p) = p" if "p \<in> set ?xs" "p \<noteq> []" for p
    proof -
      have "p \<in> place ` set (empty_dirs m)" using e(1) that by blast
      then show ?thesis using path by auto
    qed
    have root: "rel_path [] = []" by (simp add: rel_path_def)
    have nonempty: "d \<noteq> []" if "d \<in> set (empty_dirs m)" for d
    proof
      assume "d = []"
      then have "named []" using wm that by blast
      then show False by (simp add: named_def place_def confine_def components_def)
    qed
    show "set (sort (empty_paths w' (world_dirs w' None))) = set (empty_dirs m)"
    proof (intro set_eqI iffI)
      fix d assume "d \<in> set (sort (empty_paths w' (world_dirs w' None)))"
      then obtain p where "p \<in> set ?xs" "d = rel_path p" "d \<noteq> []" by (auto simp: empty_paths_def)
      then show "d \<in> set (empty_dirs m)" using pe [of p] root by (cases "p = []") auto
    next
      fix d assume d: "d \<in> set (empty_dirs m)"
      then have "place d \<in> set ?xs" using e(1) by blast
      moreover have "rel_path (place d) = d" using path d by simp
      ultimately have "d \<in> rel_path ` set ?xs" by (metis imageI)
      then show "d \<in> set (sort (empty_paths w' (world_dirs w' None)))"
        using nonempty [OF d] by (simp add: empty_paths_def)
    qed
    have inj: "inj_on rel_path (set ?xs)"
    proof (rule inj_on_inverseI)
      fix p assume p: "p \<in> set ?xs"
      show "(if rel_path p = [] then [] else place (rel_path p)) = p"
      proof (cases "p = []")
        case False
        from pe [OF p this] have "rel_path p \<in> set (empty_dirs m)" "place (rel_path p) = p" by blast+
        then show ?thesis using nonempty [of "rel_path p"] by simp
      qed (simp add: root)
    qed
    then show "distinct (sort (empty_paths w' (world_dirs w' None)))"
      using e(2) by (simp add: empty_paths_def distinct_map del: set_filter)
  qed (use wm in simp_all)
  show ?thesis unfolding plain_manifest_def using parts dirs by (simp add: K_def [symmetric])
qed

section \<open>A checkout to evaluate\<close>

text \<open>Tools whose gzip has its magic number, and a repository that holds one document and one file.\<close>

definition back_tools :: world_tools where
  "back_tools = snap_tools\<lparr>wt_compress := magic_compressors\<rparr>"

definition back_repo :: repo where
  "back_repo = \<lparr>disk = [([''objects''], Dir), ([''objects'', ''ee''], Dir), ([''objects'', ''dd''], Dir),
     (object_path (oid (CHR ''e'')), File [CHR 0x0A]), (object_path (oid (CHR ''d'')), File ''X'')], packs = []\<rparr>"

definition back_manifest :: manifest where
  "back_manifest = \<lparr>regions = [(''region/r.0.0.mca'', [(''0,0'', oid (CHR ''e''))])], nbt_files = [(''level.dat'', oid (CHR ''e''))],
     blobs = [(''icon.png'', oid (CHR ''d''))], empty_dirs = [''data'']\<rparr>"

lemma back_tools_ok: "compressors_ok (wt_compress back_tools)" "gzip_magic (wt_compress back_tools)"
  by (simp_all add: back_tools_def magic_compressors_ok)

lemma back_canonical: "canonical_id shot_ext back_tools back_repo (oid (CHR ''e''))"
proof -
  let ?m = "[(''hp'', IntV 20)]"
  have "store_read shot_ext back_repo (oid (CHR ''e'')) = Inr [CHR 0x0A]" "blake3 shot_ext [CHR 0x0A] = oid (CHR ''e'')" by code_simp+
  moreover have "wt_codec back_tools = tiny_codec" by (simp add: back_tools_def snap_tools_def)
  moreover have "canonical_text back_tools (Compound ?m) = [CHR 0x0A]"
    by (simp add: canonical_text_def back_tools_def snap_tools_def tiny_codec_def canonical_bytes_def write_named_def chars_def)
      code_simp
  ultimately show ?thesis
    unfolding canonical_id_def
    by (intro exI [of _ "[CHR 0x0A]"] exI [of _ "[]"] exI [of _ ?m])
      (simp add: tiny_codec_def nbt_read_def im_wf_def doc_compound_def to_compound_of_def im_of_list_def
        write_named_def MAX_INFLATED_def from_compound_def)
qed

lemma back_world: "world_manifest shot_ext back_tools back_repo back_manifest"
proof -
  have "parse_region_coords (last (place ''region/r.0.0.mca'')) = Inr (0, 0)" "is_region ''region/r.0.0.mca''" by code_simp+
  moreover have "parse_pos ''0,0'' = Inr (mk_pos 0 0)" "pos_text (mk_pos 0 0) = ''0,0''" "region_of (mk_pos 0 0) = (0, 0)" by code_simp+
  moreover have "store_read shot_ext back_repo (oid (CHR ''e'')) = Inr [CHR 0x0A]" by code_simp
  ultimately have r: "region_entry shot_ext back_tools back_repo (''region/r.0.0.mca'', [(''0,0'', oid (CHR ''e''))])"
    using back_canonical
    by (auto simp: region_entry_def back_tools_def snap_tools_def magic_compressors_def plain_compressors_def compress_def compress_level_def octets_def
        SECTOR_def MAX_INLINE_SECTORS_def bm_wf_def)
  have dat: "ends_with ''.dat'' (map lower_ascii ''level.dat'')" by code_simp
  have n: "nbt_entry shot_ext back_tools back_repo (''level.dat'', oid (CHR ''e''))"
    using back_canonical dat by (simp add: nbt_entry_def)
  have "\<not> is_region ''icon.png''" "store_read shot_ext back_repo (oid (CHR ''d'')) = Inr ''X''" "blake3 shot_ext ''X'' = oid (CHR ''d'')"
      "\<not> ends_with ''.dat'' (map lower_ascii ''icon.png'')" by code_simp+
  then have b: "blob_entry shot_ext back_tools back_repo (''icon.png'', oid (CHR ''d''))" by (simp add: blob_entry_def)
  have nm: "named s \<longleftrightarrow> (case confine s of Inl _ \<Rightarrow> False | Inr q \<Rightarrow> q \<noteq> [] \<and> rel_path q = s)" for s
    by (auto simp: named_def place_def split: sum.splits)
  have "list_all named [''region/r.0.0.mca'', ''level.dat'', ''icon.png'', ''data'']" unfolding nm by code_simp
  moreover have "list_all (\<lambda>s. last (place s) \<noteq> ''session.lock'' \<and> \<not> under (place ''data'') (place s))
      [''region/r.0.0.mca'', ''level.dat'', ''icon.png'']" by code_simp
  moreover have "manifest_wf back_manifest" by code_simp
  ultimately show ?thesis using r n b
    by (simp add: world_manifest_def back_manifest_def manifest_keys_def)
qed

lemma back_run: "\<exists>w. checkout shot_ext back_tools back_repo back_manifest None False [] = Inr w"
proof -
  define ch where "ch = \<lparr>rc_pos = mk_pos 0 0, rc_compression = ZLib, rc_payload = [10], rc_external = False, rc_timestamp = 0\<rparr>"
  have b: "collect_res (map (build_region shot_ext back_tools back_repo) (regions back_manifest)) = Inr [(''region/r.0.0.mca'', [ch])]"
    unfolding ch_def by code_simp
  have f: "filter (\<lambda>ch. sectors_needed ch > MAX_INLINE_SECTORS) [ch] = []"
    by (simp add: ch_def sectors_needed_def SECTOR_def MAX_INLINE_SECTORS_def)
  obtain y where y: "region_write ''r.0.0.mca'' [ch] (directory_of [([''region''], Dir)] [''region'']) ''r.0.0.mca'' = Some (Regular y)"
    by (simp add: region_write_def Let_def)
  have c: "confine ''region/r.0.0.mca'' = Inr [''region'', ''r.0.0.mca'']" by code_simp
  have "create_dir_all [''region''] [] = Inr [([''region''], Dir)]" by code_simp
  moreover have "fs_write [''region'', ''r.0.0.mca''] z [([''region''], Dir)] = Inr [([''region''], Dir), ([''region'', ''r.0.0.mca''], File z)]" for z
    by code_simp
  ultimately have "each put_region [(''region/r.0.0.mca'', [ch])] [] = Inr [([''region''], Dir), ([''region'', ''r.0.0.mca''], File (chars y))]"
    using f by (simp add: put_region_def write_region_def Let_def c y)
  moreover have "is_ok (rbind (each (put_nbt shot_ext back_tools back_repo) (nbt_files back_manifest)
      [([''region''], Dir), ([''region'', ''r.0.0.mca''], File z)]) (\<lambda>w.
     rbind (each (put_blob shot_ext back_repo) (blobs back_manifest) w) (\<lambda>w. each put_dir (empty_dirs back_manifest) w)))" for z
    by code_simp
  then have "\<exists>w. rbind (each (put_nbt shot_ext back_tools back_repo) (nbt_files back_manifest)
      [([''region''], Dir), ([''region'', ''r.0.0.mca''], File z)]) (\<lambda>w.
     rbind (each (put_blob shot_ext back_repo) (blobs back_manifest) w) (\<lambda>w. each put_dir (empty_dirs back_manifest) w)) = Inr w" for z
    by (simp add: is_ok_iff)
  ultimately show ?thesis using b by (auto simp: checkout_def res_simps)
qed

section \<open>Properties\<close>

text \<open>
  C3. A checkout brings a world back: checked out into an empty directory, a manifest of canonical chunks
  that fit their regions, canonical documents and plain files gives a world whose snapshot is that
  manifest again, empty directories included; whatever the recompressed bytes are.
\<close>

theorem checkout_roundtrip:
  assumes "checkout E T r m home False [] = Inr w'" "world_manifest E T r m" "compressors_ok (wt_compress T)" "gzip_magic (wt_compress T)"
  shows "plain_manifest E T w' None (\<lambda>_. True) = m \<and>
    (\<forall>r2 m2 r3. snapshot E T w' None r2 = Inr (m2, r3) \<longrightarrow> keys_tell E T (world_chunks w' None) \<longrightarrow>
      cache_true E T (world_chunks w' None) (Some (cache_load T (disk r2))) \<longrightarrow> m2 = m)"
  using checkout_back [OF assms] snapshot_plain by (auto simp: snapshot_def)

theorem checkout_roundtrip_witness:
  "\<exists>w. checkout shot_ext back_tools back_repo back_manifest None False [] = Inr w \<and>
     plain_manifest shot_ext back_tools w None (\<lambda>_. True) = back_manifest"
proof -
  obtain w where w: "checkout shot_ext back_tools back_repo back_manifest None False [] = Inr w" using back_run by blast
  from checkout_roundtrip [OF w back_world back_tools_ok] w show ?thesis by blast
qed



text \<open>
  A checkout that prunes removes every file outside the repository that the manifest does not
  list, tracked or not: \<^verbatim>\<open>session.lock\<close>, which no snapshot contains, files never committed, and the
  external chunk files the region writer has just put there.
\<close>

theorem prune_spares_nothing:
  assumes "checkout E T r m home True w = Inr w'" "fs_wf w" "\<not> in_repo home q" "rel_path q \<notin> set (manifest_keys m)"
  shows "contents w' q = None"
proof -
  obtain built w1 w2 w3 w4 where 1: "each put_region built w = Inr w1" "each (put_nbt E T r) (nbt_files m) w1 = Inr w2"
    "each (put_blob E r) (blobs m) w2 = Inr w3" "each put_dir (empty_dirs m) w3 = Inr w4" "w' = prune_extra m home w4"
    by (rule checkout_cases [OF assms(1)]) simp
  have "fs_wf w1" by (rule each_inv [OF 1(1), of fs_wf, OF assms(2) put_region_wf])
  then have "fs_wf w2" by (rule each_inv [OF 1(2), of fs_wf, OF _ put_nbt_wf])
  then have "fs_wf w3" by (rule each_inv [OF 1(3), of fs_wf, OF _ put_blob_wf])
  then have "fs_wf w4" by (rule each_inv [OF 1(4), of fs_wf, OF _ put_dir_wf])
  then show ?thesis using prune_contents assms(3,4) 1(5) by simp
qed

theorem prune_spares_nothing_witness:
  "\<exists>w. checkout shot_ext back_tools back_repo (back_manifest\<lparr>regions := []\<rparr>) None True snap_world = Inr w \<and>
     contents snap_world [''session.lock''] \<noteq> None \<and> contents w [''session.lock''] = None"
proof -
  have "is_ok (checkout shot_ext back_tools back_repo (back_manifest\<lparr>regions := []\<rparr>) None True snap_world)" by code_simp
  then obtain w where w: "checkout shot_ext back_tools back_repo (back_manifest\<lparr>regions := []\<rparr>) None True snap_world = Inr w"
    by (auto simp: is_ok_iff)
  have "\<not> in_repo None [''session.lock'']" "rel_path [''session.lock''] \<notin> set (manifest_keys (back_manifest\<lparr>regions := []\<rparr>))"
      "contents snap_world [''session.lock''] \<noteq> None" by code_simp+
  then show ?thesis using prune_spares_nothing [OF w snap_world_wf] w by blast
qed



end
