(* ===== verification/RepoStash.thy ===== *)
theory RepoStash imports
  RepoCheckout
begin

text \<open>
  \<^verbatim>\<open>crates/repo/src/stash.rs\<close>: the stack of worlds put aside, and what garbage collection does to it.
\<close>

section \<open>The stash\<close>

definition stash_path :: path where "stash_path = [''stash'']"

definition read_stack :: "fs \<Rightarrow> string list" where
  "read_stack d = (case fs_read d stash_path of Inl _ \<Rightarrow> [] | Inr s \<Rightarrow> entry_lines s)"

definition write_stack :: "string list \<Rightarrow> fs \<Rightarrow> repo_error + fs" where
  "write_stack ls d = fs_write stash_path (unlines ls) d"

definition stash_push :: "ext \<Rightarrow> world_tools \<Rightarrow> path option \<Rightarrow> string \<Rightarrow> string \<Rightarrow> fs \<times> repo
    \<Rightarrow> repo_error + string option \<times> fs \<times> repo" where
  "stash_push E T home auth tm st = (case st of (w, r) \<Rightarrow>
     rbind (snapshot E T w home r) (\<lambda>(m, r).
     rbind (write_manifest E m r) (\<lambda>(t, r).
     let head = head_commit (disk r) in
     rbind (case head of None \<Rightarrow> Inr False | Some h \<Rightarrow> rbind (read_commit E r h) (\<lambda>co. Inr (tree co = t))) (\<lambda>same.
     if same then Inr (None, w, r)
     else rbind (create_commit E t (case head of None \<Rightarrow> [] | Some h \<Rightarrow> [h]) ''WIP stash'' auth tm r) (\<lambda>(c, r).
       rbind (write_stack (read_stack (disk r) @ [c]) (disk r)) (\<lambda>d. let r = r\<lparr>disk := d\<rparr> in
       rbind (case head of None \<Rightarrow> Inr w | Some h \<Rightarrow>
         rbind (read_commit E r h) (\<lambda>co. rbind (read_manifest E r (tree co)) (\<lambda>hm. checkout E T r hm home True w))) (\<lambda>w.
         Inr (Some c, w, r))))))))"

definition stash_pop :: "ext \<Rightarrow> world_tools \<Rightarrow> path option \<Rightarrow> fs \<times> repo \<Rightarrow> repo_error + string option \<times> fs \<times> repo" where
  "stash_pop E T home st = (case st of (w, r) \<Rightarrow> let stack = read_stack (disk r) in
     if stack = [] then Inr (None, w, r)
     else let top = last stack in
       rbind (read_commit E r top) (\<lambda>co. rbind (read_manifest E r (tree co)) (\<lambda>m.
       rbind (checkout E T r m home True w) (\<lambda>w.
       rbind (write_stack (butlast stack) (disk r)) (\<lambda>d. Inr (Some top, w, r\<lparr>disk := d\<rparr>))))))"

definition stash_list :: "repo \<Rightarrow> string list" where
  "stash_list r = read_stack (disk r)"

definition stash_drop :: "repo \<Rightarrow> repo_error + string option \<times> repo" where
  "stash_drop r = (let stack = read_stack (disk r) in
     if stack = [] then Inr (None, r)
     else rbind (write_stack (butlast stack) (disk r)) (\<lambda>d. Inr (Some (last stack), r\<lparr>disk := d\<rparr>)))"

section \<open>The stash is a stack\<close>

lemma snapshot_elsewhere:
  assumes "snapshot_scoped E T w home accept r = Inr (m, r')" "hd q \<noteq> ''objects''" "q \<noteq> cache_path" "hd q \<noteq> ''chunkcache.json.'' @ wt_pid T @ ''.tmp''"
  shows "contents (disk r') q = contents (disk r) q"
proof -
  obtain wr d0 s new d where 1: "pw_new (disk r) = Inr (wr, d0)"
      "build E T (Pack_sink r) w home accept \<lparr>sn_writer = wr, sn_disk = d0, sn_cache = Some (cache_load T d0)\<rparr> = Inr (m, s)"
      "finish_pack E (sn_writer s) (sn_disk s) = Inr (new, d)"
      "(case sn_cache s of None \<Rightarrow> Inr d | Some c \<Rightarrow> cache_save T c d) = Inr (disk r')"
    by (rule snapshot_cases [OF assms(1)])
  have pk: "packing E r s" using build_keeps [OF 1(2) pw_new_packing(1) [OF 1(1)]] by (simp add: keeps_on_def)
  then obtain bytes where b: "contents (sn_disk s) pw_tmp = Some bytes" by (auto simp: packing_def pw_inv_def)
  have q: "q \<noteq> pw_tmp" "q \<noteq> pack_path i" "q \<noteq> idx_path i" for i
    using assms(2) by (auto simp: pw_tmp_def pack_path_def idx_path_def pack_dir_def)
  then have "contents d q = contents (sn_disk s) q"
    using 1(3) pw_finish_contents(2) [OF _ b] by (auto simp: finish_pack_def res_simps split: if_splits)
  also have "\<dots> = contents (disk r) q" using pk q by (simp add: packing_def)
  finally have d: "contents d q = contents (disk r) q" .
  show ?thesis
  proof (cases "sn_cache s")
    case (Some c)
    let ?tmp = "[''chunkcache.json.'' @ wt_pid T @ ''.tmp'']"
    have t: "?tmp \<noteq> cache_path" by (auto simp: cache_path_def dest: arg_cong [of _ _ length])
    have "q \<noteq> ?tmp" using assms(4) by auto
    then have "contents (disk r') q = contents d q"
      using 1(4) Some t assms(3) contents_rename_file [of ?tmp cache_path _ "disk r'" "wt_cache_json T (cc_map c)"]
      by (auto simp: cache_save_def res_simps contents_write Let_def split: if_splits)
    then show ?thesis using d by simp
  qed (use 1(4) d in simp)
qed

lemma write_stack_read:
  "write_stack ls d = Inr d' \<Longrightarrow> \<forall>l \<in> set ls. entry_text l \<Longrightarrow> read_stack d' = ls"
  by (auto simp: write_stack_def read_stack_def contents_write fs_read_iff [THEN iffD2] entry_lines_unlines)

lemma read_stack_cong: "contents d stash_path = contents d' stash_path \<Longrightarrow> read_stack d = read_stack d'"
proof -
  have "read_stack x = (case contents x stash_path of None \<Rightarrow> [] | Some s \<Rightarrow> entry_lines s)" for x
    by (auto simp: read_stack_def fs_read_def contents_def split: option.splits node.splits)
  then show "contents d stash_path = contents d' stash_path \<Longrightarrow> read_stack d = read_stack d'" by simp
qed

lemma store_write_stack: "store_write E b r = Inr (i, r') \<Longrightarrow> read_stack (disk r') = read_stack (disk r)"
proof -
  assume "store_write E b r = Inr (i, r')"
  moreover have "object_path i \<noteq> stash_path" by (simp add: object_path_def stash_path_def)
  ultimately have "contents (disk r') stash_path = contents (disk r) stash_path" using store_write_effect(3) by fastforce
  then show ?thesis by (rule read_stack_cong)
qed

lemma read_stack_entries: "l \<in> set (read_stack d) \<Longrightarrow> entry_text l"
  by (auto simp: read_stack_def dest: entry_lines_entries split: sum.splits)

lemma id_entry: "is_object_id c \<Longrightarrow> entry_text c"
proof (rule word_entry)
  assume c: "is_object_id c"
  then have "c \<noteq> []" by (auto simp: is_object_id_def)
  moreover have "\<forall>x \<in> set c. \<not> is_ws x" using c is_hex_plain by (auto simp: is_object_id_def list_all_iff)
  ultimately show "word_text c" by (simp add: word_text_def)
qed

lemma stash_push_stack:
  assumes "stash_push E T home auth tm (w, r) = Inr (Some c, w', r')" "entry_text c"
  shows "stash_list r' = stash_list r @ [c]"
proof -
  obtain m r1 t r2 same where 1: "snapshot E T w home r = Inr (m, r1)" "write_manifest E m r1 = Inr (t, r2)"
      "(if same then Inr (None, w, r2)
        else rbind (create_commit E t (case head_commit (disk r2) of None \<Rightarrow> [] | Some h \<Rightarrow> [h]) ''WIP stash'' auth tm r2) (\<lambda>(c, r).
          rbind (write_stack (read_stack (disk r) @ [c]) (disk r)) (\<lambda>d. let r = r\<lparr>disk := d\<rparr> in
          rbind (case head_commit (disk r2) of None \<Rightarrow> Inr w | Some h \<Rightarrow>
            rbind (read_commit E r h) (\<lambda>co. rbind (read_manifest E r (tree co)) (\<lambda>hm. checkout E T r hm home True w))) (\<lambda>w.
            Inr (Some c, w, r))))) = Inr (Some c, w', r')"
    using assms(1) unfolding stash_push_def Let_def prod.case by (auto simp only: rbind_Inr_iff prod.case split_paired_Ex)
  have n: "\<not> same" using 1(3) by auto
  then obtain r3 d where 2: "create_commit E t (case head_commit (disk r2) of None \<Rightarrow> [] | Some h \<Rightarrow> [h]) ''WIP stash'' auth tm r2 = Inr (c, r3)"
      "write_stack (read_stack (disk r3) @ [c]) (disk r3) = Inr d" "disk r' = d"
    using 1(3) by (auto simp: res_simps Let_def)
  have "contents (disk r1) stash_path = contents (disk r) stash_path"
    by (rule snapshot_elsewhere [OF 1(1) [unfolded snapshot_def]]) (auto simp: stash_path_def cache_path_def)
  then have "read_stack (disk r3) = read_stack (disk r)"
    using store_write_stack 2(1) 1(2) read_stack_cong
    by (metis create_commit_def create_commit_signed_def option.case(1) write_commit_def write_manifest_def)
  then show ?thesis using write_stack_read [OF 2(2)] read_stack_entries assms(2) 2(3) by (auto simp: stash_list_def)
qed

lemma stash_push_id: "stash_push E T home auth tm (w, r) = Inr (Some c, w', r') \<Longrightarrow> \<exists>b. c = blake3 E b"
  by (auto simp: stash_push_def Let_def res_simps create_commit_def create_commit_signed_def write_commit_def
      dest: store_write_effect(1) split: if_splits)

lemma stash_drop_stack:
  assumes "stash_list r = cs @ [c]"
  shows "stash_drop r = Inr (x, r') \<Longrightarrow> x = Some c \<and> stash_list r' = cs"
  using assms write_stack_read [of cs "disk r"] read_stack_entries [of _ "disk r"]
  by (auto simp: stash_drop_def stash_list_def Let_def res_simps)

text \<open>A repository whose HEAD is one commit and whose stash holds another, made on top of it.\<close>

definition stash_repo :: repo where
  "stash_repo = \<lparr>disk = ([''objects''], Dir) # map (\<lambda>c. ([''objects'', [c, c]], Dir)) ''ab'' @
     [([''HEAD''], File (oid (CHR ''a'') @ [CHR 0x0A])), ([''stash''], File (oid (CHR ''b'') @ [CHR 0x0A]))] @
     commit_files [(CHR ''a'', []), (CHR ''b'', [CHR ''a''])], packs = []\<rparr>"

section \<open>Properties\<close>

text \<open>
  The stash is a stack: a push that shelves something puts its commit on top of what was there,
  whatever it does to the world, and dropping the top brings the old stack back.
\<close>

theorem stash_is_a_stack:
  assumes "stash_push E T home auth tm (w, r) = Inr (Some c, w', r')" "zstd_ok E"
  shows "stash_list r' = stash_list r @ [c] \<and>
    (\<forall>x r''. stash_drop r' = Inr (x, r'') \<longrightarrow> x = Some c \<and> stash_list r'' = stash_list r)"
proof -
  have "is_object_id c" using stash_push_id [OF assms(1)] assms(2) by (auto simp: zstd_ok_def)
  then have "stash_list r' = stash_list r @ [c]" using stash_push_stack [OF assms(1)] id_entry by blast
  then show ?thesis using stash_drop_stack by blast
qed

theorem stash_is_a_stack_witness:
  "\<exists>w r. stash_push shot_ext snap_tools None ''a'' ''t'' (snap_world, snap_repo) = Inr (Some (oid (CHR ''a'')), w, r) \<and>
     stash_list r = [oid (CHR ''a'')]"
proof -
  have "case stash_push shot_ext snap_tools None ''a'' ''t'' (snap_world, snap_repo) of Inl _ \<Rightarrow> False
      | Inr (x, w, r) \<Rightarrow> x = Some (oid (CHR ''a''))" by code_simp
  then obtain w r where p: "stash_push shot_ext snap_tools None ''a'' ''t'' (snap_world, snap_repo) = Inr (Some (oid (CHR ''a'')), w, r)"
    by (auto split: sum.splits)
  have "zstd_ok shot_ext" using snap_store_ok by (simp add: store_ok_def)
  moreover have "stash_list snap_repo = []" by code_simp
  ultimately show ?thesis using stash_is_a_stack [OF p] p by simp
qed

text \<open>
  C34. Garbage collection forgets the stash: its entries are not roots, so a shelved commit that no
  branch, tag, HEAD or staged snapshot reaches is deleted, while the stack still names it, and popping
  it fails from then on.
\<close>

theorem gc_loses_the_stash:
  assumes "zstd_ok E" "idx_ok E" "fs_wf (disk r)" "pack_names_ok (disk r)" "apart E r (tips (disk r))"
    "gc E r = Some (Inr (rep, r'))" "stash_list r = cs @ [c]" "c \<notin> live E r (tips (disk r)) \<union> set (staged_ids E r)"
  shows "stash_list r' = cs @ [c] \<and> stash_pop E T home (w, r') \<notin> range Inr"
proof -
  have k: "store_get E r' c = None" "contents (disk r') stash_path = contents (disk r) stash_path"
    using gc_keeps [OF assms(1-5)] assms(6,8) by (auto simp: stash_path_def)
  from read_stack_cong [OF k(2)] have l: "read_stack (disk r') = cs @ [c]" using assms(7) by (simp add: stash_list_def)
  have "store_read E r' c \<notin> range Inr" using k(1) store_get_iff [of E r' c] by auto
  then show ?thesis using l by (auto simp: stash_list_def stash_pop_def Let_def read_commit_def res_simps)
qed

theorem gc_loses_the_stash_witness:
  "is_ok (read_commit world_ext stash_repo (oid (CHR ''b''))) \<and>
   (\<exists>rep r. gc world_ext stash_repo = Some (Inr (rep, r)) \<and> stash_list r = [oid (CHR ''b'')] \<and>
     stash_pop world_ext snap_tools None (snap_world, r) \<notin> range Inr)"
proof -
  let ?a = "oid (CHR ''a'')"
  have "(case gc world_ext stash_repo of Some (Inr _) \<Rightarrow> True | _ \<Rightarrow> False)" by code_simp
  then obtain rep r' where run: "gc world_ext stash_repo = Some (Inr (rep, r'))" by (auto split: option.splits sum.splits)
  have 1: "tips (disk stash_repo) = [?a]" "node_succ world_ext stash_repo ?a = []"
    "node_objects world_ext stash_repo ?a = [oid (CHR ''f'')]" "fs_wf (disk stash_repo)"
    "oid (CHR ''b'') \<notin> oid ` set ''af''" "staged_ids world_ext stash_repo = []" "?a \<noteq> oid (CHR ''f'')"
    "stash_list stash_repo = [] @ [oid (CHR ''b'')]" "is_ok (read_commit world_ext stash_repo (oid (CHR ''b'')))" by code_simp+
  have "nodes world_ext stash_repo [?a] \<subseteq> {?a}" by (rule nodes_least) (auto simp: 1(2))
  then have nodes: "nodes world_ext stash_repo (tips (disk stash_repo)) = {?a}" using roots_nodes by (fastforce simp: 1(1))
  have apart: "apart world_ext stash_repo (tips (disk stash_repo))"
    using 1(7) by (simp add: apart_def objects_of_def nodes 1(3))
  have "take 2 (oid c) = [c, c]" for c by (simp add: oid_def numeral_2_eq_2)
  then have "contents (disk stash_repo) (pack_dir @ [n]) = None" for n
    by (simp add: contents_def fs_lookup_def im_get_def stash_repo_def commit_files_def object_path_def pack_dir_def)
  then have names: "pack_names_ok (disk stash_repo)" by (simp add: pack_names_ok_def)
  have E: "zstd_ok world_ext" "idx_ok world_ext" using world_store_ok by (simp_all add: store_ok_def idx_ok_def world_ext_def idx_of_text)
  have "live world_ext stash_repo (tips (disk stash_repo)) \<subseteq> oid ` set ''af''"
    by (auto simp: live_def nodes objects_of_def 1(3))
  then have "oid (CHR ''b'') \<notin> live world_ext stash_repo (tips (disk stash_repo)) \<union> set (staged_ids world_ext stash_repo)"
    using 1(5,6) by (simp add: subset_iff) blast
  from gc_loses_the_stash [OF E 1(4) names apart run 1(8) this, of snap_tools None snap_world] run 1(9) show ?thesis by auto
qed

end
