(* ===== verification/RepoServe.thy ===== *)
theory RepoServe imports
  RepoRemote NbtJson World
begin

text \<open>
  \<^verbatim>\<open>crates/repo/src/serve.rs\<close> and the two clients of it in \<^verbatim>\<open>remote.rs\<close>: the operations on one
  repository, the framed messages over a pipe, the loop and the dispatcher behind it, the routing of
  http requests. The state of a server is the tree of files it runs on; an operation opens the
  repository in it anew. A text is a list of bytes. The text of \<^verbatim>\<open>serde_json\<close> values and of errors comes from
  other packages; http requests arrive parsed.
\<close>

section \<open>Text\<close>

text \<open>
  \<^verbatim>\<open>String::from_utf8_lossy\<close>: a longest start of a character that does not go on as it should becomes
  one replacement character.
\<close>

definition utf8_width :: "nat \<Rightarrow> nat" where
  "utf8_width b = (if b < 0x80 then 1 else if 0xC2 \<le> b \<and> b \<le> 0xDF then 2 else if 0xE0 \<le> b \<and> b \<le> 0xEF then 3
     else if 0xF0 \<le> b \<and> b \<le> 0xF4 then 4 else 0)"

definition utf8_more :: "nat \<Rightarrow> bool" where
  "utf8_more b \<longleftrightarrow> 0x80 \<le> b \<and> b \<le> 0xBF"

definition utf8_second :: "nat \<Rightarrow> nat \<Rightarrow> bool" where
  "utf8_second a b \<longleftrightarrow> utf8_more b \<and> (a = 0xE0 \<longrightarrow> 0xA0 \<le> b) \<and> (a = 0xED \<longrightarrow> b \<le> 0x9F) \<and>
     (a = 0xF0 \<longrightarrow> 0x90 \<le> b) \<and> (a = 0xF4 \<longrightarrow> b \<le> 0x8F)"

fun utf8_step :: "nat list \<Rightarrow> nat \<times> bool" where
  "utf8_step [] = (1, False)"
| "utf8_step (a # s) = (let w = utf8_width a in
     if w = 0 then (1, False) else if w = 1 then (1, True)
     else case s of [] \<Rightarrow> (1, False) | b # s \<Rightarrow>
       if \<not> utf8_second a b then (1, False)
       else let k = length (takeWhile utf8_more (take (w - 2) s)) in (2 + k, k = w - 2))"

definition utf8_replacement :: string where
  "utf8_replacement = map char_of [0xEF, 0xBF, 0xBD :: nat]"

lemma utf8_step_pos: "fst (utf8_step s) > 0"
  by (cases s) (auto simp: Let_def split: list.splits)

function utf8_lossy :: "string \<Rightarrow> string" where
  "utf8_lossy s = (if s = [] then []
     else case utf8_step (map of_char s) of (n, ok) \<Rightarrow> (if ok then take n s else utf8_replacement) @ utf8_lossy (drop n s))"
  by auto
termination
proof (relation "measure length", goal_cases)
  case (2 s n ok)
  then have "n > 0" using utf8_step_pos [of "map of_char s"] by (metis fst_conv)
  with 2 show ?case by simp
qed simp

declare utf8_lossy.simps [simp del]

lemma utf8_lossy_ascii: "\<forall>c \<in> set s. of_char c < (0x80 :: nat) \<Longrightarrow> utf8_lossy s = s"
proof (induction s)
  case (Cons c s)
  then show ?case by (subst utf8_lossy.simps) (simp add: utf8_width_def)
qed (simp add: utf8_lossy.simps)

section \<open>Messages\<close>

definition max_msg_body :: nat where "max_msg_body = 512 * 1024 * 1024"

datatype frame_error = UnexpectedEof | HeadTooLarge | BodyTooLarge | ShortBody

fun frame_text :: "frame_error \<Rightarrow> string" where
  "frame_text UnexpectedEof = ''failed to fill whole buffer''"
| "frame_text HeadTooLarge = ''head too large''"
| "frame_text BodyTooLarge = ''body too large''"
| "frame_text ShortBody = ''short body''"

definition put_le :: "nat \<Rightarrow> string" where
  "put_le n = rev (put_u32 (of_nat n))"

definition get_le :: "string \<Rightarrow> nat" where
  "get_le s = unat (get_u32 (rev s))"

definition write_msg :: "string \<Rightarrow> string \<Rightarrow> string" where
  "write_msg head body = put_le (length head) @ head @ put_le (length body) @ body"

definition read_exact :: "nat \<Rightarrow> string \<Rightarrow> frame_error + string \<times> string" where
  "read_exact n s = (if length s < n then Inl UnexpectedEof else Inr (take n s, drop n s))"

text \<open>One message and the input after it; \<open>None\<close> at the end of the input.\<close>

definition read_msg :: "string \<Rightarrow> frame_error + (string \<times> string \<times> string) option" where
  "read_msg r = (case read_exact 4 r of Inl _ \<Rightarrow> Inr None | Inr (len, r) \<Rightarrow>
     let hlen = get_le len in
     if hlen > 64 * 1024 then Inl HeadTooLarge
     else rbind (read_exact hlen r) (\<lambda>(head, r).
       rbind (read_exact 4 r) (\<lambda>(len, r).
       let blen = get_le len in
       if blen > max_msg_body then Inl BodyTooLarge
       else if length r < blen then Inl ShortBody
       else Inr (Some (utf8_lossy head, take blen r, drop blen r)))))"

section \<open>The repository a server runs on\<close>

record server =
  sv_ext :: ext
  sv_text :: "json \<Rightarrow> string"
  sv_json :: "string \<Rightarrow> json option"
  sv_json_error :: "string \<Rightarrow> string"
  sv_error :: "repo_error \<Rightarrow> string"

text \<open>The tree below a directory, and a tree put in its place.\<close>

definition at_dir :: "path \<Rightarrow> fs \<Rightarrow> fs" where
  "at_dir q w = List.map_filter (\<lambda>(p, n). if under q p \<and> p \<noteq> q then Some (drop (length q) p, n) else None) w"

definition put_dir :: "path \<Rightarrow> fs \<Rightarrow> fs \<Rightarrow> fs" where
  "put_dir q d w = filter (\<lambda>(p, _). \<not> (under q p \<and> p \<noteq> q)) w @ map (\<lambda>(p, n). (q @ p, n)) d"

definition repo_at :: "ext \<Rightarrow> fs \<Rightarrow> path \<Rightarrow> repo" where
  "repo_at E w q = \<lparr>disk = at_dir q w, packs = load_packs E (at_dir q w)\<rparr>"

definition open_at :: "ext \<Rightarrow> fs \<Rightarrow> path \<Rightarrow> repo_error + path \<times> repo" where
  "open_at E w dir = rbind (repo_open w dir) (\<lambda>q. Inr (q, repo_at E w q))"

definition open_or_init :: "ext \<Rightarrow> path \<Rightarrow> fs \<Rightarrow> repo_error + (path \<times> repo) \<times> fs" where
  "open_or_init E dir w = (case open_at E w dir of
     Inr x \<Rightarrow> Inr (x, w)
   | Inl _ \<Rightarrow> rbind (repo_init dir w) (\<lambda>(q, w). Inr ((q, repo_at E w q), w)))"

section \<open>Operations\<close>

text \<open>An operation that changes files gives its answer and the tree it leaves, failed or not.\<close>

definition ref_object :: "(string \<Rightarrow> string option) \<Rightarrow> string list \<Rightarrow> json" where
  "ref_object rd ns = JObject (fold (\<lambda>n m. case rd n of None \<Rightarrow> m | Some h \<Rightarrow> bm_insert n (JString h) m) ns [])"

definition op_info_refs :: "server \<Rightarrow> path \<Rightarrow> fs \<Rightarrow> string" where
  "op_info_refs S dir w = sv_text S (case open_at (sv_ext S) w dir of
     Inl _ \<Rightarrow> JObject [(''branches'', JObject []), (''head'', JNull), (''tags'', JObject [])]
   | Inr (_, r) \<Rightarrow> JObject [(''branches'', ref_object (read_branch (disk r)) (branches (disk r))),
       (''head'', case current_branch (disk r) of None \<Rightarrow> JNull | Some b \<Rightarrow> JString b),
       (''tags'', ref_object (read_tag (disk r)) (tags (disk r)))])"

definition ids_value :: "string list \<Rightarrow> json" where
  "ids_value ids = JArray (map JString ids)"

fun as_text :: "json \<Rightarrow> string option" where
  "as_text (JString s) = Some s"
| "as_text _ = None"

definition read_ids :: "server \<Rightarrow> string \<Rightarrow> string list option" where
  "read_ids S body = (case sv_json S body of
     Some (JArray js) \<Rightarrow> if list_all (\<lambda>j. as_text j \<noteq> None) js then Some (List.map_filter as_text js) else None
   | _ \<Rightarrow> None)"

definition op_have :: "server \<Rightarrow> path \<Rightarrow> string \<Rightarrow> fs \<Rightarrow> string" where
  "op_have S dir body w =
     (let ids = (case read_ids S body of None \<Rightarrow> [] | Some ids \<Rightarrow> ids)
      in sv_text S (ids_value (case open_at (sv_ext S) w dir of
           Inr (_, r) \<Rightarrow> filter (\<lambda>i. \<not> store_exists r i) ids | Inl _ \<Rightarrow> ids)))"

definition op_get :: "server \<Rightarrow> path \<Rightarrow> string \<Rightarrow> fs \<Rightarrow> string option" where
  "op_get S dir hash w = (case open_at (sv_ext S) w dir of Inl _ \<Rightarrow> None
   | Inr (_, r) \<Rightarrow> (case store_read (sv_ext S) r hash of Inl _ \<Rightarrow> None | Inr c \<Rightarrow> Some c))"

definition max_getpack_ids :: nat where "max_getpack_ids = 100000"

text \<open>The objects at hand, read one by one while their sizes stay below the cap.\<close>

fun assemble :: "ext \<Rightarrow> repo \<Rightarrow> nat \<Rightarrow> string list \<Rightarrow> nat \<Rightarrow> (string \<times> string) list \<Rightarrow> string + (string \<times> string) list" where
  "assemble E r cap [] tot objs = Inr objs"
| "assemble E r cap (i # is) tot objs = (case store_read E r i of
     Inl _ \<Rightarrow> assemble E r cap is tot objs
   | Inr c \<Rightarrow> if tot + length c > cap then Inl ''getpack response would exceed the size cap''
       else assemble E r cap is (tot + length c) (objs @ [(i, c)]))"

definition assemble_pack :: "ext \<Rightarrow> repo \<Rightarrow> string list \<Rightarrow> nat \<Rightarrow> string + string" where
  "assemble_pack E r ids cap = rbind (assemble E r cap ids 0 []) (\<lambda>objs. Inr (wire_build E objs))"

definition op_get_pack :: "server \<Rightarrow> path \<Rightarrow> string \<Rightarrow> fs \<Rightarrow> string + string" where
  "op_get_pack S dir body w = (case read_ids S body of
     None \<Rightarrow> Inl (sv_json_error S body)
   | Some ids \<Rightarrow> if length ids > max_getpack_ids then Inl ''too many ids in one getpack request''
       else (case open_at (sv_ext S) w dir of
         Inl e \<Rightarrow> Inl (sv_error S e)
       | Inr (_, r) \<Rightarrow> assemble_pack (sv_ext S) r ids max_pack_total))"

definition op_put :: "server \<Rightarrow> path \<Rightarrow> string \<Rightarrow> string \<Rightarrow> fs \<Rightarrow> (string + unit) \<times> fs" where
  "op_put S dir hash content w =
     (if blake3 (sv_ext S) content \<noteq> hash then (Inl ''object hash mismatch'', w)
      else case open_or_init (sv_ext S) dir w of
        Inl e \<Rightarrow> (Inl (sv_error S e), w)
      | Inr ((q, r), w) \<Rightarrow> (case store_write (sv_ext S) content r of
          Inl e \<Rightarrow> (Inl (sv_error S e), w)
        | Inr (_, r) \<Rightarrow> (Inr (), put_dir q (disk r) w)))"

text \<open>What the sink has stored when a pack fails: the entries before the one that failed.\<close>

definition wire_taken :: "ext \<Rightarrow> string \<Rightarrow> (string \<Rightarrow> string \<Rightarrow> 's \<Rightarrow> repo_error + 's) \<Rightarrow> 's \<Rightarrow> 's" where
  "wire_taken E body sink s =
     (let n = unat (get_u32 (take 4 body)) in
      if length body < 4 \<or> 4 + n > length body then s
      else case idx_parse E (slice 4 n body) of None \<Rightarrow> s
      | Some idx \<Rightarrow> last (s # List.map_filter (\<lambda>k.
          case wire_entries E (drop (4 + n) body) sink (take k idx) 0 0 s of Inl _ \<Rightarrow> None | Inr (_, s) \<Rightarrow> Some s)
          [0..<Suc (length idx)]))"

definition op_put_pack :: "server \<Rightarrow> path \<Rightarrow> string \<Rightarrow> fs \<Rightarrow> (string + nat) \<times> fs" where
  "op_put_pack S dir body w = (case open_or_init (sv_ext S) dir w of
     Inl e \<Rightarrow> (Inl (sv_error S e), w)
   | Inr ((q, r), w) \<Rightarrow> (let E = sv_ext S; sink = (\<lambda>_ c r. rbind (store_write E c r) (\<lambda>(_, r). Inr r)) in
       case wire_for_each E body sink r of
         Inr (n, r) \<Rightarrow> (Inr n, put_dir q (disk r) w)
       | Inl e \<Rightarrow> (Inl (sv_error S e), put_dir q (disk (wire_taken E body sink r)) w)))"

fun json_get :: "json \<Rightarrow> string \<Rightarrow> json option" where
  "json_get (JObject m) k = bm_get m k"
| "json_get _ k = None"

definition as_flag :: "json \<Rightarrow> bool option" where
  "as_flag j = (case j of JBool b \<Rightarrow> Some b | _ \<Rightarrow> None)"

definition op_set_ref :: "server \<Rightarrow> path \<Rightarrow> string \<Rightarrow> string \<Rightarrow> fs \<Rightarrow> (string + unit) \<times> fs" where
  "op_set_ref S dir branch body w = (case sv_json S body of
     None \<Rightarrow> (Inl (sv_json_error S body), w)
   | Some upd \<Rightarrow>
     (let new = (case Option.bind (json_get upd ''new'') as_text of None \<Rightarrow> [] | Some s \<Rightarrow> s);
          old = Option.bind (json_get upd ''old'') as_text;
          force = (case Option.bind (json_get upd ''force'') as_flag of None \<Rightarrow> False | Some b \<Rightarrow> b)
      in case open_or_init (sv_ext S) dir w of
        Inl e \<Rightarrow> (Inl (sv_error S e), w)
      | Inr ((q, r), w) \<Rightarrow>
          if \<not> store_exists r new then (Inl ''ref points at an object that was not uploaded'', w)
          else if \<not> force \<and> read_branch (disk r) branch \<noteq> old
          then (Inl ''ref moved on the remote (stale push) - fetch + retry'', w)
          else (case write_branch branch new (disk r) of
            Inl e \<Rightarrow> (Inl (sv_error S e), w)
          | Inr d \<Rightarrow> (Inr (), put_dir q d w))))"

section \<open>The server on a pipe\<close>

definition status_of_result :: "(string + 'a) \<Rightarrow> ('a \<Rightarrow> string) \<Rightarrow> string \<times> string" where
  "status_of_result res show_ok = (case res of Inr a \<Rightarrow> (''ok'', show_ok a) | Inl e \<Rightarrow> (''err'', e))"

definition dispatch_msg :: "server \<Rightarrow> path \<Rightarrow> string \<Rightarrow> string \<Rightarrow> fs \<Rightarrow> (string \<times> string) \<times> fs" where
  "dispatch_msg S dir head body w =
     (let (verb, arg) = (case split_once (CHR '' '') head of Some p \<Rightarrow> p | None \<Rightarrow> (head, [])) in
      if verb = ''list-refs'' then ((''ok'', op_info_refs S dir w), w)
      else if verb = ''missing'' then ((''ok'', op_have S dir body w), w)
      else if verb = ''get'' then (case op_get S dir arg w of Some b \<Rightarrow> (''ok'', b) | None \<Rightarrow> (''none'', []), w)
      else if verb = ''put'' then (case op_put S dir arg body w of (res, w) \<Rightarrow> (status_of_result res (\<lambda>_. []), w))
      else if verb = ''put-pack'' then (case op_put_pack S dir body w of (res, w) \<Rightarrow> (status_of_result res show_nat, w))
      else if verb = ''get-pack'' then (status_of_result (op_get_pack S dir body w) (\<lambda>p. p), w)
      else if verb = ''set-ref'' then (case op_set_ref S dir arg body w of (res, w) \<Rightarrow> (status_of_result res (\<lambda>_. []), w))
      else if verb = ''quit'' then ((''ok'', []), w)
      else ((''err'', ''unknown verb''), w))"

lemma read_msg_rest: "read_msg r = Inr (Some (head, body, rest)) \<Longrightarrow> length rest < length r"
  by (auto simp: read_msg_def read_exact_def Let_def res_simps split: if_splits sum.splits)

text \<open>The loop over the messages of the input, with the bytes written to the output and the tree left.\<close>

function serve_stdio :: "server \<Rightarrow> path \<Rightarrow> string \<Rightarrow> fs \<Rightarrow> (frame_error + unit) \<times> string \<times> fs" where
  "serve_stdio S dir r w = (case read_msg r of
     Inl e \<Rightarrow> (Inl e, [], w)
   | Inr None \<Rightarrow> (Inr (), [], w)
   | Inr (Some (head, body, rest)) \<Rightarrow> (case dispatch_msg S dir head body w of ((rhead, rbody), w) \<Rightarrow>
       if head = ''quit'' then (Inr (), write_msg rhead rbody, w)
       else (case serve_stdio S dir rest w of (res, out, w) \<Rightarrow> (res, write_msg rhead rbody @ out, w))))"
  by pat_completeness auto
termination
  by (relation "measure (\<lambda>(_, _, r, _). length r)") (auto dest: read_msg_rest)

declare serve_stdio.simps [simp del]

section \<open>The client of a pipe\<close>

text \<open>One call: the request goes through the pipe, the server answers, the answer comes back.\<close>

definition stdio_call :: "server \<Rightarrow> path \<Rightarrow> string \<Rightarrow> string \<Rightarrow> fs \<Rightarrow> repo_error + (string \<times> string) \<times> fs" where
  "stdio_call S dir head body w = (case serve_stdio S dir (write_msg head body) w of (_, out, w) \<Rightarrow>
     (case read_msg out of
        Inl e \<Rightarrow> Inl (Other (''ssh transport: '' @ frame_text e))
      | Inr None \<Rightarrow> Inl (Other ''remote closed the connection'')
      | Inr (Some (st, b, _)) \<Rightarrow> Inr ((st, b), w)))"

definition stdio_status :: "string \<Rightarrow> string \<Rightarrow> repo_error" where
  "stdio_status st body = Other (''remote error ('' @ st @ ''): '' @ utf8_lossy body)"

definition stdio_ok :: "server \<Rightarrow> path \<Rightarrow> string \<Rightarrow> string \<Rightarrow> fs \<Rightarrow> repo_error + string \<times> fs" where
  "stdio_ok S dir head body w = rbind (stdio_call S dir head body w) (\<lambda>((st, b), w).
     if st \<noteq> ''ok'' then Inl (stdio_status st b) else Inr (b, w))"

definition ref_pairs :: "json \<Rightarrow> string \<times> string \<Rightarrow> (string \<times> string) list" where
  "ref_pairs adv kp = (case json_get adv (fst kp) of
     Some (JObject m) \<Rightarrow> List.map_filter (\<lambda>(n, v). map_option (\<lambda>h. (snd kp @ n, h)) (as_text v)) m
   | _ \<Rightarrow> [])"

definition parse_ref_adv :: "json \<Rightarrow> (string \<times> string) list" where
  "parse_ref_adv adv = concat (map (ref_pairs adv) [(''branches'', heads_prefix), (''tags'', tags_prefix)])"

definition stdio_json :: "server \<Rightarrow> string \<Rightarrow> repo_error" where
  "stdio_json S b = Other (''ssh transport: '' @ sv_json_error S b)"

definition stdio_refs :: "server \<Rightarrow> path \<Rightarrow> fs \<Rightarrow> repo_error + (string \<times> string) list \<times> fs" where
  "stdio_refs S dir w = rbind (stdio_ok S dir ''list-refs'' [] w) (\<lambda>(b, w).
     rbind (ok_or (sv_json S b) (stdio_json S b)) (\<lambda>adv. Inr (parse_ref_adv adv, w)))"

definition stdio_get :: "server \<Rightarrow> path \<Rightarrow> string \<Rightarrow> fs \<Rightarrow> repo_error + string \<times> fs" where
  "stdio_get S dir i w = rbind (stdio_call S dir (''get '' @ i) [] w) (\<lambda>((st, b), w).
     if st = ''ok'' then Inr (b, w)
     else if st = ''none'' then Inl (Other (''no such object '' @ i)) else Inl (stdio_status st b))"

definition stdio_pack :: "server \<Rightarrow> path \<Rightarrow> string list \<Rightarrow> fs \<Rightarrow> repo_error + string \<times> fs" where
  "stdio_pack S dir ids w = (if ids = [] then Inr (wire_build (sv_ext S) [], w)
     else stdio_ok S dir ''get-pack'' (sv_text S (ids_value ids)) w)"

definition stdio_missing :: "server \<Rightarrow> path \<Rightarrow> string list \<Rightarrow> fs \<Rightarrow> repo_error + string list \<times> fs" where
  "stdio_missing S dir ids w = (if ids = [] then Inr ([], w)
     else rbind (stdio_ok S dir ''missing'' (sv_text S (ids_value ids)) w) (\<lambda>(b, w).
       rbind (ok_or (read_ids S b) (stdio_json S b)) (\<lambda>ids. Inr (ids, w))))"

definition stdio_put :: "server \<Rightarrow> path \<Rightarrow> string \<Rightarrow> fs \<Rightarrow> repo_error + fs" where
  "stdio_put S dir c w = rbind (stdio_ok S dir (''put '' @ blake3 (sv_ext S) c) c w) (\<lambda>(_, w). Inr w)"

definition stdio_put_all :: "server \<Rightarrow> path \<Rightarrow> (string \<times> string) list \<Rightarrow> fs \<Rightarrow> repo_error + fs" where
  "stdio_put_all S dir objs w = (if objs = [] then Inr w
     else rbind (stdio_ok S dir ''put-pack'' (wire_build (sv_ext S) objs) w) (\<lambda>(_, w). Inr w))"

definition set_ref_value :: "string \<Rightarrow> json" where
  "set_ref_value h = JObject [(''force'', JBool True), (''new'', JString h), (''old'', JNull)]"

definition stdio_set_branch :: "server \<Rightarrow> path \<Rightarrow> string \<Rightarrow> string \<Rightarrow> fs \<Rightarrow> repo_error + fs" where
  "stdio_set_branch S dir b h w =
     rbind (stdio_ok S dir (''set-ref '' @ b) (sv_text S (set_ref_value h)) w) (\<lambda>(_, w). Inr w)"

definition stdio_transport :: "server \<Rightarrow> path \<Rightarrow> fs transport" where
  "stdio_transport S dir = \<lparr>tr_refs = stdio_refs S dir, tr_get = stdio_get S dir, tr_pack = stdio_pack S dir,
     tr_missing = stdio_missing S dir, tr_put = stdio_put S dir, tr_put_all = stdio_put_all S dir,
     tr_set_branch = stdio_set_branch S dir, tr_finish = Inr\<rparr>"

section \<open>The server on http\<close>

datatype http_method = Get | Post | OtherMethod

text \<open>A request as the http package hands it over: the url is its path and query.\<close>

record request =
  rq_method :: http_method
  rq_url :: string
  rq_headers :: "(string \<times> string) list"
  rq_body :: string

definition name_char :: "char \<Rightarrow> bool" where
  "name_char c \<longleftrightarrow> (CHR ''a'' \<le> c \<and> c \<le> CHR ''z'') \<or> (CHR ''A'' \<le> c \<and> c \<le> CHR ''Z'') \<or> (CHR ''0'' \<le> c \<and> c \<le> CHR ''9'') \<or>
     c = CHR ''-'' \<or> c = CHR ''_'' \<or> c = CHR ''.''"

definition valid_name :: "string \<Rightarrow> bool" where
  "valid_name n \<longleftrightarrow> n \<noteq> [] \<and> length n \<le> 64 \<and> list_all name_char n \<and> n \<noteq> ''.'' \<and> n \<noteq> ''..''"

definition has_token :: "request \<Rightarrow> string \<Rightarrow> bool" where
  "has_token rq token \<longleftrightarrow> list_ex (\<lambda>(f, v). map lower_ascii f = ''authorization'' \<and> v = ''Bearer '' @ token) (rq_headers rq)"

definition read_body :: "request \<Rightarrow> repo_error + string" where
  "read_body rq = (if length (rq_body rq) > max_msg_body then Inl (Other ''request body too large'') else Inr (rq_body rq))"

definition trim_slashes :: "string \<Rightarrow> string" where
  "trim_slashes s = rev (dropWhile (\<lambda>c. c = CHR ''/'') (rev (dropWhile (\<lambda>c. c = CHR ''/'') s)))"

text \<open>The answer of an operation with its status, \<open>code\<close> where it failed.\<close>

definition answer :: "nat \<Rightarrow> ('a \<Rightarrow> string) \<Rightarrow> (string + 'a) \<Rightarrow> nat \<times> string" where
  "answer code show_ok res = (case res of Inr a \<Rightarrow> (200, show_ok a) | Inl e \<Rightarrow> (code, e))"

definition handle_get :: "server \<Rightarrow> path \<Rightarrow> string \<Rightarrow> fs \<Rightarrow> nat \<times> string" where
  "handle_get S dir action w =
     (if action = ''info/refs'' then (200, op_info_refs S dir w)
      else case strip_prefix ''objects/'' action of
        Some hash \<Rightarrow> (case op_get S dir hash w of Some b \<Rightarrow> (200, b) | None \<Rightarrow> (404, ''no such object''))
      | None \<Rightarrow> (404, ''not found''))"

definition handle_post :: "server \<Rightarrow> path \<Rightarrow> string \<Rightarrow> request \<Rightarrow> fs \<Rightarrow> (repo_error + nat \<times> string) \<times> fs" where
  "handle_post S dir action rq w =
     (let with_body = (\<lambda>f. case read_body rq of Inl e \<Rightarrow> (Inl e, w) | Inr body \<Rightarrow> (case f body of (a, w) \<Rightarrow> (Inr a, w)))
      in if action = ''have'' then with_body (\<lambda>body. ((200, op_have S dir body w), w))
      else case strip_prefix ''objects/'' action of
        Some hash \<Rightarrow> with_body (\<lambda>body. case op_put S dir hash body w of (res, w) \<Rightarrow> (answer 400 (\<lambda>_. []) res, w))
      | None \<Rightarrow>
        if action = ''pack'' then with_body (\<lambda>body. case op_put_pack S dir body w of (res, w) \<Rightarrow> (answer 400 show_nat res, w))
        else if action = ''getpack'' then with_body (\<lambda>body. (answer 400 (\<lambda>p. p) (op_get_pack S dir body w), w))
        else case strip_prefix ''refs/heads/'' action of
          Some branch \<Rightarrow> with_body (\<lambda>body. case op_set_ref S dir branch body w of (res, w) \<Rightarrow> (answer 409 (\<lambda>_. []) res, w))
        | None \<Rightarrow> (Inr (404, ''not found''), w))"

definition handle :: "server \<Rightarrow> string option \<Rightarrow> request \<Rightarrow> fs \<Rightarrow> (repo_error + nat \<times> string) \<times> fs" where
  "handle S token rq w =
     (let url = trim_slashes (takeWhile (\<lambda>c. c \<noteq> CHR ''?'') (rq_url rq)); parts = split_on (CHR ''/'') url in
      if url = ''health'' then (Inr (200, ''ok''), w)
      else if length parts < 3 \<or> parts ! 0 \<noteq> ''r'' \<or> \<not> valid_name (parts ! 1) then (Inr (404, ''not found''), w)
      else (let dir = [parts ! 1]; action = join ''/'' (drop 2 parts) in
        if rq_method rq = Post \<and> (case token of Some t \<Rightarrow> \<not> has_token rq t | None \<Rightarrow> False)
        then (Inr (401, ''authenticate with MCAGIT_TOKEN bearer''), w)
        else case rq_method rq of
          Get \<Rightarrow> (Inr (handle_get S dir action w), w)
        | Post \<Rightarrow> handle_post S dir action rq w
        | OtherMethod \<Rightarrow> (Inr (404, ''not found''), w)))"

section \<open>The client of http\<close>

text \<open>
  \<open>ht_target\<close> is the path and query the http package sends for a url; it fails on a status of 400 or above,
  and cuts off reading a body at a cap, \<open>ht_cap\<close> unless the caller sets one.
\<close>

record http_client =
  ht_server :: server
  ht_server_token :: "string option"
  ht_token :: "string option"
  ht_base :: string
  ht_target :: "string \<Rightarrow> string"
  ht_cap :: nat

definition http_err :: "string \<Rightarrow> repo_error" where
  "http_err e = Other (''http transport: '' @ e)"

definition bearer :: "http_client \<Rightarrow> (string \<times> string) list" where
  "bearer H = (case ht_token H of Some t \<Rightarrow> [(''Authorization'', ''Bearer '' @ t)] | None \<Rightarrow> [])"

definition http_call :: "http_client \<Rightarrow> http_method \<Rightarrow> string \<Rightarrow> string \<Rightarrow> fs \<Rightarrow> repo_error + string \<times> fs" where
  "http_call H meth path body w =
     (case handle (ht_server H) (ht_server_token H)
        \<lparr>rq_method = meth, rq_url = ht_target H (ht_base H @ path), rq_headers = bearer H, rq_body = body\<rparr> w of
      (Inl _, w) \<Rightarrow> Inl (http_err ''connection closed'')
    | (Inr (code, b), w) \<Rightarrow> if code \<ge> 400 then Inl (http_err (''http status: '' @ show_nat code)) else Inr (b, w))"

definition http_read :: "http_client \<Rightarrow> nat \<Rightarrow> http_method \<Rightarrow> string \<Rightarrow> string \<Rightarrow> fs \<Rightarrow> repo_error + string \<times> fs" where
  "http_read H cap meth path body w = rbind (http_call H meth path body w) (\<lambda>(b, w).
     if length b > cap then Inl (http_err ''the response body is larger than request limit'') else Inr (b, w))"

definition http_refs :: "http_client \<Rightarrow> fs \<Rightarrow> repo_error + (string \<times> string) list \<times> fs" where
  "http_refs H w = rbind (http_read H (ht_cap H) Get ''/info/refs'' [] w) (\<lambda>(b, w).
     rbind (ok_or (sv_json (ht_server H) b) (http_err (sv_json_error (ht_server H) b))) (\<lambda>adv. Inr (parse_ref_adv adv, w)))"

definition http_get :: "http_client \<Rightarrow> string \<Rightarrow> fs \<Rightarrow> repo_error + string \<times> fs" where
  "http_get H i w = http_read H (ht_cap H) Get (''/objects/'' @ i) [] w"

definition http_pack :: "http_client \<Rightarrow> string list \<Rightarrow> fs \<Rightarrow> repo_error + string \<times> fs" where
  "http_pack H ids w = (if ids = [] then Inr (wire_build (sv_ext (ht_server H)) [], w)
     else http_read H max_pack_total Post ''/getpack'' (sv_text (ht_server H) (ids_value ids)) w)"

definition http_missing :: "http_client \<Rightarrow> string list \<Rightarrow> fs \<Rightarrow> repo_error + string list \<times> fs" where
  "http_missing H ids w = (if ids = [] then Inr ([], w)
     else rbind (http_read H max_pack_total Post ''/have'' (sv_text (ht_server H) (ids_value ids)) w) (\<lambda>(b, w).
       rbind (ok_or (read_ids (ht_server H) b) (http_err (sv_json_error (ht_server H) b))) (\<lambda>ids. Inr (ids, w))))"

definition http_put :: "http_client \<Rightarrow> string \<Rightarrow> fs \<Rightarrow> repo_error + fs" where
  "http_put H c w = rbind (http_call H Post (''/objects/'' @ blake3 (sv_ext (ht_server H)) c) c w) (\<lambda>(_, w). Inr w)"

definition http_put_all :: "http_client \<Rightarrow> (string \<times> string) list \<Rightarrow> fs \<Rightarrow> repo_error + fs" where
  "http_put_all H objs w = (if objs = [] then Inr w
     else rbind (http_call H Post ''/pack'' (wire_build (sv_ext (ht_server H)) objs) w) (\<lambda>(_, w). Inr w))"

definition http_set_branch :: "http_client \<Rightarrow> string \<Rightarrow> string \<Rightarrow> fs \<Rightarrow> repo_error + fs" where
  "http_set_branch H b h w =
     rbind (http_call H Post (''/refs/heads/'' @ b) (sv_text (ht_server H) (set_ref_value h)) w) (\<lambda>(_, w). Inr w)"

definition http_transport :: "http_client \<Rightarrow> fs transport" where
  "http_transport H = \<lparr>tr_refs = http_refs H, tr_get = http_get H, tr_pack = http_pack H,
     tr_missing = http_missing H, tr_put = http_put H, tr_put_all = http_put_all H,
     tr_set_branch = http_set_branch H, tr_finish = Inr\<rparr>"

section \<open>Frames are read back\<close>

definition ascii :: "string \<Rightarrow> bool" where
  "ascii s \<longleftrightarrow> (\<forall>c \<in> set s. of_char c < (0x80 :: nat))"

text \<open>A message the other side accepts, its head plain text.\<close>

definition sendable :: "string \<times> string \<Rightarrow> bool" where
  "sendable m \<longleftrightarrow> ascii (fst m) \<and> length (fst m) \<le> 64 * 1024 \<and> length (snd m) \<le> max_msg_body"

lemma length_put_le [simp]: "length (put_le n) = 4"
  by (simp add: put_le_def)

lemma get_put_le: "n < 2 ^ 32 \<Longrightarrow> get_le (put_le n) = n"
  by (simp add: get_le_def put_le_def get_put_u32 unat_of_nat)

lemma length_write_msg: "length (write_msg h b) = 8 + length h + length b"
  by (simp add: write_msg_def)

lemma read_exact_append: "length a = n \<Longrightarrow> read_exact n (a @ r) = Inr (a, r)"
  by (simp add: read_exact_def)

lemma read_write_msg:
  assumes "sendable (h, b)"
  shows "read_msg (write_msg h b @ rest) = Inr (Some (h, b, rest))"
proof -
  have h: "ascii h" "length h \<le> 64 * 1024" and b: "length b \<le> max_msg_body" using assms by (simp_all add: sendable_def)
  have "get_le (put_le (length h)) = length h" "get_le (put_le (length b)) = length b"
    using h(2) b by (simp_all add: get_put_le max_msg_body_def)
  with h b show ?thesis
    by (simp add: read_msg_def write_msg_def read_exact_append utf8_lossy_ascii ascii_def)
qed

lemma read_write_msg_end: "sendable (h, b) \<Longrightarrow> read_msg (write_msg h b) = Inr (Some (h, b, []))"
  using read_write_msg [of h b "[]"] by simp

text \<open>A server on the example whose encodings the sessions below do not use.\<close>

definition plain_server :: server where
  "plain_server = \<lparr>sv_ext = world_ext, sv_text = (\<lambda>_. []), sv_json = (\<lambda>_. None), sv_json_error = (\<lambda>_. ''json''), sv_error = (\<lambda>_. ''error'')\<rparr>"

text \<open>What the requests of a session are answered with, one after the other.\<close>

fun answers :: "server \<Rightarrow> path \<Rightarrow> (string \<times> string) list \<Rightarrow> fs \<Rightarrow> (string \<times> string) list \<times> fs" where
  "answers S dir [] w = ([], w)"
| "answers S dir ((h, b) # ms) w = (case dispatch_msg S dir h b w of (a, w) \<Rightarrow>
     (case answers S dir ms w of (as, w) \<Rightarrow> (a # as, w)))"

definition frames :: "(string \<times> string) list \<Rightarrow> string" where
  "frames ms = concat (map (\<lambda>(h, b). write_msg h b) ms)"



text \<open>A message cut off anywhere is not read as a message: cut inside its length it is taken for the end of the
  input, without an error, and cut later it is refused.\<close>

theorem truncated_message:
  assumes "sendable (h, b)" "k < length (write_msg h b)"
  shows "if k < 4 then read_msg (take k (write_msg h b)) = Inr None else \<exists>e. read_msg (take k (write_msg h b)) = Inl e"
proof (cases "k < 4")
  case True
  then show ?thesis using assms(2) by (simp add: read_msg_def read_exact_def length_write_msg min_def)
next
  case False
  have h: "length h \<le> 64 * 1024" and b: "length b \<le> max_msg_body" using assms by (simp_all add: sendable_def)
  have len: "get_le (put_le (length h)) = length h" "get_le (put_le (length b)) = length b"
    using h b by (simp_all add: get_put_le max_msg_body_def)
  obtain j where j: "k = 4 + j" using False by (metis le_add_diff_inverse not_less)
  then have "take k (write_msg h b) = put_le (length h) @ take j (h @ put_le (length b) @ b)"
    by (simp add: write_msg_def)
  then have r: "read_msg (take k (write_msg h b)) = (rbind (read_exact (length h) (take j (h @ put_le (length b) @ b))) (\<lambda>(head, r).
       rbind (read_exact 4 r) (\<lambda>(len, r).
       let blen = get_le len in
       if blen > max_msg_body then Inl BodyTooLarge
       else if length r < blen then Inl ShortBody
       else Inr (Some (utf8_lossy head, take blen r, drop blen r)))))"
    using h by (simp add: read_msg_def read_exact_append len)
  show ?thesis
  proof (cases "j < length h")
    case True
    then show ?thesis using False by (simp add: r read_exact_def)
  next
    case 2: False
    then obtain i where i: "j = length h + i" by (metis le_add_diff_inverse not_less)
    show ?thesis
    proof (cases "i < 4")
      case True
      then show ?thesis using False by (simp add: r i read_exact_append) (simp add: read_exact_def)
    next
      case 3: False
      then obtain n where n: "i = 4 + n" by (metis le_add_diff_inverse not_less)
      then have "n < length b" using assms(2) by (simp add: length_write_msg j i)
      then show ?thesis using False b by (simp add: r i n read_exact_append len)
    qed
  qed
qed

theorem truncated_message_witness:
  "read_msg (take 3 (write_msg ''put'' ''xyz'')) = Inr None \<and> (\<exists>e. read_msg (take 12 (write_msg ''put'' ''xyz'')) = Inl e)"
  using truncated_message [of "''put''" "''xyz''" 3] truncated_message [of "''put''" "''xyz''" 12]
  by (simp add: sendable_def ascii_def max_msg_body_def length_write_msg)

section \<open>The tree below a directory\<close>

definition rootless :: "fs \<Rightarrow> bool" where
  "rootless d \<longleftrightarrow> [] \<notin> fst ` set d"

lemma im_get_filtered: "im_get (filter (\<lambda>(k, _). P k) m) k = (if P k then im_get m k else None)"
  by (induction m) (auto simp: im_get_def)

lemma im_get_append: "im_get (xs @ ys) k = (case im_get xs k of None \<Rightarrow> im_get ys k | Some v \<Rightarrow> Some v)"
  by (induction xs) (auto simp: im_get_def)

lemma im_get_below: "im_get (map (\<lambda>(p, n). (q @ p, n)) d) p = (if under q p then im_get d (drop (length q) p) else None)"
proof (induction d)
  case (Cons x d)
  have "q @ fst x = p \<longleftrightarrow> under q p \<and> fst x = drop (length q) p" by (auto simp: under_def append_eq_conv_conj)
  with Cons show ?case by (cases x) (auto simp: im_get_def)
qed (simp add: im_get_def)

lemma put_dir_lookup: "fs_lookup (put_dir q d w) p = (if under q p \<and> p \<noteq> q then fs_lookup d (drop (length q) p)
    else if p = q then (case fs_lookup w p of None \<Rightarrow> im_get d [] | Some n \<Rightarrow> Some n) else fs_lookup w p)"
proof (cases "p = []")
  case True
  then show ?thesis by (auto simp: fs_lookup_def under_def)
next
  case False
  have "im_get (put_dir q d w) p = (if under q p \<and> p \<noteq> q then im_get d (drop (length q) p)
      else if p = q then (case im_get w p of None \<Rightarrow> im_get d [] | Some n \<Rightarrow> Some n) else im_get w p)"
    using im_get_filtered [of "\<lambda>p. \<not> (under q p \<and> p \<noteq> q)" w p]
    by (auto simp: put_dir_def im_get_append im_get_below under_def split: option.splits)
  moreover have "drop (length q) p \<noteq> []" if "under q p" "p \<noteq> q" using that by (auto simp: under_def)
  ultimately show ?thesis using False by (simp add: fs_lookup_def)
qed

lemma put_dir_outside: "\<not> under q p \<Longrightarrow> contents (put_dir q d w) p = contents w p"
  by (auto simp: contents_def put_dir_lookup under_def)

lemma map_filter_append: "List.map_filter f (xs @ ys) = List.map_filter f xs @ List.map_filter f ys"
  by (simp add: List.map_filter_def)

lemma at_put_dir: "rootless d \<Longrightarrow> at_dir q (put_dir q d w) = d"
proof -
  assume d: "rootless d"
  have "List.map_filter (\<lambda>(p, n). if under q p \<and> p \<noteq> q then Some (drop (length q) p, n) else None)
      (filter (\<lambda>(p, _). \<not> (under q p \<and> p \<noteq> q)) w) = []"
    by (induction w) (auto simp: List.map_filter_simps)
  moreover have "List.map_filter (\<lambda>(p, n). if under q p \<and> p \<noteq> q then Some (drop (length q) p, n) else None)
      (map (\<lambda>(p, n). (q @ p, n)) d) = d"
    using d unfolding rootless_def by (induction d) (auto simp: List.map_filter_simps under_def)
  ultimately show ?thesis by (simp add: at_dir_def put_dir_def map_filter_append)
qed

lemma at_dir_rootless: "rootless (at_dir q w)"
  by (auto simp: rootless_def at_dir_def List.map_filter_def under_def split: if_splits)

lemma repo_open_under: "repo_open w dir = Inr q \<Longrightarrow> under dir q"
  by (auto simp: repo_open_def under_def split: if_splits)

lemma under_trans: "under a b \<Longrightarrow> under b c \<Longrightarrow> under a c"
  by (auto simp: under_iff)

lemma repo_init_outside:
  assumes "repo_init dir w = Inr (q, w')"
  shows "under dir q" "\<not> under dir p \<Longrightarrow> contents w' p = contents w p"
proof -
  from assms obtain w1 w2 where 1: "create_dir_all (dir @ [''objects'']) w = Inr w1"
    "create_dir_all (dir @ [''refs'', ''heads'']) w1 = Inr w2"
    "(if fs_exists w2 (dir @ [''HEAD'']) then Inr w2 else fs_write (dir @ [''HEAD'']) (''ref: refs/heads/main'' @ [CHR 0x0A]) w2) = Inr w'"
    "repo_open w' dir = Inr q"
    by (auto simp: repo_init_def res_simps)
  show "under dir q" by (rule repo_open_under [OF 1(4)])
  show "contents w' p = contents w p" if "\<not> under dir p"
  proof -
    have "p \<noteq> dir @ [''HEAD'']" using that by (auto simp: under_def)
    then have "contents w' p = contents w2 p" using 1(3) contents_write by (auto split: if_splits)
    then show ?thesis using create_dir_all_contents [OF 1(1)] create_dir_all_contents [OF 1(2)] by simp
  qed
qed

lemma open_or_init_outside:
  assumes "open_or_init E dir w = Inr ((q, r), w')"
  shows "under dir q" "\<not> under dir p \<Longrightarrow> contents w' p = contents w p"
  using assms repo_init_outside [of dir w] repo_open_under [of w dir]
  by (auto simp: open_or_init_def open_at_def res_simps split: sum.splits)

text \<open>No operation changes a file outside the directory it is given.\<close>

lemma ops_outside:
  assumes p: "\<not> under dir p"
  shows "contents (snd (op_put S dir h c w)) p = contents w p" "contents (snd (op_put_pack S dir b w)) p = contents w p"
    "contents (snd (op_set_ref S dir br b w)) p = contents w p"
proof -
  have put: "contents (put_dir q d w') p = contents w p" if "open_or_init (sv_ext S) dir w = Inr ((q, r), w')" for q r d w'
  proof -
    have "\<not> under q p" using p under_trans open_or_init_outside(1) [OF that] by blast
    then show ?thesis using put_dir_outside open_or_init_outside(2) [OF that p] by simp
  qed
  note keep = open_or_init_outside(2) [OF _ p]
  show "contents (snd (op_put S dir h c w)) p = contents w p"
    using put keep by (auto simp: op_put_def split: sum.splits prod.splits)
  show "contents (snd (op_put_pack S dir b w)) p = contents w p"
    using put keep by (auto simp: op_put_pack_def Let_def split: sum.splits prod.splits)
  show "contents (snd (op_set_ref S dir br b w)) p = contents w p"
    using put keep by (auto simp: op_set_ref_def Let_def split: sum.splits prod.splits option.splits)
qed

lemma handle_post_outside:
  assumes p: "\<not> under dir p"
  shows "contents (snd (handle_post S dir action rq w)) p = contents w p"
proof -
  have body: "contents (snd (case read_body rq of Inl e \<Rightarrow> (Inl e, w) | Inr b \<Rightarrow> (case f b of (a, w) \<Rightarrow> (Inr a, w)))) p = contents w p"
    if "\<And>b. contents (snd (f b)) p = contents w p" for f :: "string \<Rightarrow> (nat \<times> string) \<times> fs"
    using that by (auto split: sum.split prod.split) (metis snd_conv)
  show ?thesis
    unfolding handle_post_def Let_def
    by (split if_split option.split | intro conjI impI allI body | simp add: split_beta ops_outside [OF p])+
qed


definition upload :: "string \<Rightarrow> request" where
  "upload c = \<lparr>rq_method = Post, rq_url = ''/r/world/objects/'' @ blake3 world_ext c, rq_headers = [(''Authorization'', ''Bearer key'')], rq_body = c\<rparr>"


section \<open>Refs and objects over the pipe\<close>

lemma rootless_insert: "p \<noteq> [] \<Longrightarrow> rootless d \<Longrightarrow> rootless (im_insert p n d)"
  unfolding rootless_def by (induction p n d rule: im_insert.induct) auto

lemma rootless_make_dirs: "make_dirs base cs d = Inr d' \<Longrightarrow> rootless d \<Longrightarrow> rootless d'"
proof (induction cs arbitrary: base d)
  case (Cons c cs)
  then obtain d1 where 1: "make_dir (base @ [c]) d = Inr d1" "make_dirs (base @ [c]) cs d1 = Inr d'" by (auto simp: res_simps)
  have "rootless d1"
    using 1(1) Cons.prems(2) rootless_insert [of "base @ [c]" d] by (auto simp: make_dir_def split: option.splits node.splits)
  then show ?case by (rule Cons.IH [OF 1(2)])
qed simp

lemma rootless_write: "fs_write p c d = Inr d' \<Longrightarrow> rootless d \<Longrightarrow> rootless d'"
  by (auto simp: fs_write_iff intro!: rootless_insert)

lemma rootless_put: "fs_put p c d = Inr d' \<Longrightarrow> rootless d \<Longrightarrow> rootless d'"
  unfolding fs_put_def create_dir_all_def by (auto simp: res_simps dest: rootless_make_dirs rootless_write)

lemma rootless_write_branch:
  assumes "write_branch b h d = Inr d'" "rootless d"
  shows "rootless d'"
proof -
  from assms(1) obtain d1 where 1: "fs_put (branch_path b) (h @ [CHR 0x0A]) d = Inr d1"
      "append_reflog (branch_log_path b) (read_branch d b) h ''update'' d1 = Inr d'"
    by (auto simp: write_branch_def Let_def res_simps split: if_splits)
  then obtain d2 where 2: "make_dirs [] (butlast (branch_log_path b)) d1 = Inr d2"
      "fs_append (branch_log_path b) (reflog_line (read_branch d b) h ''update'' @ [CHR 0x0A]) d2 = Inr d'"
    by (auto simp: append_reflog_def create_dir_all_def res_simps)
  then obtain c where 3: "fs_write (branch_log_path b) c d2 = Inr d'"
    by (cases "fs_read d2 (branch_log_path b)") (auto simp: fs_append_def)
  have "rootless d2" by (rule rootless_make_dirs [OF 2(1) rootless_put [OF 1(1) assms(2)]])
  then show ?thesis by (rule rootless_write [OF 3])
qed

text \<open>C31. Setting a ref on the server succeeds exactly when the new commit is stored and, unless forced, the branch is
  still what the client last saw; then the branch reads the new commit and no other branch has changed. Otherwise
  nothing changes. Whether the new commit descends from the old one is not asked.\<close>

theorem op_set_ref_spec:
  assumes opened: "open_at (sv_ext S) w dir = Inr (q, r)" and json: "sv_json S body = Some upd"
    and new: "Option.bind (json_get upd ''new'') as_text = Some new" "word_text new"
    and path: "safe_ref_name b" "way_free (disk r) (branch_path b)" "way_free (disk r) (branch_log_path b)"
  shows "if store_exists r new \<and> (Option.bind (json_get upd ''force'') as_flag = Some True \<or>
      read_branch (disk r) b = Option.bind (json_get upd ''old'') as_text)
    then \<exists>w'. op_set_ref S dir b body w = (Inr (), w') \<and> read_branch (at_dir q w') b = Some new \<and>
      (\<forall>m. ref_cell m \<noteq> ref_cell b \<longrightarrow> read_branch (at_dir q w') m = read_branch (disk r) m)
    else \<exists>e. op_set_ref S dir b body w = (Inl e, w)"
proof -
  let ?ok = "store_exists r new \<and> (Option.bind (json_get upd ''force'') as_flag = Some True \<or>
      read_branch (disk r) b = Option.bind (json_get upd ''old'') as_text)"
  have disk: "disk r = at_dir q w" using opened by (auto simp: open_at_def repo_at_def res_simps)
  have init: "open_or_init (sv_ext S) dir w = Inr ((q, r), w)" using opened by (simp add: open_or_init_def)
  have force: "(case Option.bind (json_get upd ''force'') as_flag of None \<Rightarrow> False | Some f \<Rightarrow> f) \<longleftrightarrow>
      Option.bind (json_get upd ''force'') as_flag = Some True" by (simp split: option.split)
  note run = op_set_ref_def [of S dir b body w, unfolded Let_def] json new(1) init force
  show ?thesis
  proof (cases ?ok)
    case True
    obtain d where d: "write_branch b new (disk r) = Inr d" using write_branch_succeeds [OF path] by blast
    have "at_dir q (put_dir q d w) = d"
      using rootless_write_branch [OF d] at_dir_rootless by (intro at_put_dir) (simp add: disk)
    moreover have "read_branch d b = Some new" "\<And>m. ref_cell m \<noteq> ref_cell b \<Longrightarrow> read_branch d m = read_branch (disk r) m"
      using branch_cells.get_put [OF d new(2)] by auto
    moreover have "op_set_ref S dir b body w = (Inr (), put_dir q d w)" using True d by (auto simp: run)
    ultimately show ?thesis using True by auto
  next
    case False
    then have "\<exists>e. op_set_ref S dir b body w = (Inl e, w)" by (auto simp: run)
    with False show ?thesis by (simp only: if_False)
  qed
qed

text \<open>A call whose answer also fits the frame is the dispatcher's.\<close>

lemma stdio_call_dispatch:
  assumes "sendable (h, b)" "dispatch_msg S dir h b w = ((rh, rb), w')" "sendable (rh, rb)"
  shows "stdio_call S dir h b w = Inr ((rh, rb), w')"
proof -
  have "serve_stdio S dir [] w' = (Inr (), [], w')" by (subst serve_stdio.simps) (simp add: read_msg_def read_exact_def)
  then have "serve_stdio S dir (write_msg h b) w = (Inr (), write_msg rh rb, w')"
    by (subst serve_stdio.simps) (simp add: read_write_msg_end [OF assms(1)] assms(2))
  then show ?thesis by (simp add: stdio_call_def read_write_msg_end [OF assms(3)])
qed

definition reads_back :: "server \<Rightarrow> json \<Rightarrow> bool" where
  "reads_back S j \<longleftrightarrow> sv_json S (sv_text S j) = Some j \<and> length (sv_text S j) \<le> max_msg_body"

lemma read_ids_value: "reads_back S (ids_value ids) \<Longrightarrow> read_ids S (sv_text S (ids_value ids)) = Some ids"
  by (simp add: reads_back_def read_ids_def ids_value_def list_all_iff map_filter_map_filter [symmetric] comp_def List.map_filter_def)

definition advert :: "repo \<Rightarrow> json" where
  "advert r = JObject [(''branches'', ref_object (read_branch (disk r)) (branches (disk r))),
       (''head'', case current_branch (disk r) of None \<Rightarrow> JNull | Some b \<Rightarrow> JString b),
       (''tags'', ref_object (read_tag (disk r)) (tags (disk r)))]"

lemma bm_insert_last: "\<forall>k \<in> fst ` set m. k < n \<Longrightarrow> bm_insert n v m = m @ [(n, v)]"
  by (induction m) auto

lemma ref_object_sorted:
  assumes "sorted_wrt (<) ns"
  shows "ref_object rd ns = JObject (List.map_filter (\<lambda>n. map_option (\<lambda>h. (n, JString h)) (rd n)) ns)"
proof -
  have "fold (\<lambda>n m. case rd n of None \<Rightarrow> m | Some h \<Rightarrow> bm_insert n (JString h) m) ns m =
      m @ List.map_filter (\<lambda>n. map_option (\<lambda>h. (n, JString h)) (rd n)) ns"
    if "sorted_wrt (<) ns" "\<forall>k \<in> fst ` set m. \<forall>n \<in> set ns. k < n" for m
    using that
  proof (induction ns arbitrary: m)
    case (Cons n ns)
    then show ?case
      by (cases "rd n") (auto simp: List.map_filter_simps bm_insert_last)
  qed (simp add: List.map_filter_simps)
  from this [of "[]"] assms show ?thesis by (simp add: ref_object_def)
qed

lemma pairs_of_refs:
  "List.map_filter (\<lambda>(n, v). map_option (\<lambda>h. (pre @ n, h)) (as_text v)) (List.map_filter (\<lambda>n. map_option (\<lambda>h. (n, JString h)) (rd n)) ns)
     = List.map_filter (\<lambda>n. map_option (\<lambda>h. (pre @ n, h)) (rd n)) ns"
proof (induction ns)
  case (Cons n ns)
  then show ?case by (cases "rd n") (simp_all add: List.map_filter_simps)
qed (simp add: List.map_filter_simps)

lemma dir_names_sorted:
  assumes "im_wf d" "read_dir d q = Some ns"
  shows "sorted_wrt (<) (sort ns)"
proof -
  let ?F = "filter (\<lambda>p. p \<noteq> [] \<and> butlast p = q) (map fst d)"
  have "inj_on last (set ?F)"
  proof (rule inj_onI)
    fix x y assume "x \<in> set ?F" "y \<in> set ?F" and l: "last x = last y"
    then have xy: "x \<noteq> []" "butlast x = q" "y \<noteq> []" "butlast y = q" by auto
    have "x = q @ [last x]" by (rule append_butlast_last_id [OF xy(1), unfolded xy(2), symmetric])
    also have "\<dots> = q @ [last y]" unfolding l ..
    also have "\<dots> = y" by (rule append_butlast_last_id [OF xy(3), unfolded xy(4)])
    finally show "x = y" .
  qed
  moreover have "distinct ?F" using assms(1) by (simp add: im_wf_def)
  ultimately have "distinct (map last ?F)" by (simp only: distinct_map)
  then have "distinct ns" using assms(2) by (auto simp: read_dir_def split: if_splits)
  then show ?thesis by (simp add: strict_sorted_iff)
qed

lemma refs_over_json:
  assumes "im_wf (disk r)"
  shows "parse_ref_adv (advert r) = fst (projr (local_refs r))"
proof -
  have s: "sorted_wrt (<) (branches (disk r))" "sorted_wrt (<) (tags (disk r))"
    using dir_names_sorted [OF assms] by (auto simp: branches_def tags_def split: option.splits)
  show ?thesis
    by (simp add: parse_ref_adv_def ref_pairs_def advert_def bm_get_def ref_object_sorted [OF s(1)] ref_object_sorted [OF s(2)]
      pairs_of_refs local_refs_def)
qed

text \<open>C20. Over the pipe a client reads what the transport of the directory reads: the same refs in the same order, the
  same missing ids, and an object exactly when it is there.\<close>

theorem stdio_reads_agree:
  assumes opened: "open_at (sv_ext S) w dir = Inr (q, r)" and wf: "im_wf (disk r)"
    and json: "reads_back S (advert r)" "reads_back S (ids_value ids)" "reads_back S (ids_value (filter (\<lambda>i. \<not> store_exists r i) ids))"
    and i: "ascii i" "length i \<le> 65532" "\<forall>c. store_read (sv_ext S) r i = Inr c \<longrightarrow> length c \<le> max_msg_body"
  shows "tr_refs (stdio_transport S dir) w = Inr (fst (projr (tr_refs (local_transport (sv_ext S)) r)), w) \<and>
    tr_missing (stdio_transport S dir) ids w = Inr (fst (projr (tr_missing (local_transport (sv_ext S)) ids r)), w) \<and>
    (\<forall>c. tr_get (stdio_transport S dir) i w = Inr (c, w) \<longleftrightarrow> tr_get (local_transport (sv_ext S)) i r = Inr (c, r))"
proof (intro conjI allI)
  have ok: "sendable (''ok'', b) \<longleftrightarrow> length b \<le> max_msg_body" for b by (simp add: sendable_def ascii_def)
  have head: "sendable (h, b)" if "h \<in> {''list-refs'', ''missing''}" "length b \<le> max_msg_body" for h b
    using that by (auto simp: sendable_def ascii_def)
  have refs: "dispatch_msg S dir ''list-refs'' [] w = ((''ok'', sv_text S (advert r)), w)"
    by (simp add: dispatch_msg_def op_info_refs_def opened advert_def)
  have "stdio_call S dir ''list-refs'' [] w = Inr ((''ok'', sv_text S (advert r)), w)"
    using json(1) by (intro stdio_call_dispatch [OF head refs]) (simp_all add: ok reads_back_def)
  then show "tr_refs (stdio_transport S dir) w = Inr (fst (projr (tr_refs (local_transport (sv_ext S)) r)), w)"
    using json(1) by (simp add: stdio_transport_def stdio_refs_def stdio_ok_def reads_back_def refs_over_json [OF wf])
  let ?lacks = "filter (\<lambda>i. \<not> store_exists r i) ids"
  have miss: "dispatch_msg S dir ''missing'' (sv_text S (ids_value ids)) w = ((''ok'', sv_text S (ids_value ?lacks)), w)"
    by (simp add: dispatch_msg_def op_have_def opened read_ids_value [OF json(2)])
  have "stdio_call S dir ''missing'' (sv_text S (ids_value ids)) w = Inr ((''ok'', sv_text S (ids_value ?lacks)), w)"
    using json(2,3) by (intro stdio_call_dispatch [OF head miss]) (simp_all add: ok reads_back_def)
  then show "tr_missing (stdio_transport S dir) ids w = Inr (fst (projr (tr_missing (local_transport (sv_ext S)) ids r)), w)"
    by (simp add: stdio_transport_def stdio_missing_def stdio_ok_def read_ids_value [OF json(3)] local_missing_def)
  fix c
  have get: "sendable (''get '' @ i, [])" using i(1,2) by (auto simp: sendable_def ascii_def)
  have verb: "split_once (CHR '' '') (''get '' @ i) = Some (''get'', i)"
    using split_once_append [of "CHR '' ''" "''get''" i] by simp
  note def = stdio_transport_def stdio_get_def local_get_def
  show "tr_get (stdio_transport S dir) i w = Inr (c, w) \<longleftrightarrow> tr_get (local_transport (sv_ext S)) i r = Inr (c, r)"
  proof (cases "store_read (sv_ext S) r i")
    case (Inl e)
    then have "dispatch_msg S dir (''get '' @ i) [] w = ((''none'', []), w)"
      using verb by (simp add: dispatch_msg_def op_get_def opened)
    then have "stdio_call S dir (''get '' @ i) [] w = Inr ((''none'', []), w)"
      by (rule stdio_call_dispatch [OF get]) (simp add: sendable_def ascii_def)
    then show ?thesis using Inl by (simp add: def)
  next
    case (Inr c')
    then have "dispatch_msg S dir (''get '' @ i) [] w = ((''ok'', c'), w)"
      using verb by (simp add: dispatch_msg_def op_get_def opened)
    then have "stdio_call S dir (''get '' @ i) [] w = Inr ((''ok'', c'), w)"
      by (rule stdio_call_dispatch [OF get]) (use i(3) Inr in \<open>simp add: ok\<close>)
    then show ?thesis using Inr by (simp add: def)
  qed
qed

lemma world_at_root: "open_at world_ext (disk world_repo) [] = Inr ([], world_repo)"
proof -
  have "repo_open (disk world_repo) [] = Inr []" "at_dir [] (disk world_repo) = disk world_repo" by code_simp+
  moreover have "load_packs world_ext (disk world_repo) = packs world_repo" using world_opened by (simp add: opened_def)
  ultimately show ?thesis by (simp add: open_at_def repo_at_def)
qed

text \<open>The branch of the example moves to an ancestor of its commit, unforced.\<close>

definition back_step :: json where
  "back_step = JObject [(''force'', JBool False), (''new'', JString (oid (CHR ''a''))), (''old'', JString (oid (CHR ''c'')))]"

theorem op_set_ref_spec_witness:
  "\<exists>w'. op_set_ref (plain_server\<lparr>sv_json := (\<lambda>_. Some back_step)\<rparr>) [] ''main'' [] (disk world_repo) = (Inr (), w') \<and>
     read_branch (at_dir [] w') ''main'' = Some (oid (CHR ''a''))"
proof -
  let ?S = "plain_server\<lparr>sv_json := (\<lambda>_. Some back_step)\<rparr>"
  have json: "Option.bind (json_get back_step ''new'') as_text = Some (oid (CHR ''a''))"
    "Option.bind (json_get back_step ''force'') as_flag = Some False"
    "Option.bind (json_get back_step ''old'') as_text = Some (oid (CHR ''c''))" by code_simp+
  have "read_branch (disk world_repo) ''main'' = Some (oid (CHR ''c''))" "store_exists world_repo (oid (CHR ''a''))"
    "word_text (oid (CHR ''a''))" "safe_ref_name ''main''" "way_free (disk world_repo) (branch_path ''main'')"
    "way_free (disk world_repo) (branch_log_path ''main'')" by code_simp+
  then show ?thesis
    using op_set_ref_spec [of ?S "disk world_repo" "[]" "[]" world_repo "[]" back_step "oid (CHR ''a'')" "''main''"] world_at_root json
    by (auto simp: plain_server_def)
qed

definition pipe_server :: server where
  "pipe_server = plain_server\<lparr>sv_text := (\<lambda>j. if j = advert world_repo then ''R'' else if j = ids_value [] then ''N'' else ''I''),
     sv_json := (\<lambda>s. Some (if s = ''R'' then advert world_repo else if s = ''N'' then ids_value [] else ids_value [oid (CHR ''a'')]))\<rparr>"

theorem stdio_reads_agree_witness:
  "tr_missing (stdio_transport pipe_server []) [oid (CHR ''a'')] (disk world_repo) = Inr ([], disk world_repo) \<and>
   tr_get (stdio_transport pipe_server []) (oid (CHR ''d'')) (disk world_repo) = Inr (''D'', disk world_repo)"
proof -
  have lacks: "filter (\<lambda>i. \<not> store_exists world_repo i) [oid (CHR ''a'')] = []" by code_simp
  have "advert world_repo \<noteq> ids_value []" "advert world_repo \<noteq> ids_value [oid (CHR ''a'')]" by (simp_all add: advert_def ids_value_def)
  then have json: "reads_back pipe_server (advert world_repo)" "reads_back pipe_server (ids_value [oid (CHR ''a'')])"
    "reads_back pipe_server (ids_value [])"
    by (auto simp: reads_back_def pipe_server_def ids_value_def max_msg_body_def)
  have get: "store_read world_ext world_repo (oid (CHR ''d'')) = Inr ''D''" by code_simp
  have i: "ascii (oid (CHR ''d''))" "length (oid (CHR ''d'')) \<le> 65532" by (simp_all add: ascii_def oid_def)
  have ext: "sv_ext pipe_server = world_ext" by (simp add: pipe_server_def plain_server_def)
  have wf: "im_wf (disk world_repo)" by code_simp
  have "tr_missing (stdio_transport pipe_server []) [oid (CHR ''a'')] (disk world_repo) =
      Inr (fst (projr (tr_missing (local_transport world_ext) [oid (CHR ''a'')] world_repo)), disk world_repo) \<and>
    (\<forall>c. tr_get (stdio_transport pipe_server []) (oid (CHR ''d'')) (disk world_repo) = Inr (c, disk world_repo) \<longleftrightarrow>
      tr_get (local_transport world_ext) (oid (CHR ''d'')) world_repo = Inr (c, world_repo))"
    using stdio_reads_agree [of pipe_server "disk world_repo" "[]" "[]" world_repo "[oid (CHR ''a'')]" "oid (CHR ''d'')"]
      world_at_root wf json get i lacks by (simp add: ext max_msg_body_def)
  then show ?thesis using get lacks by (simp add: local_missing_def local_get_def)
qed

text \<open>C33. An object of the server that is larger than the read cap of the http package cannot be fetched over http; a
  fetch takes commits and manifests that way, one request each.\<close>

theorem http_object_cap:
  assumes url: "trim_slashes (takeWhile (\<lambda>c. c \<noteq> CHR ''?'') (ht_target H (ht_base H @ ''/objects/'' @ i))) = ''r/'' @ name @ ''/objects/'' @ i"
    and names: "valid_name name" "CHR ''/'' \<notin> set i"
    and opened: "open_at (sv_ext (ht_server H)) w [name] = Inr (q, r)"
    and big: "store_read (sv_ext (ht_server H)) r i = Inr c" "ht_cap H < length c"
  shows "tr_get (local_transport (sv_ext (ht_server H))) i r = Inr (c, r) \<and> (\<exists>e. tr_get (http_transport H) i w = Inl e)"
proof -
  define P where "P = ''r/'' @ name @ ''/objects/'' @ i"
  define A where "A = ''objects/'' @ i"
  define rq where "rq = \<lparr>rq_method = Get, rq_url = ht_target H (ht_base H @ ''/objects/'' @ i), rq_headers = bearer H, rq_body = []\<rparr>"
  have "CHR ''/'' \<notin> set name" using names(1) by (auto simp: valid_name_def list_all_iff name_char_def)
  then have parts: "split_on (CHR ''/'') P = [''r'', name, ''objects'', i]"
    using split_on_append [of "CHR ''/''" "''r''" "name @ ''/objects/'' @ i"] split_on_append [of "CHR ''/''" name "''objects/'' @ i"]
      split_on_append [of "CHR ''/''" "''objects''" i] split_on_none [OF names(2)] by (simp add: P_def)
  have other: "P \<noteq> ''health''" "join ''/'' [''objects'', i] = A" "A \<noteq> ''info/refs''" "strip_prefix ''objects/'' A = Some i"
    by (simp_all add: P_def A_def strip_prefix_def)
  have rq: "rq_method rq = Get" "trim_slashes (takeWhile (\<lambda>c. c \<noteq> CHR ''?'') (rq_url rq)) = P"
    using url by (simp_all add: rq_def P_def)
  have "handle (ht_server H) (ht_server_token H) rq w = (Inr (200, c), w)"
    using names(1) by (simp add: handle_def Let_def rq parts other other [unfolded A_def, simplified] handle_get_def op_get_def opened big(1))
  then have "\<exists>e. tr_get (http_transport H) i w = Inl e"
    using big(2) by (simp add: http_transport_def http_get_def http_read_def http_call_def rq_def)
  then show ?thesis by (simp add: local_get_def big(1))
qed

text \<open>A cap of no bytes stands for the one of 10 MiB: the object \<open>D\<close> of the example is larger.\<close>

definition capped_client :: http_client where
  "capped_client = \<lparr>ht_server = plain_server, ht_server_token = None, ht_token = None, ht_base = ''http://host/r/world'',
     ht_target = drop (length ''http://host''), ht_cap = 0\<rparr>"

theorem http_object_cap_witness:
  "\<exists>e. tr_get (http_transport capped_client) (oid (CHR ''d'')) (put_dir [''world''] (disk world_repo) [([''world''], Dir)]) = Inl e"
proof -
  let ?w = "put_dir [''world''] (disk world_repo) [([''world''], Dir)]"
  have "trim_slashes (takeWhile (\<lambda>c. c \<noteq> CHR ''?'') (ht_target capped_client (ht_base capped_client @ ''/objects/'' @ oid (CHR ''d'')))) =
      ''r/'' @ ''world'' @ ''/objects/'' @ oid (CHR ''d'')" "valid_name ''world''" "CHR ''/'' \<notin> set (oid (CHR ''d''))" by code_simp+
  moreover have "repo_open ?w [''world''] = Inr [''world'']" "at_dir [''world''] ?w = disk world_repo" by code_simp+
  then have "open_at (sv_ext (ht_server capped_client)) ?w [''world''] = Inr ([''world''], world_repo)"
    using world_opened by (simp add: open_at_def repo_at_def capped_client_def plain_server_def opened_def)
  moreover have "store_read (sv_ext (ht_server capped_client)) world_repo (oid (CHR ''d'')) = Inr ''D''" by code_simp
  moreover have "ht_cap capped_client < length ''D''" by (simp add: capped_client_def)
  ultimately show ?thesis using http_object_cap [of capped_client "oid (CHR ''d'')" "''world''" ?w "[''world'']" world_repo "''D''"] by blast
qed

end
